(* ===== verification/Prelude.thy ===== *)
theory Prelude
  imports
    Main
    "HOL-Library.Word"
    "HOL-Library.FSet"
    "HOL-Library.Finite_Map"
    "HOL-Library.List_Lexorder"
    "HOL-Library.Multiset"
begin

text \<open>
  Shared vocabulary of the development: the Go types the repository uses (bytes, byte strings,
  \<open>uint64\<close>, maps), the sentinel errors of the modelled packages, the enumeration of a map by
  \<open>for ... range\<close>, and the occurrence of a byte string at a position of a buffer. The named
  collection \<open>eval\<close> holds the rules that evaluate finite maps and sets on closed terms.
\<close>

unbundle bit_operations_syntax

named_theorems eval \<open>evaluation of finite maps, finite sets and byte strings on closed terms\<close>

section \<open>Go types\<close>

text \<open>
  A Go string is a byte sequence ordered bytewise, which is the lexicographic order of
  \<open>HOL-Library.List_Lexorder\<close> on \<open>8 word list\<close>. A Go map is a finite map, a Go
  \<open>map[K]struct{}\<close> a finite set. A Go \<open>int\<close> is 64 bits wide and is modelled by
  \<^typ>\<open>int\<close> or, where it is a length or a position, by \<^typ>\<open>nat\<close>: no modelled
  expression on it leaves the 64-bit range, since lengths of slices are below \<open>2 ^ 63\<close>.
\<close>

type_synonym byte = "8 word"
type_synonym u32 = "32 word"
type_synonym u64 = "64 word"
type_synonym gostring = "byte list"

abbreviation max_u64 :: u64 where
  "max_u64 \<equiv> - 1"

abbreviation max_int :: int where
  "max_int \<equiv> 2 ^ 63 - 1"

lemma unat_u64_less: "unat (w :: u64) < 2 ^ 64"
  using unsigned_less[of w, where ?'a = nat] by simp

lemma unat_max_u64: "unat max_u64 = 2 ^ 64 - 1"
  by (simp add: unsigned_minus_1_eq_mask mask_eq_exp_minus_1)

lemma u64_room: "max_u64 - t < v \<longleftrightarrow> 2 ^ 64 \<le> unat t + unat (v :: u64)"
proof -
  have "unat (max_u64 - t) = 2 ^ 64 - 1 - unat t"
    using unat_sub[of t max_u64] by (simp only: unat_max_u64 word_order.extremum)
  then show ?thesis using unat_u64_less[of t] by (auto simp: word_less_nat_alt)
qed

lemma u64_add: "\<not> max_u64 - t < v \<Longrightarrow> unat (t + v) = unat t + unat (v :: u64)"
  unfolding u64_room by (subst unat_plus_if') simp

section \<open>Errors\<close>

text \<open>
  A Go error is a sentinel made by \<open>errors.New\<close> (named here by its text), a wrapper made by
  \<open>fmt.Errorf\<close> with \<open>%w\<close> verbs (its text and the errors it wraps, in order), or the
  structured \<open>*crdt.Error\<close> of \<open>src/error.go\<close> with its code, operation and cause. An
  operation that can fail returns a value of \<open>'a res\<close>, with \<open>Inl\<close> for the error.
\<close>

datatype go_error =
    errors_New string
  | fmt_Errorf string "go_error list"
  | crdt_Error (err_Code: string) (err_Operation: string) (err_Cause: "go_error option")

type_synonym 'a res = "go_error + 'a"

text \<open>Matching on a reader's result: \<open>P\<close> says which values it returns.\<close>

lemma case_option_Inr:
  assumes "\<And>x. opt = Some x \<longleftrightarrow> P x"
  shows "(case opt of None \<Rightarrow> Inl e | Some x \<Rightarrow> F x) = Inr r \<longleftrightarrow> (\<exists>x. P x \<and> F x = Inr r)"
  unfolding assms[symmetric] by (cases opt) auto

lemma case_sum_Inr:
  assumes "\<And>x. s = Inr x \<longleftrightarrow> P x"
  shows "(case s of Inl e \<Rightarrow> Inl (h e) | Inr x \<Rightarrow> F x) = Inr r \<longleftrightarrow> (\<exists>x. P x \<and> F x = Inr r)"
  unfolding assms[symmetric] by (cases s) auto

lemma case_sum_pair:
  "(case x of Inl e \<Rightarrow> Inl e | Inr (a, b) \<Rightarrow> F a b) = Inr r \<longleftrightarrow> (\<exists>a b. x = Inr (a, b) \<and> F a b = Inr r)"
  by (auto split: sum.splits)

lemma if_Inl_Inr: "(if c then Inl e else X) = Inr r \<longleftrightarrow> \<not> c \<and> X = Inr r"
  by simp

text \<open>The last check of a decoder: the whole buffer was read.\<close>

lemma case_read_all:
  "(case r of Inl e \<Rightarrow> Inl e | Inr (x, pos) \<Rightarrow> if pos \<noteq> n then Inl e' else Inr x) = Inr y \<longleftrightarrow> r = Inr (y, n)"
  by (cases r) (auto split: if_splits)

section \<open>Maps and their enumeration\<close>

text \<open>
  Go leaves the order of \<open>for k, v := range m\<close> open. The model enumerates a map by ascending
  key; \<open>fold_enumeration\<close> below shows that a loop whose body touches only the entry of its own
  key gives the same result for every enumeration.
\<close>

definition fm_keys :: "('k::linorder, 'v) fmap \<Rightarrow> 'k list" where
  "fm_keys m = sorted_list_of_fset (fmdom m)"

definition fm_items :: "('k::linorder, 'v) fmap \<Rightarrow> ('k \<times> 'v) list" where
  "fm_items m = map (\<lambda>k. (k, the (fmlookup m k))) (fm_keys m)"

definition fm_size :: "('k, 'v) fmap \<Rightarrow> nat" where
  "fm_size m = fcard (fmdom m)"

text \<open>Reading a missing key of a \<open>map[K]uint64\<close> gives zero.\<close>

definition count_at :: "('k, u64) fmap \<Rightarrow> 'k \<Rightarrow> u64" where
  "count_at m k = (case fmlookup m k of None \<Rightarrow> 0 | Some v \<Rightarrow> v)"

lemma sorted_list_of_fset_empty [eval, simp]: "sorted_list_of_fset {||} = []"
  by (simp add: sorted_list_of_fset.rep_eq)

lemma sorted_list_of_fset_finsert [eval]:
  "sorted_list_of_fset (finsert x S) =
     (if x |\<in>| S then sorted_list_of_fset S else insort x (sorted_list_of_fset S))"
proof (cases "x |\<in>| S")
  case True
  then show ?thesis by (simp add: finsert_absorb)
next
  case False
  then show ?thesis by (simp add: sorted_list_of_fset.rep_eq)
qed

lemma set_sorted_list_of_fset [simp]: "set (sorted_list_of_fset S) = fset S"
  by (simp add: sorted_list_of_fset.rep_eq)

lemma distinct_sorted_list_of_fset [simp]: "distinct (sorted_list_of_fset S)"
  by (simp add: sorted_list_of_fset.rep_eq)

lemma sorted_sorted_list_of_fset [simp]: "sorted (sorted_list_of_fset S)"
  by (simp add: sorted_list_of_fset.rep_eq)

lemma strict_sorted_list_of_fset [simp]: "sorted_wrt (<) (sorted_list_of_fset S)"
  by (simp add: strict_sorted_iff)

lemma length_sorted_list_of_fset [simp]: "length (sorted_list_of_fset S) = fcard S"
  by (metis distinct_card distinct_sorted_list_of_fset fcard.rep_eq set_sorted_list_of_fset)

lemma sorted_list_of_fset_unique:
  "sorted_wrt (<) xs \<Longrightarrow> sorted_list_of_fset (fset_of_list xs) = xs"
  by (simp add: sorted_list_of_fset.rep_eq fset_of_list.rep_eq strict_sorted_iff
      sorted_list_of_set.idem_if_sorted_distinct)

section \<open>Sorted enumerations\<close>

lemma sorted_distinct_adj: "sorted xs \<Longrightarrow> distinct_adj xs \<longleftrightarrow> distinct xs"
proof (induction xs rule: induct_list012)
  case (3 x y zs)
  then show ?case by (auto simp: order_le_less dest: less_not_sym)
qed simp_all

lemma sort_map: "sort (map f xs) = map f (sort_key f xs)"
  by (rule properties_for_sort) simp_all

lemma map_sort_key: "(\<And>x. f' (g x) = f x) \<Longrightarrow> map g (sort_key f xs) = sort_key f' (map g xs)"
proof (induction xs)
  case (Cons x xs)
  have "map g (insort_key f x ys) = insort_key f' (g x) (map g ys)" for ys
    using Cons.prems by (induction ys) auto
  with Cons show ?case by simp
qed simp

lemma fold_finsert_list: "fold finsert xs b = fset_of_list xs |\<union>| b"
  by (induction xs arbitrary: b) auto

lemma fset_of_sorted_list [simp]: "fset_of_list (sorted_list_of_fset a) = a"
  by (auto simp: fset_eq_iff fset_of_list_elem)

lemma fold_finsert_sorted [simp]: "fold finsert (sorted_list_of_fset a) b = a |\<union>| b"
  by (simp add: fold_finsert_list)

text \<open>A set enumerated by ascending key, as an encoder sorts elements by their bytes.\<close>

definition fs_sorted_by :: "('a \<Rightarrow> 'k::linorder) \<Rightarrow> 'a::linorder fset \<Rightarrow> 'a list" where
  "fs_sorted_by key S = sort_key key (sorted_list_of_fset S)"

lemma fs_sorted_by_simps [simp]:
  "set (fs_sorted_by key S) = fset S" "length (fs_sorted_by key S) = fcard S" "distinct (fs_sorted_by key S)"
  "fset_of_list (fs_sorted_by key S) = S"
  by (simp_all add: fs_sorted_by_def fset_eq_iff fset_of_list_elem)

lemma fs_sorted_by_strict: "inj_on key (fset S) \<Longrightarrow> sorted_wrt (<) (map key (fs_sorted_by key S))"
  by (simp add: strict_sorted_iff distinct_map) (simp add: fs_sorted_by_def)

lemma fs_sorted_by_unique:
  assumes "sorted_wrt (<) (map key xs)"
  shows "fs_sorted_by key (fset_of_list xs) = xs"
proof -
  have d: "distinct (map key xs)" and s: "sorted (map key xs)" using assms by (simp_all add: strict_sorted_iff)
  then have "mset (sorted_list_of_fset (fset_of_list xs)) = mset xs"
    by (intro set_eq_iff_mset_eq_distinct[THEN iffD1]) (auto simp: distinct_map fset_of_list.rep_eq)
  moreover have "inj_on key (set (sorted_list_of_fset (fset_of_list xs)))" using d by (simp add: distinct_map fset_of_list.rep_eq)
  ultimately show ?thesis
    unfolding fs_sorted_by_def using s by (rule sort_key_inj_key_eq)
qed

lemma fs_sorted_by_Nil [simp]: "fs_sorted_by key S = [] \<longleftrightarrow> S = {||}"
  by (metis fcard_0_eq fs_sorted_by_simps(2) length_0_conv)

lemma fs_sorted_by_id [simp]: "fs_sorted_by (\<lambda>x. x) S = sorted_list_of_fset S"
  by (simp add: fs_sorted_by_def sorted_sort_id)

text \<open>What a decoder that insists on ascending keys reads is the enumeration of a set.\<close>

lemma ex_sorted_by:
  assumes "(\<forall>x. x |\<in>| S \<longrightarrow> ok x) \<Longrightarrow> inj_on key (fset S)"
  shows "(\<exists>xs. S = fset_of_list xs \<and> (\<forall>x \<in> set xs. ok x) \<and> sorted_wrt (<) (map key xs) \<and> P xs) \<longleftrightarrow>
    (\<forall>x. x |\<in>| S \<longrightarrow> ok x) \<and> P (fs_sorted_by key S)" (is "?l \<longleftrightarrow> ?r")
proof
  assume ?l
  then obtain xs where "S = fset_of_list xs" "\<forall>x \<in> set xs. ok x" "sorted_wrt (<) (map key xs)" "P xs" by blast
  then show ?r using fs_sorted_by_unique[of key xs] by (simp add: fset_of_list.rep_eq)
next
  assume ?r
  then show ?l using fs_sorted_by_strict[of key S] assms by (intro exI[of _ "fs_sorted_by key S"]) simp
qed

lemma fm_keys_simps [simp]:
  "set (fm_keys m) = fset (fmdom m)" "distinct (fm_keys m)" "sorted_wrt (<) (fm_keys m)"
  "length (fm_keys m) = fm_size m"
  by (simp_all add: fm_keys_def fm_size_def)

lemma map_fst_fm_items [simp]: "map fst (fm_items m) = fm_keys m"
  by (simp add: fm_items_def comp_def)

lemma fst_image_fm_items [simp]: "fst ` set (fm_items m) = fset (fmdom m)"
  by (metis fm_keys_simps(1) map_fst_fm_items set_map)

lemma length_fm_items [simp]: "length (fm_items m) = fm_size m"
  by (simp add: fm_items_def)

lemma set_fm_items: "set (fm_items m) = {(k, v). fmlookup m k = Some v}"
  by (auto simp: fm_items_def fmlookup_dom_iff)

lemma distinct_fst_items: "distinct (map fst (fm_items m))"
  unfolding map_fst_fm_items by simp

lemma fm_items_mem [simp]: "(k, v) \<in> set (fm_items m) \<longleftrightarrow> fmlookup m k = Some v"
  by (simp add: set_fm_items)

lemma map_of_fm_items [simp]: "map_of (fm_items m) = fmlookup m"
proof
  fix k
  show "map_of (fm_items m) k = fmlookup m k"
  proof (cases "fmlookup m k")
    case None
    then show ?thesis by (simp add: map_of_eq_None_iff fmlookup_dom_iff)
  next
    case (Some v)
    have "distinct (map fst (fm_items m))" unfolding map_fst_fm_items by simp
    with Some show ?thesis by (simp add: map_of_eq_Some_iff)
  qed
qed

lemma fmap_of_list_fm_items [simp]: "fmap_of_list (fm_items m) = m"
  by (rule fmap_ext) (simp add: fmlookup_of_list)

lemma fm_items_fmap_of_list:
  assumes "sorted_wrt (<) (map fst xs)"
  shows "fm_items (fmap_of_list xs) = xs"
proof -
  have keys: "fm_keys (fmap_of_list xs) = map fst xs"
    unfolding fm_keys_def fmdom_fmap_of_list using assms by (rule sorted_list_of_fset_unique)
  have "distinct (map fst xs)" using assms by (simp add: strict_sorted_iff)
  then have "map ((\<lambda>k. (k, the (map_of xs k))) \<circ> fst) xs = xs"
    by (intro map_idI) (auto dest: map_of_is_SomeI)
  with keys show ?thesis by (simp add: fm_items_def fmlookup_of_list)
qed

lemma fm_size_fmap_of_list:
  "distinct (map fst xs) \<Longrightarrow> fm_size (fmap_of_list xs) = length xs"
  by (metis distinct_card fcard.rep_eq fm_size_def fmdom_fmap_of_list fset_of_list.rep_eq length_map)

lemma fm_size_fmempty [eval, simp]: "fm_size fmempty = 0"
  by (simp add: fm_size_def)

lemma fm_size_fmupd [eval]:
  "fm_size (fmupd k v m) = (if k |\<in>| fmdom m then fm_size m else Suc (fm_size m))"
  by (simp add: fm_size_def fcard_finsert_if)

lemma fm_size_eq_0 [simp]: "fm_size m = 0 \<longleftrightarrow> m = fmempty"
  by (metis fm_size_def fcard_0_eq fmdom_empty fmap_exhaust finsert_not_fempty fmdom_fmupd)

lemma count_at_simps [eval, simp]:
  "count_at fmempty k = 0"
  "count_at (fmupd a v m) k = (if a = k then v else count_at m k)"
  by (simp_all add: count_at_def)

text \<open>
  A loop over the entries whose body changes only the entry of its own key: the result is the
  pointwise combination, whatever the order of the enumeration.
\<close>

definition touches_own_key :: "('k \<Rightarrow> 'v \<Rightarrow> ('k, 'w) fmap \<Rightarrow> ('k, 'w) fmap) \<Rightarrow>
    ('k \<Rightarrow> 'v \<Rightarrow> 'w option \<Rightarrow> 'w option) \<Rightarrow> bool" where
  "touches_own_key step f \<longleftrightarrow> (\<forall>k v m x.
     fmlookup (step k v m) x = (if x = k then f k v (fmlookup m k) else fmlookup m x))"

lemma fold_enumeration_lookup:
  assumes "touches_own_key step f" and "distinct (map fst xs)"
  shows "fmlookup (fold (\<lambda>(k, v). step k v) xs m) x =
    (case map_of xs x of None \<Rightarrow> fmlookup m x | Some v \<Rightarrow> f x v (fmlookup m x))"
  using assms(2)
proof (induction xs arbitrary: m)
  case Nil
  then show ?case by simp
next
  case (Cons p xs)
  obtain k v where p: "p = (k, v)" by (cases p)
  have step: "fmlookup (step k v m) y = (if y = k then f k v (fmlookup m k) else fmlookup m y)" for y
    using assms(1) by (simp add: touches_own_key_def)
  have "x = k \<Longrightarrow> map_of xs x = None"
    using Cons.prems p by (simp add: map_of_eq_None_iff)
  with Cons p step show ?case by (auto split: option.splits)
qed

lemma fold_enumeration:
  assumes "touches_own_key step f" and "distinct (map fst xs)" and "set xs = set (fm_items s)"
  shows "fold (\<lambda>(k, v). step k v) xs m = fold (\<lambda>(k, v). step k v) (fm_items s) m"
proof (rule fmap_ext)
  fix x
  have "map_of xs = map_of (fm_items s)"
    using assms(2,3) by (intro map_of_inject_set[THEN iffD2]) simp_all
  then show "fmlookup (fold (\<lambda>(k, v). step k v) xs m) x =
    fmlookup (fold (\<lambda>(k, v). step k v) (fm_items s) m) x"
    using fold_enumeration_lookup[OF assms(1,2)] fold_enumeration_lookup[OF assms(1), of "fm_items s"]
    by simp
qed

text \<open>A map enumerated by a key of its keys, and what a decoder that insists on ascending keys reads.\<close>

definition fm_items_by :: "('k \<Rightarrow> 'b::linorder) \<Rightarrow> ('k::linorder, 'v) fmap \<Rightarrow> ('k \<times> 'v) list" where
  "fm_items_by key m = map (\<lambda>k. (k, the (fmlookup m k))) (fs_sorted_by key (fmdom m))"

lemma fm_items_by_simps [simp]:
  "set (fm_items_by key m) = {(k, v). fmlookup m k = Some v}" "length (fm_items_by key m) = fm_size m"
  "map fst (fm_items_by key m) = fs_sorted_by key (fmdom m)" "distinct (map fst (fm_items_by key m))"
  by (auto simp: fm_items_by_def fm_size_def comp_def fmlookup_dom_iff)

lemma fmap_of_fm_items_by [simp]: "fmap_of_list (fm_items_by key m) = m"
proof (rule fmap_ext)
  fix k
  show "fmlookup (fmap_of_list (fm_items_by key m)) k = fmlookup m k"
    using map_of_eq_Some_iff[OF fm_items_by_simps(4), of key m k]
    by (cases "fmlookup m k") (auto simp: fmlookup_of_list map_of_eq_None_iff fmlookup_dom_iff)
qed

lemma fm_items_by_unique:
  assumes "sorted_wrt (<) (map (\<lambda>x. key (fst x)) xs)"
  shows "fm_items_by key (fmap_of_list xs) = xs"
proof -
  have s: "sorted_wrt (<) (map key (map fst xs))" using assms by (simp add: comp_def)
  then have d: "distinct (map fst xs)" by (metis distinct_map strict_sorted_iff)
  have "map ((\<lambda>k. (k, the (map_of xs k))) \<circ> fst) xs = xs"
    using d by (intro map_idI) (auto dest: map_of_is_SomeI)
  then show ?thesis
    using fs_sorted_by_unique[OF s] by (simp add: fm_items_by_def fmlookup_of_list)
qed

lemma ex_sorted_items:
  assumes "(\<forall>k v. fmlookup m k = Some v \<longrightarrow> ok (k, v)) \<Longrightarrow> inj_on key (fset (fmdom m))"
  shows "(\<exists>xs. m = fmap_of_list xs \<and> (\<forall>x \<in> set xs. ok x) \<and> sorted_wrt (<) (map (\<lambda>x. key (fst x)) xs) \<and> P xs) \<longleftrightarrow>
    (\<forall>k v. fmlookup m k = Some v \<longrightarrow> ok (k, v)) \<and> P (fm_items_by key m)" (is "?l \<longleftrightarrow> ?r")
proof
  assume ?l
  then obtain xs where xs: "m = fmap_of_list xs" "\<forall>x \<in> set xs. ok x" "sorted_wrt (<) (map (\<lambda>x. key (fst x)) xs)" "P xs" by blast
  then have "fm_items_by key m = xs" using fm_items_by_unique by blast
  with xs(2,4) fm_items_by_simps(1)[of key m] show ?r by auto
next
  assume r: ?r
  have "map (\<lambda>x. key (fst x)) (fm_items_by key m) = map key (fs_sorted_by key (fmdom m))"
    by (simp add: fm_items_by_def comp_def)
  then have "sorted_wrt (<) (map (\<lambda>x. key (fst x)) (fm_items_by key m))"
    using r assms fs_sorted_by_strict[of key "fmdom m"] by simp
  with r show ?l by (intro exI[of _ "fm_items_by key m"]) auto
qed

lemma fold_fmupd:
  "distinct (map fst xs) \<Longrightarrow> fmlookup (fold (\<lambda>(k, v). fmupd k v) xs m) x =
     (case map_of xs x of None \<Rightarrow> fmlookup m x | Some v \<Rightarrow> Some v)"
  by (rule fold_enumeration_lookup[where f = "\<lambda>_ v _. Some v"]) (simp_all add: touches_own_key_def)

lemma fold_fmupd_of_list:
  "distinct (map fst xs) \<Longrightarrow> fold (\<lambda>(k, v). fmupd k v) xs fmempty = fmap_of_list xs"
  by (rule fmap_ext) (simp add: fold_fmupd fmlookup_of_list split: option.splits)

section \<open>Bytes at a position\<close>

text \<open>
  \<^term>\<open>at_pos data p bs\<close>: the buffer \<open>data\<close> holds the bytes \<open>bs\<close> from position \<open>p\<close> on.
  Decoders are characterised by it: they return a value exactly when its encoding is there.
\<close>

definition at_pos :: "byte list \<Rightarrow> nat \<Rightarrow> byte list \<Rightarrow> bool" where
  "at_pos data p bs \<longleftrightarrow> p + length bs \<le> length data \<and> take (length bs) (drop p data) = bs"

lemma at_pos_Nil [simp]: "at_pos data p [] \<longleftrightarrow> p \<le> length data"
  by (simp add: at_pos_def)

lemma at_pos_append:
  "at_pos data p (xs @ ys) \<longleftrightarrow> at_pos data p xs \<and> at_pos data (p + length xs) ys"
proof
  assume l: "at_pos data p (xs @ ys)"
  then have len: "p + length xs + length ys \<le> length data"
    and t: "take (length xs + length ys) (drop p data) = xs @ ys"
    by (simp_all add: at_pos_def add.assoc)
  have "take (length xs) (drop p data) = take (length xs) (take (length xs + length ys) (drop p data))"
    by simp
  also have "\<dots> = xs" by (simp add: t)
  finally have a: "take (length xs) (drop p data) = xs" .
  have "take (length ys) (drop (p + length xs) data)
      = drop (length xs) (take (length xs + length ys) (drop p data))"
    by (simp add: drop_take add.commute)
  also have "\<dots> = ys" by (simp add: t)
  finally show "at_pos data p xs \<and> at_pos data (p + length xs) ys"
    using a len by (simp add: at_pos_def)
next
  assume "at_pos data p xs \<and> at_pos data (p + length xs) ys"
  then show "at_pos data p (xs @ ys)"
    by (auto simp: at_pos_def take_add add.assoc drop_drop add.commute)
qed

lemma at_pos_le: "at_pos data p bs \<Longrightarrow> p + length bs \<le> length data"
  by (simp add: at_pos_def)

lemma at_pos_middle [simp]: "at_pos (pre @ bs @ post) (length pre) bs"
  by (simp add: at_pos_def)

lemma at_pos_whole: "at_pos data p bs \<and> p + length bs = length data \<longleftrightarrow> p \<le> length data \<and> drop p data = bs"
  by (auto simp: at_pos_def)

lemma at_pos_0_whole: "at_pos data 0 bs \<and> length bs = length data \<longleftrightarrow> data = bs"
  using at_pos_whole[of data 0 bs] by auto

end
