(* ===== verification/GoStd.thy ===== *)
theory GoStd
  imports Prelude
begin

text \<open>
  The parts of the Go standard library the repository builds its wire format on:
  \<open>strings.TrimSpace\<close> (as the test for a blank string), the base-128 varints of
  \<open>encoding/binary\<close>, \<open>binary.BigEndian\<close> on \<open>uint32\<close>, and \<open>hash/crc32\<close> with
  the Castagnoli table. The lemmas show that the varint decoder returns a value exactly when the
  bytes at the position are an encoding of it, and that the shortest encoding is unique.
\<close>

section \<open>strings.TrimSpace\<close>

text \<open>
  \<open>strings.TrimSpace(s) == ""\<close> holds exactly when \<open>s\<close> is a sequence of UTF-8 encoded
  Unicode white space: the ASCII characters 9 to 13 and 32, U+0085, U+00A0, U+1680, U+2000 to
  U+200A, U+2028, U+2029, U+202F, U+205F and U+3000. \<open>space_width s\<close> is the number of bytes of a
  white-space rune at the front of \<open>s\<close>, or 0.
\<close>

definition ascii_space :: "byte \<Rightarrow> bool" where
  "ascii_space b \<longleftrightarrow> b = 9 \<or> b = 10 \<or> b = 11 \<or> b = 12 \<or> b = 13 \<or> b = 32"

fun space_width :: "gostring \<Rightarrow> nat" where
  "space_width [] = 0"
| "space_width [a] = (if ascii_space a then 1 else 0)"
| "space_width [a, b] =
     (if ascii_space a then 1
      else if a = 0xC2 \<and> (b = 0x85 \<or> b = 0xA0) then 2
      else 0)"
| "space_width (a # b # c # s) =
     (if ascii_space a then 1
      else if a = 0xC2 \<and> (b = 0x85 \<or> b = 0xA0) then 2
      else if a = 0xE1 \<and> b = 0x9A \<and> c = 0x80 then 3
      else if a = 0xE2 \<and> b = 0x80 \<and> (0x80 \<le> c \<and> c \<le> 0x8A \<or> c = 0xA8 \<or> c = 0xA9 \<or> c = 0xAF) then 3
      else if a = 0xE2 \<and> b = 0x81 \<and> c = 0x9F then 3
      else if a = 0xE3 \<and> b = 0x80 \<and> c = 0x80 then 3
      else 0)"

function blank :: "gostring \<Rightarrow> bool" where
  "blank s = (if s = [] then True
     else if space_width s = 0 then False
     else blank (drop (space_width s) s))"
  by pat_completeness auto
termination
  by (relation "measure length") auto

declare blank.simps [simp del]
declare ascii_space_def [eval]

lemma blank_Nil [simp]: "blank []"
  by (simp add: blank.simps)

lemma blank_eval [eval]:
  "blank (a # s) = (if space_width (a # s) = 0 then False else blank (drop (space_width (a # s)) (a # s)))"
  by (simp add: blank.simps[of "a # s"])

lemma not_blank_nonempty: "\<not> blank s \<Longrightarrow> s \<noteq> []"
  by auto

section \<open>encoding/binary: varints\<close>

lemma pow_7_eq: "(2 :: nat) ^ 7 = 128"
  by simp

text \<open>\<open>binary.PutUvarint\<close> and \<open>binary.AppendUvarint\<close>: the bytes they write.\<close>

function uvarint :: "u64 \<Rightarrow> byte list" where
  "uvarint x = (if x < 0x80 then [ucast x] else (ucast x OR 0x80) # uvarint (drop_bit 7 x))"
  by pat_completeness auto
termination
proof (relation "measure unat")
  fix x :: u64
  assume "\<not> x < 0x80"
  then have "128 \<le> unat x" by (simp add: word_less_nat_alt)
  then have "unat x div 128 < unat x" by simp
  moreover have "unat (drop_bit 7 x) = unat x div 128"
    by (metis drop_bit_eq_div unat_drop_bit_eq pow_7_eq)
  ultimately show "(drop_bit 7 x, x) \<in> measure unat"
    by (simp only: in_measure)
qed simp

declare uvarint.simps [simp del]

text \<open>
  \<open>binary.Uvarint\<close>: the value and the number of bytes read; a count of zero for a buffer that
  ends too early, a negative one for a value over 64 bits.
\<close>

fun Uvarint_loop :: "byte list \<Rightarrow> nat \<Rightarrow> u64 \<Rightarrow> nat \<Rightarrow> u64 \<times> int" where
  "Uvarint_loop [] i x s = (0, 0)"
| "Uvarint_loop (b # buf) i x s =
     (if i = 10 then (0, - (int i + 1))
      else if b < 0x80 then
        (if i = 9 \<and> b > 1 then (0, - (int i + 1))
         else (x OR push_bit s (ucast b), int i + 1))
      else Uvarint_loop buf (Suc i) (x OR push_bit s (ucast (b AND 0x7F))) (s + 7))"

definition Uvarint :: "byte list \<Rightarrow> u64 \<times> int" where
  "Uvarint buf = Uvarint_loop buf 0 0 0"

lemma uvarint_small: "x < 0x80 \<Longrightarrow> uvarint x = [ucast x]"
  by (simp add: uvarint.simps)

lemma uvarint_big: "\<not> x < 0x80 \<Longrightarrow> uvarint x = (ucast x OR 0x80) # uvarint (drop_bit 7 x)"
  by (simp add: uvarint.simps[of x])

lemma uvarint_neq_Nil [simp]: "uvarint x \<noteq> []"
  by (subst uvarint.simps) simp

lemma length_uvarint_pos [simp]: "0 < length (uvarint x)"
  by simp

lemma less_pow_bit:
  fixes v :: u64
  assumes "n \<le> 64"
  shows "unat v < 2 ^ n \<longleftrightarrow> (\<forall>k \<ge> n. \<not> bit v k)"
proof -
  have "unat v < 2 ^ n \<longleftrightarrow> take_bit n (unat v) = unat v"
    by (simp add: take_bit_nat_eq_self_iff)
  also have "\<dots> \<longleftrightarrow> take_bit n v = v"
    by (metis unsigned_take_bit_eq unsigned_word_eqI)
  also have "\<dots> \<longleftrightarrow> (\<forall>k \<ge> n. \<not> bit v k)"
  proof
    assume "take_bit n v = v"
    then show "\<forall>k \<ge> n. \<not> bit v k" by (metis bit_take_bit_iff not_le)
  next
    assume "\<forall>k \<ge> n. \<not> bit v k"
    then show "take_bit n v = v"
      by (intro bit_word_eqI) (auto simp: bit_take_bit_iff not_le[symmetric])
  qed
  finally show ?thesis .
qed

lemma word_less_128_bit: "(v::u64) < 0x80 \<longleftrightarrow> (\<forall>k \<ge> 7. \<not> bit v k)"
  using less_pow_bit[of 7 v] by (simp add: word_less_nat_alt)

lemma byte_less_128_bit: "(b::byte) < 0x80 \<longleftrightarrow> \<not> bit b 7"
proof -
  have "b < 0x80 \<longleftrightarrow> take_bit 7 (unat b) = unat b"
    by (simp add: take_bit_nat_eq_self_iff word_less_nat_alt)
  also have "\<dots> \<longleftrightarrow> take_bit 7 b = b"
    by (metis unsigned_take_bit_eq unsigned_word_eqI)
  also have "\<dots> \<longleftrightarrow> \<not> bit b 7"
  proof
    assume "take_bit 7 b = b"
    then show "\<not> bit b 7" by (metis bit_take_bit_iff less_irrefl)
  next
    assume "\<not> bit b 7"
    show "take_bit 7 b = b"
    proof (rule bit_word_eqI)
      fix n assume "n < LENGTH(8)"
      then have "n < 7 \<or> n = 7" by auto
      then show "bit (take_bit 7 b) n = bit b n"
        using \<open>\<not> bit b 7\<close> by (auto simp: bit_take_bit_iff)
    qed
  qed
  finally show ?thesis .
qed

lemma bit_127: "bit (0x7F :: 'a::len word) n \<longleftrightarrow> n < 7 \<and> n < LENGTH('a)"
proof -
  have "(0x7F :: 'a word) = mask 7" by (simp add: mask_eq_exp_minus_1)
  then show ?thesis by (simp only: bit_mask_iff) auto
qed

lemma bit_128: "bit (0x80 :: 'a::len word) n \<longleftrightarrow> n = 7 \<and> 7 < LENGTH('a)"
proof -
  have "(0x80 :: 'a word) = 2 ^ 7" by simp
  then show ?thesis by (simp only: bit_exp_iff) auto
qed

lemma ucast_ucast_small:
  assumes "v < 0x80"
  shows "(ucast (ucast v :: byte) :: u64) = v"
proof (rule bit_word_eqI)
  fix n
  from assms have "bit v n \<Longrightarrow> n < 7"
    by (simp add: word_less_128_bit) (meson not_le)
  then show "bit (ucast (ucast v :: byte) :: u64) n = bit v n"
    by (auto simp: bit_simps)
qed

lemma ucast_byte_u64 [simp]: "(ucast (ucast (b :: byte) :: u64) :: byte) = b"
  by (rule bit_word_eqI) (simp add: bit_ucast_iff)

lemma bit_group: "bit (((ucast (v :: u64) OR 0x80) AND 0x7F) :: byte) n \<longleftrightarrow> n < 7 \<and> bit v n"
  unfolding bit_and_iff bit_or_iff bit_127 bit_128 bit_ucast_iff by auto

lemma group_split:
  "(v :: u64) = ucast ((ucast v OR 0x80 :: byte) AND 0x7F) OR push_bit 7 (drop_bit 7 v)"
proof (rule bit_word_eqI)
  fix n
  assume "n < LENGTH(64)"
  then show "bit v n = bit (ucast ((ucast v OR 0x80 :: byte) AND 0x7F) OR push_bit 7 (drop_bit 7 v)) n"
    unfolding bit_or_iff bit_ucast_iff bit_group
    by (cases "n < 7") (auto simp: bit_push_bit_iff bit_drop_bit_eq)
qed

lemma push_bit_combine:
  "(x OR push_bit s (y :: u64)) OR push_bit (s + 7) z = x OR push_bit s (y OR push_bit 7 z)"
  by (simp only: push_bit_or push_bit_push_bit or.assoc)

lemma drop_bit_bound:
  assumes "unat (v :: u64) < 2 ^ (64 - 7 * i)" and "7 * i \<le> 57"
  shows "unat (drop_bit 7 v) < 2 ^ (64 - 7 * Suc i)"
proof -
  have "64 - 7 * i = (64 - 7 * Suc i) + 7" using assms(2) by simp
  then have "unat v < 2 ^ (64 - 7 * Suc i) * 2 ^ 7" using assms(1) by (metis power_add)
  moreover have "unat (drop_bit 7 v) = unat v div 2 ^ 7"
    by (metis drop_bit_eq_div unat_drop_bit_eq)
  ultimately show ?thesis by (simp only: less_mult_imp_div_less)
qed

lemma Uvarint_loop_uvarint:
  assumes "unat v < 2 ^ (64 - 7 * i)" and "i \<le> 9"
  shows "Uvarint_loop (uvarint v @ rest) i acc (7 * i) =
    (acc OR push_bit (7 * i) v, int (i + length (uvarint v)))"
  using assms
proof (induction v arbitrary: i acc rule: uvarint.induct)
  case (1 v)
  show ?case
  proof (cases "v < 0x80")
    case True
    have "(ucast v :: byte) < 0x80"
      using True by (simp add: byte_less_128_bit word_less_128_bit bit_ucast_iff)
    moreover have "\<not> (i = 9 \<and> (ucast v :: byte) > 1)"
    proof
      assume "i = 9 \<and> (ucast v :: byte) > 1"
      with "1.prems" have "unat v < 2" and "1 < unat (ucast v :: byte)"
        by (simp_all add: word_less_nat_alt)
      then show False by (simp add: unsigned_ucast_eq take_bit_nat_eq_self)
    qed
    ultimately show ?thesis
      using True "1.prems" by (simp add: uvarint_small ucast_ucast_small)
  next
    case False
    have "128 \<le> unat v" using False by (simp add: word_less_nat_alt)
    then have "(2::nat) ^ 7 < 2 ^ (64 - 7 * i)" using "1.prems"(1) by simp
    then have i8: "i \<le> 8" by (cases "i = 9") (use "1.prems"(2) in auto)
    have nb: "\<not> (ucast v OR 0x80 :: byte) < 0x80"
      by (simp only: byte_less_128_bit bit_or_iff bit_128) simp
    have bound: "unat (drop_bit 7 v) < 2 ^ (64 - 7 * Suc i)"
      using "1.prems"(1) i8 by (intro drop_bit_bound) auto
    let ?b = "ucast v OR 0x80 :: byte"
    have "Uvarint_loop (uvarint v @ rest) i acc (7 * i)
        = Uvarint_loop (uvarint (drop_bit 7 v) @ rest) (Suc i)
            (acc OR push_bit (7 * i) (ucast (?b AND 0x7F))) (7 * Suc i)"
      using i8 by (simp only: uvarint_big[OF False] append_Cons Uvarint_loop.simps nb if_False
          mult_Suc_right add.commute[of 7]) simp
    also have "\<dots> = ((acc OR push_bit (7 * i) (ucast (?b AND 0x7F))) OR push_bit (7 * Suc i) (drop_bit 7 v),
        int (Suc i + length (uvarint (drop_bit 7 v))))"
      using False bound i8 by (intro "1.IH") auto
    also have "(acc OR push_bit (7 * i) (ucast (?b AND 0x7F))) OR push_bit (7 * Suc i) (drop_bit 7 v)
        = acc OR push_bit (7 * i) v"
      using push_bit_combine[of acc "7 * i" "ucast (?b AND 0x7F)" "drop_bit 7 v"] group_split[of v]
      by (simp only: mult_Suc_right add.commute)
    also have "int (Suc i + length (uvarint (drop_bit 7 v))) = int (i + length (uvarint v))"
      using False by (simp add: uvarint_big)
    finally show ?thesis .
  qed
qed

lemma Uvarint_uvarint: "Uvarint (uvarint v @ rest) = (v, int (length (uvarint v)))"
proof -
  have "unat v < 2 ^ (64 - 7 * 0)" using unsigned_less[of v, where ?'a = nat] by simp
  from Uvarint_loop_uvarint[OF this, of rest 0] show ?thesis by (simp add: Uvarint_def)
qed

lemma group_join:
  assumes "unat w < 2 ^ 57" and "\<not> (b :: byte) < 0x80"
  defines "v \<equiv> ucast (b AND 0x7F) OR push_bit 7 w :: u64"
  shows "drop_bit 7 v = w" and "ucast v OR 0x80 = b" and "v < 0x80 \<longleftrightarrow> w = 0"
proof -
  have w57: "bit w n \<Longrightarrow> n < 57" for n
  proof -
    have "\<forall>k \<ge> 57. \<not> bit w k" using assms(1) less_pow_bit[of 57 w] by simp
    then show "bit w n \<Longrightarrow> n < 57" by (meson not_le)
  qed
  have b7: "bit b 7" using assms(2) by (simp add: byte_less_128_bit)
  have v: "bit v n \<longleftrightarrow> n < 7 \<and> bit b n \<or> 7 \<le> n \<and> bit w (n - 7)" for n
  proof -
    have "bit v n \<longleftrightarrow> (n < 64 \<and> n < 8 \<and> bit b n \<and> n < 7) \<or> 7 \<le> n \<and> n < 64 \<and> bit w (n - 7)"
      unfolding v_def bit_or_iff bit_ucast_iff bit_and_iff bit_127
      by (auto simp: bit_push_bit_iff)
    then show ?thesis using w57[of "n - 7"] by auto
  qed
  show d: "drop_bit 7 v = w"
    by (rule bit_word_eqI) (simp add: bit_drop_bit_eq v)
  show "ucast v OR 0x80 = b"
  proof (rule bit_word_eqI)
    fix n assume "n < LENGTH(8)"
    then have "n < 7 \<or> n = 7" by auto
    then show "bit (ucast v OR 0x80 :: byte) n = bit b n"
      unfolding bit_or_iff bit_128 bit_ucast_iff using b7 v[of n] by auto
  qed
  show "v < 0x80 \<longleftrightarrow> w = 0"
  proof
    assume "v < 0x80"
    then have "drop_bit 7 v = 0"
      by (intro bit_word_eqI) (simp add: word_less_128_bit bit_drop_bit_eq)
    with d show "w = 0" by simp
  next
    assume "w = 0"
    then show "v < 0x80" by (simp add: word_less_128_bit v)
  qed
qed

lemma Uvarint_loop_sound:
  assumes "Uvarint_loop bs i acc (7 * i) = (v, c)" and "0 < c" and "i \<le> 10"
  shows "\<exists>k w. c = int (i + k) \<and> 0 < k \<and> k \<le> length bs \<and> i \<le> 9 \<and>
    v = acc OR push_bit (7 * i) w \<and> unat w < 2 ^ (64 - 7 * i) \<and>
    (k = length (uvarint w) \<longrightarrow> take k bs = uvarint w)"
  using assms
proof (induction bs arbitrary: i acc)
  case Nil
  then show ?case by simp
next
  case (Cons b bs)
  have i9: "i \<le> 9" using Cons.prems by (cases "i = 10") auto
  show ?case
  proof (cases "b < 0x80")
    case True
    have nine: "\<not> (i = 9 \<and> b > 1)" using Cons.prems True by (auto split: if_splits)
    have eq: "v = acc OR push_bit (7 * i) (ucast b)" "c = int (i + 1)"
      using Cons.prems i9 True nine by auto
    have small: "(ucast b :: u64) < 0x80"
      using True by (simp add: word_less_nat_alt unsigned_ucast_eq take_bit_nat_eq_self)
    have "unat (ucast b :: u64) < 2 ^ (64 - 7 * i)"
    proof (cases "i = 9")
      case True
      with nine have "unat b \<le> 1" by (simp add: word_less_nat_alt)
      with True show ?thesis by (simp add: unsigned_ucast_eq take_bit_nat_eq_self)
    next
      case False
      with i9 have "(2::nat) ^ 7 \<le> 2 ^ (64 - 7 * i)" by (intro power_increasing) auto
      with small show ?thesis by (simp add: word_less_nat_alt)
    qed
    moreover have "uvarint (ucast b) = [b]"
      using small by (simp add: uvarint_small)
    ultimately show ?thesis
      using eq i9 by (intro exI[of _ 1] exI[of _ "ucast b"]) simp
  next
    case False
    let ?acc = "acc OR push_bit (7 * i) (ucast (b AND 0x7F))"
    have "Uvarint_loop bs (Suc i) ?acc (7 * Suc i) = (v, c)"
      using Cons.prems(1) i9
      by (simp only: Uvarint_loop.simps False if_False mult_Suc_right add.commute[of 7]) simp
    from Cons.IH[OF this Cons.prems(2)] i9
    obtain k w where kw: "c = int (Suc i + k)" "0 < k" "k \<le> length bs" "Suc i \<le> 9"
      "v = ?acc OR push_bit (7 * Suc i) w" "unat w < 2 ^ (64 - 7 * Suc i)"
      "k = length (uvarint w) \<longrightarrow> take k bs = uvarint w"
      by auto
    let ?w = "ucast (b AND 0x7F) OR push_bit 7 w :: u64"
    have w57: "unat w < 2 ^ 57"
      using kw(6) by (rule less_le_trans) (intro power_increasing; simp)
    note join = group_join[OF w57 False]
    have v: "v = acc OR push_bit (7 * i) ?w"
      using kw(5) push_bit_combine[of acc "7 * i" "ucast (b AND 0x7F)" w]
      by (simp only: mult_Suc_right add.commute[of 7])
    have "unat ?w < 2 ^ (64 - 7 * i)"
    proof -
      have "unat ?w div 2 ^ 7 < 2 ^ (64 - 7 * Suc i)"
        using kw(6) join(1) by (metis drop_bit_eq_div unat_drop_bit_eq)
      then have "unat ?w < 2 ^ (64 - 7 * Suc i) * 2 ^ 7"
        by (simp only: div_less_iff_less_mult zero_less_power zero_less_numeral)
      then show ?thesis using kw(4) by (simp only: power_add[symmetric]) simp
    qed
    moreover have "Suc k = length (uvarint ?w) \<longrightarrow> take (Suc k) (b # bs) = uvarint ?w"
    proof (cases "w = 0")
      case True
      then show ?thesis using join(3) kw(2) by (simp only: uvarint_small) simp
    next
      case False
      then have "\<not> ?w < 0x80" using join(3) by simp
      from uvarint_big[OF this] have "uvarint ?w = b # uvarint w"
        by (simp only: join(1,2))
      then show ?thesis using kw(7) by simp
    qed
    ultimately show ?thesis
      using v kw i9 by (intro exI[of _ "Suc k"] exI[of _ ?w]) simp
  qed
qed

text \<open>
  The shortest-form decoder used by the frame code: it accepts a value at a position exactly when
  the bytes there are the unique shortest encoding of it.
\<close>

lemma Uvarint_canonical:
  "Uvarint bs = (v, c) \<and> c = int (length (uvarint v)) \<longleftrightarrow>
   (c = int (length (uvarint v)) \<and> length (uvarint v) \<le> length bs \<and>
    take (length (uvarint v)) bs = uvarint v)" (is "?l \<longleftrightarrow> ?r")
proof
  assume l: ?l
  then have "Uvarint_loop bs 0 0 (7 * 0) = (v, c)" "0 < c"
    by (simp_all add: Uvarint_def)
  from Uvarint_loop_sound[OF this] l show ?r by auto
next
  assume r: ?r
  then have "bs = uvarint v @ drop (length (uvarint v)) bs"
    by (metis append_take_drop_id)
  with Uvarint_uvarint[of v "drop (length (uvarint v)) bs"] r show ?l by simp
qed

lemma length_uvarint_le: "0 < n \<Longrightarrow> unat x < 2 ^ (7 * n) \<Longrightarrow> length (uvarint x) \<le> n"
proof (induction n arbitrary: x)
  case (Suc n)
  show ?case
  proof (cases "x < 0x80")
    case True
    then show ?thesis by (simp add: uvarint_small)
  next
    case False
    then have "128 \<le> unat x" by (simp add: word_less_nat_alt)
    with Suc.prems have n: "0 < n" by (cases n) auto
    have "unat (drop_bit 7 x) = unat x div 128"
      by (metis drop_bit_eq_div unat_drop_bit_eq pow_7_eq)
    also have "\<dots> < 2 ^ (7 * n)"
      using Suc.prems(2) by (simp add: power_add less_mult_imp_div_less)
    finally have "length (uvarint (drop_bit 7 x)) \<le> n" by (rule Suc.IH[OF n])
    then show ?thesis by (simp only: uvarint_big[OF False] list.size add_Suc_right add_0_right Suc_le_mono)
  qed
qed simp

lemma length_uvarint_max: "length (uvarint x) \<le> 10"
proof (rule length_uvarint_le)
  have "unat x < 2 ^ 64" using unsigned_less[of x, where ?'a = nat] by simp
  also have "\<dots> \<le> 2 ^ (7 * 10)" by simp
  finally show "unat x < 2 ^ (7 * 10)" .
qed simp

section \<open>encoding/binary: big-endian uint32\<close>

definition put_be32 :: "u32 \<Rightarrow> byte list" where
  "put_be32 v = [ucast (drop_bit 24 v), ucast (drop_bit 16 v), ucast (drop_bit 8 v), ucast v]"

fun be32 :: "byte list \<Rightarrow> u32" where
  "be32 (a # b # c # d # bs) =
     (push_bit 24 (ucast a) OR push_bit 16 (ucast b)) OR (push_bit 8 (ucast c) OR ucast d)"
| "be32 bs = 0"

lemma length_put_be32 [simp]: "length (put_be32 v) = 4"
  by (simp add: put_be32_def)

lemma bit_be32:
  "bit (be32 [a, b, c, d]) n \<longleftrightarrow>
     (if n < 8 then bit d n else if n < 16 then bit c (n - 8)
      else if n < 24 then bit b (n - 16) else n < 32 \<and> bit a (n - 24))"
proof -
  have high: "bit x k \<Longrightarrow> k < 8" for x :: byte and k
    by (drule bit_imp_le_length) simp
  have "bit (be32 [a, b, c, d]) n \<longleftrightarrow>
     (24 \<le> n \<and> n < 32 \<and> bit a (n - 24) \<or> 16 \<le> n \<and> n < 32 \<and> bit b (n - 16)) \<or>
     (8 \<le> n \<and> n < 32 \<and> bit c (n - 8) \<or> n < 32 \<and> bit d n)"
    unfolding be32.simps bit_or_iff bit_push_bit_iff bit_ucast_iff using high by auto
  then show ?thesis
    using high[of a "n - 24"] high[of b "n - 16"] high[of c "n - 8"] high[of d n]
    by (cases "n < 8"; cases "n < 16"; cases "n < 24") auto
qed

lemma be32_put_be32 [simp]: "be32 (put_be32 v) = v"
proof (rule bit_word_eqI)
  fix n
  assume "n < LENGTH(32)"
  then show "bit (be32 (put_be32 v)) n = bit v n"
    unfolding put_be32_def bit_be32 bit_ucast_iff bit_drop_bit_eq o_def by auto
qed

lemma put_be32_be32:
  assumes "length bs = 4"
  shows "put_be32 (be32 bs) = bs"
proof -
  obtain a b c d where bs: "bs = [a, b, c, d]"
    using assms by (auto simp: numeral_eq_Suc length_Suc_conv)
  have "ucast (drop_bit 24 (be32 bs)) = a" "ucast (drop_bit 16 (be32 bs)) = b"
    "ucast (drop_bit 8 (be32 bs)) = c" "ucast (be32 bs) = d"
    unfolding bs
    by (rule bit_word_eqI; simp only: bit_be32 bit_ucast_iff bit_drop_bit_eq o_def; simp)+
  then show ?thesis by (simp add: put_be32_def bs)
qed

section \<open>hash/crc32 with the Castagnoli table\<close>

definition crc32c_bit :: "u32 \<Rightarrow> u32" where
  "crc32c_bit c = (if c AND 1 = 1 then drop_bit 1 c XOR 0x82F63B78 else drop_bit 1 c)"

definition crc32c_byte :: "byte \<Rightarrow> u32 \<Rightarrow> u32" where
  "crc32c_byte b c = (crc32c_bit ^^ 8) (c XOR ucast b)"

definition crc32c :: "byte list \<Rightarrow> u32" where
  "crc32c bs = NOT (fold crc32c_byte bs (NOT 0))"

lemma crc32c_byte_eval [eval]:
  "crc32c_byte b c = crc32c_bit (crc32c_bit (crc32c_bit (crc32c_bit
     (crc32c_bit (crc32c_bit (crc32c_bit (crc32c_bit (c XOR ucast b))))))))"
  by (simp add: crc32c_byte_def eval_nat_numeral)

text \<open>The check value of CRC-32C: the checksum of the ASCII digits 1 to 9.\<close>

lemma crc32c_check_value: "crc32c [49, 50, 51, 52, 53, 54, 55, 56, 57] = 0xE3069283"
  by (simp add: crc32c_def crc32c_byte_eval crc32c_bit_def)

end
