(* ===== verification/Core.thy ===== *)
theory Core
  imports GoStd
begin

text \<open>
  The root package of the repository (\<open>src/crdt.go\<close>, \<open>src/error.go\<close>,
  \<open>src/type_ids_generated.go\<close>): mutation tags and their total order, the closed table of frame
  types with its lookups, structured errors, and the contract of the \<open>CRDT\<close> interface as a
  locale that every replicated type of the development interprets.
\<close>

section \<open>Mutation tags\<close>

datatype tag = Tag (ReplicaID: gostring) (WallTime: u64) (Logical: u64)

definition Tag_Valid :: "tag \<Rightarrow> bool" where
  "Tag_Valid t \<longleftrightarrow> \<not> blank (ReplicaID t)"

declare Tag_Valid_def [eval]

definition Tag_Compare :: "tag \<Rightarrow> tag \<Rightarrow> int" where
  "Tag_Compare t other =
     (if WallTime t < WallTime other then - 1
      else if WallTime t > WallTime other then 1
      else if Logical t < Logical other then - 1
      else if Logical t > Logical other then 1
      else if ReplicaID t < ReplicaID other then - 1
      else if ReplicaID t > ReplicaID other then 1
      else 0)"

text \<open>The check \<open>(crdt.Tag{ReplicaID: id}).Valid()\<close> that constructors and decoders make.\<close>

abbreviation valid_replica :: "gostring \<Rightarrow> bool" where
  "valid_replica r \<equiv> Tag_Valid (Tag r 0 0)"

lemma Tag_Valid_replica: "Tag_Valid t \<longleftrightarrow> valid_replica (ReplicaID t)"
  by (simp add: Tag_Valid_def)

instantiation tag :: linorder
begin

definition less_eq_tag :: "tag \<Rightarrow> tag \<Rightarrow> bool" where
  "less_eq_tag s t \<longleftrightarrow> WallTime s < WallTime t \<or> WallTime s = WallTime t \<and>
     (Logical s < Logical t \<or> Logical s = Logical t \<and> ReplicaID s \<le> ReplicaID t)"

definition less_tag :: "tag \<Rightarrow> tag \<Rightarrow> bool" where
  "less_tag s t \<longleftrightarrow> WallTime s < WallTime t \<or> WallTime s = WallTime t \<and>
     (Logical s < Logical t \<or> Logical s = Logical t \<and> ReplicaID s < ReplicaID t)"

instance
proof
  fix s t u :: tag
  show "s < t \<longleftrightarrow> s \<le> t \<and> \<not> t \<le> s"
    by (auto simp: less_eq_tag_def less_tag_def)
  show "s \<le> s" by (simp add: less_eq_tag_def)
  show "s \<le> t \<Longrightarrow> t \<le> u \<Longrightarrow> s \<le> u"
    by (auto simp: less_eq_tag_def)
  show "s \<le> t \<Longrightarrow> t \<le> s \<Longrightarrow> s = t"
    by (auto simp: less_eq_tag_def intro: tag.expand)
  show "s \<le> t \<or> t \<le> s"
    by (auto simp: less_eq_tag_def)
qed

end

lemma Tag_Compare_iff [simp]:
  "Tag_Compare s t < 0 \<longleftrightarrow> s < t"
  "0 \<le> Tag_Compare s t \<longleftrightarrow> t \<le> s"
  "Tag_Compare s t \<le> 0 \<longleftrightarrow> s \<le> t"
  "0 < Tag_Compare s t \<longleftrightarrow> t < s"
  "Tag_Compare s t = 0 \<longleftrightarrow> s = t"
  by (auto simp: Tag_Compare_def less_tag_def less_eq_tag_def intro: tag.expand)

section \<open>Frame types\<close>

record FrameType =
  StateID :: u64
  DeltaID :: u64
  SemanticsVersion :: u64
  UsesHLC :: bool

abbreviation (input) "TypeIDGCounterState \<equiv> (1 :: u64)"
abbreviation (input) "TypeIDGCounterDelta \<equiv> (3 :: u64)"
abbreviation (input) "TypeIDORSetState \<equiv> (2 :: u64)"
abbreviation (input) "TypeIDORSetDelta \<equiv> (4 :: u64)"
abbreviation (input) "TypeIDPNCounterState \<equiv> (5 :: u64)"
abbreviation (input) "TypeIDPNCounterDelta \<equiv> (6 :: u64)"
abbreviation (input) "TypeIDGSetState \<equiv> (13 :: u64)"
abbreviation (input) "TypeIDGSetDelta \<equiv> (14 :: u64)"
abbreviation (input) "TypeIDMVRegisterState \<equiv> (15 :: u64)"
abbreviation (input) "TypeIDMVRegisterDelta \<equiv> (16 :: u64)"

definition frameTypeRegistrations :: "(string \<times> FrameType) list" where
  "frameTypeRegistrations =
    [(''GCounter'', \<lparr>StateID = 1, DeltaID = 3, SemanticsVersion = 1, UsesHLC = False\<rparr>),
     (''ORSet'', \<lparr>StateID = 2, DeltaID = 4, SemanticsVersion = 1, UsesHLC = True\<rparr>),
     (''PNCounter'', \<lparr>StateID = 5, DeltaID = 6, SemanticsVersion = 1, UsesHLC = False\<rparr>),
     (''LWWSet'', \<lparr>StateID = 7, DeltaID = 8, SemanticsVersion = 1, UsesHLC = True\<rparr>),
     (''LWWMap'', \<lparr>StateID = 9, DeltaID = 10, SemanticsVersion = 1, UsesHLC = True\<rparr>),
     (''RGA'', \<lparr>StateID = 11, DeltaID = 12, SemanticsVersion = 1, UsesHLC = True\<rparr>),
     (''GSet'', \<lparr>StateID = 13, DeltaID = 14, SemanticsVersion = 1, UsesHLC = False\<rparr>),
     (''MVRegister'', \<lparr>StateID = 15, DeltaID = 16, SemanticsVersion = 1, UsesHLC = False\<rparr>),
     (''ORTree'', \<lparr>StateID = 17, DeltaID = 18, SemanticsVersion = 1, UsesHLC = True\<rparr>),
     (''RGARun'', \<lparr>StateID = 19, DeltaID = 20, SemanticsVersion = 2, UsesHLC = True\<rparr>),
     (''ListRGA'', \<lparr>StateID = 21, DeltaID = 22, SemanticsVersion = 1, UsesHLC = True\<rparr>),
     (''RichText'', \<lparr>StateID = 23, DeltaID = 24, SemanticsVersion = 1, UsesHLC = True\<rparr>),
     (''MoveRGA'', \<lparr>StateID = 25, DeltaID = 26, SemanticsVersion = 2, UsesHLC = True\<rparr>),
     (''RGAPacked'', \<lparr>StateID = 29, DeltaID = 30, SemanticsVersion = 3, UsesHLC = True\<rparr>),
     (''DocumentTree'', \<lparr>StateID = 31, DeltaID = 32, SemanticsVersion = 2, UsesHLC = True\<rparr>)]"

definition RegisteredFrameTypes :: "(string \<times> FrameType) list" where
  "RegisteredFrameTypes = frameTypeRegistrations"

definition FrameTypeRegistrationForID :: "u64 \<Rightarrow> (string \<times> FrameType) option" where
  "FrameTypeRegistrationForID typeID =
     find (\<lambda>(_, kind). StateID kind = typeID \<or> DeltaID kind = typeID) frameTypeRegistrations"

definition DefaultRGAFrameType :: FrameType where
  "DefaultRGAFrameType = \<lparr>StateID = 19, DeltaID = 20, SemanticsVersion = 2, UsesHLC = True\<rparr>"

definition FrameTypeForState :: "u64 \<Rightarrow> FrameType option" where
  "FrameTypeForState stateID =
     map_option snd (find (\<lambda>(_, kind). StateID kind = stateID) frameTypeRegistrations)"

definition FrameTypeForDelta :: "u64 \<Rightarrow> FrameType option" where
  "FrameTypeForDelta deltaID =
     map_option snd (find (\<lambda>(_, kind). DeltaID kind = deltaID) frameTypeRegistrations)"

text \<open>The policy's only field, \<open>AllowExperimental\<close>, is read by none of its methods.\<close>

record ProtocolPolicy =
  AllowExperimental :: bool

definition SupportsFrame :: "ProtocolPolicy \<Rightarrow> u64 \<Rightarrow> bool" where
  "SupportsFrame p typeID =
     (if FrameTypeForState typeID = None then
        (if FrameTypeForDelta typeID = None then False else True)
      else True)"

definition FrameTypes :: "ProtocolPolicy \<Rightarrow> FrameType list" where
  "FrameTypes p = filter (\<lambda>kind. SupportsFrame p (StateID kind)) (map snd frameTypeRegistrations)"

definition IsExperimentalFrame :: "u64 \<Rightarrow> bool" where
  "IsExperimentalFrame typeID = False"

text \<open>
  Type identifiers are never reused: the state and delta identifiers of the table are pairwise
  different, so each lookup has at most one answer.
\<close>

lemma registered_ids_distinct:
  "distinct (map (StateID \<circ> snd) frameTypeRegistrations @ map (DeltaID \<circ> snd) frameTypeRegistrations)"
  by (simp add: frameTypeRegistrations_def)

lemma find_kind_iff:
  assumes "distinct (map (f \<circ> snd) xs)"
  shows "map_option snd (find (\<lambda>(_, kind). f kind = i) xs) = Some kind \<longleftrightarrow>
    kind \<in> snd ` set xs \<and> f kind = i"
  using assms by (induction xs) (force split: prod.splits)+

lemma FrameTypeForState_iff:
  "FrameTypeForState i = Some kind \<longleftrightarrow> kind \<in> snd ` set frameTypeRegistrations \<and> StateID kind = i"
  unfolding FrameTypeForState_def
  by (rule find_kind_iff) (use registered_ids_distinct in \<open>simp only: distinct_append\<close>)

lemma FrameTypeForDelta_iff:
  "FrameTypeForDelta i = Some kind \<longleftrightarrow> kind \<in> snd ` set frameTypeRegistrations \<and> DeltaID kind = i"
  unfolding FrameTypeForDelta_def
  by (rule find_kind_iff) (use registered_ids_distinct in \<open>simp only: distinct_append\<close>)

lemma state_delta_ids_disjoint:
  "kind \<in> snd ` set frameTypeRegistrations \<Longrightarrow> kind' \<in> snd ` set frameTypeRegistrations \<Longrightarrow>
    StateID kind \<noteq> DeltaID kind'"
proof -
  have "set (map (StateID \<circ> snd) frameTypeRegistrations) \<inter> set (map (DeltaID \<circ> snd) frameTypeRegistrations) = {}"
    using registered_ids_distinct by (simp only: distinct_append)
  then show "kind \<in> snd ` set frameTypeRegistrations \<Longrightarrow> kind' \<in> snd ` set frameTypeRegistrations \<Longrightarrow>
    StateID kind \<noteq> DeltaID kind'" by force
qed

text \<open>
  The wire identifiers are unambiguous: an identifier is looked up as a state (delta) type exactly
  when a registered type has it as its state (delta) identifier, never as both, and a protocol policy
  supports exactly the registered identifiers.
\<close>

theorem frame_types_unambiguous:
  "(FrameTypeForState i = Some kind \<longleftrightarrow> kind \<in> snd ` set RegisteredFrameTypes \<and> StateID kind = i) \<and>
   (FrameTypeForDelta i = Some kind \<longleftrightarrow> kind \<in> snd ` set RegisteredFrameTypes \<and> DeltaID kind = i) \<and>
   (FrameTypeForState i = None \<or> FrameTypeForDelta i = None) \<and>
   (SupportsFrame p i \<longleftrightarrow> (\<exists>k. k \<in> snd ` set RegisteredFrameTypes \<and> (StateID k = i \<or> DeltaID k = i))) \<and>
   FrameTypes p = map snd RegisteredFrameTypes"
proof -
  have supports: "SupportsFrame p i \<longleftrightarrow>
      (\<exists>k. k \<in> snd ` set RegisteredFrameTypes \<and> (StateID k = i \<or> DeltaID k = i))" for i
  proof -
    have "SupportsFrame p i \<longleftrightarrow> (\<exists>k. FrameTypeForState i = Some k) \<or> (\<exists>k. FrameTypeForDelta i = Some k)"
      by (simp add: SupportsFrame_def)
    then show ?thesis unfolding FrameTypeForState_iff FrameTypeForDelta_iff RegisteredFrameTypes_def by blast
  qed
  moreover have "FrameTypeForState i = None \<or> FrameTypeForDelta i = None"
  proof (rule ccontr)
    assume "\<not> ?thesis"
    then obtain k k' where k: "FrameTypeForState i = Some k" "FrameTypeForDelta i = Some k'" by auto
    then have "StateID k = DeltaID k'" by (simp add: FrameTypeForState_iff FrameTypeForDelta_iff)
    with k show False
      unfolding FrameTypeForState_iff FrameTypeForDelta_iff using state_delta_ids_disjoint by blast
  qed
  moreover have "FrameTypes p = map snd RegisteredFrameTypes"
    unfolding FrameTypes_def RegisteredFrameTypes_def
    by (rule filter_True) (auto simp: supports RegisteredFrameTypes_def)
  ultimately show ?thesis
    by (simp add: FrameTypeForState_iff FrameTypeForDelta_iff RegisteredFrameTypes_def)
qed

section \<open>Structured errors\<close>

text \<open>
  \<open>errors.As(err, &structured)\<close>: the first \<open>*crdt.Error\<close> of the tree of wrapped errors, in
  depth-first order. A nil error is \<open>None\<close>.
\<close>

fun errors_As :: "go_error \<Rightarrow> go_error option"
and errors_As_list :: "go_error list \<Rightarrow> go_error option" where
  "errors_As (errors_New text) = None"
| "errors_As (fmt_Errorf text es) = errors_As_list es"
| "errors_As (crdt_Error code operation cause) = Some (crdt_Error code operation cause)"
| "errors_As_list [] = None"
| "errors_As_list (e # es) = (case errors_As e of Some s \<Rightarrow> Some s | None \<Rightarrow> errors_As_list es)"

definition ErrorCodeUnknown :: string where
  "ErrorCodeUnknown = ''unknown''"

definition ErrorCodeOf :: "go_error option \<Rightarrow> string" where
  "ErrorCodeOf err = (case Option.bind err errors_As of
      None \<Rightarrow> ErrorCodeUnknown
    | Some structured \<Rightarrow> if err_Code structured \<noteq> [] then err_Code structured else ErrorCodeUnknown)"

definition WrapError :: "string \<Rightarrow> string \<Rightarrow> go_error option \<Rightarrow> go_error option" where
  "WrapError code operation cause =
     (case cause of None \<Rightarrow> None | Some c \<Rightarrow> Some (crdt_Error code operation (Some c)))"

fun Error_Error :: "go_error \<Rightarrow> string" where
  "Error_Error (errors_New text) = text"
| "Error_Error (fmt_Errorf text es) = text"
| "Error_Error (crdt_Error code operation cause) = (case cause of
      None \<Rightarrow> if operation = [] then code else code @ '': '' @ operation
    | Some c \<Rightarrow>
        if operation = [] then code @ '': '' @ Error_Error c
        else code @ '': '' @ operation @ '': '' @ Error_Error c)"

definition Error_Unwrap :: "go_error option \<Rightarrow> go_error option" where
  "Error_Unwrap e = Option.bind e err_Cause"

definition is_structured :: "go_error \<Rightarrow> bool" where
  "is_structured e = (case e of crdt_Error _ _ _ \<Rightarrow> True | _ \<Rightarrow> False)"

definition Error_Is :: "go_error option \<Rightarrow> go_error option \<Rightarrow> bool" where
  "Error_Is e target = (case target of
      None \<Rightarrow> False
    | Some other \<Rightarrow> is_structured other \<and>
        (case e of None \<Rightarrow> False
         | Some e \<Rightarrow> is_structured e \<and> err_Code e \<noteq> [] \<and> err_Code e = err_Code other))"

text \<open>\<open>errors.Is(err, target)\<close>: equality, or the \<open>Is\<close> method, anywhere in the tree of wrapped errors.\<close>

fun errors_Is :: "go_error \<Rightarrow> go_error \<Rightarrow> bool"
and errors_Is_list :: "go_error list \<Rightarrow> go_error \<Rightarrow> bool" where
  "errors_Is (errors_New text) target \<longleftrightarrow> target = errors_New text"
| "errors_Is (fmt_Errorf text es) target \<longleftrightarrow> target = fmt_Errorf text es \<or> errors_Is_list es target"
| "errors_Is (crdt_Error code operation cause) target \<longleftrightarrow>
     target = crdt_Error code operation cause \<or>
     Error_Is (Some (crdt_Error code operation cause)) (Some target) \<or>
     (case cause of None \<Rightarrow> False | Some c \<Rightarrow> errors_Is c target)"
| "errors_Is_list [] target \<longleftrightarrow> False"
| "errors_Is_list (e # es) target \<longleftrightarrow> errors_Is e target \<or> errors_Is_list es target"

lemma errors_Is_refl [simp]: "errors_Is e e"
  by (cases e) simp_all

lemma errors_As_structured: "errors_As e = Some s \<Longrightarrow> is_structured s"
  and errors_As_list_structured: "errors_As_list es = Some s \<Longrightarrow> is_structured s"
  by (induction e and es rule: errors_As_errors_As_list.induct)
    (auto simp: is_structured_def split: option.splits)

text \<open>The tree of an error, in the order in which \<open>errors.As\<close> and \<open>errors.Is\<close> visit it.\<close>

fun error_tree :: "go_error \<Rightarrow> go_error list"
and error_trees :: "go_error list \<Rightarrow> go_error list" where
  "error_tree (errors_New text) = [errors_New text]"
| "error_tree (fmt_Errorf text es) = fmt_Errorf text es # error_trees es"
| "error_tree (crdt_Error code operation cause) =
     crdt_Error code operation cause # (case cause of None \<Rightarrow> [] | Some c \<Rightarrow> error_tree c)"
| "error_trees [] = []"
| "error_trees (e # es) = error_tree e @ error_trees es"

lemma find_append: "find P (xs @ ys) = (case find P xs of None \<Rightarrow> find P ys | Some x \<Rightarrow> Some x)"
  by (induction xs) simp_all

lemma errors_As_find: "errors_As e = find is_structured (error_tree e)"
  and errors_As_list_find: "errors_As_list es = find is_structured (error_trees es)"
  by (induction e and es rule: errors_As_errors_As_list.induct) (auto simp: is_structured_def find_append split: option.splits)

lemma Error_Is_not: "\<not> Error_Is (Some (errors_New text)) t" "\<not> Error_Is (Some (fmt_Errorf text es)) t"
  by (auto simp: Error_Is_def is_structured_def split: option.splits)

lemma errors_Is_tree: "errors_Is e t \<longleftrightarrow> (\<exists>x \<in> set (error_tree e). x = t \<or> Error_Is (Some x) (Some t))"
  and errors_Is_list_tree: "errors_Is_list es t \<longleftrightarrow> (\<exists>x \<in> set (error_trees es). x = t \<or> Error_Is (Some x) (Some t))"
  by (induction e t and es t rule: errors_Is_errors_Is_list.induct) (auto simp: Error_Is_not split: option.splits)

text \<open>
  C25. Codes classify whole trees of errors. \<open>ErrorCodeOf\<close> is the code of the first structured error of the tree, in depth-first order, and
  \<open>ErrorCodeUnknown\<close> when there is none or its code is empty. \<open>errors.Is\<close> finds a target exactly when it is in the tree or a structured error
  of the tree has its non-empty code. So an error given to \<open>WrapError\<close> takes the new code, is still found by every test that found it, and
  is found besides only by the tests for the wrapper or its non-empty code; nil stays nil.
\<close>

theorem wrap_error_code:
  "ErrorCodeOf (Some e) = (case filter is_structured (error_tree e) of
      [] \<Rightarrow> ErrorCodeUnknown | x # _ \<Rightarrow> if err_Code x = [] then ErrorCodeUnknown else err_Code x) \<and>
   (errors_Is e t \<longleftrightarrow> t \<in> set (error_tree e) \<or>
      (\<exists>x \<in> set (error_tree e). is_structured x \<and> is_structured t \<and> err_Code x = err_Code t \<and> err_Code t \<noteq> [])) \<and>
   WrapError code operation None = None \<and> ErrorCodeOf None = ErrorCodeUnknown \<and>
   (\<exists>w. WrapError code operation (Some e) = Some w \<and> Error_Unwrap (Some w) = Some e \<and>
      ErrorCodeOf (Some w) = (if code = [] then ErrorCodeUnknown else code) \<and>
      (errors_Is w t \<longleftrightarrow> t = w \<or> (is_structured t \<and> err_Code t = code \<and> code \<noteq> []) \<or> errors_Is e t))"
proof -
  have find: "find P xs = (case filter P xs of [] \<Rightarrow> None | x # _ \<Rightarrow> Some x)" for P and xs :: "go_error list" by (induction xs) auto
  have "ErrorCodeOf (Some e) = (case filter is_structured (error_tree e) of
      [] \<Rightarrow> ErrorCodeUnknown | x # _ \<Rightarrow> if err_Code x = [] then ErrorCodeUnknown else err_Code x)"
    by (simp add: ErrorCodeOf_def errors_As_find find split: list.splits)
  moreover have "errors_Is e t \<longleftrightarrow> t \<in> set (error_tree e) \<or>
      (\<exists>x \<in> set (error_tree e). is_structured x \<and> is_structured t \<and> err_Code x = err_Code t \<and> err_Code t \<noteq> [])"
    unfolding errors_Is_tree by (auto simp: Error_Is_def)
  moreover have "errors_Is (crdt_Error code operation (Some e)) t \<longleftrightarrow>
      t = crdt_Error code operation (Some e) \<or> (is_structured t \<and> err_Code t = code \<and> code \<noteq> []) \<or> errors_Is e t"
    by (auto simp: Error_Is_def is_structured_def)
  ultimately show ?thesis by (simp add: WrapError_def Error_Unwrap_def ErrorCodeOf_def)
qed

theorem wrap_error_code_witness:
  "ErrorCodeOf (Some (fmt_Errorf ''sync'' [errors_New ''bad'', crdt_Error ''conflict'' ''push'' None])) = ''conflict'' \<and>
   \<not> errors_Is (crdt_Error [] ''push'' None) (crdt_Error [] ''pull'' None)"
  using wrap_error_code[of "fmt_Errorf ''sync'' [errors_New ''bad'', crdt_Error ''conflict'' ''push'' None]"]
    wrap_error_code[of "crdt_Error [] ''push'' None" "crdt_Error [] ''pull'' None"]
  by (simp add: is_structured_def)

section \<open>Diagnostic summaries\<close>

record StateSnapshot =
  snap_Type :: string
  snap_ReplicaID :: gostring
  snap_ElementCount :: nat
  snap_TombstoneCount :: nat

section \<open>Method calls\<close>

text \<open>
  A method on a non-nil receiver returns the receiver's state after the call and a result. A call is
  safe for an invariant when it keeps it, and leaves the receiver as it was when it returns an error.
\<close>

definition safe_call :: "('s \<Rightarrow> bool) \<Rightarrow> 's \<Rightarrow> 's option \<times> 'a res \<Rightarrow> bool" where
  "safe_call I s out \<longleftrightarrow> (\<exists>s'. fst out = Some s' \<and> I s' \<and> (isl (snd out) \<longrightarrow> s' = s))"

lemma safe_call_simps [simp]:
  "safe_call I s (Some s', Inr x) \<longleftrightarrow> I s'"
  "safe_call I s (Some s', Inl e) \<longleftrightarrow> s' = s \<and> I s"
  by (auto simp: safe_call_def)

section \<open>The contract of a state-based CRDT\<close>

text \<open>
  \<open>type CRDT[T]\<close> of \<open>src/crdt.go\<close>: for every concrete state type, \<open>Merge\<close> is commutative,
  associative and idempotent. \<open>inv\<close> singles out the states a replica can hold. Every
  replicated type of the development interprets this locale with its own join; the lemmas below,
  proved once, are the convergence guarantees.
\<close>

locale state_crdt =
  fixes inv :: "'s \<Rightarrow> bool"
    and join :: "'s \<Rightarrow> 's \<Rightarrow> 's"
  assumes join_inv: "inv a \<Longrightarrow> inv b \<Longrightarrow> inv (join a b)"
    and join_commute: "inv a \<Longrightarrow> inv b \<Longrightarrow> join a b = join b a"
    and join_assoc: "inv a \<Longrightarrow> inv b \<Longrightarrow> inv c \<Longrightarrow> join (join a b) c = join a (join b c)"
    and join_idem: "inv a \<Longrightarrow> join a a = a"
begin

definition deliver :: "'s \<Rightarrow> 's list \<Rightarrow> 's" where
  "deliver s ms = foldl join s ms"

definition leq :: "'s \<Rightarrow> 's \<Rightarrow> bool" where
  "leq a b \<longleftrightarrow> join a b = b"

lemma deliver_simps [simp]:
  "deliver s [] = s" "deliver s (m # ms) = deliver (join s m) ms"
  by (simp_all add: deliver_def)

lemma deliver_append [simp]: "deliver s (ms @ ns) = deliver (deliver s ms) ns"
  by (simp add: deliver_def)

lemma deliver_inv: "inv s \<Longrightarrow> \<forall>m \<in> set ms. inv m \<Longrightarrow> inv (deliver s ms)"
  by (induction ms arbitrary: s) (auto intro: join_inv)

lemma leq_refl: "inv a \<Longrightarrow> leq a a"
  by (simp add: leq_def join_idem)

lemma leq_antisym: "inv a \<Longrightarrow> inv b \<Longrightarrow> leq a b \<Longrightarrow> leq b a \<Longrightarrow> a = b"
  by (metis leq_def join_commute)

lemma leq_trans: "inv a \<Longrightarrow> inv b \<Longrightarrow> inv c \<Longrightarrow> leq a b \<Longrightarrow> leq b c \<Longrightarrow> leq a c"
  by (metis leq_def join_assoc)

lemma join_upper: "inv a \<Longrightarrow> inv b \<Longrightarrow> leq a (join a b)" "inv a \<Longrightarrow> inv b \<Longrightarrow> leq b (join a b)"
  by (metis leq_def join_assoc join_idem) (metis leq_def join_assoc join_commute join_idem join_inv)

lemma join_least: "inv a \<Longrightarrow> inv b \<Longrightarrow> inv c \<Longrightarrow> leq a c \<Longrightarrow> leq b c \<Longrightarrow> leq (join a b) c"
  by (metis leq_def join_assoc)

lemma join_swap: "inv s \<Longrightarrow> inv a \<Longrightarrow> inv b \<Longrightarrow> join (join s a) b = join (join s b) a"
  by (metis join_assoc join_commute)

lemma deliver_join: "inv s \<Longrightarrow> inv m \<Longrightarrow> \<forall>x \<in> set ms. inv x \<Longrightarrow>
    deliver (join s m) ms = join (deliver s ms) m"
  by (induction ms arbitrary: s) (auto simp: join_swap join_inv)

lemma deliver_absorb:
  "inv s \<Longrightarrow> \<forall>x \<in> set ms. inv x \<Longrightarrow> m \<in> set ms \<Longrightarrow> join (deliver s ms) m = deliver s ms"
proof (induction ms arbitrary: s)
  case Nil
  then show ?case by simp
next
  case (Cons x ms)
  then have inv: "inv x" "\<forall>x \<in> set ms. inv x" "inv (join s x)" by (auto intro: join_inv)
  show ?case
  proof (cases "m = x")
    case True
    have "inv (deliver s ms)" using Cons.prems inv by (intro deliver_inv) auto
    then have "join (join (deliver s ms) x) x = join (deliver s ms) x"
      using inv by (metis join_assoc join_idem)
    with True Cons.prems inv show ?thesis by (simp add: deliver_join)
  next
    case False
    with Cons inv show ?thesis by simp
  qed
qed

text \<open>Strong eventual consistency: the set of delivered states determines the result.\<close>

lemma deliver_remdups:
  "inv s \<Longrightarrow> \<forall>x \<in> set ms. inv x \<Longrightarrow> deliver s (remdups ms) = deliver s ms"
proof (induction ms arbitrary: s)
  case Nil
  then show ?case by simp
next
  case (Cons x ms)
  then have "deliver s (remdups ms) = deliver s ms" by simp
  with Cons show ?case
    by (auto simp: deliver_join deliver_absorb intro: join_inv)
qed

lemma deliver_perm:
  "mset ms = mset ns \<Longrightarrow> inv s \<Longrightarrow> \<forall>x \<in> set ms. inv x \<Longrightarrow> deliver s ms = deliver s ns"
proof (induction ms arbitrary: ns s)
  case Nil
  then show ?case by simp
next
  case (Cons m ms)
  then have "m \<in> set ns" by (metis list.set_intros(1) set_mset_mset)
  then obtain as bs where ns: "ns = as @ m # bs" by (meson split_list)
  have invs: "\<forall>x \<in> set as. inv x" "\<forall>x \<in> set bs. inv x" "inv m" "inv (deliver s as)"
    using Cons.prems ns by (metis Un_iff deliver_inv mset_eq_setD set_append list.set_intros)+
  have "deliver s (m # ms) = deliver (join s m) (as @ bs)"
    using Cons.IH[of "as @ bs" "join s m"] Cons.prems ns by (simp add: join_inv)
  also have "\<dots> = deliver s ns"
    using invs Cons.prems(2) by (simp add: ns deliver_join)
  finally show ?case .
qed

theorem deliver_converges:
  assumes "inv s" and "\<forall>m \<in> set ms. inv m" and "set ms = set ns"
  shows "deliver s ms = deliver s ns"
proof -
  have "mset (remdups ms) = mset (remdups ns)"
    using assms(3) by (metis distinct_remdups set_eq_iff_mset_eq_distinct set_remdups)
  then have "deliver s (remdups ms) = deliver s (remdups ns)"
    using assms by (intro deliver_perm) auto
  then show ?thesis using assms by (simp add: deliver_remdups)
qed

end

text \<open>Two states side by side, each with its own join.\<close>

locale crdt_pair = fst_crdt: state_crdt I J + snd_crdt: state_crdt K L
  for I :: "'a \<Rightarrow> bool" and J and K :: "'b \<Rightarrow> bool" and L
begin

definition pair_inv :: "'a \<times> 'b \<Rightarrow> bool" where
  "pair_inv s \<longleftrightarrow> I (fst s) \<and> K (snd s)"

definition pair_join :: "'a \<times> 'b \<Rightarrow> 'a \<times> 'b \<Rightarrow> 'a \<times> 'b" where
  "pair_join s t = (J (fst s) (fst t), L (snd s) (snd t))"

end

sublocale crdt_pair \<subseteq> pair_crdt: state_crdt pair_inv pair_join
  by unfold_locales
    (auto simp: pair_inv_def pair_join_def fst_crdt.join_inv snd_crdt.join_inv fst_crdt.join_idem snd_crdt.join_idem
      fst_crdt.join_assoc snd_crdt.join_assoc intro: fst_crdt.join_commute snd_crdt.join_commute)

end
