(* ===== verification/Clock.thy ===== *)
theory Clock
  imports Core
begin

text \<open>
  The hybrid logical clock of \<open>src/clock/hlc.go\<close>. The physical time source (the field \<open>now\<close>, a
  call of \<open>time.Now\<close> in production) is an argument of the operations that read it: \<open>None\<close> is a nil
  source and \<open>Some m\<close> a reading of \<open>m\<close> Unix milliseconds. A method's receiver is an option, \<open>None\<close>
  for a nil pointer, and the methods return the receiver's state after the call with their result.
\<close>

abbreviation clock_ErrInvalidReplicaID :: go_error where
  "clock_ErrInvalidReplicaID \<equiv> errors_New ''clock: invalid replica ID''"

abbreviation clock_ErrInvalidRemoteTag :: go_error where
  "clock_ErrInvalidRemoteTag \<equiv> errors_New ''clock: invalid remote tag''"

abbreviation clock_ErrClockExhausted :: go_error where
  "clock_ErrClockExhausted \<equiv> errors_New ''clock: timestamp space exhausted''"

record clock_State =
  st_ReplicaID :: gostring
  st_WallTime :: u64
  st_Logical :: u64

record HLC =
  hlc_replicaID :: gostring
  hlc_wallTime :: u64
  hlc_logical :: u64

definition NewHLCFromState :: "clock_State \<Rightarrow> HLC res" where
  "NewHLCFromState state =
     (if \<not> Tag_Valid (Tag (st_ReplicaID state) 0 0) then Inl clock_ErrInvalidReplicaID
      else Inr \<lparr>hlc_replicaID = st_ReplicaID state, hlc_wallTime = st_WallTime state,
                hlc_logical = st_Logical state\<rparr>)"

definition NewHLC :: "gostring \<Rightarrow> HLC res" where
  "NewHLC replicaID =
     NewHLCFromState \<lparr>st_ReplicaID = replicaID, st_WallTime = 0, st_Logical = 0\<rparr>"

definition HLC_ReplicaID :: "HLC option \<Rightarrow> gostring" where
  "HLC_ReplicaID h = (case h of None \<Rightarrow> [] | Some h \<Rightarrow> hlc_replicaID h)"

definition HLC_Snapshot :: "HLC option \<Rightarrow> clock_State" where
  "HLC_Snapshot h = (case h of
      None \<Rightarrow> \<lparr>st_ReplicaID = [], st_WallTime = 0, st_Logical = 0\<rparr>
    | Some h \<Rightarrow> \<lparr>st_ReplicaID = hlc_replicaID h, st_WallTime = hlc_wallTime h,
                st_Logical = hlc_logical h\<rparr>)"

definition physicalMillis :: "int option \<Rightarrow> u64 res" where
  "physicalMillis now = (case now of
      None \<Rightarrow> Inl clock_ErrClockExhausted
    | Some millis \<Rightarrow>
        if millis < 0 then Inl clock_ErrClockExhausted else Inr (word_of_int millis))"

definition nextTimestamp :: "u64 \<Rightarrow> u64 \<Rightarrow> (u64 \<times> u64) res" where
  "nextTimestamp wallTime logical =
     (if logical \<noteq> max_u64 then Inr (wallTime, logical + 1)
      else if wallTime = max_u64 then Inl clock_ErrClockExhausted
      else Inr (wallTime + 1, 0))"

definition advanceLocal :: "HLC \<Rightarrow> u64 \<Rightarrow> HLC \<times> tag res" where
  "advanceLocal h physical =
     (if hlc_wallTime h < physical then
        (let h' = h\<lparr>hlc_wallTime := physical, hlc_logical := 0\<rparr> in
         (h', Inr (Tag (hlc_replicaID h') (hlc_wallTime h') (hlc_logical h'))))
      else (case nextTimestamp (hlc_wallTime h) (hlc_logical h) of
          Inl err \<Rightarrow> (h, Inl err)
        | Inr (wallTime, logical) \<Rightarrow>
            (let h' = h\<lparr>hlc_wallTime := wallTime, hlc_logical := logical\<rparr> in
             (h', Inr (Tag (hlc_replicaID h') (hlc_wallTime h') (hlc_logical h'))))))"

definition HLC_Now :: "HLC option \<Rightarrow> int option \<Rightarrow> HLC option \<times> tag res" where
  "HLC_Now h now = (case h of
      None \<Rightarrow> (None, Inl clock_ErrClockExhausted)
    | Some h \<Rightarrow> (case physicalMillis now of
          Inl err \<Rightarrow> (Some h, Inl err)
        | Inr physical \<Rightarrow> map_prod Some id (advanceLocal h physical)))"

definition set_next :: "HLC \<Rightarrow> (u64 \<times> u64) res \<Rightarrow> HLC \<times> unit res" where
  "set_next h r = (case r of
      Inl err \<Rightarrow> (h, Inl err)
    | Inr (wallTime, logical) \<Rightarrow> (h\<lparr>hlc_wallTime := wallTime, hlc_logical := logical\<rparr>, Inr ()))"

definition HLC_Witness :: "HLC option \<Rightarrow> tag \<Rightarrow> int option \<Rightarrow> HLC option \<times> unit res" where
  "HLC_Witness h remote now = (case h of
      None \<Rightarrow> (None, Inl clock_ErrClockExhausted)
    | Some h \<Rightarrow>
        if \<not> Tag_Valid remote then (Some h, Inl clock_ErrInvalidRemoteTag)
        else (case physicalMillis now of
            Inl err \<Rightarrow> (Some h, Inl err)
          | Inr physical \<Rightarrow>
              (let maxWall = max (max (hlc_wallTime h) (WallTime remote)) physical in
               map_prod Some id
                 (if maxWall = hlc_wallTime h \<and> maxWall = WallTime remote then
                    set_next h (nextTimestamp maxWall (max (hlc_logical h) (Logical remote)))
                  else if maxWall = hlc_wallTime h then
                    set_next h (nextTimestamp (hlc_wallTime h) (hlc_logical h))
                  else if maxWall = WallTime remote then
                    set_next h (nextTimestamp (WallTime remote) (Logical remote))
                  else (h\<lparr>hlc_wallTime := maxWall, hlc_logical := 0\<rparr>, Inr ())))))"

section \<open>Positions on the time line\<close>

text \<open>
  A pair of a wall time and a logical counter is a position below \<open>2 ^ 128\<close>; \<open>nextTimestamp\<close> is its
  successor and fails at the last one only.
\<close>

definition stamp :: "u64 \<Rightarrow> u64 \<Rightarrow> nat" where
  "stamp wall logical = unat wall * 2 ^ 64 + unat logical"

definition hlc_stamp :: "HLC \<Rightarrow> nat" where
  "hlc_stamp h = stamp (hlc_wallTime h) (hlc_logical h)"

definition tag_stamp :: "tag \<Rightarrow> nat" where
  "tag_stamp t = stamp (WallTime t) (Logical t)"

definition hlc_inv :: "HLC \<Rightarrow> bool" where
  "hlc_inv h \<longleftrightarrow> valid_replica (hlc_replicaID h)"

lemma unat_succ: "w \<noteq> max_u64 \<Longrightarrow> unat (w + 1) = Suc (unat w)"
proof -
  assume "w \<noteq> max_u64"
  then have "1 + w \<noteq> 0" by (metis add.commute eq_neg_iff_add_eq_0)
  then show ?thesis by (simp add: unatSuc add.commute)
qed

lemma nextTimestamp_stamp:
  "nextTimestamp w l = Inr (w', l') \<Longrightarrow> stamp w' l' = Suc (stamp w l)"
  by (auto simp: nextTimestamp_def stamp_def unat_succ unat_max_u64 split: if_splits)

lemma nextTimestamp_error:
  "nextTimestamp w l = Inl e \<longleftrightarrow> e = clock_ErrClockExhausted \<and> w = max_u64 \<and> l = max_u64"
  by (auto simp: nextTimestamp_def)

lemma stamp_wall_less: "w < w' \<Longrightarrow> stamp w l < stamp w' l'"
proof -
  assume "w < w'"
  then have "Suc (unat w) \<le> unat w'" by (simp add: word_less_nat_alt Suc_le_eq)
  then have "Suc (unat w) * 2 ^ 64 \<le> unat w' * 2 ^ 64" by (rule mult_le_mono1)
  with unat_u64_less[of l] show ?thesis by (simp add: stamp_def)
qed

lemma stamp_mono: "l \<le> l' \<Longrightarrow> stamp w l \<le> stamp w l'"
  by (simp add: stamp_def word_le_nat_alt)

lemma stamp_inj: "stamp w l = stamp w' l' \<longleftrightarrow> w = w' \<and> l = l'"
proof
  assume eq: "stamp w l = stamp w' l'"
  then have "w = w'" by (metis less_irrefl linorder_neqE stamp_wall_less)
  with eq show "w = w' \<and> l = l'" by (auto simp: stamp_def intro: unsigned_word_eqI)
qed simp

lemma tag_stamp_less: "tag_stamp t < tag_stamp u \<Longrightarrow> t < u"
proof -
  assume *: "tag_stamp t < tag_stamp u"
  have "\<not> WallTime u < WallTime t"
    using * stamp_wall_less[of "WallTime u" "WallTime t" "Logical u" "Logical t"]
    by (auto simp: tag_stamp_def)
  moreover have "WallTime t = WallTime u \<Longrightarrow> Logical t < Logical u"
    using * by (simp add: tag_stamp_def stamp_def word_less_nat_alt)
  ultimately show ?thesis by (auto simp: less_tag_def)
qed

section \<open>Each operation on every branch\<close>

lemma Now_cases:
  assumes "HLC_Now (Some h) now = (s, r)"
  obtains (error) e where "r = Inl e" "e = clock_ErrClockExhausted" "s = Some h"
  | (ok) h' where "s = Some h'" "hlc_replicaID h' = hlc_replicaID h" "hlc_stamp h < hlc_stamp h'"
      "r = Inr (Tag (hlc_replicaID h') (hlc_wallTime h') (hlc_logical h'))"
proof (cases "physicalMillis now")
  case (Inl e)
  with assms error show ?thesis
    by (auto simp: HLC_Now_def physicalMillis_def split: option.splits if_splits)
next
  case (Inr p)
  then have adv: "(s, r) = map_prod Some id (advanceLocal h p)"
    using assms by (simp add: HLC_Now_def)
  show ?thesis
  proof (cases "hlc_wallTime h < p")
    case True
    with adv show ?thesis
      by (intro ok[of "h\<lparr>hlc_wallTime := p, hlc_logical := 0\<rparr>"])
        (simp_all add: advanceLocal_def hlc_stamp_def stamp_wall_less)
  next
    case False
    show ?thesis
    proof (cases "nextTimestamp (hlc_wallTime h) (hlc_logical h)")
      case (Inl e)
      with False adv error show ?thesis by (auto simp: advanceLocal_def nextTimestamp_error)
    next
      case (Inr nxt)
      obtain w l where [simp]: "nxt = (w, l)" by fastforce
      from False adv Inr show ?thesis
        by (intro ok[of "h\<lparr>hlc_wallTime := w, hlc_logical := l\<rparr>"])
          (simp_all add: advanceLocal_def hlc_stamp_def nextTimestamp_stamp)
    qed
  qed
qed

lemma set_next_cases:
  assumes "set_next h (nextTimestamp w l) = (h', r)"
  shows "r = Inl clock_ErrClockExhausted \<and> h' = h \<or>
    r = Inr () \<and> hlc_replicaID h' = hlc_replicaID h \<and> hlc_stamp h' = Suc (stamp w l)"
  using assms
  by (cases "nextTimestamp w l")
    (auto simp: set_next_def hlc_stamp_def nextTimestamp_error dest: nextTimestamp_stamp)

lemma Witness_cases:
  assumes "HLC_Witness (Some h) remote now = (s, r)"
  obtains (error) e where "r = Inl e" "s = Some h"
      "e = (if Tag_Valid remote then clock_ErrClockExhausted else clock_ErrInvalidRemoteTag)"
  | (ok) h' where "s = Some h'" "r = Inr ()" "hlc_replicaID h' = hlc_replicaID h"
      "hlc_stamp h < hlc_stamp h'" "tag_stamp remote < hlc_stamp h'"
proof (cases "physicalMillis now")
  case (Inl e)
  with assms error show ?thesis
    by (auto simp: HLC_Witness_def physicalMillis_def split: option.splits if_splits)
next
  case (Inr p)
  show ?thesis
  proof (cases "Tag_Valid remote")
    case False
    with assms error show ?thesis by (auto simp: HLC_Witness_def)
  next
    case True
    define m where "m = max (max (hlc_wallTime h) (WallTime remote)) p"
    obtain h' where h': "s = Some h'" and step: "(h', r) =
        (if m = hlc_wallTime h \<and> m = WallTime remote then
           set_next h (nextTimestamp m (max (hlc_logical h) (Logical remote)))
         else if m = hlc_wallTime h then set_next h (nextTimestamp (hlc_wallTime h) (hlc_logical h))
         else if m = WallTime remote then set_next h (nextTimestamp (WallTime remote) (Logical remote))
         else (h\<lparr>hlc_wallTime := m, hlc_logical := 0\<rparr>, Inr ()))"
      using assms True Inr by (auto simp: HLC_Witness_def Let_def m_def[symmetric] map_prod_def
          split: prod.splits)
    have le: "hlc_wallTime h \<le> m" "WallTime remote \<le> m" by (simp_all add: m_def le_max_iff_disj)
    have "r = Inl clock_ErrClockExhausted \<and> h' = h \<or> r = Inr () \<and> hlc_replicaID h' = hlc_replicaID h \<and>
      hlc_stamp h < hlc_stamp h' \<and> tag_stamp remote < hlc_stamp h'"
    proof -
      consider "m = hlc_wallTime h" "m = WallTime remote"
        | "m = hlc_wallTime h" "WallTime remote < m"
        | "hlc_wallTime h < m" "m = WallTime remote"
        | "hlc_wallTime h < m" "WallTime remote < m"
        using le by fastforce
      then show ?thesis
      proof cases
        case 1
        then have "hlc_stamp h \<le> stamp m (max (hlc_logical h) (Logical remote))"
          "tag_stamp remote \<le> stamp m (max (hlc_logical h) (Logical remote))"
          by (simp_all add: hlc_stamp_def tag_stamp_def stamp_mono)
        moreover have "set_next h (nextTimestamp m (max (hlc_logical h) (Logical remote))) = (h', r)"
          using 1 step by simp
        ultimately show ?thesis by (auto dest!: set_next_cases)
      next
        case 2
        then have "set_next h (nextTimestamp (hlc_wallTime h) (hlc_logical h)) = (h', r)"
          "tag_stamp remote < hlc_stamp h"
          using step by (auto simp: hlc_stamp_def tag_stamp_def stamp_wall_less)
        then show ?thesis by (auto simp: hlc_stamp_def[of h] dest!: set_next_cases)
      next
        case 3
        then have "set_next h (nextTimestamp (WallTime remote) (Logical remote)) = (h', r)"
          "hlc_stamp h < tag_stamp remote"
          using step by (auto simp: hlc_stamp_def tag_stamp_def stamp_wall_less)
        then show ?thesis by (auto simp: tag_stamp_def[of remote] dest!: set_next_cases)
      next
        case 4
        then have "m \<noteq> hlc_wallTime h" "m \<noteq> WallTime remote" by auto
        then have "h' = h\<lparr>hlc_wallTime := m, hlc_logical := 0\<rparr>" "r = Inr ()" using step by simp_all
        with 4 show ?thesis by (simp add: hlc_stamp_def tag_stamp_def stamp_wall_less)
      qed
    qed
    with h' True error ok show ?thesis by auto
  qed
qed

section \<open>Runs of a clock\<close>

text \<open>
  What a replica does with its clock: it takes a tag, it observes a remote tag, or it restarts from
  the state it persisted. \<open>clock_run\<close> returns the tags the clock emitted, in order, and the clock.
\<close>

datatype clock_event = TakeNow "int option" | Observe tag "int option" | Restart

fun clock_step :: "HLC \<Rightarrow> clock_event \<Rightarrow> tag list \<times> HLC" where
  "clock_step h (TakeNow now) = (case HLC_Now (Some h) now of
      (h', Inr t) \<Rightarrow> ([t], the h') | (h', Inl _) \<Rightarrow> ([], the h'))"
| "clock_step h (Observe remote now) = ([], the (fst (HLC_Witness (Some h) remote now)))"
| "clock_step h Restart = (case NewHLCFromState (HLC_Snapshot (Some h)) of
      Inr h' \<Rightarrow> ([], h') | Inl _ \<Rightarrow> ([], h))"

fun clock_run :: "HLC \<Rightarrow> clock_event list \<Rightarrow> tag list \<times> HLC" where
  "clock_run h [] = ([], h)"
| "clock_run h (e # es) =
     (let (ts, h') = clock_step h e; (us, h'') = clock_run h' es in (ts @ us, h''))"

lemma restart_same: "hlc_inv h \<Longrightarrow> NewHLCFromState (HLC_Snapshot (Some h)) = Inr h"
  by (simp add: hlc_inv_def HLC_Snapshot_def NewHLCFromState_def)

lemma clock_step_stamp:
  assumes "hlc_inv h" "clock_step h e = (ts, h')"
  shows "hlc_replicaID h' = hlc_replicaID h" "hlc_stamp h \<le> hlc_stamp h'"
    "ts = [] \<or> (ts = [Tag (hlc_replicaID h) (hlc_wallTime h') (hlc_logical h')] \<and> hlc_stamp h < hlc_stamp h')"
proof -
  have "hlc_replicaID h' = hlc_replicaID h \<and> hlc_stamp h \<le> hlc_stamp h' \<and> (ts = [] \<or>
    (ts = [Tag (hlc_replicaID h) (hlc_wallTime h') (hlc_logical h')] \<and> hlc_stamp h < hlc_stamp h'))"
  proof (cases e)
    case (TakeNow now)
    obtain s r where n: "HLC_Now (Some h) now = (s, r)" by (cases "HLC_Now (Some h) now")
    then show ?thesis by (cases rule: Now_cases[OF n]) (use n TakeNow assms(2) in auto)
  next
    case (Observe remote now)
    obtain s r where n: "HLC_Witness (Some h) remote now = (s, r)" by fastforce
    then show ?thesis by (cases rule: Witness_cases[OF n]) (use n Observe assms(2) in auto)
  next
    case Restart
    then show ?thesis using assms by (auto simp: restart_same)
  qed
  then show "hlc_replicaID h' = hlc_replicaID h" "hlc_stamp h \<le> hlc_stamp h'"
    "ts = [] \<or> (ts = [Tag (hlc_replicaID h) (hlc_wallTime h') (hlc_logical h')] \<and> hlc_stamp h < hlc_stamp h')"
    by blast+
qed

lemma clock_run_stamps:
  assumes "hlc_inv h" "clock_run h es = (ts, h')"
  shows "hlc_replicaID h' = hlc_replicaID h \<and> hlc_stamp h \<le> hlc_stamp h' \<and>
    sorted_wrt (\<lambda>t u. tag_stamp t < tag_stamp u) ts \<and>
    (\<forall>t \<in> set ts. hlc_stamp h < tag_stamp t \<and> tag_stamp t \<le> hlc_stamp h' \<and> ReplicaID t = hlc_replicaID h)"
  using assms
proof (induction es arbitrary: h ts)
  case Nil
  then show ?case by simp
next
  case (Cons e es)
  obtain us h1 where s: "clock_step h e = (us, h1)" by fastforce
  obtain vs where r: "clock_run h1 es = (vs, h')" and ts: "ts = us @ vs"
    using Cons.prems(2) s by (auto split: prod.splits)
  note step = clock_step_stamp[OF Cons.prems(1) s]
  have "hlc_inv h1" using Cons.prems(1) step(1) by (simp add: hlc_inv_def)
  note IH = Cons.IH[OF this r]
  have "us = [] \<or> (\<exists>t. us = [t] \<and> tag_stamp t = hlc_stamp h1 \<and> ReplicaID t = hlc_replicaID h \<and> hlc_stamp h < hlc_stamp h1)"
    using step(3) by (auto simp: tag_stamp_def hlc_stamp_def)
  with IH step(1,2) ts show ?case by fastforce
qed

section \<open>Properties\<close>

lemmas clock_defs = NewHLCFromState_def HLC_Snapshot_def hlc_inv_def HLC_Witness_def HLC_Now_def
  physicalMillis_def set_next_def nextTimestamp_def advanceLocal_def max_def Let_def eval

text \<open>
  C9. Tags are fresh: whatever a replica does with its clock (take tags, observe remote tags, restart
  from the persisted state, with any physical readings, errors included), the tags its clock emits
  are strictly increasing, carry its replica ID, and are above its initial position.
\<close>

theorem clock_tags_increase:
  assumes "NewHLCFromState state = Inr h" and "clock_run h es = (ts, h')"
  shows "sorted_wrt (<) ts \<and> (\<forall>t \<in> set ts. Tag_Valid t \<and> ReplicaID t = st_ReplicaID state \<and>
           stamp (st_WallTime state) (st_Logical state) < tag_stamp t)"
proof -
  have h: "hlc_inv h" "hlc_replicaID h = st_ReplicaID state"
    "hlc_stamp h = stamp (st_WallTime state) (st_Logical state)"
    using assms(1) by (auto simp: NewHLCFromState_def hlc_inv_def hlc_stamp_def split: if_splits)
  note run = clock_run_stamps[OF h(1) assms(2)]
  then have "sorted_wrt (<) ts" by (auto elim!: sorted_wrt_mono_rel[rotated] intro: tag_stamp_less)
  moreover have "\<forall>t \<in> set ts. Tag_Valid t \<and> ReplicaID t = st_ReplicaID state \<and>
           stamp (st_WallTime state) (st_Logical state) < tag_stamp t"
    using run h by (auto simp: hlc_inv_def Tag_Valid_def)
  ultimately show ?thesis by blast
qed

theorem clock_tags_increase_witness:
  "sorted_wrt (<) [Tag [97] 6 0, Tag [97] 9 6] \<and>
   clock_run \<lparr>hlc_replicaID = [97], hlc_wallTime = 5, hlc_logical = max_u64\<rparr>
      [TakeNow (Some 3), Observe (Tag [98] 9 4) (Some 7), Restart, TakeNow (Some 8), TakeNow None] =
     ([Tag [97] 6 0, Tag [97] 9 6], \<lparr>hlc_replicaID = [97], hlc_wallTime = 9, hlc_logical = 6\<rparr>)"
  using clock_tags_increase
    [of "\<lparr>st_ReplicaID = [97], st_WallTime = 5, st_Logical = max_u64\<rparr>"
       "\<lparr>hlc_replicaID = [97], hlc_wallTime = 5, hlc_logical = max_u64\<rparr>"
       "[TakeNow (Some 3), Observe (Tag [98] 9 4) (Some 7), Restart, TakeNow (Some 8), TakeNow None]"
       "[Tag [97] 6 0, Tag [97] 9 6]" "\<lparr>hlc_replicaID = [97], hlc_wallTime = 9, hlc_logical = 6\<rparr>"]
  by (simp add: clock_defs)

text \<open>
  C23. Causality: once \<open>Witness\<close> has accepted a remote tag, every tag the clock emits afterwards is
  greater than the remote one and than every tag it emitted before.
\<close>

theorem witness_dominates:
  assumes "hlc_inv h" and "HLC_Witness (Some h) remote now = (Some h1, Inr ())"
    and "clock_run h1 es = (ts, h')" and "t \<in> set ts"
  shows "Tag_Compare t remote > 0 \<and> hlc_stamp h < tag_stamp t"
proof -
  from assms(2) have w: "hlc_replicaID h1 = hlc_replicaID h" "hlc_stamp h < hlc_stamp h1"
    "tag_stamp remote < hlc_stamp h1"
    by (cases rule: Witness_cases; simp)+
  then have "hlc_inv h1" using assms(1) by (simp add: hlc_inv_def)
  from clock_run_stamps[OF this assms(3)] assms(4) have "hlc_stamp h1 < tag_stamp t" by blast
  with w show ?thesis
    by (auto intro: tag_stamp_less)
qed

theorem witness_dominates_witness:
  "Tag_Compare (Tag [97] 9 6) (Tag [98] 9 4) > 0"
  using witness_dominates
    [of "\<lparr>hlc_replicaID = [97], hlc_wallTime = 5, hlc_logical = 1\<rparr>" "Tag [98] 9 4" "Some 7"
      "\<lparr>hlc_replicaID = [97], hlc_wallTime = 9, hlc_logical = 5\<rparr>" "[TakeNow (Some 8)]"
      "[Tag [97] 9 6]" "\<lparr>hlc_replicaID = [97], hlc_wallTime = 9, hlc_logical = 6\<rparr>" "Tag [97] 9 6"]
  by (simp add: clock_defs)

text \<open>
  C24. The clock never fails early: with a usable physical reading, \<open>Now\<close> fails only at the very last
  position of the 128-bit time line with no later physical time, and then leaves the clock as it was.
\<close>

theorem now_total:
  assumes "0 \<le> millis"
  shows "(\<exists>h' t. HLC_Now (Some h) (Some millis) = (Some h', Inr t)) \<or>
    HLC_Now (Some h) (Some millis) = (Some h, Inl clock_ErrClockExhausted) \<and>
      hlc_stamp h = 2 ^ 128 - 1"
proof (cases "nextTimestamp (hlc_wallTime h) (hlc_logical h)")
  case (Inl e)
  then have "hlc_stamp h = 2 ^ 128 - 1"
    by (simp add: nextTimestamp_error hlc_stamp_def stamp_def unat_max_u64)
  moreover have "e = clock_ErrClockExhausted" using Inl by (simp add: nextTimestamp_error)
  ultimately show ?thesis using Inl assms
    by (simp add: HLC_Now_def physicalMillis_def advanceLocal_def Let_def)
next
  case (Inr p)
  with assms show ?thesis
    by (cases p) (simp add: HLC_Now_def physicalMillis_def advanceLocal_def Let_def)
qed

theorem now_total_witness:
  "\<exists>h' t. HLC_Now (Some \<lparr>hlc_replicaID = [97], hlc_wallTime = 9, hlc_logical = 5\<rparr>) (Some 4) = (Some h', Inr t)"
  using now_total[of 4 "\<lparr>hlc_replicaID = [97], hlc_wallTime = 9, hlc_logical = 5\<rparr>"]
  by (simp add: hlc_stamp_def stamp_def)

end
