(* ===== verification/Wire.thy ===== *)
theory Wire
  imports Core
begin

text \<open>
  The readers and writers of \<open>src/encoding/frame.go\<close> that every payload is built from: canonical
  varints, length-prefixed bytes and tags. A reader returns \<open>None\<close> where the code returns
  \<open>ok = false\<close>, and the value with the next position otherwise. The locale \<open>wire_field\<close> is the
  contract between a writer and its reader, in one law with two directions: what was written is read
  back, and only what would be written is accepted.
\<close>

abbreviation encoding_ErrInvalidFrame :: go_error where
  "encoding_ErrInvalidFrame \<equiv> errors_New ''encoding: invalid frame''"

abbreviation encoding_ErrFrameLimit :: go_error where
  "encoding_ErrFrameLimit \<equiv> errors_New ''encoding: frame limit exceeded''"

record DecoderLimits =
  MaxFrameBytes :: int
  MaxPayload :: int
  MaxCodecID :: int
  MaxElements :: int
  MaxTags :: int
  MaxStringBytes :: int

definition limits_valid :: "DecoderLimits \<Rightarrow> bool" where
  "limits_valid limits \<longleftrightarrow> MaxFrameBytes limits > 0 \<and> MaxPayload limits > 0 \<and> MaxCodecID limits > 0 \<and>
     MaxElements limits > 0 \<and> MaxTags limits > 0 \<and> MaxStringBytes limits > 0"

text \<open>16 MiB less the largest envelope: \<open>4 + 4 * 10 + 256 + 4\<close> bytes.\<close>

definition DefaultLimits :: DecoderLimits where
  "DefaultLimits = \<lparr>MaxFrameBytes = 16777216, MaxPayload = 16777216 - (4 + 4 * 10 + 256 + 4),
     MaxCodecID = 256, MaxElements = 1048576, MaxTags = 1048576, MaxStringBytes = 1048576\<rparr>"

definition AppendUvarint :: "byte list \<Rightarrow> u64 \<Rightarrow> byte list" where
  "AppendUvarint dst value = dst @ uvarint value"

definition UvarintSize :: "u64 \<Rightarrow> nat" where
  "UvarintSize value = length (uvarint value)"

definition AppendTag :: "byte list \<Rightarrow> tag \<Rightarrow> byte list" where
  "AppendTag dst tag =
     (let dst = AppendUvarint dst (of_nat (length (ReplicaID tag)));
          dst = dst @ ReplicaID tag;
          dst = AppendUvarint dst (WallTime tag)
      in AppendUvarint dst (Logical tag))"

definition TagSize :: "tag \<Rightarrow> nat" where
  "TagSize tag = UvarintSize (of_nat (length (ReplicaID tag))) + length (ReplicaID tag) +
     UvarintSize (WallTime tag) + UvarintSize (Logical tag)"

definition ReadUvarint :: "byte list \<Rightarrow> nat \<Rightarrow> (u64 \<times> nat) option" where
  "ReadUvarint data position =
     (if position \<ge> length data then None
      else (let (value, count) = Uvarint (drop position data) in
        if count \<le> 0 then None
        else if int (length (uvarint value)) \<noteq> count then None
        else Some (value, position + nat count)))"

definition uint64AsInt :: "u64 \<Rightarrow> nat option" where
  "uint64AsInt value = (if unat value > 2 ^ 63 - 1 then None else Some (unat value))"

definition ReadBytes :: "byte list \<Rightarrow> nat \<Rightarrow> int \<Rightarrow> (byte list \<times> nat) option" where
  "ReadBytes data position maxBytes =
     (if maxBytes < 0 then None
      else (case ReadUvarint data position of
          None \<Rightarrow> None
        | Some (len, next) \<Rightarrow> (case uint64AsInt len of
              None \<Rightarrow> None
            | Some lengthInt \<Rightarrow>
                if int lengthInt > maxBytes \<or> int lengthInt > int (length data) - int next then None
                else Some (take lengthInt (drop next data), next + lengthInt))))"

definition ReadTag :: "byte list \<Rightarrow> nat \<Rightarrow> int \<Rightarrow> (tag \<times> nat) option" where
  "ReadTag data position maxStringBytes =
     (case ReadBytes data position maxStringBytes of
        None \<Rightarrow> None
      | Some (replicaID, next) \<Rightarrow> (case ReadUvarint data next of
            None \<Rightarrow> None
          | Some (wallTime, next) \<Rightarrow> (case ReadUvarint data next of
                None \<Rightarrow> None
              | Some (logical, next) \<Rightarrow>
                  (let tag = Tag replicaID wallTime logical in
                   if \<not> Tag_Valid tag then None else Some (tag, next)))))"

section \<open>The contract of a reader\<close>

locale wire_field =
  fixes enc :: "'a \<Rightarrow> byte list"
    and ok :: "'a \<Rightarrow> bool"
    and read :: "byte list \<Rightarrow> nat \<Rightarrow> ('a \<times> nat) option"
  assumes read_iff: "read data p = Some (x, q) \<longleftrightarrow>
    ok x \<and> at_pos data p (enc x) \<and> q = p + length (enc x)"
begin

lemma read_written: "ok x \<Longrightarrow> read (pre @ enc x @ post) (length pre) = Some (x, length pre + length (enc x))"
  by (simp add: read_iff)

lemma case_read:
  "(case read data p of None \<Rightarrow> Inl e | Some (x, q) \<Rightarrow> F x q) = Inr r \<longleftrightarrow>
     (\<exists>x. ok x \<and> at_pos data p (enc x) \<and> F x (p + length (enc x)) = Inr r)"
proof -
  have iff: "read data p = Some z \<longleftrightarrow>
      ok (fst z) \<and> at_pos data p (enc (fst z)) \<and> snd z = p + length (enc (fst z))" for z
    using read_iff[of data p "fst z" "snd z"] by simp
  have "(case read data p of None \<Rightarrow> Inl e | Some z \<Rightarrow> F (fst z) (snd z)) = Inr r \<longleftrightarrow>
      (\<exists>z. (ok (fst z) \<and> at_pos data p (enc (fst z)) \<and> snd z = p + length (enc (fst z))) \<and> F (fst z) (snd z) = Inr r)"
    by (rule case_option_Inr) (rule iff)
  then show ?thesis by (cases "read data p") auto
qed

lemma read_advances: "read data p = Some (x, q) \<Longrightarrow> q = p + length (enc x) \<and> q \<le> length data"
  by (simp add: read_iff at_pos_def)

lemma enc_prefix_free:
  assumes "ok x" and "ok y" and "enc x @ post = enc y @ post'"
  shows "x = y"
proof -
  have "read (enc x @ post) 0 = Some (x, length (enc x))"
    using read_written[OF assms(1), of "[]" post] by simp
  moreover have "read (enc x @ post) 0 = Some (y, length (enc y))"
    using read_written[OF assms(2), of "[]" post'] assms(3) by simp
  ultimately show ?thesis by simp
qed

text \<open>A counted sequence of fields whose keys must ascend strictly, as the decoders read it.\<close>

fun read_ascending :: "('a \<Rightarrow> 'k::linorder) \<Rightarrow> byte list \<Rightarrow> nat \<Rightarrow> 'k option \<Rightarrow> nat \<Rightarrow> ('a list \<times> nat) option" where
  "read_ascending key data 0 prev p = Some ([], p)"
| "read_ascending key data (Suc n) prev p = (case read data p of
      None \<Rightarrow> None
    | Some (x, q) \<Rightarrow>
        if (case prev of None \<Rightarrow> False | Some k \<Rightarrow> \<not> k < key x) then None
        else (case read_ascending key data n (Some (key x)) q of
            None \<Rightarrow> None | Some (xs, r) \<Rightarrow> Some (x # xs, r)))"

abbreviation above :: "'k::linorder option \<Rightarrow> 'k list \<Rightarrow> bool" where
  "above prev ks \<equiv> (case prev of None \<Rightarrow> True | Some k \<Rightarrow> (\<forall>k' \<in> set ks. k < k'))"

lemma read_ascending_iff:
  "p \<le> length data \<Longrightarrow> read_ascending key data n prev p = Some (xs, q) \<longleftrightarrow>
     length xs = n \<and> (\<forall>x \<in> set xs. ok x) \<and> sorted_wrt (<) (map key xs) \<and> above prev (map key xs) \<and>
     at_pos data p (concat (map enc xs)) \<and> q = p + length (concat (map enc xs))"
proof (induction n arbitrary: prev p xs)
  case 0
  then show ?case by (auto split: option.splits)
next
  case (Suc n)
  show ?case
  proof (cases xs)
    case Nil
    then show ?thesis by (auto split: option.splits if_splits)
  next
    case (Cons x ys)
    have step: "read_ascending key data (Suc n) prev p = Some (x # ys, q) \<longleftrightarrow>
      (\<exists>r. read data p = Some (x, r) \<and> above prev [key x] \<and>
         read_ascending key data n (Some (key x)) r = Some (ys, q))"
      by (auto split: option.splits if_splits)
    have IH: "p + length (enc x) \<le> length data \<Longrightarrow>
      read_ascending key data n (Some (key x)) (p + length (enc x)) = Some (ys, q) \<longleftrightarrow>
        length ys = n \<and> (\<forall>x \<in> set ys. ok x) \<and> sorted_wrt (<) (map key ys) \<and>
        (\<forall>y \<in> set ys. key x < key y) \<and> at_pos data (p + length (enc x)) (concat (map enc ys)) \<and>
        q = p + length (enc x) + length (concat (map enc ys))"
      using Suc.IH by simp
    show ?thesis
      unfolding Cons step read_iff
      using IH by (cases prev) (auto simp: at_pos_append dest: at_pos_le less_trans)
  qed
qed

text \<open>The same sequence behind its count, with the bound the decoders put on the count.\<close>

definition counted_enc :: "'a list \<Rightarrow> byte list" where
  "counted_enc xs = uvarint (of_nat (length xs)) @ concat (map enc xs)"

lemma read_counted:
  "(\<exists>cnt. at_pos data p (uvarint cnt) \<and> uint cnt \<le> maxCount \<and>
      read_ascending key data (unat cnt) None (p + length (uvarint cnt)) = Some (xs, q)) \<longleftrightarrow>
   int (length xs) \<le> maxCount \<and> length xs < 2 ^ 64 \<and> (\<forall>x \<in> set xs. ok x) \<and> sorted_wrt (<) (map key xs) \<and>
     at_pos data p (counted_enc xs) \<and> q = p + length (counted_enc xs)" (is "?l \<longleftrightarrow> ?r")
proof
  assume ?l
  then obtain cnt where c: "at_pos data p (uvarint cnt)" "uint cnt \<le> maxCount"
    and r: "read_ascending key data (unat cnt) None (p + length (uvarint cnt)) = Some (xs, q)" by blast
  from r read_ascending_iff[OF at_pos_le[OF c(1)], of key "unat cnt" None xs q] have xs: "length xs = unat cnt" "\<forall>x \<in> set xs. ok x"
    "sorted_wrt (<) (map key xs)" "at_pos data (p + length (uvarint cnt)) (concat (map enc xs))"
    "q = p + length (uvarint cnt) + length (concat (map enc xs))" by auto
  then have "int (length xs) = uint cnt" "length xs < 2 ^ 64" using unat_u64_less[of cnt] by simp_all
  with xs c show ?r by (simp add: counted_enc_def at_pos_append)
next
  assume r: ?r
  let ?c = "of_nat (length xs) :: u64"
  have u: "unat ?c = length xs" using r by (simp add: unsigned_of_nat take_bit_nat_eq_self)
  then have "uint ?c = int (length xs)" by (simp add: uint_nat)
  moreover have c: "at_pos data p (uvarint ?c)" "at_pos data (p + length (uvarint ?c)) (concat (map enc xs))"
    using r by (auto simp: counted_enc_def at_pos_append)
  ultimately show ?l
    using r u read_ascending_iff[OF at_pos_le[OF c(1)], of key "length xs" None xs q]
    by (intro exI[of _ ?c]) (simp add: counted_enc_def)
qed

end

text \<open>Fields that are the entries of a map, read in the order of their keys.\<close>

locale wire_map = wire_field enc ok read
  for enc :: "'k::linorder \<times> 'v \<Rightarrow> byte list" and ok and read
begin

lemma read_counted_map:
  "(\<exists>cnt xs. at_pos data p (uvarint cnt) \<and> uint cnt \<le> maxCount \<and>
      read_ascending fst data (unat cnt) None (p + length (uvarint cnt)) = Some (xs, q) \<and>
      m = fold (\<lambda>(k, v). fmupd k v) xs fmempty \<and> R (unat cnt)) \<longleftrightarrow>
   int (fm_size m) \<le> maxCount \<and> fm_size m < 2 ^ 64 \<and> (\<forall>k v. fmlookup m k = Some v \<longrightarrow> ok (k, v)) \<and>
     at_pos data p (counted_enc (fm_items m)) \<and> q = p + length (counted_enc (fm_items m)) \<and> R (fm_size m)" (is "?l \<longleftrightarrow> ?r")
proof
  assume ?l
  then obtain cnt xs where c: "at_pos data p (uvarint cnt)" "uint cnt \<le> maxCount"
    and xs: "read_ascending fst data (unat cnt) None (p + length (uvarint cnt)) = Some (xs, q)"
    and m: "m = fold (\<lambda>(k, v). fmupd k v) xs fmempty" and R: "R (unat cnt)" by blast
  from c xs have "\<exists>cnt. at_pos data p (uvarint cnt) \<and> uint cnt \<le> maxCount \<and>
      read_ascending fst data (unat cnt) None (p + length (uvarint cnt)) = Some (xs, q)" by blast
  note r = this[unfolded read_counted]
  have len: "length xs = unat cnt" using xs read_ascending_iff[OF at_pos_le[OF c(1)], of fst "unat cnt" None xs q] by simp
  have d: "distinct (map fst xs)" using r by (simp add: strict_sorted_iff)
  have mm: "m = fmap_of_list xs" using m fold_fmupd_of_list[OF d] by simp
  have items: "fm_items m = xs" "fm_size m = length xs"
    using r d by (simp_all add: mm fm_items_fmap_of_list fm_size_fmap_of_list)
  have "ok (k, v)" if "fmlookup m k = Some v" for k v
    using that r unfolding fm_items_mem[symmetric] items by blast
  with r items len R show ?r by simp
next
  assume r: ?r
  have s: "sorted_wrt (<) (map fst (fm_items m))" by (simp only: map_fst_fm_items fm_keys_simps)
  have o: "\<forall>x \<in> set (fm_items m). ok x" using r by (auto simp: set_fm_items)
  have "\<exists>cnt. at_pos data p (uvarint cnt) \<and> uint cnt \<le> maxCount \<and>
      read_ascending fst data (unat cnt) None (p + length (uvarint cnt)) = Some (fm_items m, q)"
    unfolding read_counted using r s o by simp
  then obtain cnt where c: "at_pos data p (uvarint cnt)" "uint cnt \<le> maxCount"
      "read_ascending fst data (unat cnt) None (p + length (uvarint cnt)) = Some (fm_items m, q)" by blast
  then have "unat cnt = fm_size m" using read_ascending_iff[OF at_pos_le[OF c(1)], of fst "unat cnt" None "fm_items m" q] by simp
  moreover have "m = fold (\<lambda>(k, v). fmupd k v) (fm_items m) fmempty" using fold_fmupd_of_list[OF distinct_fst_items[of m]] by simp
  ultimately show ?l using c r by metis
qed

end

section \<open>The readers satisfy it\<close>

lemma ReadUvarint_iff:
  "ReadUvarint data p = Some (v, q) \<longleftrightarrow> at_pos data p (uvarint v) \<and> q = p + length (uvarint v)"
proof (cases "p < length data")
  case False
  moreover have "\<not> at_pos data p (uvarint v)"
    using False length_uvarint_pos[of v] unfolding at_pos_def by linarith
  ultimately show ?thesis by (simp add: ReadUvarint_def)
next
  case True
  obtain w c where u: "Uvarint (drop p data) = (w, c)" by fastforce
  have "ReadUvarint data p = Some (v, q) \<longleftrightarrow>
      w = v \<and> c = int (length (uvarint v)) \<and> q = p + length (uvarint v)"
    using True u by (auto simp: ReadUvarint_def)
  also have "\<dots> \<longleftrightarrow> (Uvarint (drop p data) = (v, int (length (uvarint v))) \<and> q = p + length (uvarint v))"
    using u by auto
  also have "\<dots> \<longleftrightarrow> at_pos data p (uvarint v) \<and> q = p + length (uvarint v)"
    using Uvarint_canonical[of "drop p data" v "int (length (uvarint v))"] True
    by (auto simp: at_pos_def)
  finally show ?thesis .
qed

interpretation uvarint_field: wire_field uvarint "\<lambda>_. True" ReadUvarint
  by unfold_locales (simp add: ReadUvarint_iff)

text \<open>Length-prefixed bytes, as \<open>AppendUvarint\<close> of the length and an \<open>append\<close> write them.\<close>

definition bytes_enc :: "byte list \<Rightarrow> byte list" where
  "bytes_enc bs = uvarint (of_nat (length bs)) @ bs"

definition bytes_ok :: "int \<Rightarrow> byte list \<Rightarrow> bool" where
  "bytes_ok maxBytes bs \<longleftrightarrow> int (length bs) \<le> maxBytes \<and> int (length bs) \<le> max_int"

lemma unat_of_nat_len:
  "int n \<le> max_int \<Longrightarrow> unat (of_nat n :: u64) = n"
  by (simp add: unsigned_of_nat take_bit_nat_eq_self)

lemma uint_of_nat_len: "int n \<le> max_int \<Longrightarrow> uint (of_nat n :: u64) = int n"
  using unat_of_nat_len[of n] by (simp add: uint_nat)

lemma uint64AsInt_of_nat: "int n \<le> max_int \<Longrightarrow> uint64AsInt (of_nat n) = Some n"
  by (simp add: uint64AsInt_def unat_of_nat_len)

lemma uint64AsInt_iff: "uint64AsInt v = Some n \<longleftrightarrow> int n \<le> max_int \<and> v = of_nat n"
  using unat_of_nat_len[of n] by (auto simp: uint64AsInt_def)

lemma case_uint64AsInt:
  "(case uint64AsInt v of None \<Rightarrow> Inl e | Some n \<Rightarrow> F n) = Inr r \<longleftrightarrow>
     (\<exists>n. int n \<le> max_int \<and> v = of_nat n \<and> F n = Inr r)"
  using case_option_Inr[OF uint64AsInt_iff] by (simp only: conj_assoc)

lemma ReadBytes_iff:
  "ReadBytes data p m = Some (bs, q) \<longleftrightarrow> bytes_ok m bs \<and> at_pos data p (bytes_enc bs) \<and> q = p + length (bytes_enc bs)"
proof
  assume "ReadBytes data p m = Some (bs, q)"
  then obtain v r n where
    "ReadUvarint data p = Some (v, r)" "uint64AsInt v = Some n" "int n \<le> m"
    "int n \<le> int (length data) - int r" "bs = take n (drop r data)" "q = r + n"
    by (auto simp: ReadBytes_def split: if_splits option.splits)
  then show "bytes_ok m bs \<and> at_pos data p (bytes_enc bs) \<and> q = p + length (bytes_enc bs)"
    by (auto simp: ReadUvarint_iff uint64AsInt_iff bytes_enc_def bytes_ok_def at_pos_append)
       (auto simp: at_pos_def)
next
  assume r: "bytes_ok m bs \<and> at_pos data p (bytes_enc bs) \<and> q = p + length (bytes_enc bs)"
  let ?v = "of_nat (length bs) :: u64"
  have "ReadUvarint data p = Some (?v, p + length (uvarint ?v))"
    and "uint64AsInt ?v = Some (length bs)" and "at_pos data (p + length (uvarint ?v)) bs"
    using r by (auto simp: ReadUvarint_iff bytes_enc_def bytes_ok_def at_pos_append uint64AsInt_of_nat)
  with r show "ReadBytes data p m = Some (bs, q)"
    by (auto simp: ReadBytes_def bytes_ok_def at_pos_def bytes_enc_def)
qed

interpretation bytes_field: wire_field bytes_enc "bytes_ok m" "\<lambda>data p. ReadBytes data p m" for m
  by unfold_locales (rule ReadBytes_iff)

definition tag_enc :: "tag \<Rightarrow> byte list" where
  "tag_enc t = bytes_enc (ReplicaID t) @ uvarint (WallTime t) @ uvarint (Logical t)"

definition tag_ok :: "int \<Rightarrow> tag \<Rightarrow> bool" where
  "tag_ok m t \<longleftrightarrow> Tag_Valid t \<and> bytes_ok m (ReplicaID t)"

lemma AppendTag_eq: "AppendTag dst t = dst @ tag_enc t"
  by (simp add: AppendTag_def AppendUvarint_def tag_enc_def bytes_enc_def Let_def)

lemma TagSize_eq: "TagSize t = length (tag_enc t)"
  by (simp add: TagSize_def UvarintSize_def tag_enc_def bytes_enc_def)

lemma ReadTag_iff:
  "ReadTag data p m = Some (t, q) \<longleftrightarrow> tag_ok m t \<and> at_pos data p (tag_enc t) \<and> q = p + length (tag_enc t)"
proof -
  have "ReadTag data p m = Some (t, q) \<longleftrightarrow> (\<exists>n n'. ReadBytes data p m = Some (ReplicaID t, n) \<and>
     ReadUvarint data n = Some (WallTime t, n') \<and> ReadUvarint data n' = Some (Logical t, q) \<and> Tag_Valid t)"
    by (cases t) (auto simp: ReadTag_def Let_def split: option.splits if_splits)
  also have "\<dots> \<longleftrightarrow> tag_ok m t \<and> at_pos data p (tag_enc t) \<and> q = p + length (tag_enc t)"
    by (auto simp: ReadBytes_iff ReadUvarint_iff tag_ok_def tag_enc_def at_pos_append add.assoc)
  finally show ?thesis .
qed

interpretation tag_field: wire_field tag_enc "tag_ok m" "\<lambda>data p. ReadTag data p m" for m
  by unfold_locales (rule ReadTag_iff)

end
