(* ===== verification/Framing.thy ===== *)
theory Framing
  imports Wire
begin

text \<open>
  The outer frames of \<open>src/encoding/frame.go\<close> and \<open>src/encoding/frame_v2.go\<close>. The DEFLATE compressor
  of \<open>compress/flate\<close> is a parameter: \<open>deflate\<close> gives the compressed bytes or an error, and \<open>flate\<close>
  the bytes a reader of the given input delivers with the error that ends the stream (\<open>None\<close> for
  \<open>io.EOF\<close>). A \<open>PayloadWriter\<close> is an option (nil is \<open>None\<close>) on the bytes it stores from the start of
  its zeroed buffer, or the error it returns.
\<close>

definition FormatVersion :: u64 where
  "FormatVersion = 1"

definition FormatVersionV2 :: u64 where
  "FormatVersionV2 = 2"

abbreviation (input) v2PayloadRaw :: u64 where
  "v2PayloadRaw \<equiv> 0"

abbreviation (input) v2PayloadDeflate :: u64 where
  "v2PayloadDeflate \<equiv> 1"

abbreviation io_EOF :: go_error where
  "io_EOF \<equiv> errors_New ''EOF''"

abbreviation io_ErrUnexpectedEOF :: go_error where
  "io_ErrUnexpectedEOF \<equiv> errors_New ''unexpected EOF''"

record Frame =
  TypeID :: u64
  CodecID :: gostring
  Payload :: "byte list"
  formatVersion :: u64
  payloadOwned :: bool

definition Frame_Version :: "Frame \<Rightarrow> u64" where
  "Frame_Version f = (if formatVersion f = 0 then FormatVersion else formatVersion f)"

definition magic :: "byte list" where
  "magic = [0x43, 0x52, 0x44, 0x54]"

type_synonym PayloadWriter = "byte list res option"

definition fill :: "nat \<Rightarrow> byte list \<Rightarrow> byte list" where
  "fill n bs = take n (bs @ replicate (n - length bs) 0)"

section \<open>Format version 1\<close>

definition PeekFrameFormatVersion :: "byte list \<Rightarrow> DecoderLimits \<Rightarrow> u64 res" where
  "PeekFrameFormatVersion data limits =
     (if \<not> limits_valid limits \<or> int (length data) > MaxFrameBytes limits \<or> length data < 9
      then Inl encoding_ErrFrameLimit
      else if take 4 data \<noteq> magic then Inl encoding_ErrInvalidFrame
      else (case ReadUvarint data 4 of
          None \<Rightarrow> Inl encoding_ErrInvalidFrame
        | Some (version, _) \<Rightarrow>
            if version \<noteq> FormatVersion \<and> version \<noteq> FormatVersionV2
            then Inl encoding_ErrInvalidFrame else Inr version))"

definition MarshalFrameWithPayloadAndLimits ::
    "u64 \<Rightarrow> gostring \<Rightarrow> int \<Rightarrow> DecoderLimits \<Rightarrow> PayloadWriter \<Rightarrow> byte list res" where
  "MarshalFrameWithPayloadAndLimits typeID codecID payloadLength limits writePayload =
     (if \<not> limits_valid limits \<or> typeID = 0 \<or> payloadLength < 0 \<or>
         int (length codecID) > MaxCodecID limits \<or> payloadLength > MaxPayload limits
      then Inl encoding_ErrFrameLimit
      else (case writePayload of
          None \<Rightarrow> Inl encoding_ErrInvalidFrame
        | Some written \<Rightarrow>
            (let envelopeBytes = int (4 + UvarintSize FormatVersion + UvarintSize typeID +
                   UvarintSize (of_nat (length codecID)) + length codecID +
                   UvarintSize (of_int payloadLength) + 4) in
             if envelopeBytes > MaxFrameBytes limits \<or>
                payloadLength > MaxFrameBytes limits - envelopeBytes
             then Inl encoding_ErrFrameLimit
             else
               (let buf = magic @ uvarint FormatVersion @ uvarint typeID @
                      uvarint (of_nat (length codecID)) @ codecID @ uvarint (of_int payloadLength)
                in case written of
                    Inl err \<Rightarrow> Inl err
                  | Inr bs \<Rightarrow>
                      (let buf = buf @ fill (nat payloadLength) bs
                       in Inr (buf @ put_be32 (crc32c (drop 4 buf))))))))"

definition MarshalFrameWithPayload :: "u64 \<Rightarrow> gostring \<Rightarrow> int \<Rightarrow> PayloadWriter \<Rightarrow> byte list res" where
  "MarshalFrameWithPayload typeID codecID payloadLength writePayload =
     MarshalFrameWithPayloadAndLimits typeID codecID payloadLength DefaultLimits writePayload"

definition MarshalFrame :: "Frame \<Rightarrow> byte list res" where
  "MarshalFrame frame =
     MarshalFrameWithPayload (TypeID frame) (CodecID frame) (int (length (Payload frame)))
       (Some (Inr (Payload frame)))"

section \<open>Format version 2\<close>

definition uvarintSizeForLength :: "int \<Rightarrow> nat" where
  "uvarintSizeForLength len = (if len < 0 then 0 else UvarintSize (of_int len))"

definition v2FrameSize :: "u64 \<Rightarrow> gostring \<Rightarrow> int \<Rightarrow> int \<Rightarrow> int" where
  "v2FrameSize typeID codecID rawLength encodedLength =
     int (4 + UvarintSize FormatVersionV2 + UvarintSize typeID +
       uvarintSizeForLength (int (length codecID)) + length codecID +
       UvarintSize v2PayloadDeflate + uvarintSizeForLength rawLength +
       uvarintSizeForLength encodedLength) + encodedLength + 4"

definition validFrameV2Input :: "u64 \<Rightarrow> gostring \<Rightarrow> int \<Rightarrow> DecoderLimits \<Rightarrow> bool" where
  "validFrameV2Input typeID codecID payloadLength limits \<longleftrightarrow> limits_valid limits \<and> typeID \<noteq> 0 \<and>
     payloadLength \<ge> 0 \<and> int (length codecID) \<le> MaxCodecID limits \<and> payloadLength \<le> MaxPayload limits"

definition v2_output :: "u64 \<Rightarrow> gostring \<Rightarrow> u64 \<Rightarrow> u64 \<Rightarrow> u64 \<Rightarrow> byte list \<Rightarrow> byte list" where
  "v2_output typeID codecID mode rawLength encodedLength encoded =
     (let output = magic @ uvarint FormatVersionV2 @ uvarint typeID @
            uvarint (of_nat (length codecID)) @ codecID @ uvarint mode @
            uvarint rawLength @ uvarint encodedLength @ encoded
      in output @ put_be32 (crc32c (drop 4 output)))"

definition marshalFrameV2Payload ::
    "(byte list \<Rightarrow> byte list res) \<Rightarrow> u64 \<Rightarrow> gostring \<Rightarrow> byte list \<Rightarrow> DecoderLimits \<Rightarrow> byte list res" where
  "marshalFrameV2Payload deflate typeID codecID payload limits =
     (let raw = int (length payload);
          chosen = (if length payload \<ge> 128 then
              (case deflate payload of
                 Inl err \<Rightarrow> Inl err
               | Inr compressed \<Rightarrow>
                   if v2FrameSize typeID codecID raw (int (length compressed)) <
                      v2FrameSize typeID codecID raw raw
                   then Inr (v2PayloadDeflate, compressed) else Inr (v2PayloadRaw, payload))
            else Inr (v2PayloadRaw, payload))
      in case chosen of
           Inl err \<Rightarrow> Inl err
         | Inr (mode, encoded) \<Rightarrow>
             if v2FrameSize typeID codecID raw (int (length encoded)) > MaxFrameBytes limits
             then Inl encoding_ErrFrameLimit
             else Inr (v2_output typeID codecID mode (of_nat (length payload))
                    (of_nat (length encoded)) encoded))"

definition marshalFrameV2RawWithPayload ::
    "u64 \<Rightarrow> gostring \<Rightarrow> int \<Rightarrow> DecoderLimits \<Rightarrow> byte list res \<Rightarrow> byte list res" where
  "marshalFrameV2RawWithPayload typeID codecID payloadLength limits written =
     (if payloadLength < 0 then Inl encoding_ErrFrameLimit
      else if v2FrameSize typeID codecID payloadLength payloadLength > MaxFrameBytes limits
      then Inl encoding_ErrFrameLimit
      else (case written of
          Inl err \<Rightarrow> Inl err
        | Inr bs \<Rightarrow> Inr (v2_output typeID codecID v2PayloadRaw (of_int payloadLength)
                      (of_int payloadLength) (fill (nat payloadLength) bs))))"

definition MarshalFrameV2WithLimits ::
    "(byte list \<Rightarrow> byte list res) \<Rightarrow> Frame \<Rightarrow> DecoderLimits \<Rightarrow> byte list res" where
  "MarshalFrameV2WithLimits deflate frame limits =
     (if \<not> validFrameV2Input (TypeID frame) (CodecID frame) (int (length (Payload frame))) limits
      then Inl encoding_ErrFrameLimit
      else marshalFrameV2Payload deflate (TypeID frame) (CodecID frame) (Payload frame) limits)"

definition MarshalFrameV2 :: "(byte list \<Rightarrow> byte list res) \<Rightarrow> Frame \<Rightarrow> byte list res" where
  "MarshalFrameV2 deflate frame = MarshalFrameV2WithLimits deflate frame DefaultLimits"

definition MarshalFrameV2WithPayloadAndLimits ::
    "(byte list \<Rightarrow> byte list res) \<Rightarrow> u64 \<Rightarrow> gostring \<Rightarrow> int \<Rightarrow> DecoderLimits \<Rightarrow> PayloadWriter \<Rightarrow> byte list res" where
  "MarshalFrameV2WithPayloadAndLimits deflate typeID codecID payloadLength limits writePayload =
     (if \<not> validFrameV2Input typeID codecID payloadLength limits then Inl encoding_ErrFrameLimit
      else (case writePayload of
          None \<Rightarrow> Inl encoding_ErrInvalidFrame
        | Some written \<Rightarrow>
            if payloadLength < 128
            then marshalFrameV2RawWithPayload typeID codecID payloadLength limits written
            else (case written of
                Inl err \<Rightarrow> Inl err
              | Inr bs \<Rightarrow> marshalFrameV2Payload deflate typeID codecID
                            (fill (nat payloadLength) bs) limits)))"

definition MarshalFrameV2WithPayload ::
    "(byte list \<Rightarrow> byte list res) \<Rightarrow> u64 \<Rightarrow> gostring \<Rightarrow> int \<Rightarrow> PayloadWriter \<Rightarrow> byte list res" where
  "MarshalFrameV2WithPayload deflate typeID codecID payloadLength writePayload =
     MarshalFrameV2WithPayloadAndLimits deflate typeID codecID payloadLength DefaultLimits writePayload"

text \<open>
  \<open>io.ReadFull\<close> into a buffer of \<open>rawLength + 1\<close> bytes, and \<open>Close\<close>, which returns the error that
  ended the stream unless it is \<open>io.EOF\<close>.
\<close>

definition inflatePayload :: "(byte list \<Rightarrow> byte list \<times> go_error option) \<Rightarrow> byte list \<Rightarrow> nat \<Rightarrow> byte list res" where
  "inflatePayload flate encoded rawLength =
     (if int rawLength \<ge> max_int then Inl encoding_ErrFrameLimit
      else
        (let (stream, fin) = flate encoded;
             count = min (length stream) (rawLength + 1);
             err = (if count = rawLength + 1 then None
                    else (case fin of
                        None \<Rightarrow> Some (if count = 0 then io_EOF else io_ErrUnexpectedEOF)
                      | Some e \<Rightarrow> Some e))
         in if count > rawLength then Inl encoding_ErrFrameLimit
            else if count \<noteq> rawLength \<or>
               (\<not> (case err of None \<Rightarrow> False | Some e \<Rightarrow> errors_Is e io_ErrUnexpectedEOF) \<and>
                (rawLength \<noteq> 0 \<or> \<not> (case err of None \<Rightarrow> False | Some e \<Rightarrow> errors_Is e io_EOF)))
            then Inl encoding_ErrInvalidFrame
            else (case fin of
                Some closeErr \<Rightarrow> Inl closeErr
              | None \<Rightarrow> Inr (take rawLength stream))))"

definition unmarshalFrameV2 :: "(byte list \<Rightarrow> byte list \<times> go_error option) \<Rightarrow>
    byte list \<Rightarrow> u64 \<Rightarrow> gostring \<Rightarrow> nat \<Rightarrow> DecoderLimits \<Rightarrow> Frame res" where
  "unmarshalFrameV2 flate body typeID codecID position limits =
     (case ReadUvarint body position of
        None \<Rightarrow> Inl encoding_ErrInvalidFrame
      | Some (mode, next) \<Rightarrow>
          if mode \<noteq> v2PayloadRaw \<and> mode \<noteq> v2PayloadDeflate then Inl encoding_ErrInvalidFrame
          else (case ReadUvarint body next of
              None \<Rightarrow> Inl encoding_ErrFrameLimit
            | Some (rawLength, next) \<Rightarrow>
                if MaxPayload limits < 0 \<or> uint rawLength > MaxPayload limits then Inl encoding_ErrFrameLimit
                else (case ReadUvarint body next of
                    None \<Rightarrow> Inl encoding_ErrFrameLimit
                  | Some (encodedLength, next) \<Rightarrow>
                      (let remaining = int (length body) - int next; encoded = drop next body in
                       if remaining < 0 \<or> uint encodedLength > remaining \<or> uint encodedLength \<noteq> remaining
                       then Inl encoding_ErrFrameLimit
                       else if mode = v2PayloadRaw then
                         (if rawLength \<noteq> encodedLength then Inl encoding_ErrInvalidFrame
                          else Inr \<lparr>TypeID = typeID, CodecID = codecID, Payload = encoded,
                                    formatVersion = FormatVersionV2, payloadOwned = False\<rparr>)
                       else (case uint64AsInt rawLength of
                           None \<Rightarrow> Inl encoding_ErrFrameLimit
                         | Some decodedLength \<Rightarrow> (case inflatePayload flate encoded decodedLength of
                               Inl err \<Rightarrow> Inl err
                             | Inr payload \<Rightarrow>
                                 Inr \<lparr>TypeID = typeID, CodecID = codecID, Payload = payload,
                                      formatVersion = FormatVersionV2, payloadOwned = True\<rparr>))))))"

definition UnmarshalFrameView :: "(byte list \<Rightarrow> byte list \<times> go_error option) \<Rightarrow>
    byte list \<Rightarrow> DecoderLimits \<Rightarrow> Frame res" where
  "UnmarshalFrameView flate data limits =
     (if \<not> limits_valid limits \<or> int (length data) > MaxFrameBytes limits \<or> length data < 9
      then Inl encoding_ErrFrameLimit
      else if take 4 data \<noteq> magic then Inl encoding_ErrInvalidFrame
      else
        (let body = take (length data - 4) data; stored = be32 (drop (length data - 4) data) in
         if crc32c (drop 4 body) \<noteq> stored then Inl encoding_ErrInvalidFrame
         else (case ReadUvarint body 4 of
             None \<Rightarrow> Inl encoding_ErrInvalidFrame
           | Some (version, next) \<Rightarrow>
               if version \<noteq> FormatVersion \<and> version \<noteq> FormatVersionV2 then Inl encoding_ErrInvalidFrame
               else (case ReadUvarint body next of
                   None \<Rightarrow> Inl encoding_ErrInvalidFrame
                 | Some (typeID, next) \<Rightarrow>
                     if typeID = 0 then Inl encoding_ErrInvalidFrame
                     else (case ReadUvarint body next of
                         None \<Rightarrow> Inl encoding_ErrFrameLimit
                       | Some (codecLength, next) \<Rightarrow> (case uint64AsInt codecLength of
                             None \<Rightarrow> Inl encoding_ErrFrameLimit
                           | Some codecLengthInt \<Rightarrow>
                               if int codecLengthInt > MaxCodecID limits \<or>
                                  int codecLengthInt > int (length data) - 4 - int next
                               then Inl encoding_ErrFrameLimit
                               else
                                 (let codecEnd = next + codecLengthInt;
                                      codecID = take codecLengthInt (drop next data) in
                                  if version = FormatVersion then
                                    (case ReadUvarint body codecEnd of
                                       None \<Rightarrow> Inl encoding_ErrFrameLimit
                                     | Some (payloadLength, next) \<Rightarrow> (case uint64AsInt payloadLength of
                                           None \<Rightarrow> Inl encoding_ErrFrameLimit
                                         | Some payloadLengthInt \<Rightarrow>
                                             if int payloadLengthInt > MaxPayload limits \<or>
                                                int payloadLengthInt \<noteq> int (length data) - 4 - int next
                                             then Inl encoding_ErrFrameLimit
                                             else Inr \<lparr>TypeID = typeID, CodecID = codecID,
                                                    Payload = drop next body, formatVersion = 0,
                                                    payloadOwned = False\<rparr>))
                                  else unmarshalFrameV2 flate body typeID codecID codecEnd limits)))))))"

definition UnmarshalFrame :: "(byte list \<Rightarrow> byte list \<times> go_error option) \<Rightarrow>
    byte list \<Rightarrow> DecoderLimits \<Rightarrow> Frame res" where
  "UnmarshalFrame flate data limits =
     (case UnmarshalFrameView flate data limits of
        Inl err \<Rightarrow> Inl err
      | Inr frame \<Rightarrow> Inr (frame\<lparr>payloadOwned := False\<rparr>))"

definition ConvertFrameV1ToV2 :: "(byte list \<Rightarrow> byte list res) \<Rightarrow> (byte list \<Rightarrow> byte list \<times> go_error option) \<Rightarrow>
    byte list \<Rightarrow> DecoderLimits \<Rightarrow> byte list res" where
  "ConvertFrameV1ToV2 deflate flate data limits =
     (case UnmarshalFrame flate data limits of
        Inl err \<Rightarrow> Inl err
      | Inr decoded \<Rightarrow>
          if Frame_Version decoded \<noteq> FormatVersion then Inl encoding_ErrInvalidFrame
          else MarshalFrameV2WithLimits deflate decoded limits)"

definition ConvertFrameV2ToV1 :: "(byte list \<Rightarrow> byte list \<times> go_error option) \<Rightarrow>
    byte list \<Rightarrow> DecoderLimits \<Rightarrow> byte list res" where
  "ConvertFrameV2ToV1 flate data limits =
     (case UnmarshalFrame flate data limits of
        Inl err \<Rightarrow> Inl err
      | Inr decoded \<Rightarrow>
          if Frame_Version decoded \<noteq> FormatVersionV2 then Inl encoding_ErrInvalidFrame
          else MarshalFrameWithPayloadAndLimits (TypeID decoded) (CodecID decoded)
                 (int (length (Payload decoded))) limits (Some (Inr (Payload decoded))))"

section \<open>What a frame is\<close>

text \<open>
  The envelope around the bytes between the magic and the checksum, and the two bodies: the encoders
  write them and the decoder accepts nothing else.
\<close>

definition envelope :: "byte list \<Rightarrow> byte list" where
  "envelope body = magic @ body @ put_be32 (crc32c body)"

definition header :: "u64 \<Rightarrow> u64 \<Rightarrow> gostring \<Rightarrow> byte list" where
  "header version typeID codecID = uvarint version @ uvarint typeID @ bytes_enc codecID"

definition body_v1 :: "u64 \<Rightarrow> gostring \<Rightarrow> byte list \<Rightarrow> byte list" where
  "body_v1 typeID codecID payload = header FormatVersion typeID codecID @ bytes_enc payload"

definition body_v2 :: "u64 \<Rightarrow> gostring \<Rightarrow> u64 \<Rightarrow> u64 \<Rightarrow> byte list \<Rightarrow> byte list" where
  "body_v2 typeID codecID mode rawLength encoded =
     header FormatVersionV2 typeID codecID @ uvarint mode @ uvarint rawLength @ bytes_enc encoded"

definition header_ok :: "DecoderLimits \<Rightarrow> u64 \<Rightarrow> gostring \<Rightarrow> bool" where
  "header_ok limits typeID codecID \<longleftrightarrow> limits_valid limits \<and> typeID \<noteq> 0 \<and> bytes_ok (MaxCodecID limits) codecID"

lemma fill_exact [simp]: "fill (length bs) bs = bs"
  by (simp add: fill_def)

lemma length_fill [simp]: "length (fill n bs) = n"
  by (simp add: fill_def)

lemma magic_length [simp]: "length magic = 4"
  by (simp add: magic_def)

lemma length_envelope: "length (envelope body) = 8 + length body"
  by (simp add: envelope_def)

lemma v2_output_eq:
  "v2_output typeID codecID mode rawLength (of_nat (length encoded)) encoded =
     envelope (body_v2 typeID codecID mode rawLength encoded)"
  by (simp add: v2_output_def envelope_def body_v2_def header_def bytes_enc_def)

lemma envelope_iff:
  "8 \<le> length data \<Longrightarrow>
   take 4 data = magic \<and> crc32c (drop 4 (take (length data - 4) data)) = be32 (drop (length data - 4) data) \<longleftrightarrow>
     data = envelope (drop 4 (take (length data - 4) data))"
proof
  assume len: "8 \<le> length data"
  assume *: "take 4 data = magic \<and>
    crc32c (drop 4 (take (length data - 4) data)) = be32 (drop (length data - 4) data)"
  have "data = take (length data - 4) data @ drop (length data - 4) data" by simp
  moreover have "take (length data - 4) data = take 4 data @ drop 4 (take (length data - 4) data)"
  proof -
    have "4 \<le> length data - 4" using len by linarith
    then show ?thesis
      using append_take_drop_id[of 4 "take (length data - 4) data"] by (simp add: min.absorb1)
  qed
  moreover have "drop (length data - 4) data = put_be32 (be32 (drop (length data - 4) data))"
    using len by (simp add: put_be32_be32)
  ultimately show "data = envelope (drop 4 (take (length data - 4) data))"
    using * unfolding envelope_def by (metis append.assoc)
next
  assume *: "data = envelope (drop 4 (take (length data - 4) data))"
  define body where "body = drop 4 (take (length data - 4) data)"
  have "data = magic @ body @ put_be32 (crc32c body)"
    using * by (simp add: envelope_def body_def)
  then show "take 4 data = magic \<and>
    crc32c (drop 4 (take (length data - 4) data)) = be32 (drop (length data - 4) data)"
    unfolding body_def[symmetric] by simp
qed

lemma envelope_inject [simp]: "envelope a = envelope b \<longleftrightarrow> a = b"
proof
  assume "envelope a = envelope b"
  then show "a = b"
    unfolding envelope_def by (metis append_eq_append_conv length_put_be32 append_same_eq same_append_eq)
qed simp

lemma envelope_parts [simp]:
  "take 4 (envelope b) = magic"
  "take (length (envelope b) - 4) (envelope b) = magic @ b"
  "drop (length (envelope b) - 4) (envelope b) = put_be32 (crc32c b)"
  by (simp_all add: envelope_def)

lemma inflatePayload_iff:
  "inflatePayload flate encoded n = Inr payload \<longleftrightarrow>
     flate encoded = (payload, None) \<and> length payload = n \<and> int n < max_int"
  by (cases "flate encoded")
    (auto simp: inflatePayload_def Let_def min_def split: if_splits option.splits)

lemma at_pos_magic: "at_pos (magic @ b) (4 + n) bs \<longleftrightarrow> at_pos b n bs"
  by (auto simp: at_pos_def)

lemma at_pos_0_rest: "at_pos b 0 xs \<longleftrightarrow> (\<exists>ys. b = xs @ ys)"
  by (auto simp: at_pos_def) (metis append_take_drop_id)

lemma at_pos_here: "length pre = p \<Longrightarrow> at_pos (pre @ b) p bs \<longleftrightarrow> at_pos b 0 bs"
  by (auto simp: at_pos_def)

lemma bytes_enc_rest:
  assumes "int n \<le> max_int" and "at_pos data p (uvarint (of_nat n))"
    and "n + (p + length (uvarint (of_nat n :: u64))) \<le> length data"
  shows "\<exists>bs. length bs = n \<and> bs = take n (drop (p + length (uvarint (of_nat n :: u64))) data) \<and>
    at_pos data p (bytes_enc bs) \<and> length (bytes_enc bs) = length (uvarint (of_nat n :: u64)) + n"
  using assms by (auto simp: bytes_enc_def at_pos_append) (auto simp: at_pos_def)

text \<open>The decoder on an envelope: the header is read, then the payload by its version.\<close>

definition rest_ok :: "(byte list \<Rightarrow> byte list \<times> go_error option) \<Rightarrow> DecoderLimits \<Rightarrow>
    u64 \<Rightarrow> u64 \<Rightarrow> gostring \<Rightarrow> byte list \<Rightarrow> Frame \<Rightarrow> bool" where
  "rest_ok flate limits version typeID codecID rest f \<longleftrightarrow>
     version = FormatVersion \<and> (\<exists>payload. rest = bytes_enc payload \<and> bytes_ok (MaxPayload limits) payload \<and>
       f = \<lparr>TypeID = typeID, CodecID = codecID, Payload = payload, formatVersion = 0, payloadOwned = False\<rparr>) \<or>
     version = FormatVersionV2 \<and> (\<exists>mode raw encoded payload.
       rest = uvarint mode @ uvarint (of_nat raw) @ bytes_enc encoded \<and> int raw \<le> MaxPayload limits \<and>
       int (length encoded) \<le> max_int \<and> length payload = raw \<and>
       (mode = v2PayloadRaw \<and> payload = encoded \<or> mode = v2PayloadDeflate \<and> flate encoded = (payload, None) \<and> int raw < max_int) \<and>
       f = \<lparr>TypeID = typeID, CodecID = codecID, Payload = payload, formatVersion = FormatVersionV2,
            payloadOwned = (mode = v2PayloadDeflate)\<rparr>)"

lemma ReadUvarint_here:
  "ReadUvarint (pre @ rest) (length pre + n) = Some (v, q) \<longleftrightarrow>
     at_pos rest n (uvarint v) \<and> q = length pre + (n + length (uvarint v))"
  by (auto simp: ReadUvarint_iff at_pos_def)

lemma unmarshalFrameV2_sound:
  assumes "unmarshalFrameV2 flate (pre @ rest) typeID codecID (length pre) limits = Inr f"
    and "int (length rest) \<le> max_int"
  shows "rest_ok flate limits FormatVersionV2 typeID codecID rest f"
proof -
  note def = unmarshalFrameV2_def Let_def
  obtain mode p1 where 1: "ReadUvarint (pre @ rest) (length pre) = Some (mode, p1)"
    and mode: "mode = 0 \<or> mode = 1"
    using assms(1) by (auto simp: def split: option.splits if_splits)
  obtain raw p2 where 2: "ReadUvarint (pre @ rest) p1 = Some (raw, p2)" and raw: "uint raw \<le> MaxPayload limits"
    using assms(1) 1 by (auto simp: def split: option.splits if_splits)
  obtain enc p3 where 3: "ReadUvarint (pre @ rest) p2 = Some (enc, p3)"
    and enc: "uint enc = int (length (pre @ rest)) - int p3"
    using assms(1) 1 2 by (auto simp: def split: option.splits if_splits)
  note p1 = ReadUvarint_here[of pre rest 0, simplified, THEN iffD1, OF 1]
  note p2 = ReadUvarint_here[of pre rest, THEN iffD1, OF 2[unfolded p1[THEN conjunct2]]]
  note p3 = ReadUvarint_here[of pre rest, THEN iffD1, OF 3[unfolded p2[THEN conjunct2]]]
  define n where "n = length (uvarint mode) + length (uvarint raw) + length (uvarint enc)"
  define encoded where "encoded = drop n rest"
  have n: "n \<le> length rest" "p3 = length pre + n"
    using p3 by (auto simp: n_def at_pos_def)
  have drop: "drop p3 (pre @ rest) = encoded" by (simp add: n encoded_def)
  have len: "uint enc = int (length encoded)" using enc n by (simp add: encoded_def)
  then have enc': "enc = of_nat (length encoded)" by (metis word_of_int_uint of_int_of_nat_eq)
  have at: "at_pos rest 0 (uvarint mode @ uvarint raw @ uvarint enc)"
    using p1 p2 p3 by (simp add: at_pos_append)
  then have rest: "rest = uvarint mode @ uvarint raw @ uvarint enc @ encoded"
    by (auto simp: at_pos_0_rest encoded_def n_def)
  have l: "int (length encoded) \<le> max_int" using assms(2) by (simp add: encoded_def)
  show ?thesis
  proof (cases "mode = 0")
    case True
    then have "raw = enc" "f = \<lparr>TypeID = typeID, CodecID = codecID, Payload = encoded,
        formatVersion = FormatVersionV2, payloadOwned = False\<rparr>"
      using assms(1) 1 2 3 drop by (auto simp: def split: if_splits)
    with True rest raw enc' len l show ?thesis
      unfolding rest_ok_def
      by (intro disjI2, intro conjI exI[of _ mode] exI[of _ "length encoded"] exI[of _ encoded]
          exI[of _ encoded]) (simp_all add: bytes_enc_def)
  next
    case False
    then obtain k payload where "uint64AsInt raw = Some k" "inflatePayload flate encoded k = Inr payload"
      "f = \<lparr>TypeID = typeID, CodecID = codecID, Payload = payload,
        formatVersion = FormatVersionV2, payloadOwned = True\<rparr>"
      using assms(1) 1 2 3 drop mode by (auto simp: def split: if_splits option.splits sum.splits)
    then have "raw = of_nat (length payload)" "flate encoded = (payload, None)" "int (length payload) < max_int"
      "int (length payload) \<le> MaxPayload limits"
      using raw by (auto simp: uint64AsInt_iff inflatePayload_iff unat_of_nat_len uint_of_nat_len)
    with False mode rest enc' l \<open>f = _\<close> show ?thesis
      unfolding rest_ok_def
      by (intro disjI2, intro conjI exI[of _ mode] exI[of _ "length payload"] exI[of _ encoded]
          exI[of _ payload]) (simp_all add: bytes_enc_def)
  qed
qed

lemma unmarshalFrameV2_complete:
  assumes "rest_ok flate limits FormatVersionV2 typeID codecID rest f" and "limits_valid limits"
    and "int (length rest) \<le> max_int"
  shows "unmarshalFrameV2 flate (pre @ rest) typeID codecID (length pre) limits = Inr f"
proof -
  from assms(1) obtain mode encoded payload where
    rest: "rest = uvarint mode @ uvarint (of_nat (length payload)) @ bytes_enc encoded"
    and p: "int (length payload) \<le> MaxPayload limits" and e: "int (length encoded) \<le> max_int"
    and mode: "mode = 0 \<and> payload = encoded \<or> mode = 1 \<and> flate encoded = (payload, None) \<and> int (length payload) < max_int"
    and f: "f = \<lparr>TypeID = typeID, CodecID = codecID, Payload = payload, formatVersion = FormatVersionV2,
            payloadOwned = (mode = 1)\<rparr>"
    unfolding rest_ok_def FormatVersion_def FormatVersionV2_def by auto
  let ?raw = "of_nat (length payload) :: u64" and ?enc = "of_nat (length encoded) :: u64"
  define p1 p2 p3 where "p1 = length pre + length (uvarint mode)"
    and "p2 = p1 + length (uvarint ?raw)" and "p3 = p2 + length (uvarint ?enc)"
  have at: "at_pos (pre @ rest) (length pre) (uvarint mode @ uvarint ?raw @ uvarint ?enc @ encoded)"
    using at_pos_middle[of pre rest "[]"] by (simp add: rest bytes_enc_def)
  then have reads: "ReadUvarint (pre @ rest) (length pre) = Some (mode, p1)"
    "ReadUvarint (pre @ rest) p1 = Some (?raw, p2)" "ReadUvarint (pre @ rest) p2 = Some (?enc, p3)"
    by (simp_all add: ReadUvarint_iff at_pos_append p1_def p2_def p3_def)
  have drop: "drop p3 (pre @ rest) = encoded"
    by (simp add: p1_def p2_def p3_def rest bytes_enc_def)
  have len: "int (length (pre @ rest)) - int p3 = int (length encoded)"
    by (simp add: p1_def p2_def p3_def rest bytes_enc_def)
  have pl: "int (length payload) \<le> max_int" using mode e by auto
  have u: "uint ?enc = int (length encoded)" "uint ?raw = int (length payload)"
    using e pl by (simp_all add: uint_of_nat_len)
  show ?thesis
  proof (cases "mode = 0")
    case True
    with mode reads drop len u p f assms(2) show ?thesis
      by (auto simp: unmarshalFrameV2_def Let_def limits_valid_def)
  next
    case False
    with mode have "inflatePayload flate encoded (length payload) = Inr payload"
      by (simp add: inflatePayload_iff)
    with False mode reads drop len u p f pl assms(2) show ?thesis
      by (simp add: unmarshalFrameV2_def Let_def limits_valid_def uint64AsInt_of_nat)
  qed
qed

text \<open>
  The decoder accepts an envelope exactly when its body is a header within the limits followed by a
  payload of the header's version.
\<close>

lemma v1_rest_sound:
  assumes "ReadUvarint (pre @ rest) (length pre) = Some (plen, p)" and "uint64AsInt plen = Some m"
    and "int m = int (length (pre @ rest)) - int p"
  shows "rest = bytes_enc (drop p (pre @ rest)) \<and> length (drop p (pre @ rest)) = m \<and> int m \<le> max_int"
proof -
  have r: "at_pos rest 0 (uvarint plen)" "p = length pre + length (uvarint plen)"
    using assms(1) ReadUvarint_here[of pre rest 0 plen p] by simp_all
  then have "drop p (pre @ rest) = drop (length (uvarint plen)) rest" by simp
  with r assms(2,3) show ?thesis
    by (auto simp: at_pos_0_rest bytes_enc_def uint64AsInt_iff)
qed

lemma v1_rest_complete:
  "ReadUvarint (pre @ bytes_enc payload) (length pre) =
     Some (of_nat (length payload), length (pre @ bytes_enc payload) - length payload)"
  using ReadUvarint_here[of pre "bytes_enc payload" 0]
  by (simp add: bytes_enc_def at_pos_0_rest)

lemma envelope_data:
  "k + n \<le> length (magic @ body) \<Longrightarrow> take n (drop k (envelope body)) = take n (drop k (magic @ body))"
  by (simp add: envelope_def flip: append_assoc)

lemma envelope_guards:
  assumes "limits_valid limits" and "0 < length body" and "int (length (envelope body)) \<le> MaxFrameBytes limits"
  shows "\<not> (\<not> limits_valid limits \<or> MaxFrameBytes limits < int (length (envelope body)) \<or> length (envelope body) < 9)"
    "take 4 (envelope body) = magic" "crc32c (drop 4 (magic @ body)) = be32 (put_be32 (crc32c body))"
  using assms by (auto simp: length_envelope)

lemma UnmarshalFrameView_sound:
  assumes "limits_valid limits" and "0 < length body"
    and "int (length (envelope body)) \<le> MaxFrameBytes limits" and "int (length body) \<le> max_int"
    and l: "UnmarshalFrameView flate (envelope body) limits = Inr f"
  shows "\<exists>version typeID codecID rest. body = header version typeID codecID @ rest \<and>
       header_ok limits typeID codecID \<and> rest_ok flate limits version typeID codecID rest f"
proof -
  let ?B = "magic @ body"
  note def = UnmarshalFrameView_def Let_def
  note guards = envelope_guards[OF assms(1-3)]
  obtain version p1 where 1: "ReadUvarint ?B 4 = Some (version, p1)"
    and version: "version = FormatVersion \<or> version = FormatVersionV2"
    using l guards by (auto simp: def split: option.splits if_splits)
  obtain typeID p2 where 2: "ReadUvarint ?B p1 = Some (typeID, p2)" and typeID: "typeID \<noteq> 0"
    using l guards 1 by (auto simp: def split: option.splits if_splits)
  obtain clen n p3 where 3: "ReadUvarint ?B p2 = Some (clen, p3)" "uint64AsInt clen = Some n"
    and n: "int n \<le> MaxCodecID limits" "int n \<le> int (length (envelope body)) - 4 - int p3"
    using l guards 1 2 by (auto simp: def split: option.splits if_splits)
  define codecID where "codecID = take n (drop p3 ?B)"
  have n': "p3 + n \<le> length ?B" using n(2) by (simp add: length_envelope)
  then have c: "take n (drop p3 (envelope body)) = codecID" "length codecID = n"
    by (simp_all add: envelope_data codecID_def)
  have at: "at_pos ?B p3 codecID" using n' c by (simp add: at_pos_def codecID_def)
  define rest where "rest = drop (length (header version typeID codecID)) body"
  have p: "p1 = 4 + length (uvarint version)" "p2 = p1 + length (uvarint typeID)"
    "p3 = p2 + length (uvarint clen)" "clen = of_nat (length codecID)" "int n \<le> max_int"
    using 1 2 3 c by (simp_all add: ReadUvarint_iff uint64AsInt_iff)
  have "at_pos ?B (4 + 0) (header version typeID codecID)"
    using 1 2 3 at p by (simp add: ReadUvarint_iff header_def bytes_enc_def at_pos_append)
  then have "at_pos body 0 (header version typeID codecID)" by (simp only: at_pos_magic)
  then have body: "body = header version typeID codecID @ rest"
    by (auto simp: at_pos_0_rest rest_def)
  have fin: "p3 + n = length (magic @ header version typeID codecID)"
    using p c by (simp add: header_def bytes_enc_def)
  have B: "?B = (magic @ header version typeID codecID) @ rest" by (subst body) simp
  have "header_ok limits typeID codecID"
    using assms(1) typeID n p c by (simp add: header_ok_def bytes_ok_def)
  moreover have "rest_ok flate limits version typeID codecID rest f"
  proof (cases "version = FormatVersion")
    case True
    obtain plen m p4 where 4: "ReadUvarint ?B (p3 + n) = Some (plen, p4)" "uint64AsInt plen = Some m"
      and m: "int m \<le> MaxPayload limits" "int m = int (length (envelope body)) - 4 - int p4"
      and f: "f = \<lparr>TypeID = typeID, CodecID = codecID, Payload = drop p4 ?B, formatVersion = 0, payloadOwned = False\<rparr>"
      using l guards 1 2 3 n c True typeID by (auto simp: def split: option.splits if_splits)
    have "int m = int (length ?B) - int p4" using m(2) by (simp add: length_envelope)
    from v1_rest_sound[OF 4(1)[unfolded B fin] 4(2) this[unfolded B]] m(1)
    have "rest = bytes_enc (drop p4 ?B)" "bytes_ok (MaxPayload limits) (drop p4 ?B)"
      unfolding B by (auto simp: bytes_ok_def)
    with True f show ?thesis by (auto simp: rest_ok_def)
  next
    case False
    have "unmarshalFrameV2 flate ?B typeID codecID (p3 + n) limits = Inr f"
      using l guards 1 2 3 n c False typeID by (auto simp: def split: option.splits if_splits)
    then have "rest_ok flate limits FormatVersionV2 typeID codecID rest f"
      unfolding fin B by (rule unmarshalFrameV2_sound) (use assms(4) body in auto)
    with False version show ?thesis by simp
  qed
  ultimately show ?thesis using body by blast
qed

lemma UnmarshalFrameView_complete:
  assumes "limits_valid limits" and "0 < length body"
    and "int (length (envelope body)) \<le> MaxFrameBytes limits" and "int (length body) \<le> max_int"
    and body: "body = header version typeID codecID @ rest"
    and h: "header_ok limits typeID codecID" and r: "rest_ok flate limits version typeID codecID rest f"
  shows "UnmarshalFrameView flate (envelope body) limits = Inr f"
proof -
  let ?B = "magic @ body"
  note def = UnmarshalFrameView_def Let_def
  note guards = envelope_guards[OF assms(1-3)]
  let ?c = "of_nat (length codecID) :: u64"
  define p1 p2 p3 where "p1 = 4 + length (uvarint version)"
    and "p2 = p1 + length (uvarint typeID)" and "p3 = p2 + length (uvarint ?c)"
  have B: "?B = (magic @ header version typeID codecID) @ rest" by (subst body) simp
  have fin: "p3 + length codecID = length (magic @ header version typeID codecID)"
    by (simp add: p1_def p2_def p3_def header_def bytes_enc_def)
  have "at_pos ?B 4 (header version typeID codecID)"
    using at_pos_middle[of magic "header version typeID codecID" rest] by (simp add: body)
  then have reads: "ReadUvarint ?B 4 = Some (version, p1)" "ReadUvarint ?B p1 = Some (typeID, p2)"
    "ReadUvarint ?B p2 = Some (?c, p3)" "at_pos ?B p3 codecID"
    by (simp_all add: ReadUvarint_iff p1_def p2_def p3_def header_def bytes_enc_def at_pos_append)
  have c: "take (length codecID) (drop p3 (envelope body)) = codecID"
    "int (length codecID) \<le> int (length (envelope body)) - 4 - int p3"
    using reads(4) envelope_data[of p3 "length codecID" body] by (simp_all add: at_pos_def length_envelope)
  have version: "version = FormatVersion \<or> version = FormatVersionV2" and typeID: "typeID \<noteq> 0"
    and n: "uint64AsInt ?c = Some (length codecID)" "int (length codecID) \<le> MaxCodecID limits"
    using r h by (auto simp: rest_ok_def header_ok_def bytes_ok_def uint64AsInt_of_nat)
  show ?thesis
  proof (cases "version = FormatVersion")
    case True
    then obtain payload where payload: "rest = bytes_enc payload" "bytes_ok (MaxPayload limits) payload"
      and f: "f = \<lparr>TypeID = typeID, CodecID = codecID, Payload = payload, formatVersion = 0, payloadOwned = False\<rparr>"
      using r by (auto simp: rest_ok_def FormatVersion_def FormatVersionV2_def)
    let ?p = "of_nat (length payload) :: u64"
    define p4 where "p4 = length ?B - length payload"
    have "ReadUvarint ?B (p3 + length codecID) = Some (?p, p4)"
      unfolding p4_def B fin payload(1) by (rule v1_rest_complete)
    moreover have "drop p4 ?B = payload" "int (length payload) = int (length (envelope body)) - 4 - int p4"
      "uint64AsInt ?p = Some (length payload)"
      using payload(2) unfolding p4_def length_envelope
      by (simp_all add: body payload(1) bytes_enc_def bytes_ok_def uint64AsInt_of_nat)
    ultimately show ?thesis
      using guards reads c typeID n True f payload(2) by (simp add: def bytes_ok_def)
  next
    case False
    have "unmarshalFrameV2 flate ?B typeID codecID (p3 + length codecID) limits = Inr f"
      unfolding fin B using r version False assms body
      by (intro unmarshalFrameV2_complete) auto
    then show ?thesis using guards reads c typeID n False version by (simp add: def)
  qed
qed

section \<open>Encoders produce frames\<close>

text \<open>The limits are Go values of type \<open>int\<close>.\<close>

definition go_limits :: "DecoderLimits \<Rightarrow> bool" where
  "go_limits limits \<longleftrightarrow> MaxFrameBytes limits \<le> max_int \<and> MaxPayload limits \<le> max_int \<and>
     MaxCodecID limits \<le> max_int \<and> MaxElements limits \<le> max_int \<and> MaxTags limits \<le> max_int \<and>
     MaxStringBytes limits \<le> max_int"

lemma header_nonempty [simp]: "header v t c \<noteq> []"
  by (simp add: header_def)

lemma header_ok_encoder:
  "go_limits limits \<Longrightarrow> header_ok limits typeID codecID \<longleftrightarrow>
     limits_valid limits \<and> typeID \<noteq> 0 \<and> int (length codecID) \<le> MaxCodecID limits"
  by (auto simp: header_ok_def bytes_ok_def go_limits_def)

lemma header_inject:
  assumes "header v t c @ r = header v' t' c' @ r'"
    and "int (length c) \<le> max_int" and "int (length c') \<le> max_int"
  shows "v = v' \<and> t = t' \<and> c = c' \<and> r = r'"
proof -
  have v: "v = v'"
    using uvarint_field.enc_prefix_free[where x = v and y = v' and post = "uvarint t @ bytes_enc c @ r"] assms(1)
    by (simp add: header_def)
  moreover have t: "t = t'"
    using uvarint_field.enc_prefix_free[where x = t and y = t' and post = "bytes_enc c @ r"] assms(1) v
    by (simp add: header_def)
  moreover have "c = c'"
    using bytes_field.enc_prefix_free[where m = max_int and x = c and y = c' and post = r] assms v t
    by (simp add: header_def bytes_ok_def)
  ultimately show ?thesis using assms(1) by simp
qed

lemma Marshal_v1_iff:
  assumes "go_limits limits"
  shows "MarshalFrameWithPayloadAndLimits typeID codecID (int (length payload)) limits (Some (Inr payload)) = Inr data \<longleftrightarrow>
    header_ok limits typeID codecID \<and> bytes_ok (MaxPayload limits) payload \<and>
    data = envelope (body_v1 typeID codecID payload) \<and> int (length data) \<le> MaxFrameBytes limits"
proof -
  have size: "int (4 + UvarintSize FormatVersion + UvarintSize typeID + UvarintSize (of_nat (length codecID)) +
      length codecID + UvarintSize (of_int (int (length payload))) + 4) + int (length payload) =
    int (length (envelope (body_v1 typeID codecID payload)))"
    by (simp add: length_envelope body_v1_def header_def bytes_enc_def UvarintSize_def)
  have out: "(magic @ uvarint FormatVersion @ uvarint typeID @ uvarint (of_nat (length codecID)) @ codecID @
      uvarint (of_int (int (length payload)))) @ payload = magic @ body_v1 typeID codecID payload"
    by (simp add: body_v1_def header_def bytes_enc_def)
  have pos: "int (length payload) \<ge> 0" by simp
  show ?thesis
    unfolding MarshalFrameWithPayloadAndLimits_def Let_def option.case sum.case nat_int fill_exact out
    using size assms header_ok_encoder[OF assms, of typeID codecID]
    by (auto simp: envelope_def bytes_ok_def go_limits_def)
qed

lemma rest_ok_v1:
  "rest_ok flate limits FormatVersion typeID codecID rest f \<longleftrightarrow>
     (\<exists>payload. rest = bytes_enc payload \<and> bytes_ok (MaxPayload limits) payload \<and>
       f = \<lparr>TypeID = typeID, CodecID = codecID, Payload = payload, formatVersion = 0, payloadOwned = False\<rparr>)"
  by (simp add: rest_ok_def FormatVersion_def FormatVersionV2_def)

lemma rest_ok_version:
  "rest_ok flate limits version typeID codecID rest f \<Longrightarrow>
     (version = FormatVersion \<or> version = FormatVersionV2) \<and> Frame_Version f = version"
  by (auto simp: rest_ok_def Frame_Version_def FormatVersion_def FormatVersionV2_def)

lemma Unmarshal_iff:
  assumes "go_limits limits"
  shows "UnmarshalFrameView flate data limits = Inr f \<longleftrightarrow>
    (\<exists>version typeID codecID rest. data = envelope (header version typeID codecID @ rest) \<and>
       int (length data) \<le> MaxFrameBytes limits \<and>
       header_ok limits typeID codecID \<and> rest_ok flate limits version typeID codecID rest f)"
    (is "?l \<longleftrightarrow> ?r")
proof
  assume l: ?l
  then have len: "int (length data) \<le> MaxFrameBytes limits" "9 \<le> length data" and v: "limits_valid limits"
    by (auto simp: UnmarshalFrameView_def split: if_splits)
  define body where "body = drop 4 (take (length data - 4) data)"
  have "data = envelope body"
    using l len envelope_iff[of data] by (auto simp: UnmarshalFrameView_def Let_def body_def split: if_splits)
  moreover from this have "0 < length body" "int (length body) \<le> max_int"
    using len assms by (auto simp: length_envelope go_limits_def)
  ultimately show ?r using UnmarshalFrameView_sound[OF v _ _ _ l[unfolded \<open>data = envelope body\<close>]] len by auto
next
  assume ?r
  then obtain version typeID codecID rest where *: "data = envelope (header version typeID codecID @ rest)"
    "int (length data) \<le> MaxFrameBytes limits" "header_ok limits typeID codecID"
    "rest_ok flate limits version typeID codecID rest f" by blast
  with assms show ?l
    by (auto simp: length_envelope go_limits_def header_ok_def intro!: UnmarshalFrameView_complete)
qed

lemma frame_v1_bytes:
  assumes "go_limits limits" and l: "UnmarshalFrame flate data limits = Inr f" "Frame_Version f = FormatVersion"
  shows "MarshalFrameWithPayloadAndLimits (TypeID f) (CodecID f) (int (length (Payload f))) limits
      (Some (Inr (Payload f))) = Inr data \<and> formatVersion f = 0 \<and> \<not> payloadOwned f"
proof -
  from l(1) obtain g where g: "UnmarshalFrameView flate data limits = Inr g" "f = g\<lparr>payloadOwned := False\<rparr>"
    by (auto simp: UnmarshalFrame_def split: sum.splits)
  from g(2) l have "Frame_Version g = FormatVersion" by (auto simp: Frame_Version_def split: if_splits)
  moreover obtain version typeID codecID rest where v: "data = envelope (header version typeID codecID @ rest)"
      "int (length data) \<le> MaxFrameBytes limits" "header_ok limits typeID codecID"
      "rest_ok flate limits version typeID codecID rest g"
    using g(1) unfolding Unmarshal_iff[OF assms(1)] by blast
  ultimately have "version = FormatVersion" using rest_ok_version by simp
  with v g(2) show ?thesis
    unfolding Marshal_v1_iff[OF assms(1)] by (auto simp: rest_ok_v1 body_v1_def)
qed

lemma frame_v1_decoded:
  assumes "go_limits limits" and r: "MarshalFrameWithPayloadAndLimits (TypeID f) (CodecID f)
      (int (length (Payload f))) limits (Some (Inr (Payload f))) = Inr data" "formatVersion f = 0" "\<not> payloadOwned f"
  shows "UnmarshalFrame flate data limits = Inr f \<and> Frame_Version f = FormatVersion"
proof -
  have "UnmarshalFrameView flate data limits = Inr f"
    using r unfolding Marshal_v1_iff[OF assms(1)] Unmarshal_iff[OF assms(1)]
    by (intro exI[of _ FormatVersion] exI[of _ "TypeID f"] exI[of _ "CodecID f"] exI[of _ "bytes_enc (Payload f)"])
      (auto simp: rest_ok_v1 body_v1_def)
  with r show ?thesis by (auto simp: UnmarshalFrame_def Frame_Version_def)
qed

lemma peek_version:
  assumes "go_limits limits" and "UnmarshalFrame flate data limits = Inr f"
  shows "PeekFrameFormatVersion data limits = Inr (Frame_Version f)"
proof -
  obtain g where g: "UnmarshalFrameView flate data limits = Inr g" "f = g\<lparr>payloadOwned := False\<rparr>"
    using assms(2) by (auto simp: UnmarshalFrame_def split: sum.splits)
  then have v: "Frame_Version f = Frame_Version g" by (auto simp: Frame_Version_def)
  have guards: "limits_valid limits" "int (length data) \<le> MaxFrameBytes limits" "9 \<le> length data" "take 4 data = magic"
    using g(1) by (auto simp: UnmarshalFrameView_def split: if_splits)
  obtain version typeID codecID rest where d: "data = envelope (header version typeID codecID @ rest)"
    and r: "rest_ok flate limits version typeID codecID rest g"
    using g(1) unfolding Unmarshal_iff[OF assms(1)] by blast
  have "data = magic @ uvarint version @ (uvarint typeID @ bytes_enc codecID @ rest @ put_be32 (crc32c (header version typeID codecID @ rest)))"
    by (simp add: d envelope_def header_def)
  then have "at_pos data 4 (uvarint version)"
    using at_pos_middle[of magic "uvarint version"] by simp
  then have "ReadUvarint data 4 = Some (version, 4 + length (uvarint version))"
    by (simp add: ReadUvarint_iff)
  with guards rest_ok_version[OF r] v show ?thesis by (auto simp: PeekFrameFormatVersion_def)
qed

section \<open>Frames of a payload\<close>

text \<open>What the payload codecs use: the frame literal they build, and what they may rely on.\<close>

definition frame_of :: "u64 \<Rightarrow> gostring \<Rightarrow> byte list \<Rightarrow> Frame" where
  "frame_of typeID codecID payload = \<lparr>TypeID = typeID, CodecID = codecID, Payload = payload,
     formatVersion = 0, payloadOwned = False\<rparr>"

lemma frame_of_simps [simp]:
  "TypeID (frame_of t c p) = t" "CodecID (frame_of t c p) = c" "Payload (frame_of t c p) = p"
  "formatVersion (frame_of t c p) = 0" "\<not> payloadOwned (frame_of t c p)"
  "Frame_Version (frame_of t c p) = FormatVersion"
  by (simp_all add: frame_of_def Frame_Version_def)

lemma frame_of_eq:
  "formatVersion f = 0 \<Longrightarrow> \<not> payloadOwned f \<Longrightarrow> f = frame_of (TypeID f) (CodecID f) (Payload f)"
  by (simp add: frame_of_def)

lemma DefaultLimits_go [simp]: "go_limits DefaultLimits"
  by (simp add: go_limits_def DefaultLimits_def)

lemma DefaultLimits_valid [simp]: "limits_valid DefaultLimits"
  by (simp add: limits_valid_def DefaultLimits_def)

lemma MarshalFrame_decoded:
  "MarshalFrame (frame_of t c p) = Inr data \<Longrightarrow> UnmarshalFrame flate data DefaultLimits = Inr (frame_of t c p)"
  using frame_v1_decoded[OF DefaultLimits_go, of "frame_of t c p" data flate]
  by (simp add: MarshalFrame_def MarshalFrameWithPayload_def)

lemma MarshalFrame_canonical:
  assumes "UnmarshalFrame flate data DefaultLimits = Inr f" and "Frame_Version f = FormatVersion"
  shows "MarshalFrame (frame_of (TypeID f) (CodecID f) (Payload f)) = Inr data"
  using frame_v1_bytes[OF DefaultLimits_go assms] by (simp add: MarshalFrame_def MarshalFrameWithPayload_def)

lemma MarshalFrameWithPayload_exact:
  "MarshalFrameWithPayload t c (int (length p)) (Some (Inr p)) = MarshalFrame (frame_of t c p)"
  by (simp add: MarshalFrame_def)

text \<open>A payload is marshalled into exactly the version 1 bytes that decode to it.\<close>

lemma frame_payload_iff:
  "(\<exists>f. UnmarshalFrame flate data DefaultLimits = Inr f \<and> TypeID f = t \<and> CodecID f = c \<and> Payload f = p \<and> P) \<and>
     PeekFrameFormatVersion data DefaultLimits = Inr FormatVersion \<longleftrightarrow>
   P \<and> MarshalFrame (frame_of t c p) = Inr data" (is "?l \<longleftrightarrow> ?r")
proof
  assume ?l
  then obtain f where f: "UnmarshalFrame flate data DefaultLimits = Inr f" "TypeID f = t" "CodecID f = c"
    "Payload f = p" P and peek: "PeekFrameFormatVersion data DefaultLimits = Inr FormatVersion" by blast
  then have "Frame_Version f = FormatVersion" using peek_version[OF DefaultLimits_go f(1)] by simp
  from MarshalFrame_canonical[OF f(1) this] f show ?r by simp
next
  assume r: ?r
  note d = MarshalFrame_decoded[of t c p data]
  have "PeekFrameFormatVersion data DefaultLimits = Inr FormatVersion"
    using peek_version[OF DefaultLimits_go d] r by simp
  with r d[of flate] show ?l by auto
qed

lemma Unmarshal_limits: "UnmarshalFrame flate data limits = Inr f \<Longrightarrow> limits_valid limits"
  by (auto simp: UnmarshalFrame_def UnmarshalFrameView_def split: sum.splits if_splits)

lemma Unmarshal_bounds:
  assumes "go_limits limits" and "UnmarshalFrame flate data limits = Inr f"
  shows "int (length (Payload f)) \<le> MaxPayload limits \<and> TypeID f \<noteq> 0 \<and> int (length (CodecID f)) \<le> MaxCodecID limits"
proof -
  obtain g where g: "UnmarshalFrameView flate data limits = Inr g" "f = g\<lparr>payloadOwned := False\<rparr>"
    using assms(2) by (auto simp: UnmarshalFrame_def split: sum.splits)
  then show ?thesis
    unfolding Unmarshal_iff[OF assms(1)] by (auto simp: rest_ok_def header_ok_def bytes_ok_def)
qed

lemma MarshalFrame_iff:
  "MarshalFrame (frame_of t c p) = Inr data \<longleftrightarrow> t \<noteq> 0 \<and> length c \<le> 256 \<and>
     int (length p) \<le> MaxPayload DefaultLimits \<and> data = envelope (body_v1 t c p)"
proof -
  have "int (length (envelope (body_v1 t c p))) \<le> MaxFrameBytes DefaultLimits"
    if "length c \<le> 256" "int (length p) \<le> MaxPayload DefaultLimits"
    using that length_uvarint_max[of FormatVersion] length_uvarint_max[of t]
      length_uvarint_max[of "of_nat (length c)"] length_uvarint_max[of "of_nat (length p)"]
    by (simp add: length_envelope body_v1_def header_def bytes_enc_def DefaultLimits_def)
  then show ?thesis
    using Marshal_v1_iff[OF DefaultLimits_go, of t c p data] header_ok_encoder[OF DefaultLimits_go, of t c]
    by (auto simp: MarshalFrame_def MarshalFrameWithPayload_def bytes_ok_def DefaultLimits_def limits_valid_def)
qed

section \<open>Properties\<close>

text \<open>A small frame, on which the properties below are evaluated.\<close>

definition sample_frame :: Frame where
  "sample_frame = \<lparr>TypeID = 1, CodecID = [], Payload = [7, 8], formatVersion = 0, payloadOwned = False\<rparr>"

lemma sample_marshal:
  "MarshalFrameWithPayloadAndLimits (TypeID sample_frame) (CodecID sample_frame) (int (length (Payload sample_frame)))
      DefaultLimits (Some (Inr (Payload sample_frame))) = Inr (envelope (body_v1 1 [] [7, 8])) \<and>
    formatVersion sample_frame = 0 \<and> \<not> payloadOwned sample_frame"
  by (simp add: sample_frame_def MarshalFrameWithPayloadAndLimits_def DefaultLimits_def limits_valid_def fill_def Let_def
      UvarintSize_def FormatVersion_def uvarint_small envelope_def body_v1_def header_def bytes_enc_def)

lemma sample_marshal_v2:
  "MarshalFrameV2WithLimits Inr sample_frame DefaultLimits = Inr (envelope (body_v2 1 [] 0 2 [7, 8]))"
  by (simp add: sample_frame_def MarshalFrameV2WithLimits_def validFrameV2Input_def marshalFrameV2Payload_def
      DefaultLimits_def limits_valid_def Let_def v2FrameSize_def uvarintSizeForLength_def UvarintSize_def
      FormatVersionV2_def uvarint_small v2_output_def envelope_def body_v2_def header_def bytes_enc_def)

lemma sample_decoded: "UnmarshalFrame flate (envelope (body_v1 1 [] [7, 8])) DefaultLimits = Inr sample_frame"
  using frame_v1_decoded[OF DefaultLimits_go, of sample_frame] sample_marshal by simp

text \<open>
  C12. Version 1 frames are canonical in both directions: within the same limits, the decoder returns a
  version 1 frame for exactly the bytes that the encoder writes for that frame. So encoding then
  decoding gives the frame back, and no two different byte strings decode to the same frame.
\<close>

theorem frame_v1_canonical:
  assumes "go_limits limits"
  shows "UnmarshalFrame flate data limits = Inr f \<and> Frame_Version f = FormatVersion \<longleftrightarrow>
    MarshalFrameWithPayloadAndLimits (TypeID f) (CodecID f) (int (length (Payload f))) limits
      (Some (Inr (Payload f))) = Inr data \<and> formatVersion f = 0 \<and> \<not> payloadOwned f"
  using frame_v1_bytes[OF assms] frame_v1_decoded[OF assms] by blast

theorem frame_v1_canonical_witness:
  "UnmarshalFrame (\<lambda>_. ([], None)) (envelope (body_v1 1 [] [7, 8])) DefaultLimits = Inr sample_frame"
  using frame_v1_canonical[of DefaultLimits "\<lambda>_. ([], None)" "envelope (body_v1 1 [] [7, 8])" sample_frame]
    sample_marshal DefaultLimits_go by simp

text \<open>
  The documented behaviour of \<open>compress/flate\<close> that version 2 relies on: a reader of the
  compressor's output delivers the compressed bytes and then ends.
\<close>

definition flate_roundtrip :: "(byte list \<Rightarrow> byte list res) \<Rightarrow> (byte list \<Rightarrow> byte list \<times> go_error option) \<Rightarrow> bool" where
  "flate_roundtrip deflate flate \<longleftrightarrow> (\<forall>payload compressed. deflate payload = Inr compressed \<longrightarrow>
     flate compressed = (payload, None))"

lemma v2FrameSize_eq:
  assumes "mode = v2PayloadRaw \<or> mode = v2PayloadDeflate"
  shows "v2FrameSize typeID codecID (int raw) (int (length encoded)) =
    int (length (envelope (body_v2 typeID codecID mode (of_nat raw) encoded)))"
proof -
  have "length (uvarint mode) = 1" "length (uvarint 1) = 1" using assms by (auto simp: uvarint_small)
  then show ?thesis
    by (simp add: v2FrameSize_def uvarintSizeForLength_def UvarintSize_def length_envelope body_v2_def
        header_def bytes_enc_def)
qed

lemma marshalFrameV2Payload_cases:
  assumes "marshalFrameV2Payload deflate typeID codecID payload limits = Inr data"
  obtains mode encoded where "data = envelope (body_v2 typeID codecID mode (of_nat (length payload)) encoded)"
    "int (length data) \<le> MaxFrameBytes limits"
    "mode = v2PayloadRaw \<and> encoded = payload \<or>
     mode = v2PayloadDeflate \<and> deflate payload = Inr encoded \<and> length data < length (envelope (body_v2 typeID codecID 0 (of_nat (length payload)) payload))"
proof -
  let ?raw = "int (length payload)"
  obtain mode encoded where
    d: "data = envelope (body_v2 typeID codecID mode (of_nat (length payload)) encoded)"
    and size: "v2FrameSize typeID codecID ?raw (int (length encoded)) \<le> MaxFrameBytes limits"
    and m: "mode = 0 \<and> encoded = payload \<or> mode = 1 \<and> deflate payload = Inr encoded \<and>
      v2FrameSize typeID codecID ?raw (int (length encoded)) < v2FrameSize typeID codecID ?raw ?raw"
    using assms
    by (auto simp: marshalFrameV2Payload_def v2_output_eq Let_def split: if_splits sum.splits)
  then have mode: "mode = 0 \<or> mode = 1" by blast
  then have "int (length data) \<le> MaxFrameBytes limits"
    using size v2FrameSize_eq[OF mode, of typeID codecID "length payload" encoded] d by simp
  moreover have "mode = 1 \<Longrightarrow>
    length data < length (envelope (body_v2 typeID codecID 0 (of_nat (length payload)) payload))"
    using m d v2FrameSize_eq[of 1 typeID codecID "length payload" encoded]
      v2FrameSize_eq[of 0 typeID codecID "length payload" payload] by auto
  ultimately show ?thesis using that d m by blast
qed

lemma frame_v2_decoded:
  assumes "go_limits limits" and "MaxPayload limits < max_int" and "flate_roundtrip deflate flate"
    and "MarshalFrameV2WithLimits deflate f limits = Inr data"
  shows "UnmarshalFrame flate data limits = Inr (f\<lparr>formatVersion := FormatVersionV2, payloadOwned := False\<rparr>) \<and>
    length data \<le> length (envelope (body_v2 (TypeID f) (CodecID f) v2PayloadRaw (of_nat (length (Payload f))) (Payload f)))"
proof -
  have valid: "validFrameV2Input (TypeID f) (CodecID f) (int (length (Payload f))) limits"
    and m: "marshalFrameV2Payload deflate (TypeID f) (CodecID f) (Payload f) limits = Inr data"
    using assms(4) by (auto simp: MarshalFrameV2WithLimits_def split: if_splits)
  obtain mode encoded where
    d: "data = envelope (body_v2 (TypeID f) (CodecID f) mode (of_nat (length (Payload f))) encoded)"
    and len: "int (length data) \<le> MaxFrameBytes limits"
    and mode: "mode = 0 \<and> encoded = Payload f \<or> mode = 1 \<and> deflate (Payload f) = Inr encoded \<and>
      length data < length (envelope (body_v2 (TypeID f) (CodecID f) 0 (of_nat (length (Payload f))) (Payload f)))"
    using m by (rule marshalFrameV2Payload_cases)
  let ?rest = "uvarint mode @ uvarint (of_nat (length (Payload f))) @ bytes_enc encoded"
  let ?g = "f\<lparr>formatVersion := FormatVersionV2, payloadOwned := (mode = 1)\<rparr>"
  have "int (length encoded) \<le> max_int"
    using len assms(1) by (simp add: d length_envelope body_v2_def bytes_enc_def go_limits_def)
  moreover have "mode = 1 \<Longrightarrow> flate encoded = (Payload f, None)"
    using mode assms(3) by (auto simp: flate_roundtrip_def)
  ultimately have "rest_ok flate limits FormatVersionV2 (TypeID f) (CodecID f) ?rest ?g"
    unfolding rest_ok_def using mode valid assms(2)
    by (intro disjI2, intro conjI exI[of _ mode] exI[of _ "length (Payload f)"] exI[of _ encoded] exI[of _ "Payload f"])
      (auto simp: validFrameV2Input_def)
  moreover have "header_ok limits (TypeID f) (CodecID f)"
    using valid assms(1) by (simp add: header_ok_encoder validFrameV2Input_def)
  ultimately have "UnmarshalFrameView flate data limits = Inr ?g"
    unfolding Unmarshal_iff[OF assms(1)] using d len unfolding body_v2_def by blast
  then show ?thesis using mode d by (auto simp: UnmarshalFrame_def)
qed

text \<open>
  C26. Version 2 changes the representation only: whatever the encoder chooses, raw or compressed, the
  decoder gives back the type, codec and payload of the frame, and the bytes are never longer than
  the raw representation. This relies on the compressor's round trip.
\<close>

theorem frame_v2_roundtrip:
  assumes "go_limits limits" and "MaxPayload limits < max_int" and "flate_roundtrip deflate flate"
    and "MarshalFrameV2WithLimits deflate f limits = Inr data"
  shows "UnmarshalFrame flate data limits = Inr (f\<lparr>formatVersion := FormatVersionV2, payloadOwned := False\<rparr>) \<and>
    length data \<le> length (envelope (body_v2 (TypeID f) (CodecID f) v2PayloadRaw (of_nat (length (Payload f))) (Payload f)))"
  using assms by (rule frame_v2_decoded)

theorem frame_v2_roundtrip_witness:
  "UnmarshalFrame (\<lambda>c. (c, None)) (envelope (body_v2 1 [] 0 2 [7, 8])) DefaultLimits =
     Inr (sample_frame\<lparr>formatVersion := FormatVersionV2, payloadOwned := False\<rparr>)"
  using frame_v2_roundtrip[OF DefaultLimits_go _ _ sample_marshal_v2]
  by (simp add: DefaultLimits_def flate_roundtrip_def)

text \<open>
  Upgrading a version 1 frame and downgrading the result restores the original bytes, whatever
  representation the version 2 encoder chose.
\<close>

theorem convert_roundtrip:
  assumes "go_limits limits" and "MaxPayload limits < max_int" and "flate_roundtrip deflate flate"
    and "ConvertFrameV1ToV2 deflate flate data limits = Inr upgraded"
  shows "ConvertFrameV2ToV1 flate upgraded limits = Inr data"
proof -
  obtain f where f: "UnmarshalFrame flate data limits = Inr f" "Frame_Version f = FormatVersion"
    and up: "MarshalFrameV2WithLimits deflate f limits = Inr upgraded"
    using assms(4) by (auto simp: ConvertFrameV1ToV2_def split: sum.splits if_splits)
  have v1: "MarshalFrameWithPayloadAndLimits (TypeID f) (CodecID f) (int (length (Payload f))) limits
      (Some (Inr (Payload f))) = Inr data"
    using frame_v1_bytes[OF assms(1) f] by simp
  have "UnmarshalFrame flate upgraded limits = Inr (f\<lparr>formatVersion := FormatVersionV2, payloadOwned := False\<rparr>)"
    using frame_v2_decoded[OF assms(1-3) up] by simp
  with v1 show ?thesis by (simp add: ConvertFrameV2ToV1_def Frame_Version_def FormatVersionV2_def)
qed

theorem convert_roundtrip_witness:
  "ConvertFrameV1ToV2 Inr (\<lambda>c. (c, None)) (envelope (body_v1 1 [] [7, 8])) DefaultLimits =
     Inr (envelope (body_v2 1 [] 0 2 [7, 8])) \<and>
   ConvertFrameV2ToV1 (\<lambda>c. (c, None)) (envelope (body_v2 1 [] 0 2 [7, 8])) DefaultLimits =
     Inr (envelope (body_v1 1 [] [7, 8]))"
proof -
  have up: "ConvertFrameV1ToV2 Inr (\<lambda>c. (c, None)) (envelope (body_v1 1 [] [7, 8])) DefaultLimits =
      Inr (envelope (body_v2 1 [] 0 2 [7, 8]))"
    using sample_marshal_v2 by (simp add: ConvertFrameV1ToV2_def sample_decoded Frame_Version_def sample_marshal)
  from convert_roundtrip[OF DefaultLimits_go _ _ up] up show ?thesis
    by (simp add: DefaultLimits_def flate_roundtrip_def)
qed

text \<open>
  The peeked version is the decoded one: a boundary that selects a decoder by
  \<open>PeekFrameFormatVersion\<close> selects the version that the full decoder then reports.
\<close>

theorem peek_agrees:
  assumes "go_limits limits" and "UnmarshalFrame flate data limits = Inr f"
  shows "PeekFrameFormatVersion data limits = Inr (Frame_Version f)"
  using assms by (rule peek_version)

theorem peek_agrees_witness:
  "PeekFrameFormatVersion (envelope (body_v1 1 [] [7, 8])) DefaultLimits = Inr FormatVersion"
  using peek_agrees[OF DefaultLimits_go sample_decoded] by (simp add: Frame_Version_def sample_marshal)

text \<open>
  The default limits fit together: \<open>MarshalFrame\<close> accepts every frame with a non-zero type, a codec
  identifier of at most 256 bytes and a payload within \<open>MaxPayload\<close>, because \<open>maxFrameOverhead\<close> covers
  any envelope, and the frame it writes is accepted under the same limits.
\<close>

theorem default_frame_total:
  assumes "TypeID f \<noteq> 0" and "length (CodecID f) \<le> 256" and "int (length (Payload f)) \<le> MaxPayload DefaultLimits"
    and "formatVersion f = 0" and "\<not> payloadOwned f"
  shows "\<exists>data. MarshalFrame f = Inr data \<and> UnmarshalFrame flate data DefaultLimits = Inr f"
proof -
  have f: "f = frame_of (TypeID f) (CodecID f) (Payload f)" using assms(4,5) by (rule frame_of_eq)
  obtain data where "MarshalFrame f = Inr data"
    using assms(1-3) MarshalFrame_iff[of "TypeID f" "CodecID f" "Payload f"] f by auto
  with MarshalFrame_decoded[of "TypeID f" "CodecID f" "Payload f"] f show ?thesis by auto
qed

theorem default_frame_total_witness:
  "\<exists>data. MarshalFrame sample_frame = Inr data \<and> UnmarshalFrame (\<lambda>c. (c, None)) data DefaultLimits = Inr sample_frame"
  using default_frame_total[of sample_frame] by (simp add: sample_frame_def DefaultLimits_def)

end
