(* ===== verification/Counts.thy ===== *)
theory Counts
  imports Framing
begin

text \<open>
  What both counters of \<open>src/counter\<close> share: a \<open>map[string]uint64\<close> of per-replica components, its
  join, its sums and its canonical section in a payload.
\<close>

type_synonym counts = "(gostring, u64) fmap"

abbreviation counter_ErrInvalidReplicaID :: go_error where
  "counter_ErrInvalidReplicaID \<equiv> errors_New ''counter: invalid replica ID''"

abbreviation counter_ErrNilCounter :: go_error where
  "counter_ErrNilCounter \<equiv> errors_New ''counter: nil G-Counter''"

abbreviation counter_ErrNilPNCounter :: go_error where
  "counter_ErrNilPNCounter \<equiv> errors_New ''counter: nil PN-Counter''"

abbreviation counter_ErrCounterOverflow :: go_error where
  "counter_ErrCounterOverflow \<equiv> errors_New ''counter: value overflows uint64''"

section \<open>Joining\<close>

definition join_step :: "gostring \<Rightarrow> u64 \<Rightarrow> counts \<Rightarrow> counts" where
  "join_step replicaID value target =
     (if value > count_at target replicaID then fmupd replicaID value target else target)"

definition joinCounts :: "counts \<Rightarrow> counts \<Rightarrow> counts" where
  "joinCounts target source = fold (\<lambda>(replicaID, value). join_step replicaID value) (fm_items source) target"

definition joinCountsChanged :: "counts \<Rightarrow> counts \<Rightarrow> counts \<times> bool" where
  "joinCountsChanged target source =
     fold (\<lambda>(replicaID, value) (target, changed).
         if value > count_at target replicaID then (fmupd replicaID value target, True) else (target, changed))
       (fm_items source) (target, False)"

definition cloneCounts :: "counts \<Rightarrow> counts" where
  "cloneCounts counts = fold (\<lambda>(replicaID, value) clone. fmupd replicaID value clone) (fm_items counts) fmempty"

definition validateCounts :: "counts \<Rightarrow> unit res" where
  "validateCounts counts =
     (if list_all valid_replica (fm_keys counts) then Inr () else Inl counter_ErrInvalidReplicaID)"

lemma cloneCounts_id [simp]: "cloneCounts m = m"
  unfolding cloneCounts_def using fold_fmupd_of_list[of "fm_items m"]
  by (simp add: case_prod_unfold map_fst_fm_items[unfolded comp_def])

definition valid_counts :: "counts \<Rightarrow> bool" where
  "valid_counts m \<longleftrightarrow> (\<forall>k. k |\<in>| fmdom m \<longrightarrow> valid_replica k)"

lemma validateCounts_eq:
  "validateCounts m = (if valid_counts m then Inr () else Inl counter_ErrInvalidReplicaID)"
  by (auto simp: validateCounts_def list_all_iff valid_counts_def)

lemma join_step_own: "touches_own_key join_step
    (\<lambda>k v old. if v > (case old of None \<Rightarrow> 0 | Some w \<Rightarrow> w) then Some v else old)"
  by (auto simp: touches_own_key_def join_step_def count_at_def)

text \<open>The join visits the source in the order of a map iteration, which does not matter.\<close>

lemma joinCounts_any_order:
  "distinct (map fst xs) \<Longrightarrow> set xs = set (fm_items source) \<Longrightarrow>
    fold (\<lambda>(replicaID, value). join_step replicaID value) xs target = joinCounts target source"
  unfolding joinCounts_def by (rule fold_enumeration[OF join_step_own])

lemma joinCounts_lookup:
  "fmlookup (joinCounts a b) k = (if count_at b k > count_at a k then Some (count_at b k) else fmlookup a k)"
proof -
  have "distinct (map fst (fm_items b))" unfolding map_fst_fm_items by simp
  from fold_enumeration_lookup[OF join_step_own this, of a k] show ?thesis
    by (auto simp: joinCounts_def count_at_def split: option.splits)
qed

lemma count_at_join [simp]: "count_at (joinCounts a b) k = max (count_at a k) (count_at b k)"
  by (auto simp: count_at_def[of "joinCounts a b"] joinCounts_lookup max_def)
    (auto simp: count_at_def split: option.splits)

lemma fmdom_joinCounts:
  "k |\<in>| fmdom (joinCounts a b) \<longleftrightarrow> k |\<in>| fmdom a \<or> count_at b k > 0"
proof (cases "k |\<in>| fmdom a")
  case True
  then show ?thesis by (auto simp: joinCounts_lookup fmlookup_dom_iff)
next
  case False
  then have "fmlookup a k = None" "count_at a k = 0" by (simp_all add: count_at_def fmdom_notD)
  with False show ?thesis by (auto simp: joinCounts_lookup fmlookup_dom_iff)
qed

lemma valid_counts_join: "valid_counts a \<Longrightarrow> valid_counts b \<Longrightarrow> valid_counts (joinCounts a b)"
  unfolding valid_counts_def fmdom_joinCounts
  by (metis count_at_def fmdom_notD option.simps(4) word_gt_0)

lemma joinCounts_assoc: "joinCounts (joinCounts a b) c = joinCounts a (joinCounts b c)"
  by (rule fmap_ext) (auto simp: joinCounts_lookup max_def)

lemma joinCounts_idem: "joinCounts a a = a"
  by (rule fmap_ext) (simp add: joinCounts_lookup)

lemma joinCountsChanged_eq:
  "joinCountsChanged a b = (joinCounts a b, joinCounts a b \<noteq> a)"
proof -
  have "fold (\<lambda>(k, v) (t, ch). if v > count_at t k then (fmupd k v t, True) else (t, ch)) xs (t, ch) =
      (fold (\<lambda>(k, v). join_step k v) xs t, ch \<or> fold (\<lambda>(k, v). join_step k v) xs t \<noteq> t)"
    if "distinct (map fst xs)" for xs t ch
    using that
  proof (induction xs arbitrary: t ch)
    case Nil
    then show ?case by simp
  next
    case (Cons p xs)
    obtain k v where p: "p = (k, v)" by fastforce
    show ?case
    proof (cases "v > count_at t k")
      case True
      have "map_of xs k = None" using Cons.prems p by (simp add: map_of_eq_None_iff)
      then have "fmlookup (fold (\<lambda>(k, v). join_step k v) xs (fmupd k v t)) k = Some v"
        using Cons.prems fold_enumeration_lookup[OF join_step_own, of xs "fmupd k v t" k] by simp
      moreover have "fmlookup t k \<noteq> Some v" using True by (auto simp: count_at_def)
      ultimately have "fold (\<lambda>(k, v). join_step k v) xs (fmupd k v t) \<noteq> t" by auto
      moreover have "join_step k v t = fmupd k v t" using True by (simp add: join_step_def)
      ultimately show ?thesis using True Cons p by simp
    next
      case False
      then have "join_step k v t = t" by (simp add: join_step_def)
      with False Cons p show ?thesis by simp
    qed
  qed
  from this[of "fm_items b" a False] show ?thesis
    unfolding joinCountsChanged_def joinCounts_def map_fst_fm_items by simp
qed

text \<open>
  Components that are zero count for nothing but are kept apart from missing ones by the map. Without
  zero components the join is commutative on the maps themselves; \<open>drop_zeros\<close> removes them.
\<close>

definition no_zeros :: "counts \<Rightarrow> bool" where
  "no_zeros m \<longleftrightarrow> (\<forall>k. fmlookup m k \<noteq> Some 0)"

definition drop_zeros :: "counts \<Rightarrow> counts" where
  "drop_zeros m = fmfilter (\<lambda>k. count_at m k \<noteq> 0) m"

lemma no_zeros_lookup: "no_zeros m \<Longrightarrow> fmlookup m k = (if count_at m k = 0 then None else Some (count_at m k))"
  by (auto simp: no_zeros_def count_at_def split: option.splits)

lemma no_zeros_eqI: "no_zeros a \<Longrightarrow> no_zeros b \<Longrightarrow> (\<And>k. count_at a k = count_at b k) \<Longrightarrow> a = b"
  by (rule fmap_ext) (simp add: no_zeros_lookup)

lemma no_zeros_join: "no_zeros a \<Longrightarrow> no_zeros b \<Longrightarrow> no_zeros (joinCounts a b)"
  by (auto simp: no_zeros_def joinCounts_lookup word_less_nat_alt)

lemma drop_zeros_simps [simp]:
  "no_zeros (drop_zeros m)" "count_at (drop_zeros m) k = count_at m k"
  by (auto simp: no_zeros_def drop_zeros_def count_at_def split: option.splits)

lemma joinCounts_commute: "no_zeros a \<Longrightarrow> no_zeros b \<Longrightarrow> joinCounts a b = joinCounts b a"
  by (rule no_zeros_eqI) (simp_all add: no_zeros_join max.commute)

lemma drop_zeros_join: "drop_zeros (joinCounts a b) = joinCounts (drop_zeros a) (drop_zeros b)"
  by (rule no_zeros_eqI) (simp_all add: no_zeros_join)

interpretation counts_crdt: state_crdt no_zeros joinCounts
  by unfold_locales (simp_all add: no_zeros_join joinCounts_commute joinCounts_assoc joinCounts_idem)

lemma drop_zeros_fold: "drop_zeros (foldl joinCounts s ms) = counts_crdt.deliver (drop_zeros s) (map drop_zeros ms)"
  by (induction ms arbitrary: s) (simp_all add: drop_zeros_join)

lemma counts_converge:
  assumes "set ms = set ns"
  shows "count_at (foldl joinCounts s ms) = count_at (foldl joinCounts s ns)"
proof -
  have "drop_zeros (foldl joinCounts s ms) = drop_zeros (foldl joinCounts s ns)"
    unfolding drop_zeros_fold using assms by (intro counts_crdt.deliver_converges) auto
  then show ?thesis by (metis drop_zeros_simps(2) ext)
qed

section \<open>Sums\<close>

text \<open>The loop of \<open>GCounter.Value\<close>, with its overflow check, on the values in iteration order.\<close>

fun Value_loop :: "u64 list \<Rightarrow> u64 \<Rightarrow> u64 res" where
  "Value_loop [] acc = Inr acc"
| "Value_loop (value # values) acc =
     (if max_u64 - acc < value then Inl counter_ErrCounterOverflow
      else Value_loop values (acc + value))"

definition sumCounts :: "counts \<Rightarrow> int" where
  "sumCounts counts = fold (\<lambda>(_, value) acc. acc + uint value) (fm_items counts) 0"

definition counts_total :: "counts \<Rightarrow> nat" where
  "counts_total counts = (\<Sum>(_, v) \<leftarrow> fm_items counts. unat v)"

lemma Value_loop_eq:
  "Value_loop vs t = (if unat t + sum_list (map unat vs) < 2 ^ 64
     then Inr (of_nat (unat t + sum_list (map unat vs))) else Inl counter_ErrCounterOverflow)"
proof (induction vs arbitrary: t)
  case Nil
  then show ?case using unat_u64_less[of t] by simp
next
  case (Cons v vs)
  show ?case
  proof (cases "max_u64 - t < v")
    case True
    then show ?thesis by (simp add: u64_room)
  next
    case False
    then show ?thesis
      by (simp only: Value_loop.simps if_False Cons u64_add[OF False] list.map sum_list.Cons add.assoc)
  qed
qed

lemma total_any_order: "mset xs = mset (fm_items m) \<Longrightarrow> sum_list (map (unat \<circ> snd) xs) = counts_total m"
  by (metis (no_types, lifting) case_prod_beta comp_apply map_cong mset_map sum_mset_sum_list counts_total_def)

lemma sumCounts_total: "sumCounts m = int (counts_total m)"
proof -
  have "fold (\<lambda>(_, v) t. t + uint v) xs t = t + int (\<Sum>(_, v) \<leftarrow> xs. unat v)" for xs :: "(gostring \<times> u64) list" and t
    by (induction xs arbitrary: t) (auto simp: algebra_simps)
  then show ?thesis by (simp add: sumCounts_def counts_total_def)
qed

lemma total_sum: "counts_total m = (\<Sum>k \<in> fset (fmdom m). unat (count_at m k))"
proof -
  have "counts_total m = (\<Sum>k \<leftarrow> fm_keys m. unat (count_at m k))"
    unfolding counts_total_def fm_items_def
    by (intro arg_cong[of _ _ sum_list]) (auto simp: count_at_def fmlookup_dom_iff)
  also have "\<dots> = (\<Sum>k \<in> fset (fmdom m). unat (count_at m k))"
    by (simp add: sum_list_distinct_conv_sum_set)
  finally show ?thesis .
qed

lemma total_upd: "counts_total (fmupd k v m) + unat (count_at m k) = counts_total m + unat v"
proof -
  let ?S = "fset (fmdom m) - {k}"
  have "counts_total (fmupd k v m) = unat v + (\<Sum>x \<in> ?S. unat (count_at m x))"
    unfolding total_sum by (simp add: sum.insert_remove) (rule sum.cong, auto)
  moreover have "counts_total m = unat (count_at m k) + (\<Sum>x \<in> ?S. unat (count_at m x))"
  proof (cases "k |\<in>| fmdom m")
    case True
    then show ?thesis unfolding total_sum by (simp add: sum.remove)
  next
    case False
    then show ?thesis unfolding total_sum by (simp add: count_at_def fmdom_notD)
  qed
  ultimately show ?thesis by simp
qed

lemma total_count_at:
  assumes "count_at a = count_at b"
  shows "counts_total a = counts_total b"
proof -
  have "counts_total m = (\<Sum>k \<in> fset (fmdom a) \<union> fset (fmdom b). unat (count_at m k))"
    if "m = a \<or> m = b" for m
    unfolding total_sum using that
    by (intro sum.mono_neutral_left) (auto simp: count_at_def fmdom_notD)
  with assms show ?thesis by simp
qed

section \<open>The section of a payload\<close>

text \<open>
  One entry is a length-prefixed replica ID and its component. \<open>read_entry\<close> is the body of the decode
  loops up to the order check, \<open>counts_loop\<close> the loop: \<open>previous\<close> is \<open>None\<close> at index 0.
\<close>

definition read_entry :: "int \<Rightarrow> byte list \<Rightarrow> nat \<Rightarrow> ((gostring \<times> u64) \<times> nat) option" where
  "read_entry maxStringBytes payload pos = (case ReadBytes payload pos maxStringBytes of
      None \<Rightarrow> None
    | Some (key, next) \<Rightarrow> (case ReadUvarint payload next of
          None \<Rightarrow> None
        | Some (value, next) \<Rightarrow> if \<not> valid_replica key then None else Some ((key, value), next)))"

fun counts_loop :: "byte list \<Rightarrow> int \<Rightarrow> int \<Rightarrow> nat \<Rightarrow> gostring option \<Rightarrow> nat \<Rightarrow> counts \<Rightarrow> (counts \<times> nat) res" where
  "counts_loop payload maxElements maxStringBytes 0 previous pos counts = Inr (counts, pos)"
| "counts_loop payload maxElements maxStringBytes (Suc n) previous pos counts =
     (if int (fm_size counts) \<ge> maxElements then Inl encoding_ErrInvalidFrame
      else (case read_entry maxStringBytes payload pos of
          None \<Rightarrow> Inl encoding_ErrInvalidFrame
        | Some ((key, value), next) \<Rightarrow>
            if (case previous of None \<Rightarrow> False | Some p \<Rightarrow> \<not> p < key) then Inl encoding_ErrInvalidFrame
            else counts_loop payload maxElements maxStringBytes n (Some key) next (fmupd key value counts)))"

text \<open>The sizes the encoders add up before they allocate, and the bytes they append.\<close>

fun counts_size :: "counts \<Rightarrow> DecoderLimits \<Rightarrow> gostring list \<Rightarrow> int \<Rightarrow> int res" where
  "counts_size counts limits [] payloadSize = Inr payloadSize"
| "counts_size counts limits (key # keys) payloadSize =
     (if int (length key) > MaxStringBytes limits then Inl encoding_ErrFrameLimit
      else
        (let additional = int (UvarintSize (of_nat (length key)) + length key + UvarintSize (count_at counts key)) in
         if additional > MaxPayload limits - payloadSize then Inl encoding_ErrFrameLimit
         else counts_size counts limits keys (payloadSize + additional)))"

fun append_counts :: "counts \<Rightarrow> gostring list \<Rightarrow> byte list \<Rightarrow> byte list" where
  "append_counts counts [] payload = payload"
| "append_counts counts (key # keys) payload =
     append_counts counts keys
       (AppendUvarint (AppendUvarint payload (of_nat (length key)) @ key) (count_at counts key))"

definition entry_enc :: "gostring \<times> u64 \<Rightarrow> byte list" where
  "entry_enc e = bytes_enc (fst e) @ uvarint (snd e)"

definition entry_ok :: "int \<Rightarrow> gostring \<times> u64 \<Rightarrow> bool" where
  "entry_ok m e \<longleftrightarrow> bytes_ok m (fst e) \<and> valid_replica (fst e)"

definition section_enc :: "counts \<Rightarrow> byte list" where
  "section_enc m = uvarint (of_nat (fm_size m)) @ concat (map entry_enc (fm_items m))"

definition section_ok :: "int \<Rightarrow> int \<Rightarrow> counts \<Rightarrow> bool" where
  "section_ok maxElements maxStringBytes m \<longleftrightarrow> int (fm_size m) \<le> maxElements \<and> fm_size m < 2 ^ 64 \<and>
     (\<forall>k. k |\<in>| fmdom m \<longrightarrow> bytes_ok maxStringBytes k \<and> valid_replica k)"

lemma read_entry_iff:
  "read_entry m data p = Some (e, q) \<longleftrightarrow> entry_ok m e \<and> at_pos data p (entry_enc e) \<and> q = p + length (entry_enc e)"
proof -
  have "read_entry m data p = Some (e, q) \<longleftrightarrow> (\<exists>n. ReadBytes data p m = Some (fst e, n) \<and>
      ReadUvarint data n = Some (snd e, q) \<and> valid_replica (fst e))"
    by (cases e) (auto simp: read_entry_def split: option.splits if_splits)
  also have "\<dots> \<longleftrightarrow> entry_ok m e \<and> at_pos data p (entry_enc e) \<and> q = p + length (entry_enc e)"
    by (auto simp: ReadBytes_iff ReadUvarint_iff entry_ok_def entry_enc_def at_pos_append add.assoc)
  finally show ?thesis .
qed

interpretation entry_field: wire_field entry_enc "entry_ok m" "read_entry m" for m
  by unfold_locales (rule read_entry_iff)

lemma counts_loop_eq:
  "(\<forall>k. k |\<in>| fmdom counts \<longrightarrow> (\<exists>p. previous = Some p \<and> k \<le> p)) \<Longrightarrow>
   counts_loop payload maxElements m n previous pos counts = Inr (counts', q) \<longleftrightarrow>
     (\<exists>xs. entry_field.read_ascending m fst payload n previous pos = Some (xs, q) \<and>
        (n = 0 \<or> int (fm_size counts + n) \<le> maxElements) \<and> counts' = fold (\<lambda>(k, v). fmupd k v) xs counts)"
proof (induction n arbitrary: previous pos counts)
  case 0
  then show ?case by auto
next
  case (Suc n)
  show ?case
  proof (cases "read_entry m payload pos")
    case None
    then show ?thesis by simp
  next
    case (Some r)
    obtain key v nxt where r: "r = ((key, v), nxt)" by (cases r) auto
    show ?thesis
    proof (cases "case previous of None \<Rightarrow> False | Some p \<Rightarrow> \<not> p < key")
      case True
      with Some r show ?thesis by (auto split: option.splits)
    next
      case False
      then have new: "key |\<notin>| fmdom counts" and
        ub: "\<forall>k. k |\<in>| fmdom (fmupd key v counts) \<longrightarrow> (\<exists>p. Some key = Some p \<and> k \<le> p)"
        using Suc.prems by (fastforce split: option.splits)+
      have "fm_size (fmupd key v counts) = Suc (fm_size counts)" using new by (simp add: fm_size_fmupd)
      with Suc.IH[OF ub, of nxt] False Some r show ?thesis
        by (auto split: option.splits)
    qed
  qed
qed

lemma items_of_keys: "map (\<lambda>k. (k, count_at m k)) (fm_keys m) = fm_items m"
  unfolding fm_items_def by (rule map_cong) (auto simp: count_at_def fmlookup_dom_iff)

lemma counts_loop_section:
  assumes "0 \<le> maxElements"
  shows "(\<exists>count. at_pos payload pos (uvarint count) \<and>
      counts_loop payload maxElements ms (unat count) None (pos + length (uvarint count)) fmempty = Inr (m, q)) \<longleftrightarrow>
    section_ok maxElements ms m \<and> at_pos payload pos (section_enc m) \<and> q = pos + length (section_enc m)"
    (is "?l \<longleftrightarrow> ?r")
proof
  assume ?l
  then obtain count where c: "at_pos payload pos (uvarint count)" and
    l: "counts_loop payload maxElements ms (unat count) None (pos + length (uvarint count)) fmempty = Inr (m, q)"
    by blast
  have le: "pos + length (uvarint count) \<le> length payload" using c by (rule at_pos_le)
  obtain xs where xs: "length xs = unat count" "\<forall>x \<in> set xs. entry_ok ms x" "sorted_wrt (<) (map fst xs)"
    "at_pos payload (pos + length (uvarint count)) (concat (map entry_enc xs))"
    "q = pos + length (uvarint count) + length (concat (map entry_enc xs))"
    and bound: "unat count = 0 \<or> int (unat count) \<le> maxElements"
    and m: "m = fold (\<lambda>(k, v). fmupd k v) xs fmempty"
    using l unfolding counts_loop_eq[of fmempty None, simplified] entry_field.read_ascending_iff[OF le] by auto
  have d: "distinct (map fst xs)" using xs(3) by (simp add: strict_sorted_iff)
  have mm: "m = fmap_of_list xs" using m fold_fmupd_of_list[OF d] by simp
  have items: "fm_items m = xs" "fm_size m = length xs"
    using xs(3) d by (simp_all add: mm fm_items_fmap_of_list fm_size_fmap_of_list)
  have "k |\<in>| fmdom m \<Longrightarrow> bytes_ok ms k \<and> valid_replica k" for k
    using xs(2) by (auto simp: mm fset_of_list_elem entry_ok_def)
  moreover have "int (length xs) \<le> maxElements" "length xs < 2 ^ 64"
    using bound[folded xs(1)] assms unat_u64_less[of count, folded xs(1)] by auto
  ultimately have "section_ok maxElements ms m" by (simp add: section_ok_def items)
  moreover have "section_enc m = uvarint count @ concat (map entry_enc xs)"
    by (simp add: section_enc_def items xs(1))
  ultimately show ?r using c xs(4,5) by (simp add: at_pos_append)
next
  assume r: ?r
  let ?c = "of_nat (fm_size m) :: u64"
  have u: "unat ?c = fm_size m" using r by (simp add: section_ok_def unsigned_of_nat take_bit_nat_eq_self)
  have c: "at_pos payload pos (uvarint ?c)"
    and rest: "at_pos payload (pos + length (uvarint ?c)) (concat (map entry_enc (fm_items m)))"
    using r by (auto simp: section_enc_def at_pos_append)
  have le: "pos + length (uvarint ?c) \<le> length payload" using c by (rule at_pos_le)
  have d: "distinct (map fst (fm_items m))" "sorted_wrt (<) (map fst (fm_items m))"
    unfolding map_fst_fm_items by simp_all
  have "\<forall>x \<in> set (fm_items m). entry_ok ms x"
    using r by (auto simp: section_ok_def entry_ok_def fmlookup_dom_iff)
  then have "entry_field.read_ascending ms fst payload (fm_size m) None (pos + length (uvarint ?c)) = Some (fm_items m, q)"
    unfolding entry_field.read_ascending_iff[OF le] using r rest d(2)
    by (auto simp: section_enc_def)
  moreover have "m = fold (\<lambda>(k, v). fmupd k v) (fm_items m) fmempty" using fold_fmupd_of_list[OF d(1)] by simp
  ultimately have "counts_loop payload maxElements ms (unat ?c) None (pos + length (uvarint ?c)) fmempty = Inr (m, q)"
    unfolding counts_loop_eq[of fmempty None, simplified] u using r by (auto simp: section_ok_def)
  with c show ?l by blast
qed

lemma append_counts_eq:
  "append_counts counts keys payload = payload @ concat (map (\<lambda>k. entry_enc (k, count_at counts k)) keys)"
  by (induction keys arbitrary: payload) (simp_all add: AppendUvarint_def entry_enc_def bytes_enc_def)

lemma append_section: "append_counts m (fm_keys m) (AppendUvarint dst (of_nat (fm_size m))) = dst @ section_enc m"
  unfolding append_counts_eq section_enc_def items_of_keys[symmetric]
  by (simp add: AppendUvarint_def comp_def)

lemma counts_size_iff:
  "counts_size counts limits keys sz = Inr s \<longleftrightarrow>
     s = sz + int (length (concat (map (\<lambda>k. entry_enc (k, count_at counts k)) keys))) \<and>
     (\<forall>k \<in> set keys. int (length k) \<le> MaxStringBytes limits) \<and> (keys = [] \<or> s \<le> MaxPayload limits)"
proof (induction keys arbitrary: sz)
  case Nil
  then show ?case by auto
next
  case (Cons k keys)
  have len: "int (UvarintSize (of_nat (length k)) + length k + UvarintSize (count_at counts k)) =
      int (length (entry_enc (k, count_at counts k)))"
    by (simp add: UvarintSize_def entry_enc_def bytes_enc_def)
  show ?case unfolding counts_size.simps Let_def if_Inl_Inr Cons len by auto
qed

lemma section_size:
  "counts_size m limits (fm_keys m) (int (UvarintSize (of_nat (fm_size m)))) = Inr s \<longleftrightarrow>
     s = int (length (section_enc m)) \<and>
     (\<forall>k. k |\<in>| fmdom m \<longrightarrow> int (length k) \<le> MaxStringBytes limits) \<and> (m = fmempty \<or> s \<le> MaxPayload limits)"
proof -
  have "fm_keys m = [] \<longleftrightarrow> m = fmempty"
    by (metis fm_keys_simps(4) fm_size_eq_0 length_0_conv)
  moreover have "concat (map (\<lambda>k. entry_enc (k, count_at m k)) (fm_keys m)) = concat (map entry_enc (fm_items m))"
    unfolding items_of_keys[symmetric] by (simp add: comp_def)
  ultimately show ?thesis
    unfolding counts_size_iff by (auto simp: section_enc_def UvarintSize_def)
qed

lemma section_ok_default:
  "section_ok (MaxElements DefaultLimits) (MaxStringBytes DefaultLimits) m \<longleftrightarrow> valid_counts m \<and>
     int (fm_size m) \<le> MaxElements DefaultLimits \<and>
     (\<forall>k. k |\<in>| fmdom m \<longrightarrow> int (length k) \<le> MaxStringBytes DefaultLimits)"
  by (auto simp: section_ok_def valid_counts_def bytes_ok_def DefaultLimits_def)

end
