(* ===== verification/GCounters.thy ===== *)
theory GCounters
  imports Counts
begin

text \<open>
  The grow-only counter of \<open>src/counter/gcounter.go\<close>. A receiver is an option, \<open>None\<close> for a nil
  pointer; a mutating method returns the receiver's state after the call with its result. The
  decoders take the inflater of \<open>Framing\<close> as their first argument.
\<close>

record GCounter =
  gc_replicaID :: gostring
  gc_counts :: counts

record GCounterDelta =
  gcd_counts :: counts

definition NewGCounter :: "gostring \<Rightarrow> GCounter res" where
  "NewGCounter replicaID =
     (if \<not> valid_replica replicaID then Inl counter_ErrInvalidReplicaID
      else Inr \<lparr>gc_replicaID = replicaID, gc_counts = fmempty\<rparr>)"

definition GCounter_Increment :: "GCounter option \<Rightarrow> u64 \<Rightarrow> GCounter option \<times> GCounterDelta res" where
  "GCounter_Increment c amount = (case c of
      None \<Rightarrow> (None, Inl counter_ErrNilCounter)
    | Some c \<Rightarrow>
        (let current = count_at (gc_counts c) (gc_replicaID c) in
         if max_u64 - current < amount then (Some c, Inl counter_ErrCounterOverflow)
         else
           (let next = current + amount in
            (Some (c\<lparr>gc_counts := fmupd (gc_replicaID c) next (gc_counts c)\<rparr>),
             Inr \<lparr>gcd_counts = fmupd (gc_replicaID c) next fmempty\<rparr>))))"

definition GCounter_Value :: "GCounter option \<Rightarrow> u64 res" where
  "GCounter_Value c = (case c of
      None \<Rightarrow> Inl counter_ErrNilCounter
    | Some c \<Rightarrow> Value_loop (map snd (fm_items (gc_counts c))) 0)"

definition GCounter_Counts :: "GCounter option \<Rightarrow> counts option" where
  "GCounter_Counts c = (case c of None \<Rightarrow> None | Some c \<Rightarrow> Some (cloneCounts (gc_counts c)))"

definition GCounter_Merge :: "GCounter option \<Rightarrow> GCounter option \<Rightarrow> GCounter option \<times> unit res" where
  "GCounter_Merge c other = (case (c, other) of
      (Some c, Some other) \<Rightarrow>
        (let otherCounts = cloneCounts (gc_counts other) in
         (Some (c\<lparr>gc_counts := joinCounts (gc_counts c) otherCounts\<rparr>), Inr ()))
    | _ \<Rightarrow> (c, Inl counter_ErrNilCounter))"

definition GCounter_ApplyDeltaChanged :: "GCounter option \<Rightarrow> GCounterDelta \<Rightarrow> GCounter option \<times> bool res" where
  "GCounter_ApplyDeltaChanged c delta = (case c of
      None \<Rightarrow> (None, Inl counter_ErrNilCounter)
    | Some c \<Rightarrow> (case validateCounts (gcd_counts delta) of
          Inl err \<Rightarrow> (Some c, Inl err)
        | Inr _ \<Rightarrow>
            (let (counts, changed) = joinCountsChanged (gc_counts c) (gcd_counts delta) in
             (Some (c\<lparr>gc_counts := counts\<rparr>), Inr changed))))"

definition GCounter_ApplyDelta :: "GCounter option \<Rightarrow> GCounterDelta \<Rightarrow> GCounter option \<times> unit res" where
  "GCounter_ApplyDelta c delta =
     (case GCounter_ApplyDeltaChanged c delta of (c, r) \<Rightarrow> (c, map_sum id (\<lambda>_. ()) r))"

definition GCounterDelta_Merge :: "GCounterDelta \<Rightarrow> GCounterDelta \<Rightarrow> GCounterDelta res" where
  "GCounterDelta_Merge d other = (case validateCounts (gcd_counts d) of
      Inl err \<Rightarrow> Inl err
    | Inr _ \<Rightarrow> (case validateCounts (gcd_counts other) of
          Inl err \<Rightarrow> Inl err
        | Inr _ \<Rightarrow> Inr \<lparr>gcd_counts = joinCounts (cloneCounts (gcd_counts d)) (gcd_counts other)\<rparr>))"

definition GCounterDelta_Counts :: "GCounterDelta \<Rightarrow> counts" where
  "GCounterDelta_Counts d = cloneCounts (gcd_counts d)"

definition GCounter_State :: "GCounter option \<Rightarrow> StateSnapshot" where
  "GCounter_State c = (case c of
      None \<Rightarrow> \<lparr>snap_Type = ''gcounter'', snap_ReplicaID = [], snap_ElementCount = 0, snap_TombstoneCount = 0\<rparr>
    | Some c \<Rightarrow> \<lparr>snap_Type = ''gcounter'', snap_ReplicaID = gc_replicaID c,
                snap_ElementCount = fm_size (gc_counts c), snap_TombstoneCount = 0\<rparr>)"

definition marshalCountsWithLimits :: "u64 \<Rightarrow> counts \<Rightarrow> DecoderLimits \<Rightarrow> byte list res" where
  "marshalCountsWithLimits typeID counts limits =
     (if int (fm_size counts) > MaxElements limits then Inl encoding_ErrFrameLimit
      else
        (let keys = fm_keys counts in
         case counts_size counts limits keys (int (UvarintSize (of_nat (length keys)))) of
           Inl err \<Rightarrow> Inl err
         | Inr payloadSize \<Rightarrow>
             (let payload = append_counts counts keys (AppendUvarint [] (of_nat (length keys))) in
              MarshalFrame (frame_of typeID [] payload))))"

definition marshalCounts :: "u64 \<Rightarrow> counts \<Rightarrow> byte list res" where
  "marshalCounts typeID counts = marshalCountsWithLimits typeID counts DefaultLimits"

definition GCounter_MarshalBinary :: "GCounter option \<Rightarrow> byte list res" where
  "GCounter_MarshalBinary c = (case c of
      None \<Rightarrow> Inl counter_ErrNilCounter
    | Some c \<Rightarrow> marshalCounts TypeIDGCounterState (cloneCounts (gc_counts c)))"

definition GCounterDelta_MarshalBinary :: "GCounterDelta \<Rightarrow> byte list res" where
  "GCounterDelta_MarshalBinary d = (case validateCounts (gcd_counts d) of
      Inl err \<Rightarrow> Inl err
    | Inr _ \<Rightarrow> marshalCounts TypeIDGCounterDelta (gcd_counts d))"

definition unmarshalCounts :: "(byte list \<Rightarrow> byte list \<times> go_error option) \<Rightarrow>
    byte list \<Rightarrow> u64 \<Rightarrow> DecoderLimits \<Rightarrow> counts res" where
  "unmarshalCounts flate data expectedTypeID limits = (case UnmarshalFrame flate data limits of
      Inl err \<Rightarrow> Inl err
    | Inr decoded \<Rightarrow>
        if TypeID decoded \<noteq> expectedTypeID \<or> CodecID decoded \<noteq> [] then Inl encoding_ErrInvalidFrame
        else (case ReadUvarint (Payload decoded) 0 of
            None \<Rightarrow> Inl encoding_ErrInvalidFrame
          | Some (cnt, pos) \<Rightarrow>
              (case counts_loop (Payload decoded) (MaxElements limits) (MaxStringBytes limits)
                      (unat cnt) None pos fmempty of
                 Inl err \<Rightarrow> Inl err
               | Inr (counts, pos) \<Rightarrow>
                   if pos \<noteq> length (Payload decoded) then Inl encoding_ErrInvalidFrame else Inr counts)))"

definition UnmarshalGCounterDeltaWithLimits :: "(byte list \<Rightarrow> byte list \<times> go_error option) \<Rightarrow>
    byte list \<Rightarrow> DecoderLimits \<Rightarrow> GCounterDelta res" where
  "UnmarshalGCounterDeltaWithLimits flate data limits =
     (case unmarshalCounts flate data TypeIDGCounterDelta limits of
        Inl err \<Rightarrow> Inl err | Inr counts \<Rightarrow> Inr \<lparr>gcd_counts = counts\<rparr>)"

definition UnmarshalGCounterDelta :: "(byte list \<Rightarrow> byte list \<times> go_error option) \<Rightarrow> byte list \<Rightarrow> GCounterDelta res" where
  "UnmarshalGCounterDelta flate data = UnmarshalGCounterDeltaWithLimits flate data DefaultLimits"

definition GCounter_UnmarshalBinaryWithLimits :: "(byte list \<Rightarrow> byte list \<times> go_error option) \<Rightarrow>
    GCounter option \<Rightarrow> byte list \<Rightarrow> DecoderLimits \<Rightarrow> GCounter option \<times> unit res" where
  "GCounter_UnmarshalBinaryWithLimits flate c data limits = (case c of
      None \<Rightarrow> (None, Inl counter_ErrNilCounter)
    | Some c \<Rightarrow> (case unmarshalCounts flate data TypeIDGCounterState limits of
          Inl err \<Rightarrow> (Some c, Inl err)
        | Inr counts \<Rightarrow> (Some (c\<lparr>gc_counts := counts\<rparr>), Inr ())))"

definition GCounter_UnmarshalBinary :: "(byte list \<Rightarrow> byte list \<times> go_error option) \<Rightarrow>
    GCounter option \<Rightarrow> byte list \<Rightarrow> GCounter option \<times> unit res" where
  "GCounter_UnmarshalBinary flate c data = GCounter_UnmarshalBinaryWithLimits flate c data DefaultLimits"

section \<open>The codec\<close>

lemma unmarshalCounts_iff:
  "unmarshalCounts flate data typeID limits = Inr m \<longleftrightarrow>
     (\<exists>f. UnmarshalFrame flate data limits = Inr f \<and> TypeID f = typeID \<and> CodecID f = [] \<and>
        Payload f = section_enc m \<and> section_ok (MaxElements limits) (MaxStringBytes limits) m)"
proof (cases "UnmarshalFrame flate data limits")
  case (Inl e)
  then show ?thesis by (simp add: unmarshalCounts_def)
next
  case (Inr f)
  let ?p = "Payload f"
  have max: "0 \<le> MaxElements limits" using Unmarshal_limits[OF Inr] by (simp add: limits_valid_def)
  have "unmarshalCounts flate data typeID limits = Inr m \<longleftrightarrow> TypeID f = typeID \<and> CodecID f = [] \<and>
      (\<exists>cnt. at_pos ?p 0 (uvarint cnt) \<and>
         counts_loop ?p (MaxElements limits) (MaxStringBytes limits) (unat cnt) None
           (length (uvarint cnt)) fmempty = Inr (m, length ?p))"
    by (simp add: unmarshalCounts_def Inr if_Inl_Inr uvarint_field.case_read case_read_all)
  also have "\<dots> \<longleftrightarrow> TypeID f = typeID \<and> CodecID f = [] \<and> section_ok (MaxElements limits) (MaxStringBytes limits) m \<and>
      at_pos ?p 0 (section_enc m) \<and> length (section_enc m) = length ?p"
    using counts_loop_section[OF max, of ?p 0 "MaxStringBytes limits" m "length ?p"] by auto
  also have "at_pos ?p 0 (section_enc m) \<and> length (section_enc m) = length ?p \<longleftrightarrow> ?p = section_enc m"
    by (rule at_pos_0_whole)
  finally show ?thesis using Inr by auto
qed

lemma marshalCounts_iff:
  "marshalCounts typeID m = Inr data \<longleftrightarrow>
     int (fm_size m) \<le> MaxElements DefaultLimits \<and>
     (\<forall>k. k |\<in>| fmdom m \<longrightarrow> int (length k) \<le> MaxStringBytes DefaultLimits) \<and>
     MarshalFrame (frame_of typeID [] (section_enc m)) = Inr data"
proof -
  have payload: "append_counts m (fm_keys m) (AppendUvarint [] (of_nat (length (fm_keys m)))) = section_enc m"
    using append_section[of m "[]"] by simp
  have "MarshalFrame (frame_of typeID [] (section_enc m)) = Inr data \<Longrightarrow>
      int (length (section_enc m)) \<le> MaxPayload DefaultLimits"
    by (simp add: MarshalFrame_iff)
  then show ?thesis
    unfolding marshalCounts_def marshalCountsWithLimits_def Let_def if_Inl_Inr payload
    using section_size[of m DefaultLimits]
    by (subst case_sum_Inr[OF section_size[of m DefaultLimits, folded fm_keys_simps(4)]]) auto
qed

text \<open>The framed counts: what is marshalled is read back, and only that.\<close>

lemma counts_codec:
  assumes "valid_counts m"
  shows "marshalCounts typeID m = Inr data \<longleftrightarrow>
    unmarshalCounts flate data typeID DefaultLimits = Inr m \<and> PeekFrameFormatVersion data DefaultLimits = Inr FormatVersion"
  unfolding marshalCounts_iff unmarshalCounts_iff frame_payload_iff section_ok_default using assms by blast

section \<open>Properties\<close>

text \<open>A counter of replica \<open>a\<close> that has counted 3, and one of replica \<open>b\<close> that knows it.\<close>

definition counter_a :: GCounter where
  "counter_a = \<lparr>gc_replicaID = [97], gc_counts = fmupd [97] 3 fmempty\<rparr>"

definition counter_b :: GCounter where
  "counter_b = \<lparr>gc_replicaID = [98], gc_counts = fmupd [98] 2 (fmupd [97] 1 fmempty)\<rparr>"

text \<open>The invariant of a counter made by \<open>NewGCounter\<close>: its own and all component IDs are valid.\<close>

definition gc_inv :: "GCounter \<Rightarrow> bool" where
  "gc_inv c \<longleftrightarrow> valid_replica (gc_replicaID c) \<and> valid_counts (gc_counts c)"

lemma unmarshal_valid: "unmarshalCounts flate data typeID limits = Inr m \<Longrightarrow> valid_counts m"
  unfolding unmarshalCounts_iff by (auto simp: section_ok_def valid_counts_def)

text \<open>
  Every operation keeps the invariant of a G-Counter, whatever its arguments, and leaves the counter
  as it was when it returns an error.
\<close>

theorem gcounter_invariant:
  assumes "gc_inv c" and "other = None \<or> gc_inv (the other)"
  shows "safe_call gc_inv c (GCounter_Increment (Some c) amount) \<and>
    safe_call gc_inv c (GCounter_Merge (Some c) other) \<and>
    safe_call gc_inv c (GCounter_ApplyDeltaChanged (Some c) delta) \<and>
    safe_call gc_inv c (GCounter_UnmarshalBinaryWithLimits flate (Some c) data limits)"
proof -
  have "safe_call gc_inv c (GCounter_Increment (Some c) amount)"
    using assms(1) by (auto simp: GCounter_Increment_def gc_inv_def valid_counts_def Let_def)
  moreover have "safe_call gc_inv c (GCounter_Merge (Some c) other)"
    using assms by (cases other) (auto simp: GCounter_Merge_def gc_inv_def valid_counts_join)
  moreover have "safe_call gc_inv c (GCounter_ApplyDeltaChanged (Some c) delta)"
    using assms(1) by (simp add: GCounter_ApplyDeltaChanged_def gc_inv_def joinCountsChanged_eq
        validateCounts_eq valid_counts_join)
  moreover have "safe_call gc_inv c (GCounter_UnmarshalBinaryWithLimits flate (Some c) data limits)"
    using assms(1) unmarshal_valid
    by (auto simp: GCounter_UnmarshalBinaryWithLimits_def gc_inv_def split: sum.splits)
  ultimately show ?thesis by blast
qed

theorem gcounter_invariant_witness:
  "safe_call gc_inv counter_a (GCounter_Increment (Some counter_a) 5) \<and>
   safe_call gc_inv counter_a (GCounter_Merge (Some counter_a) (Some counter_b))"
  using gcounter_invariant[of counter_a "Some counter_b" 5]
  by (simp add: gc_inv_def valid_counts_def counter_a_def counter_b_def eval)

text \<open>
  C27. \<open>Value\<close> is exact: for every order in which the components are visited, it returns the sum of
  the components when that fits in 64 bits and the overflow error otherwise.
\<close>

theorem gcounter_value_exact:
  assumes "mset xs = mset (fm_items (gc_counts c))"
  shows "Value_loop (map snd xs) 0 = GCounter_Value (Some c) \<and>
    GCounter_Value (Some c) = (if counts_total (gc_counts c) < 2 ^ 64
      then Inr (of_nat (counts_total (gc_counts c))) else Inl counter_ErrCounterOverflow)"
  using total_any_order[OF assms] total_any_order[of "fm_items (gc_counts c)" "gc_counts c"]
  by (simp add: GCounter_Value_def Value_loop_eq)

theorem gcounter_value_exact_witness:
  "GCounter_Value (Some counter_b) = Inr 3"
  using gcounter_value_exact[of "[([98], 2), ([97], 1)]" counter_b]
  by (simp add: counter_b_def fm_items_def fm_keys_def eval)

text \<open>
  \<open>Increment\<close> counts: it fails exactly when the local component would exceed 64 bits; otherwise it
  adds the amount to the total, touches no other component, and its delta is all a peer needs: applying
  it to any state that has the counter's old components gives what merging the new ones gives.
\<close>

theorem gcounter_increment:
  "GCounter_Increment (Some c) amount =
     (if 2 ^ 64 \<le> unat (count_at (gc_counts c) (gc_replicaID c)) + unat amount
      then (Some c, Inl counter_ErrCounterOverflow)
      else (Some (c\<lparr>gc_counts := fmupd (gc_replicaID c) (count_at (gc_counts c) (gc_replicaID c) + amount) (gc_counts c)\<rparr>),
            Inr \<lparr>gcd_counts = fmupd (gc_replicaID c) (count_at (gc_counts c) (gc_replicaID c) + amount) fmempty\<rparr>)) \<and>
   (GCounter_Increment (Some c) amount = (Some c', Inr delta) \<longrightarrow>
      counts_total (gc_counts c') = counts_total (gc_counts c) + unat amount \<and>
      (\<forall>k. k \<noteq> gc_replicaID c \<longrightarrow> fmlookup (gc_counts c') k = fmlookup (gc_counts c) k) \<and>
      joinCounts s (gc_counts c') = joinCounts (joinCounts s (gc_counts c)) (gcd_counts delta))"
proof (intro conjI impI)
  let ?r = "gc_replicaID c" and ?m = "gc_counts c"
  let ?cur = "count_at ?m ?r"
  show "GCounter_Increment (Some c) amount =
     (if 2 ^ 64 \<le> unat ?cur + unat amount then (Some c, Inl counter_ErrCounterOverflow)
      else (Some (c\<lparr>gc_counts := fmupd ?r (?cur + amount) ?m\<rparr>), Inr \<lparr>gcd_counts = fmupd ?r (?cur + amount) fmempty\<rparr>))"
    by (simp add: GCounter_Increment_def u64_room Let_def)
  assume i: "GCounter_Increment (Some c) amount = (Some c', Inr delta)"
  then have room: "\<not> max_u64 - ?cur < amount" and c': "gc_counts c' = fmupd ?r (?cur + amount) ?m"
    and d: "gcd_counts delta = fmupd ?r (?cur + amount) fmempty"
    by (auto simp: GCounter_Increment_def Let_def split: if_splits)
  show "counts_total (gc_counts c') = counts_total ?m + unat amount"
    using total_upd[of ?r "?cur + amount" ?m] u64_add[OF room] by (simp add: c')
  show "\<forall>k. k \<noteq> ?r \<longrightarrow> fmlookup (gc_counts c') k = fmlookup ?m k" by (simp add: c')
  have "?cur \<le> ?cur + amount" using u64_add[OF room] by (simp add: word_le_nat_alt)
  then show "joinCounts s (gc_counts c') = joinCounts (joinCounts s ?m) (gcd_counts delta)"
    by (intro fmap_ext) (auto simp: joinCounts_lookup c' d max_def)
qed

theorem gcounter_increment_witness:
  "counts_total (fmupd [97] 8 (fmupd [97] 3 fmempty)) = counts_total (fmupd [97] 3 fmempty) + 5"
  using gcounter_increment[of counter_a 5 "\<lparr>gc_replicaID = [97], gc_counts = fmupd [97] 8 (fmupd [97] 3 fmempty)\<rparr>"
    "\<lparr>gcd_counts = fmupd [97] 8 fmempty\<rparr>"]
  by (simp add: counter_a_def)

definition merge_all :: "GCounter \<Rightarrow> GCounter list \<Rightarrow> GCounter" where
  "merge_all c others = foldl (\<lambda>c other. the (fst (GCounter_Merge (Some c) (Some other)))) c others"

lemma merge_all_counts: "gc_counts (merge_all c others) = foldl joinCounts (gc_counts c) (map gc_counts others)"
  by (induction others arbitrary: c) (simp_all add: merge_all_def GCounter_Merge_def)

lemma count_at_joins: "count_at (foldl joinCounts s ms) k = Max (insert (count_at s k) ((\<lambda>m. count_at m k) ` set ms))"
proof (induction ms arbitrary: s)
  case (Cons m ms)
  have "Max (insert (max a b) A) = Max (insert a (insert b A))" if "finite A" for a b :: u64 and A
    using that by (cases "A = {}") (simp_all add: max.assoc)
  with Cons show ?case by simp
qed simp

text \<open>
  C15. Convergence: merging any states in any order and any number of times gives the same components and the same value, for all states,
  also those with zero components. Each component is the greatest that one of the states has, the counter's own included, and the value
  is their sum when that fits in 64 bits.
\<close>

theorem gcounter_converges:
  assumes "set others = set others'"
  shows "count_at (gc_counts (merge_all c others)) = count_at (gc_counts (merge_all c others')) \<and>
    GCounter_Value (Some (merge_all c others)) = GCounter_Value (Some (merge_all c others')) \<and>
    (\<forall>k. count_at (gc_counts (merge_all c others)) k = Max ((\<lambda>m. count_at (gc_counts m) k) ` insert c (set others))) \<and>
    GCounter_Value (Some (merge_all c others)) = (if counts_total (gc_counts (merge_all c others)) < 2 ^ 64
      then Inr (of_nat (counts_total (gc_counts (merge_all c others)))) else Inl counter_ErrCounterOverflow)"
proof -
  have "set (map gc_counts others) = set (map gc_counts others')" using assms by simp
  from counts_converge[OF this, of "gc_counts c"]
  have *: "count_at (gc_counts (merge_all c others)) = count_at (gc_counts (merge_all c others'))"
    by (simp add: merge_all_counts)
  have v: "GCounter_Value (Some c) = (if counts_total (gc_counts c) < 2 ^ 64
      then Inr (of_nat (counts_total (gc_counts c))) else Inl counter_ErrCounterOverflow)" for c
    using total_any_order[of "fm_items (gc_counts c)" "gc_counts c"]
    by (simp add: GCounter_Value_def Value_loop_eq)
  have "\<forall>k. count_at (gc_counts (merge_all c others)) k = Max ((\<lambda>m. count_at (gc_counts m) k) ` insert c (set others))"
    by (simp add: merge_all_counts count_at_joins image_image)
  with * show ?thesis using total_count_at[OF *] by (simp add: v)
qed

theorem gcounter_converges_witness:
  "GCounter_Value (Some (merge_all counter_a [counter_b, counter_a])) =
     GCounter_Value (Some (merge_all counter_a [counter_a, counter_b, counter_b])) \<and>
   count_at (gc_counts (merge_all counter_a [counter_b, counter_a])) [97] = 3 \<and> count_at (gc_counts (merge_all counter_a [counter_b, counter_a])) [98] = 2"
proof -
  note c = gcounter_converges[of "[counter_b, counter_a]" "[counter_a, counter_b, counter_b]" counter_a]
  have "\<forall>k. count_at (gc_counts (merge_all counter_a [counter_b, counter_a])) k = Max {count_at (gc_counts counter_a) k, count_at (gc_counts counter_b) k}"
    by (rule allI, subst c[THEN conjunct2, THEN conjunct2, THEN conjunct1, rule_format]) (auto simp: max.commute)
  then show ?thesis using c by (auto simp: counter_a_def counter_b_def count_at_def)
qed

text \<open>
  A duplicate delivery is recognised: \<open>ApplyDeltaChanged\<close> rejects a delta with an invalid replica ID
  and otherwise joins it, reporting a change exactly when the state changed; applying the same delta
  again reports none.
\<close>

theorem gcounter_apply_delta:
  "GCounter_ApplyDeltaChanged (Some c) delta =
     (if \<not> valid_counts (gcd_counts delta) then (Some c, Inl counter_ErrInvalidReplicaID)
      else (let c' = c\<lparr>gc_counts := joinCounts (gc_counts c) (gcd_counts delta)\<rparr> in (Some c', Inr (c' \<noteq> c)))) \<and>
   (GCounter_ApplyDeltaChanged (Some c) delta = (Some c', Inr ch) \<longrightarrow>
      GCounter_ApplyDeltaChanged (Some c') delta = (Some c', Inr False))"
proof -
  have eq: "c\<lparr>gc_counts := joinCounts (gc_counts c) (gcd_counts delta)\<rparr> = c \<longleftrightarrow>
      joinCounts (gc_counts c) (gcd_counts delta) = gc_counts c" for c
    by (metis GCounter.select_convs(2) GCounter.surjective GCounter.update_convs(2))
  have again: "joinCounts (joinCounts m d) d = joinCounts m d" for m d
    by (simp add: joinCounts_assoc joinCounts_idem)
  show ?thesis
    by (auto simp: GCounter_ApplyDeltaChanged_def validateCounts_eq joinCountsChanged_eq Let_def eq again
        split: if_splits)
qed

theorem gcounter_apply_delta_witness:
  "\<exists>c'. GCounter_ApplyDeltaChanged (Some counter_a) \<lparr>gcd_counts = fmupd [98] 2 fmempty\<rparr> = (Some c', Inr True) \<and>
     GCounter_ApplyDeltaChanged (Some c') \<lparr>gcd_counts = fmupd [98] 2 fmempty\<rparr> = (Some c', Inr False)"
proof -
  let ?d = "\<lparr>gcd_counts = fmupd [98] 2 fmempty\<rparr>"
  let ?c = "counter_a\<lparr>gc_counts := fmupd [98] 2 (fmupd [97] 3 fmempty)\<rparr>"
  have "(fmupd [98] 2 (fmupd [97] 3 fmempty) :: counts) \<noteq> fmupd [97] 3 fmempty"
    by (auto dest!: arg_cong[of _ _ "\<lambda>m. fmlookup m [98]"])
  then have "GCounter_ApplyDeltaChanged (Some counter_a) ?d = (Some ?c, Inr True)"
    by (simp add: GCounter_ApplyDeltaChanged_def validateCounts_eq valid_counts_def joinCountsChanged_def counter_a_def
        fm_items_def fm_keys_def eval)
  then show ?thesis using gcounter_apply_delta[of counter_a ?d ?c True] by blast
qed

text \<open>
  The encoding of a counter is canonical: for a counter that satisfies the invariant, the bytes
  \<open>MarshalBinary\<close> returns are exactly the version 1 bytes that \<open>UnmarshalBinary\<close> turns into its
  components, under the default limits. In particular a counter survives the round trip.
\<close>

theorem gcounter_codec:
  assumes "gc_inv c"
  shows "GCounter_MarshalBinary (Some c) = Inr data \<longleftrightarrow>
    GCounter_UnmarshalBinary flate (Some c0) data = (Some (c0\<lparr>gc_counts := gc_counts c\<rparr>), Inr ()) \<and>
    PeekFrameFormatVersion data DefaultLimits = Inr FormatVersion"
proof -
  have "GCounter_UnmarshalBinary flate (Some c0) data = (Some (c0\<lparr>gc_counts := gc_counts c\<rparr>), Inr ()) \<longleftrightarrow>
      unmarshalCounts flate data TypeIDGCounterState DefaultLimits = Inr (gc_counts c)"
    by (auto simp: GCounter_UnmarshalBinary_def GCounter_UnmarshalBinaryWithLimits_def split: sum.splits)
       (metis GCounter.select_convs(2) GCounter.surjective GCounter.update_convs(2))
  with counts_codec[of "gc_counts c" TypeIDGCounterState data flate] assms show ?thesis
    by (simp add: GCounter_MarshalBinary_def gc_inv_def)
qed

theorem gcounter_codec_witness:
  "\<exists>data. GCounter_MarshalBinary (Some counter_b) = Inr data \<and>
     GCounter_UnmarshalBinary (\<lambda>c. (c, None)) (Some counter_a) data =
       (Some (counter_a\<lparr>gc_counts := gc_counts counter_b\<rparr>), Inr ())"
proof -
  have "gc_inv counter_b" by (simp add: gc_inv_def valid_counts_def counter_b_def eval)
  moreover have "GCounter_MarshalBinary (Some counter_b) = Inr (envelope (body_v1 1 [] (section_enc (gc_counts counter_b))))"
    by (simp add: GCounter_MarshalBinary_def marshalCounts_iff MarshalFrame_iff DefaultLimits_def counter_b_def
        section_enc_def entry_enc_def bytes_enc_def fm_items_def fm_keys_def uvarint_small eval)
  ultimately show ?thesis using gcounter_codec by blast
qed

text \<open>
  A zero increment breaks the symmetry of the maps: it creates a component that \<open>Merge\<close> keeps on the
  receiving side but never copies from the other, so the two merge orders leave different maps, and
  different bytes, with equal values.
\<close>

lemma gcounter_zero_increment:
  "\<exists>a. fst (GCounter_Increment (Some \<lparr>gc_replicaID = [97], gc_counts = fmempty\<rparr>) 0) = Some a \<and>
     (let b = \<lparr>gc_replicaID = [98], gc_counts = fmempty\<rparr>;
          ab = the (fst (GCounter_Merge (Some a) (Some b))); ba = the (fst (GCounter_Merge (Some b) (Some a)))
      in gc_counts ab \<noteq> gc_counts ba \<and> GCounter_Value (Some ab) = GCounter_Value (Some ba) \<and>
         snap_ElementCount (GCounter_State (Some ab)) \<noteq> snap_ElementCount (GCounter_State (Some ba)))"
  by (simp add: GCounter_Increment_def GCounter_Merge_def GCounter_Value_def GCounter_State_def joinCounts_def
      join_step_def fm_items_def fm_keys_def eval)

end
