(* ===== verification/PNCounters.thy ===== *)
theory PNCounters
  imports Counts
begin

text \<open>
  The positive-negative counter of \<open>src/counter/pncounter.go\<close>: two maps of components, one for
  increments and one for decrements, with the value as an unbounded integer (\<open>big.Int\<close>).
\<close>

record PNCounter =
  pn_replicaID :: gostring
  pn_positive :: counts
  pn_negative :: counts

record PNCounterDelta =
  pnd_positive :: counts
  pnd_negative :: counts

definition NewPNCounter :: "gostring \<Rightarrow> PNCounter res" where
  "NewPNCounter replicaID =
     (if \<not> valid_replica replicaID then Inl counter_ErrInvalidReplicaID
      else Inr \<lparr>pn_replicaID = replicaID, pn_positive = fmempty, pn_negative = fmempty\<rparr>)"

definition PNCounter_add :: "PNCounter option \<Rightarrow> u64 \<Rightarrow> bool \<Rightarrow> PNCounter option \<times> PNCounterDelta res" where
  "PNCounter_add c amount positive = (case c of
      None \<Rightarrow> (None, Inl counter_ErrNilPNCounter)
    | Some c \<Rightarrow>
        (let counts = (if positive then pn_positive c else pn_negative c);
             current = count_at counts (pn_replicaID c) in
         if max_u64 - current < amount then (Some c, Inl counter_ErrCounterOverflow)
         else
           (let next = current + amount; counts = fmupd (pn_replicaID c) next counts in
            if positive then
              (Some (c\<lparr>pn_positive := counts\<rparr>),
               Inr \<lparr>pnd_positive = fmupd (pn_replicaID c) next fmempty, pnd_negative = fmempty\<rparr>)
            else
              (Some (c\<lparr>pn_negative := counts\<rparr>),
               Inr \<lparr>pnd_positive = fmempty, pnd_negative = fmupd (pn_replicaID c) next fmempty\<rparr>))))"

definition PNCounter_Increment :: "PNCounter option \<Rightarrow> u64 \<Rightarrow> PNCounter option \<times> PNCounterDelta res" where
  "PNCounter_Increment c amount = PNCounter_add c amount True"

definition PNCounter_Decrement :: "PNCounter option \<Rightarrow> u64 \<Rightarrow> PNCounter option \<times> PNCounterDelta res" where
  "PNCounter_Decrement c amount = PNCounter_add c amount False"

definition PNCounter_Value :: "PNCounter option \<Rightarrow> int res" where
  "PNCounter_Value c = (case c of
      None \<Rightarrow> Inl counter_ErrNilPNCounter
    | Some c \<Rightarrow> Inr (sumCounts (pn_positive c) - sumCounts (pn_negative c)))"

definition PNCounter_ValueInt64 :: "PNCounter option \<Rightarrow> int res" where
  "PNCounter_ValueInt64 c = (case PNCounter_Value c of
      Inl err \<Rightarrow> Inl err
    | Inr value \<Rightarrow>
        if \<not> (- (2 ^ 63) \<le> value \<and> value < 2 ^ 63) then Inl counter_ErrCounterOverflow else Inr value)"

definition PNCounter_PositiveCounts :: "PNCounter option \<Rightarrow> counts option" where
  "PNCounter_PositiveCounts c = map_option (\<lambda>c. cloneCounts (pn_positive c)) c"

definition PNCounter_NegativeCounts :: "PNCounter option \<Rightarrow> counts option" where
  "PNCounter_NegativeCounts c = map_option (\<lambda>c. cloneCounts (pn_negative c)) c"

definition PNCounter_Merge :: "PNCounter option \<Rightarrow> PNCounter option \<Rightarrow> PNCounter option \<times> unit res" where
  "PNCounter_Merge c other = (case (c, other) of
      (Some c, Some other) \<Rightarrow>
        (let positive = cloneCounts (pn_positive other); negative = cloneCounts (pn_negative other) in
         (Some (c\<lparr>pn_positive := joinCounts (pn_positive c) positive,
                  pn_negative := joinCounts (pn_negative c) negative\<rparr>), Inr ()))
    | _ \<Rightarrow> (c, Inl counter_ErrNilPNCounter))"

definition validatePNCounts :: "counts \<Rightarrow> counts \<Rightarrow> unit res" where
  "validatePNCounts positive negative = (case validateCounts positive of
      Inl err \<Rightarrow> Inl err | Inr _ \<Rightarrow> validateCounts negative)"

definition PNCounter_ApplyDeltaChanged :: "PNCounter option \<Rightarrow> PNCounterDelta \<Rightarrow> PNCounter option \<times> bool res" where
  "PNCounter_ApplyDeltaChanged c delta = (case c of
      None \<Rightarrow> (None, Inl counter_ErrNilPNCounter)
    | Some c \<Rightarrow> (case validatePNCounts (pnd_positive delta) (pnd_negative delta) of
          Inl err \<Rightarrow> (Some c, Inl err)
        | Inr _ \<Rightarrow>
            (let (positive, changed) = joinCountsChanged (pn_positive c) (pnd_positive delta);
                 (negative, changed') = joinCountsChanged (pn_negative c) (pnd_negative delta) in
             (Some (c\<lparr>pn_positive := positive, pn_negative := negative\<rparr>), Inr (changed' \<or> changed)))))"

definition PNCounter_ApplyDelta :: "PNCounter option \<Rightarrow> PNCounterDelta \<Rightarrow> PNCounter option \<times> unit res" where
  "PNCounter_ApplyDelta c delta =
     (case PNCounter_ApplyDeltaChanged c delta of (c, r) \<Rightarrow> (c, map_sum id (\<lambda>_. ()) r))"

definition PNCounterDelta_Merge :: "PNCounterDelta \<Rightarrow> PNCounterDelta \<Rightarrow> PNCounterDelta res" where
  "PNCounterDelta_Merge d other = (case validatePNCounts (pnd_positive d) (pnd_negative d) of
      Inl err \<Rightarrow> Inl err
    | Inr _ \<Rightarrow> (case validatePNCounts (pnd_positive other) (pnd_negative other) of
          Inl err \<Rightarrow> Inl err
        | Inr _ \<Rightarrow> Inr \<lparr>pnd_positive = joinCounts (cloneCounts (pnd_positive d)) (pnd_positive other),
                      pnd_negative = joinCounts (cloneCounts (pnd_negative d)) (pnd_negative other)\<rparr>))"

definition PNCounter_State :: "PNCounter option \<Rightarrow> StateSnapshot" where
  "PNCounter_State c = (case c of
      None \<Rightarrow> \<lparr>snap_Type = ''pncounter'', snap_ReplicaID = [], snap_ElementCount = 0, snap_TombstoneCount = 0\<rparr>
    | Some c \<Rightarrow> \<lparr>snap_Type = ''pncounter'', snap_ReplicaID = pn_replicaID c,
                snap_ElementCount = fm_size (pn_positive c) + fm_size (pn_negative c), snap_TombstoneCount = 0\<rparr>)"

section \<open>Encoding\<close>

definition pnCountsSection :: "counts \<Rightarrow> DecoderLimits \<Rightarrow> (gostring list \<times> int) res" where
  "pnCountsSection counts limits =
     (let keys = fm_keys counts in
      case counts_size counts limits keys (int (UvarintSize (of_nat (length keys)))) of
        Inl err \<Rightarrow> Inl err
      | Inr sz \<Rightarrow> Inr (keys, sz))"

definition appendPNCountsSection :: "byte list \<Rightarrow> gostring list \<Rightarrow> counts \<Rightarrow> byte list" where
  "appendPNCountsSection payload keys counts =
     append_counts counts keys (AppendUvarint payload (of_nat (length keys)))"

definition marshalPNCountsWithLimits :: "u64 \<Rightarrow> counts \<Rightarrow> counts \<Rightarrow> DecoderLimits \<Rightarrow> byte list res" where
  "marshalPNCountsWithLimits typeID positive negative limits = (case validatePNCounts positive negative of
      Inl err \<Rightarrow> Inl err
    | Inr _ \<Rightarrow>
        if int (fm_size positive) > MaxElements limits \<or>
           int (fm_size negative) > MaxElements limits - int (fm_size positive)
        then Inl encoding_ErrFrameLimit
        else (case pnCountsSection positive limits of
            Inl err \<Rightarrow> Inl err
          | Inr (positiveKeys, positiveSize) \<Rightarrow> (case pnCountsSection negative limits of
                Inl err \<Rightarrow> Inl err
              | Inr (negativeKeys, negativeSize) \<Rightarrow>
                  if negativeSize > MaxPayload limits - positiveSize then Inl encoding_ErrFrameLimit
                  else
                    (let payload = appendPNCountsSection [] positiveKeys positive;
                         payload = appendPNCountsSection payload negativeKeys negative in
                     MarshalFrame (frame_of typeID [] payload)))))"

definition marshalPNCounts :: "u64 \<Rightarrow> counts \<Rightarrow> counts \<Rightarrow> byte list res" where
  "marshalPNCounts typeID positive negative = marshalPNCountsWithLimits typeID positive negative DefaultLimits"

definition PNCounter_MarshalBinary :: "PNCounter option \<Rightarrow> byte list res" where
  "PNCounter_MarshalBinary c = (case c of
      None \<Rightarrow> Inl counter_ErrNilPNCounter
    | Some c \<Rightarrow> marshalPNCounts TypeIDPNCounterState (cloneCounts (pn_positive c)) (cloneCounts (pn_negative c)))"

definition PNCounterDelta_MarshalBinary :: "PNCounterDelta \<Rightarrow> byte list res" where
  "PNCounterDelta_MarshalBinary d = (case validatePNCounts (pnd_positive d) (pnd_negative d) of
      Inl err \<Rightarrow> Inl err
    | Inr _ \<Rightarrow> marshalPNCounts TypeIDPNCounterDelta (pnd_positive d) (pnd_negative d))"

definition unmarshalPNCountsSection :: "byte list \<Rightarrow> nat \<Rightarrow> int \<Rightarrow> DecoderLimits \<Rightarrow> (counts \<times> nat) res" where
  "unmarshalPNCountsSection payload position maxElements limits = (case ReadUvarint payload position of
      None \<Rightarrow> Inl encoding_ErrInvalidFrame
    | Some (cnt, next) \<Rightarrow>
        if maxElements < 0 then Inl encoding_ErrInvalidFrame
        else counts_loop payload maxElements (MaxStringBytes limits) (unat cnt) None next fmempty)"

definition unmarshalPNCounts :: "(byte list \<Rightarrow> byte list \<times> go_error option) \<Rightarrow>
    byte list \<Rightarrow> u64 \<Rightarrow> DecoderLimits \<Rightarrow> (counts \<times> counts) res" where
  "unmarshalPNCounts flate data expectedTypeID limits = (case UnmarshalFrame flate data limits of
      Inl err \<Rightarrow> Inl err
    | Inr decoded \<Rightarrow>
        if TypeID decoded \<noteq> expectedTypeID \<or> CodecID decoded \<noteq> [] then Inl encoding_ErrInvalidFrame
        else (case unmarshalPNCountsSection (Payload decoded) 0 (MaxElements limits) limits of
            Inl err \<Rightarrow> Inl err
          | Inr (positive, position) \<Rightarrow>
              (case unmarshalPNCountsSection (Payload decoded) position
                      (MaxElements limits - int (fm_size positive)) limits of
                 Inl err \<Rightarrow> Inl err
               | Inr (negative, position) \<Rightarrow>
                   if position \<noteq> length (Payload decoded) then Inl encoding_ErrInvalidFrame
                   else Inr (positive, negative))))"

definition UnmarshalPNCounterDeltaWithLimits :: "(byte list \<Rightarrow> byte list \<times> go_error option) \<Rightarrow>
    byte list \<Rightarrow> DecoderLimits \<Rightarrow> PNCounterDelta res" where
  "UnmarshalPNCounterDeltaWithLimits flate data limits =
     (case unmarshalPNCounts flate data TypeIDPNCounterDelta limits of
        Inl err \<Rightarrow> Inl err
      | Inr (positive, negative) \<Rightarrow> Inr \<lparr>pnd_positive = positive, pnd_negative = negative\<rparr>)"

definition UnmarshalPNCounterDelta :: "(byte list \<Rightarrow> byte list \<times> go_error option) \<Rightarrow> byte list \<Rightarrow> PNCounterDelta res" where
  "UnmarshalPNCounterDelta flate data = UnmarshalPNCounterDeltaWithLimits flate data DefaultLimits"

definition PNCounter_UnmarshalBinaryWithLimits :: "(byte list \<Rightarrow> byte list \<times> go_error option) \<Rightarrow>
    PNCounter option \<Rightarrow> byte list \<Rightarrow> DecoderLimits \<Rightarrow> PNCounter option \<times> unit res" where
  "PNCounter_UnmarshalBinaryWithLimits flate c data limits = (case c of
      None \<Rightarrow> (None, Inl counter_ErrNilPNCounter)
    | Some c \<Rightarrow> (case unmarshalPNCounts flate data TypeIDPNCounterState limits of
          Inl err \<Rightarrow> (Some c, Inl err)
        | Inr (positive, negative) \<Rightarrow> (Some (c\<lparr>pn_positive := positive, pn_negative := negative\<rparr>), Inr ())))"

definition PNCounter_UnmarshalBinary :: "(byte list \<Rightarrow> byte list \<times> go_error option) \<Rightarrow>
    PNCounter option \<Rightarrow> byte list \<Rightarrow> PNCounter option \<times> unit res" where
  "PNCounter_UnmarshalBinary flate c data = PNCounter_UnmarshalBinaryWithLimits flate c data DefaultLimits"

lemma section_read_iff:
  "unmarshalPNCountsSection payload pos maxElements limits = Inr (m, q) \<longleftrightarrow>
     section_ok maxElements (MaxStringBytes limits) m \<and> at_pos payload pos (section_enc m) \<and>
     q = pos + length (section_enc m)"
proof (cases "maxElements < 0")
  case True
  then show ?thesis
    by (auto simp: unmarshalPNCountsSection_def section_ok_def split: option.splits)
next
  case False
  then show ?thesis
    unfolding unmarshalPNCountsSection_def uvarint_field.case_read if_Inl_Inr
    using counts_loop_section[of maxElements payload pos "MaxStringBytes limits" m q] by simp
qed

lemma unmarshalPNCounts_iff:
  "unmarshalPNCounts flate data typeID limits = Inr (p, n) \<longleftrightarrow>
     (\<exists>f. UnmarshalFrame flate data limits = Inr f \<and> TypeID f = typeID \<and> CodecID f = [] \<and>
        Payload f = section_enc p @ section_enc n \<and>
        section_ok (MaxElements limits) (MaxStringBytes limits) p \<and>
        section_ok (MaxElements limits - int (fm_size p)) (MaxStringBytes limits) n)"
proof (cases "UnmarshalFrame flate data limits")
  case (Inl e)
  then show ?thesis by (simp add: unmarshalPNCounts_def)
next
  case (Inr f)
  let ?b = "Payload f" and ?ms = "MaxStringBytes limits" and ?me = "MaxElements limits"
  have sections: "unmarshalPNCounts flate data typeID limits = Inr (p, n) \<longleftrightarrow> TypeID f = typeID \<and> CodecID f = [] \<and>
      (\<exists>pos. unmarshalPNCountsSection ?b 0 ?me limits = Inr (p, pos) \<and>
         unmarshalPNCountsSection ?b pos (?me - int (fm_size p)) limits = Inr (n, length ?b))"
    by (auto simp: unmarshalPNCounts_def Inr if_Inl_Inr split: sum.splits if_splits)
  have "at_pos ?b 0 (section_enc p) \<and> at_pos ?b (length (section_enc p)) (section_enc n) \<and>
      length ?b = length (section_enc p) + length (section_enc n) \<longleftrightarrow> ?b = section_enc p @ section_enc n"
    using at_pos_0_whole[of ?b "section_enc p @ section_enc n"] by (auto simp: at_pos_append)
  then show ?thesis unfolding sections section_read_iff using Inr by auto
qed

lemma validatePNCounts_eq:
  "validatePNCounts p n = (if valid_counts p \<and> valid_counts n then Inr () else Inl counter_ErrInvalidReplicaID)"
  by (simp add: validatePNCounts_def validateCounts_eq)

lemma pnCountsSection_iff:
  "pnCountsSection m limits = Inr (keys, sz) \<longleftrightarrow> keys = fm_keys m \<and> sz = int (length (section_enc m)) \<and>
     (\<forall>k. k |\<in>| fmdom m \<longrightarrow> int (length k) \<le> MaxStringBytes limits) \<and> (m = fmempty \<or> sz \<le> MaxPayload limits)"
  unfolding pnCountsSection_def Let_def
  by (subst case_sum_Inr[OF section_size[folded fm_keys_simps(4)]]) auto

lemma marshalPNCounts_iff:
  "marshalPNCounts typeID p n = Inr data \<longleftrightarrow> valid_counts p \<and> valid_counts n \<and>
     int (fm_size p) + int (fm_size n) \<le> MaxElements DefaultLimits \<and>
     (\<forall>k. k |\<in>| fmdom p |\<union>| fmdom n \<longrightarrow> int (length k) \<le> MaxStringBytes DefaultLimits) \<and>
     MarshalFrame (frame_of typeID [] (section_enc p @ section_enc n)) = Inr data"
proof -
  have payload: "appendPNCountsSection (appendPNCountsSection [] (fm_keys p) p) (fm_keys n) n = section_enc p @ section_enc n"
    using append_section[of p "[]"] append_section[of n "section_enc p"]
    by (simp add: appendPNCountsSection_def)
  have bound: "MarshalFrame (frame_of typeID [] (section_enc p @ section_enc n)) = Inr data \<Longrightarrow>
      int (length (section_enc p)) + int (length (section_enc n)) \<le> MaxPayload DefaultLimits"
    by (simp add: MarshalFrame_iff)
  have "marshalPNCounts typeID p n = Inr data \<longleftrightarrow> valid_counts p \<and> valid_counts n \<and>
      \<not> (int (fm_size p) > MaxElements DefaultLimits \<or> int (fm_size n) > MaxElements DefaultLimits - int (fm_size p)) \<and>
      (\<exists>kp sp kn sn. pnCountsSection p DefaultLimits = Inr (kp, sp) \<and> pnCountsSection n DefaultLimits = Inr (kn, sn) \<and>
         \<not> sn > MaxPayload DefaultLimits - sp \<and>
         MarshalFrame (frame_of typeID [] (appendPNCountsSection (appendPNCountsSection [] kp p) kn n)) = Inr data)"
    by (auto simp: marshalPNCounts_def marshalPNCountsWithLimits_def validatePNCounts_eq Let_def
        split: sum.splits if_splits)
  then show ?thesis unfolding pnCountsSection_iff using payload bound by auto
qed

lemma pn_codec:
  assumes "valid_counts p" and "valid_counts n"
  shows "marshalPNCounts typeID p n = Inr data \<longleftrightarrow>
    unmarshalPNCounts flate data typeID DefaultLimits = Inr (p, n) \<and> PeekFrameFormatVersion data DefaultLimits = Inr FormatVersion"
proof -
  have ok: "section_ok (MaxElements DefaultLimits) (MaxStringBytes DefaultLimits) p \<and>
      section_ok (MaxElements DefaultLimits - int (fm_size p)) (MaxStringBytes DefaultLimits) n \<longleftrightarrow>
      int (fm_size p) + int (fm_size n) \<le> MaxElements DefaultLimits \<and>
      (\<forall>k. k |\<in>| fmdom p |\<union>| fmdom n \<longrightarrow> int (length k) \<le> MaxStringBytes DefaultLimits)"
    using assms by (auto simp: section_ok_def valid_counts_def bytes_ok_def DefaultLimits_def)
  show ?thesis
    unfolding marshalPNCounts_iff unmarshalPNCounts_iff using ok assms by (auto simp: frame_payload_iff)
qed

section \<open>Properties\<close>

definition pn_inv :: "PNCounter \<Rightarrow> bool" where
  "pn_inv c \<longleftrightarrow> valid_replica (pn_replicaID c) \<and> valid_counts (pn_positive c) \<and> valid_counts (pn_negative c)"

definition pn_value :: "PNCounter \<Rightarrow> int" where
  "pn_value c = int (counts_total (pn_positive c)) - int (counts_total (pn_negative c))"

lemma unmarshal_pn_valid:
  "unmarshalPNCounts flate data typeID limits = Inr (p, n) \<Longrightarrow> valid_counts p \<and> valid_counts n"
  unfolding unmarshalPNCounts_iff by (auto simp: section_ok_def valid_counts_def)

definition pn_sample :: PNCounter where
  "pn_sample = \<lparr>pn_replicaID = [97], pn_positive = fmupd [97] 3 fmempty, pn_negative = fmupd [98] 5 fmempty\<rparr>"

text \<open>
  Every operation keeps the invariant of a PN-Counter (valid replica IDs in both maps), whatever its
  arguments, and leaves the counter as it was when it returns an error.
\<close>

theorem pncounter_invariant:
  assumes "pn_inv c" and "other = None \<or> pn_inv (the other)"
  shows "safe_call pn_inv c (PNCounter_add (Some c) amount positive) \<and>
    safe_call pn_inv c (PNCounter_Merge (Some c) other) \<and>
    safe_call pn_inv c (PNCounter_ApplyDeltaChanged (Some c) delta) \<and>
    safe_call pn_inv c (PNCounter_UnmarshalBinaryWithLimits flate (Some c) data limits)"
proof (intro conjI)
  show "safe_call pn_inv c (PNCounter_add (Some c) amount positive)"
    using assms(1) by (auto simp: PNCounter_add_def pn_inv_def valid_counts_def Let_def)
  show "safe_call pn_inv c (PNCounter_Merge (Some c) other)"
    using assms by (cases other) (auto simp: PNCounter_Merge_def pn_inv_def valid_counts_join)
  show "safe_call pn_inv c (PNCounter_ApplyDeltaChanged (Some c) delta)"
    using assms(1) by (simp add: PNCounter_ApplyDeltaChanged_def pn_inv_def joinCountsChanged_eq
        validatePNCounts_eq valid_counts_join)
  show "safe_call pn_inv c (PNCounter_UnmarshalBinaryWithLimits flate (Some c) data limits)"
    using assms(1) unmarshal_pn_valid
    by (auto simp: PNCounter_UnmarshalBinaryWithLimits_def pn_inv_def split: sum.splits)
qed

theorem pncounter_invariant_witness:
  "safe_call pn_inv pn_sample (PNCounter_add (Some pn_sample) 7 False) \<and>
   safe_call pn_inv pn_sample (PNCounter_Merge (Some pn_sample) (Some pn_sample))"
  using pncounter_invariant[of pn_sample "Some pn_sample" 7 False]
  by (simp add: pn_inv_def valid_counts_def pn_sample_def eval)

text \<open>What an addition to one side promises: the value moves by the signed amount and the delta carries the change, or that side is full.\<close>

definition pn_moved :: "PNCounter \<Rightarrow> counts \<Rightarrow> u64 \<Rightarrow> int \<Rightarrow> PNCounter option \<times> PNCounterDelta res \<Rightarrow> bool" where
  "pn_moved c side amount change out \<longleftrightarrow>
     (if 2 ^ 64 \<le> unat (count_at side (pn_replicaID c)) + unat amount then out = (Some c, Inl counter_ErrCounterOverflow)
      else \<exists>c' delta. out = (Some c', Inr delta) \<and> pn_value c' = pn_value c + change \<and> pn_replicaID c' = pn_replicaID c \<and>
        (\<forall>s. joinCounts s (pn_positive c') = joinCounts (joinCounts s (pn_positive c)) (pnd_positive delta) \<and>
             joinCounts s (pn_negative c') = joinCounts (joinCounts s (pn_negative c)) (pnd_negative delta)))"

lemma add_moved:
  "pn_moved c (if positive then pn_positive c else pn_negative c) amount (if positive then int (unat amount) else - int (unat amount))
     (PNCounter_add (Some c) amount positive)"
proof -
  let ?m = "if positive then pn_positive c else pn_negative c" and ?r = "pn_replicaID c"
  let ?cur = "count_at ?m ?r"
  show ?thesis
  proof (cases "max_u64 - ?cur < amount")
    case True
    then show ?thesis using u64_room[of ?cur amount] by (simp add: PNCounter_add_def pn_moved_def Let_def)
  next
    case False
    have room: "\<not> 2 ^ 64 \<le> unat ?cur + unat amount" using False u64_room[of ?cur amount] by simp
    have total: "counts_total (fmupd ?r (?cur + amount) ?m) = counts_total ?m + unat amount"
      using total_upd[of ?r "?cur + amount" ?m] u64_add[OF False] by simp
    have "?cur \<le> ?cur + amount" using u64_add[OF False] by (simp add: word_le_nat_alt)
    then have join: "joinCounts s (fmupd ?r (?cur + amount) ?m) = joinCounts (joinCounts s ?m) (fmupd ?r (?cur + amount) fmempty)" for s
      by (intro fmap_ext) (auto simp: joinCounts_lookup max_def)
    have none: "joinCounts s fmempty = s" for s by (intro fmap_ext) (simp add: joinCounts_lookup count_at_def)
    show ?thesis using False room total join none
      by (cases positive) (simp_all add: PNCounter_add_def pn_moved_def Let_def pn_value_def)
  qed
qed

text \<open>
  C16. The value is exact and moves by exactly the amount: \<open>Increment\<close> raises \<open>Value\<close> by the amount and \<open>Decrement\<close> lowers it, each failing
  exactly when its own component of that side would exceed 64 bits, without changing the counter; the returned delta is all a peer
  needs, and \<open>ValueInt64\<close> agrees with \<open>Value\<close> exactly on the range of \<open>int64\<close>.
\<close>

theorem pncounter_value:
  "PNCounter_Value (Some c) = Inr (pn_value c) \<and>
   PNCounter_ValueInt64 (Some c) =
     (if - (2 ^ 63) \<le> pn_value c \<and> pn_value c \<le> 2 ^ 63 - 1 then Inr (pn_value c) else Inl counter_ErrCounterOverflow) \<and>
   pn_moved c (pn_positive c) amount (int (unat amount)) (PNCounter_Increment (Some c) amount) \<and>
   pn_moved c (pn_negative c) amount (- int (unat amount)) (PNCounter_Decrement (Some c) amount)"
proof -
  have v: "PNCounter_Value (Some c) = Inr (pn_value c)" by (simp add: PNCounter_Value_def pn_value_def sumCounts_total)
  then have "PNCounter_ValueInt64 (Some c) =
     (if - (2 ^ 63) \<le> pn_value c \<and> pn_value c \<le> 2 ^ 63 - 1 then Inr (pn_value c) else Inl counter_ErrCounterOverflow)"
    by (auto simp: PNCounter_ValueInt64_def)
  with v show ?thesis
    using add_moved[of c True amount] add_moved[of c False amount] by (simp add: PNCounter_Increment_def PNCounter_Decrement_def)
qed

definition pn_merge_all :: "PNCounter \<Rightarrow> PNCounter list \<Rightarrow> PNCounter" where
  "pn_merge_all c others = foldl (\<lambda>c other. the (fst (PNCounter_Merge (Some c) (Some other)))) c others"

lemma pn_merge_all_counts:
  "pn_positive (pn_merge_all c others) = foldl joinCounts (pn_positive c) (map pn_positive others) \<and>
   pn_negative (pn_merge_all c others) = foldl joinCounts (pn_negative c) (map pn_negative others) \<and>
   pn_replicaID (pn_merge_all c others) = pn_replicaID c"
  by (induction others arbitrary: c) (simp_all add: pn_merge_all_def PNCounter_Merge_def)

text \<open>Without zero components the pair of maps is a join of two joins, and the states converge exactly.\<close>

interpretation pn_pair: crdt_pair no_zeros joinCounts no_zeros joinCounts ..

abbreviation pn_maps :: "PNCounter \<Rightarrow> counts \<times> counts" where
  "pn_maps c \<equiv> (pn_positive c, pn_negative c)"

lemma pn_merge_all_deliver: "pn_maps (pn_merge_all c others) = pn_pair.pair_crdt.deliver (pn_maps c) (map pn_maps others)"
proof -
  have "pn_pair.pair_crdt.deliver (a, b) (map pn_maps os) =
      (foldl joinCounts a (map pn_positive os), foldl joinCounts b (map pn_negative os))" for a b os
    by (induction os arbitrary: a b) (simp_all add: pn_pair.pair_join_def)
  then show ?thesis by (simp add: pn_merge_all_counts)
qed

lemma pn_states_converge:
  assumes "set others = set others'" and "\<forall>o' \<in> insert c (set others). no_zeros (pn_positive o') \<and> no_zeros (pn_negative o')"
  shows "pn_merge_all c others = pn_merge_all c others'"
proof -
  have "pn_maps (pn_merge_all c others) = pn_maps (pn_merge_all c others')"
    unfolding pn_merge_all_deliver using assms
    by (intro pn_pair.pair_crdt.deliver_converges) (auto simp: pn_pair.pair_inv_def)
  then show ?thesis
    using pn_merge_all_counts[of c others] pn_merge_all_counts[of c others'] by (intro PNCounter.equality) simp_all
qed

text \<open>
  Convergence of PN-Counters: merging any states in any order and any number of times gives the same
  components in both maps and the same value.
\<close>

theorem pncounter_converges:
  assumes "set others = set others'"
  shows "count_at (pn_positive (pn_merge_all c others)) = count_at (pn_positive (pn_merge_all c others')) \<and>
    count_at (pn_negative (pn_merge_all c others)) = count_at (pn_negative (pn_merge_all c others')) \<and>
    PNCounter_Value (Some (pn_merge_all c others)) = PNCounter_Value (Some (pn_merge_all c others'))"
proof -
  have "set (map pn_positive others) = set (map pn_positive others')"
    "set (map pn_negative others) = set (map pn_negative others')" using assms by simp_all
  from counts_converge[OF this(1), of "pn_positive c"] counts_converge[OF this(2), of "pn_negative c"]
  have *: "count_at (pn_positive (pn_merge_all c others)) = count_at (pn_positive (pn_merge_all c others'))"
    "count_at (pn_negative (pn_merge_all c others)) = count_at (pn_negative (pn_merge_all c others'))"
    by (simp_all add: pn_merge_all_counts)
  with total_count_at[OF *(1)] total_count_at[OF *(2)] show ?thesis
    by (simp add: PNCounter_Value_def sumCounts_total)
qed

theorem pncounter_converges_witness:
  "PNCounter_Value (Some (pn_merge_all pn_sample [pn_sample, pn_sample\<lparr>pn_negative := fmempty\<rparr>])) =
   PNCounter_Value (Some (pn_merge_all pn_sample [pn_sample\<lparr>pn_negative := fmempty\<rparr>, pn_sample, pn_sample]))"
  using pncounter_converges[of "[pn_sample, pn_sample\<lparr>pn_negative := fmempty\<rparr>]"
      "[pn_sample\<lparr>pn_negative := fmempty\<rparr>, pn_sample, pn_sample]" pn_sample] by auto

text \<open>
  The encoding of a PN-Counter is canonical: the bytes \<open>MarshalBinary\<close> returns are exactly the version
  1 bytes that \<open>UnmarshalBinary\<close> turns into its two maps, under the default limits.
\<close>

theorem pncounter_codec:
  assumes "pn_inv c"
  shows "PNCounter_MarshalBinary (Some c) = Inr data \<longleftrightarrow>
    PNCounter_UnmarshalBinary flate (Some c0) data =
      (Some (c0\<lparr>pn_positive := pn_positive c, pn_negative := pn_negative c\<rparr>), Inr ()) \<and>
    PeekFrameFormatVersion data DefaultLimits = Inr FormatVersion"
proof -
  have eq: "c0\<lparr>pn_positive := p, pn_negative := n\<rparr> = c0\<lparr>pn_positive := p', pn_negative := n'\<rparr> \<longleftrightarrow> p = p' \<and> n = n'" for p n p' n'
    by (cases c0) auto
  have "PNCounter_UnmarshalBinary flate (Some c0) data =
      (Some (c0\<lparr>pn_positive := pn_positive c, pn_negative := pn_negative c\<rparr>), Inr ()) \<longleftrightarrow>
      unmarshalPNCounts flate data TypeIDPNCounterState DefaultLimits = Inr (pn_positive c, pn_negative c)"
    by (auto simp: PNCounter_UnmarshalBinary_def PNCounter_UnmarshalBinaryWithLimits_def eq split: sum.splits)
  with pn_codec[of "pn_positive c" "pn_negative c" TypeIDPNCounterState data flate] assms show ?thesis
    by (simp add: PNCounter_MarshalBinary_def pn_inv_def)
qed

theorem pncounter_codec_witness:
  "\<exists>data. PNCounter_MarshalBinary (Some pn_sample) = Inr data \<and>
     PNCounter_UnmarshalBinary (\<lambda>c. (c, None)) (Some pn_sample) data = (Some pn_sample, Inr ())"
proof -
  have inv: "pn_inv pn_sample" by (simp add: pn_inv_def valid_counts_def pn_sample_def eval)
  have "PNCounter_MarshalBinary (Some pn_sample) =
      Inr (envelope (body_v1 5 [] (section_enc (pn_positive pn_sample) @ section_enc (pn_negative pn_sample))))"
    by (simp add: PNCounter_MarshalBinary_def marshalPNCounts_iff MarshalFrame_iff DefaultLimits_def pn_sample_def
        section_enc_def entry_enc_def bytes_enc_def fm_items_def fm_keys_def uvarint_small valid_counts_def eval)
  with pncounter_codec[OF inv, of _ "\<lambda>c. (c, None)" pn_sample] show ?thesis by auto
qed

end
