(* ===== verification/Snapshots.thy ===== *)
theory Snapshots
  imports Clock Framing
begin

text \<open>
  Immutable state snapshots and recovery plans: \<open>src/snapshot/snapshot.go\<close>. A \<open>StateValidator\<close> is
  application code: \<open>None\<close> is a nil validator, and a call that panics gives \<open>None\<close>.
\<close>

abbreviation snapshot_ErrInvalid :: go_error where
  "snapshot_ErrInvalid \<equiv> errors_New ''snapshot: invalid snapshot''"

abbreviation snapshot_ErrLimit :: go_error where
  "snapshot_ErrLimit \<equiv> errors_New ''snapshot: recovery plan limit exceeded''"

type_synonym inflater = "byte list \<Rightarrow> byte list \<times> go_error option"
type_synonym frontier = "(gostring, tag) fmap"
type_synonym StateValidator = "(byte list \<Rightarrow> unit res option) option"

record Snapshot =
  ss_FormatVersion :: u64
  ss_TypeID :: u64
  ss_CodecID :: gostring
  ss_state :: "byte list"
  ss_frontier :: frontier
  ss_clockState :: "clock_State option"

definition isStateType :: "u64 \<Rightarrow> bool" where
  "isStateType typeID = (FrameTypeForState typeID \<noteq> None)"

definition deltaTypeForState :: "u64 \<Rightarrow> u64 option" where
  "deltaTypeForState typeID = map_option DeltaID (FrameTypeForState typeID)"

definition isHLCStateType :: "u64 \<Rightarrow> bool" where
  "isHLCStateType typeID = (case FrameTypeForState typeID of None \<Rightarrow> False | Some kind \<Rightarrow> UsesHLC kind)"

definition validFrontier :: "frontier \<Rightarrow> bool" where
  "validFrontier frontier = list_all (\<lambda>(replicaID, tag).
     \<not> (replicaID = [] \<or> replicaID \<noteq> ReplicaID tag \<or> \<not> Tag_Valid tag)) (fm_items frontier)"

definition cloneFrontier :: "frontier \<Rightarrow> frontier" where
  "cloneFrontier frontier = fold (\<lambda>(replicaID, tag) clone. fmupd replicaID tag clone) (fm_items frontier) fmempty"

definition validClockState :: "clock_State \<Rightarrow> bool" where
  "validClockState state = (\<not> isl (NewHLCFromState state))"

definition validateState :: "StateValidator \<Rightarrow> byte list \<Rightarrow> bool" where
  "validateState validator state = (case validator of
      None \<Rightarrow> False
    | Some validate \<Rightarrow> (case validate state of None \<Rightarrow> False | Some r \<Rightarrow> \<not> isl r))"

definition newSnapshot :: "Frame \<Rightarrow> byte list \<Rightarrow> frontier \<Rightarrow> clock_State option \<Rightarrow> Snapshot" where
  "newSnapshot decoded state frontier clockState =
     \<lparr>ss_FormatVersion = Frame_Version decoded, ss_TypeID = TypeID decoded, ss_CodecID = CodecID decoded,
      ss_state = state, ss_frontier = cloneFrontier frontier, ss_clockState = clockState\<rparr>"

definition Snapshot_New :: "inflater \<Rightarrow> byte list \<Rightarrow> frontier \<Rightarrow> Snapshot res" where
  "Snapshot_New flate state frontier = (case UnmarshalFrame flate state DefaultLimits of
      Inl _ \<Rightarrow> Inl snapshot_ErrInvalid
    | Inr decoded \<Rightarrow>
        if \<not> isStateType (TypeID decoded) \<or> \<not> validFrontier frontier then Inl snapshot_ErrInvalid
        else Inr (newSnapshot decoded state frontier None))"

definition NewValidated :: "inflater \<Rightarrow> byte list \<Rightarrow> frontier \<Rightarrow> StateValidator \<Rightarrow> Snapshot res" where
  "NewValidated flate state frontier validator = (case UnmarshalFrame flate state DefaultLimits of
      Inl _ \<Rightarrow> Inl snapshot_ErrInvalid
    | Inr decoded \<Rightarrow>
        if \<not> isStateType (TypeID decoded) \<or> \<not> validFrontier frontier \<or> \<not> validateState validator state
        then Inl snapshot_ErrInvalid
        else Inr (newSnapshot decoded state frontier None))"

definition NewWithClockState :: "inflater \<Rightarrow> byte list \<Rightarrow> frontier \<Rightarrow> clock_State \<Rightarrow> Snapshot res" where
  "NewWithClockState flate state frontier clockState = (case UnmarshalFrame flate state DefaultLimits of
      Inl _ \<Rightarrow> Inl snapshot_ErrInvalid
    | Inr decoded \<Rightarrow>
        if \<not> isHLCStateType (TypeID decoded) \<or> \<not> validFrontier frontier \<or> \<not> validClockState clockState
        then Inl snapshot_ErrInvalid
        else Inr (newSnapshot decoded state frontier (Some clockState)))"

definition NewValidatedWithClockState ::
    "inflater \<Rightarrow> byte list \<Rightarrow> frontier \<Rightarrow> clock_State \<Rightarrow> StateValidator \<Rightarrow> Snapshot res" where
  "NewValidatedWithClockState flate state frontier clockState validator =
     (case UnmarshalFrame flate state DefaultLimits of
        Inl _ \<Rightarrow> Inl snapshot_ErrInvalid
      | Inr decoded \<Rightarrow>
          if \<not> isHLCStateType (TypeID decoded) \<or> \<not> validFrontier frontier \<or>
             \<not> validClockState clockState \<or> \<not> validateState validator state
          then Inl snapshot_ErrInvalid
          else Inr (newSnapshot decoded state frontier (Some clockState)))"

definition Snapshot_Bytes :: "Snapshot \<Rightarrow> byte list" where
  "Snapshot_Bytes s = ss_state s"

definition Snapshot_Frontier :: "Snapshot \<Rightarrow> frontier" where
  "Snapshot_Frontier s = cloneFrontier (ss_frontier s)"

definition Snapshot_ClockState :: "Snapshot \<Rightarrow> clock_State option" where
  "Snapshot_ClockState s = ss_clockState s"

record RecoveryPlan =
  rp_Snapshot :: Snapshot
  rp_deltas :: "byte list list"

definition Snapshot_valid :: "inflater \<Rightarrow> Snapshot \<Rightarrow> bool" where
  "Snapshot_valid flate s = (case UnmarshalFrame flate (ss_state s) DefaultLimits of
      Inl _ \<Rightarrow> False
    | Inr decoded \<Rightarrow>
        \<not> (ss_FormatVersion s \<noteq> Frame_Version decoded \<or> ss_TypeID s \<noteq> TypeID decoded \<or>
           ss_CodecID s \<noteq> CodecID decoded \<or> \<not> isStateType (ss_TypeID s) \<or> \<not> validFrontier (ss_frontier s) \<or>
           (case ss_clockState s of
              None \<Rightarrow> False
            | Some clockState \<Rightarrow> \<not> isHLCStateType (ss_TypeID s) \<or> \<not> validClockState clockState)))"

text \<open>The loop of \<open>NewRecoveryPlan\<close> over the deltas, with the bytes used and the clones so far.\<close>

fun recovery_loop :: "inflater \<Rightarrow> Snapshot \<Rightarrow> u64 \<Rightarrow> int \<Rightarrow> byte list list \<Rightarrow> int \<Rightarrow> byte list list \<Rightarrow> byte list list res" where
  "recovery_loop flate snapshot expectedTypeID maxDeltaBytes [] used cloned = Inr cloned"
| "recovery_loop flate snapshot expectedTypeID maxDeltaBytes (delta # deltas) used cloned =
     (if length delta = 0 \<or> int (length delta) > maxDeltaBytes - used then Inl snapshot_ErrLimit
      else (case UnmarshalFrame flate delta DefaultLimits of
          Inl _ \<Rightarrow> Inl snapshot_ErrInvalid
        | Inr decoded \<Rightarrow>
            if Frame_Version decoded \<noteq> ss_FormatVersion snapshot \<or> TypeID decoded \<noteq> expectedTypeID \<or>
               CodecID decoded \<noteq> ss_CodecID snapshot
            then Inl snapshot_ErrInvalid
            else recovery_loop flate snapshot expectedTypeID maxDeltaBytes deltas
                   (used + int (length delta)) (cloned @ [delta])))"

definition NewRecoveryPlan :: "inflater \<Rightarrow> Snapshot \<Rightarrow> byte list list \<Rightarrow> int \<Rightarrow> RecoveryPlan res" where
  "NewRecoveryPlan flate snapshot deltas maxDeltaBytes =
     (if maxDeltaBytes \<le> 0 \<or> \<not> Snapshot_valid flate snapshot then Inl snapshot_ErrInvalid
      else (case deltaTypeForState (ss_TypeID snapshot) of
          None \<Rightarrow> Inl snapshot_ErrInvalid
        | Some expectedTypeID \<Rightarrow>
            (case recovery_loop flate snapshot expectedTypeID maxDeltaBytes deltas 0 [] of
               Inl err \<Rightarrow> Inl err
             | Inr cloned \<Rightarrow> (case UnmarshalFrame flate (ss_state snapshot) DefaultLimits of
                   Inl _ \<Rightarrow> Inl snapshot_ErrInvalid
                 | Inr decodedSnapshot \<Rightarrow>
                     Inr \<lparr>rp_Snapshot = newSnapshot decodedSnapshot (ss_state snapshot) (ss_frontier snapshot)
                            (ss_clockState snapshot), rp_deltas = cloned\<rparr>))))"

definition RecoveryPlan_Deltas :: "RecoveryPlan \<Rightarrow> byte list list" where
  "RecoveryPlan_Deltas p = rp_deltas p"

section \<open>Properties\<close>

lemma cloneFrontier_id [simp]: "cloneFrontier m = m"
proof -
  have d: "distinct (map fst (fm_items m))" unfolding map_fst_fm_items by simp
  have "fmlookup (cloneFrontier m) x = fmlookup m x" for x
    unfolding cloneFrontier_def
    using fold_enumeration_lookup[OF _ d, of fmupd "\<lambda>_ v _. Some v" fmempty x]
    by (simp add: touches_own_key_def split: option.splits)
  then show ?thesis by (rule fmap_ext)
qed

lemma validFrontier_iff:
  "validFrontier m \<longleftrightarrow> (\<forall>r t. fmlookup m r = Some t \<longrightarrow> r = ReplicaID t \<and> Tag_Valid t)"
proof -
  have "(\<not> (r = [] \<or> r \<noteq> ReplicaID t \<or> \<not> Tag_Valid t)) \<longleftrightarrow> r = ReplicaID t \<and> Tag_Valid t" for r t
    by (auto simp: Tag_Valid_def)
  then show ?thesis unfolding validFrontier_def by (simp add: list_all_iff set_fm_items)
qed

lemma newSnapshot_parts [simp]:
  "Snapshot_Bytes (newSnapshot f state frontier clockState) = state"
  "Snapshot_Frontier (newSnapshot f state frontier clockState) = frontier"
  "Snapshot_ClockState (newSnapshot f state frontier clockState) = clockState"
  by (simp_all add: Snapshot_Bytes_def Snapshot_Frontier_def Snapshot_ClockState_def newSnapshot_def)

lemma isHLC_isState: "isHLCStateType t \<Longrightarrow> isStateType t"
  by (auto simp: isHLCStateType_def isStateType_def split: option.splits)

lemma newSnapshot_valid:
  "UnmarshalFrame flate state DefaultLimits = Inr f \<Longrightarrow> isStateType (TypeID f) \<Longrightarrow> validFrontier frontier \<Longrightarrow>
   (\<forall>cs. clockState = Some cs \<longrightarrow> isHLCStateType (TypeID f) \<and> validClockState cs) \<Longrightarrow>
   Snapshot_valid flate (newSnapshot f state frontier clockState)"
  by (auto simp: Snapshot_valid_def newSnapshot_def split: option.splits)

text \<open>
  C28. A snapshot is never built from invalid parts: each of the four constructors returns a snapshot that
  is valid (its header fields are those of its frame, its type is a registered state type, its
  frontier is well formed, a clock state appears only for a clock-based type) and that carries the
  state bytes, the frontier and the clock state it was given. A validating constructor moreover ran
  the validator on the state.
\<close>

theorem snapshot_constructors_valid:
  "(Snapshot_New flate state frontier = Inr s \<longrightarrow> Snapshot_valid flate s \<and> Snapshot_Bytes s = state \<and>
      Snapshot_Frontier s = frontier \<and> Snapshot_ClockState s = None) \<and>
   (NewValidated flate state frontier validator = Inr s \<longrightarrow> Snapshot_valid flate s \<and> Snapshot_Bytes s = state \<and>
      Snapshot_Frontier s = frontier \<and> Snapshot_ClockState s = None \<and> validateState validator state) \<and>
   (NewWithClockState flate state frontier clockState = Inr s \<longrightarrow> Snapshot_valid flate s \<and> Snapshot_Bytes s = state \<and>
      Snapshot_Frontier s = frontier \<and> Snapshot_ClockState s = Some clockState) \<and>
   (NewValidatedWithClockState flate state frontier clockState validator = Inr s \<longrightarrow> Snapshot_valid flate s \<and>
      Snapshot_Bytes s = state \<and> Snapshot_Frontier s = frontier \<and> Snapshot_ClockState s = Some clockState \<and>
      validateState validator state)"
  by (intro conjI impI)
    (auto simp: Snapshot_New_def NewValidated_def NewWithClockState_def NewValidatedWithClockState_def
      dest: isHLC_isState intro: newSnapshot_valid split: sum.splits if_splits)

theorem snapshot_constructors_valid_witness:
  "\<exists>s. Snapshot_New (\<lambda>c. (c, None)) (envelope (body_v1 1 [] [0])) fmempty = Inr s \<and>
     Snapshot_valid (\<lambda>c. (c, None)) s \<and> Snapshot_Bytes s = envelope (body_v1 1 [] [0])"
proof -
  have "MarshalFrame (frame_of 1 [] [0]) = Inr (envelope (body_v1 1 [] [0]))"
    by (simp add: MarshalFrame_iff DefaultLimits_def)
  note d = MarshalFrame_decoded[OF this, of "\<lambda>c. (c, None)"]
  have "Snapshot_New (\<lambda>c. (c, None)) (envelope (body_v1 1 [] [0])) fmempty =
      Inr (newSnapshot (frame_of 1 [] [0]) (envelope (body_v1 1 [] [0])) fmempty None)"
    by (simp add: Snapshot_New_def d isStateType_def FrameTypeForState_def frameTypeRegistrations_def
        validFrontier_def fm_items_def fm_keys_def)
  with snapshot_constructors_valid[of "\<lambda>c. (c, None)" "envelope (body_v1 1 [] [0])" fmempty] show ?thesis by blast
qed

text \<open>The deltas a plan accepts for a snapshot.\<close>

definition compatible_delta :: "inflater \<Rightarrow> Snapshot \<Rightarrow> byte list \<Rightarrow> bool" where
  "compatible_delta flate s delta \<longleftrightarrow> delta \<noteq> [] \<and> (\<exists>f. UnmarshalFrame flate delta DefaultLimits = Inr f \<and>
     Frame_Version f = ss_FormatVersion s \<and> Some (TypeID f) = deltaTypeForState (ss_TypeID s) \<and> CodecID f = ss_CodecID s)"

lemma recovery_loop_iff:
  "recovery_loop flate s t m deltas used cloned = Inr r \<longleftrightarrow> r = cloned @ deltas \<and>
     (\<forall>delta \<in> set deltas. delta \<noteq> [] \<and> (\<exists>f. UnmarshalFrame flate delta DefaultLimits = Inr f \<and>
        Frame_Version f = ss_FormatVersion s \<and> TypeID f = t \<and> CodecID f = ss_CodecID s)) \<and>
     (deltas = [] \<or> used + int (length (concat deltas)) \<le> m)"
proof (induction deltas arbitrary: used cloned)
  case Nil
  then show ?case by auto
next
  case (Cons d ds)
  have nonempty: "length d \<noteq> 0 \<longleftrightarrow> d \<noteq> []" by simp
  show ?case
  proof (cases "UnmarshalFrame flate d DefaultLimits")
    case (Inl e)
    then show ?thesis by auto
  next
    case (Inr f)
    then show ?thesis unfolding recovery_loop.simps if_Inl_Inr by (auto simp: Cons)
  qed
qed

text \<open>
  C29. A recovery plan accepts exactly the compatible deltas within its byte budget: it is built if and only
  if the budget is positive, the snapshot is valid, every delta is a frame of the delta type, codec
  and format version of the snapshot, and their total size fits; it then holds the snapshot and the
  deltas unchanged.
\<close>

theorem recovery_plan_iff:
  "NewRecoveryPlan flate s deltas maxDeltaBytes = Inr plan \<longleftrightarrow>
     0 < maxDeltaBytes \<and> Snapshot_valid flate s \<and> (\<forall>delta \<in> set deltas. compatible_delta flate s delta) \<and>
     int (length (concat deltas)) \<le> maxDeltaBytes \<and> rp_Snapshot plan = s \<and> RecoveryPlan_Deltas plan = deltas"
proof (cases "0 < maxDeltaBytes \<and> Snapshot_valid flate s")
  case False
  then show ?thesis by (auto simp: NewRecoveryPlan_def)
next
  case True
  then obtain f t where f: "UnmarshalFrame flate (ss_state s) DefaultLimits = Inr f" "ss_FormatVersion s = Frame_Version f"
    "ss_TypeID s = TypeID f" "ss_CodecID s = CodecID f" and t: "deltaTypeForState (ss_TypeID s) = Some t"
    by (auto simp: Snapshot_valid_def isStateType_def deltaTypeForState_def split: sum.splits)
  have same: "newSnapshot f (ss_state s) (ss_frontier s) (ss_clockState s) = s"
    using f by (simp add: newSnapshot_def)
  have "NewRecoveryPlan flate s deltas maxDeltaBytes = Inr plan \<longleftrightarrow>
      (\<exists>cloned. recovery_loop flate s t maxDeltaBytes deltas 0 [] = Inr cloned \<and>
         plan = \<lparr>rp_Snapshot = s, rp_deltas = cloned\<rparr>)"
    using True t f(1) same by (auto simp: NewRecoveryPlan_def split: sum.splits)
  also have "\<dots> \<longleftrightarrow> (\<forall>delta \<in> set deltas. compatible_delta flate s delta) \<and>
      int (length (concat deltas)) \<le> maxDeltaBytes \<and> plan = \<lparr>rp_Snapshot = s, rp_deltas = deltas\<rparr>"
    unfolding recovery_loop_iff compatible_delta_def t using True by auto
  also have "plan = \<lparr>rp_Snapshot = s, rp_deltas = deltas\<rparr> \<longleftrightarrow> rp_Snapshot plan = s \<and> RecoveryPlan_Deltas plan = deltas"
    by (cases plan) (auto simp: RecoveryPlan_Deltas_def)
  finally show ?thesis using True by blast
qed

theorem recovery_plan_iff_witness:
  "\<exists>s plan. NewRecoveryPlan (\<lambda>c. (c, None)) s [envelope (body_v1 3 [] [0])] 100 = Inr plan \<and>
     RecoveryPlan_Deltas plan = [envelope (body_v1 3 [] [0])]"
proof -
  let ?s = "newSnapshot (frame_of 1 [] [0]) (envelope (body_v1 1 [] [0])) fmempty None"
  let ?d = "envelope (body_v1 3 [] [0])"
  have "MarshalFrame (frame_of 1 [] [0]) = Inr (envelope (body_v1 1 [] [0]))" "MarshalFrame (frame_of 3 [] [0]) = Inr ?d"
    by (simp_all add: MarshalFrame_iff DefaultLimits_def)
  note dec = this[THEN MarshalFrame_decoded, of "\<lambda>c. (c, None)"]
  have "Snapshot_valid (\<lambda>c. (c, None)) ?s"
    by (rule newSnapshot_valid[OF dec(1)])
      (simp_all add: isStateType_def FrameTypeForState_def frameTypeRegistrations_def validFrontier_def fm_items_def fm_keys_def)
  moreover have "compatible_delta (\<lambda>c. (c, None)) ?s ?d" "length ?d \<le> 100"
    using dec(2) by (auto simp: compatible_delta_def newSnapshot_def deltaTypeForState_def FrameTypeForState_def
        frameTypeRegistrations_def envelope_def magic_def body_v1_def header_def bytes_enc_def FormatVersion_def uvarint_small)
  ultimately have "NewRecoveryPlan (\<lambda>c. (c, None)) ?s [?d] 100 = Inr \<lparr>rp_Snapshot = ?s, rp_deltas = [?d]\<rparr>"
    using recovery_plan_iff[of "\<lambda>c. (c, None)" ?s "[?d]" 100 "\<lparr>rp_Snapshot = ?s, rp_deltas = [?d]\<rparr>"]
    by (simp add: RecoveryPlan_Deltas_def)
  then show ?thesis
    by (intro exI[of _ ?s] exI[of _ "\<lparr>rp_Snapshot = ?s, rp_deltas = [?d]\<rparr>"] conjI)
      (simp_all only: RecoveryPlan_Deltas_def RecoveryPlan.select_convs)
qed

end
