(* ===== verification/Batches.thy ===== *)
theory Batches
  imports Snapshots
begin

text \<open>
  Batching and coalescing of encoded deltas: \<open>src/delta/batch.go\<close>. The merge callback of a coalescer is
  application code and runs outside its lock, so \<open>Add\<close> is an optimistic loop: it is modelled both as
  the sequential method and as the steps of a thread among others.
\<close>

abbreviation delta_ErrLimit :: go_error where
  "delta_ErrLimit \<equiv> errors_New ''delta: batch limit exceeded''"

abbreviation delta_ErrInvalid :: go_error where
  "delta_ErrInvalid \<equiv> errors_New ''delta: invalid batch''"

abbreviation delta_ErrTypeMismatch :: go_error where
  "delta_ErrTypeMismatch \<equiv> errors_New ''delta: frame type mismatch''"

abbreviation delta_ErrMergeRetry :: go_error where
  "delta_ErrMergeRetry \<equiv> errors_New ''delta: merge retry limit exceeded''"

record Batch =
  batch_items :: "byte list list"

definition batchMagic :: "byte list" where
  "batchMagic = [0x44, 0x42, 0x41, 0x54]"

definition isDeltaType :: "u64 \<Rightarrow> bool" where
  "isDeltaType typeID = (FrameTypeForDelta typeID \<noteq> None)"

definition isDeltaFrame :: "inflater \<Rightarrow> byte list \<Rightarrow> bool" where
  "isDeltaFrame flate item = (case UnmarshalFrame flate item DefaultLimits of
      Inl _ \<Rightarrow> False | Inr decoded \<Rightarrow> isDeltaType (TypeID decoded))"

definition validateBatchItem :: "inflater \<Rightarrow> byte list \<Rightarrow> int \<Rightarrow> unit res" where
  "validateBatchItem flate item remaining =
     (if length item = 0 \<or> int (length item) > remaining then Inl delta_ErrLimit
      else if \<not> isDeltaFrame flate item then Inl delta_ErrInvalid else Inr ())"

text \<open>The loop that \<open>NewBatch\<close> and \<open>MarshalBinary\<close> run over the items, with the bytes counted so far.\<close>

fun validate_items :: "inflater \<Rightarrow> int \<Rightarrow> byte list list \<Rightarrow> int \<Rightarrow> unit res" where
  "validate_items flate maxBytes [] used = Inr ()"
| "validate_items flate maxBytes (item # items) used = (case validateBatchItem flate item (maxBytes - used) of
      Inl err \<Rightarrow> Inl err
    | Inr _ \<Rightarrow> validate_items flate maxBytes items (used + int (length item)))"

definition NewBatch :: "inflater \<Rightarrow> byte list list \<Rightarrow> int \<Rightarrow> Batch res" where
  "NewBatch flate items maxBytes =
     (if maxBytes \<le> 0 then Inl delta_ErrLimit
      else (case validate_items flate maxBytes items 0 of
          Inl err \<Rightarrow> Inl err | Inr _ \<Rightarrow> Inr \<lparr>batch_items = items\<rparr>))"

definition Batch_MarshalBinary :: "inflater \<Rightarrow> Batch \<Rightarrow> int \<Rightarrow> byte list res" where
  "Batch_MarshalBinary flate b maxBytes =
     (if maxBytes \<le> 0 then Inl delta_ErrLimit
      else (case validate_items flate maxBytes (batch_items b) 0 of
          Inl err \<Rightarrow> Inl err
        | Inr _ \<Rightarrow>
            Inr (fold (\<lambda>item encoded. AppendUvarint encoded (of_nat (length item)) @ item) (batch_items b)
                   (AppendUvarint batchMagic (of_nat (length (batch_items b)))))))"

fun batch_loop :: "inflater \<Rightarrow> byte list \<Rightarrow> int \<Rightarrow> nat \<Rightarrow> nat \<Rightarrow> int \<Rightarrow> byte list list \<Rightarrow> (byte list list \<times> nat) res" where
  "batch_loop flate data maxBytes 0 pos used items = Inr (items, pos)"
| "batch_loop flate data maxBytes (Suc n) pos used items = (case ReadBytes data pos (maxBytes - used) of
      None \<Rightarrow> Inl delta_ErrInvalid
    | Some (item, next) \<Rightarrow>
        if length item = 0 then Inl delta_ErrInvalid
        else if \<not> isDeltaFrame flate item then Inl delta_ErrInvalid
        else batch_loop flate data maxBytes n next (used + int (length item)) (items @ [item]))"

definition UnmarshalBatch :: "inflater \<Rightarrow> byte list \<Rightarrow> int \<Rightarrow> int \<Rightarrow> Batch res" where
  "UnmarshalBatch flate data maxItems maxBytes =
     (if maxItems \<le> 0 \<or> maxBytes \<le> 0 \<or> length data < length batchMagic then Inl delta_ErrLimit
      else if maxItems > (max_int - int (length batchMagic) - 10) div 10 \<or>
              maxBytes > max_int - int (length batchMagic) - 10 - maxItems * 10 \<or>
              int (length data) > maxBytes + int (length batchMagic) + 10 + maxItems * 10
      then Inl delta_ErrLimit
      else if take (length batchMagic) data \<noteq> batchMagic then Inl delta_ErrInvalid
      else (case ReadUvarint data (length batchMagic) of
          None \<Rightarrow> Inl delta_ErrInvalid
        | Some (cnt, next) \<Rightarrow>
            if uint cnt > maxItems then Inl delta_ErrInvalid
            else (case batch_loop flate data maxBytes (unat cnt) next 0 [] of
                Inl err \<Rightarrow> Inl err
              | Inr (items, pos) \<Rightarrow>
                  if pos \<noteq> length data then Inl delta_ErrInvalid else Inr \<lparr>batch_items = items\<rparr>)))"

definition Batch_Items :: "Batch \<Rightarrow> byte list list" where
  "Batch_Items b = batch_items b"

section \<open>The batch envelope\<close>

lemma length_batchMagic [simp]: "length batchMagic = 4"
  by (simp add: batchMagic_def)

definition batch_enc :: "byte list list \<Rightarrow> byte list" where
  "batch_enc items = batchMagic @ uvarint (of_nat (length items)) @ concat (map bytes_enc items)"

definition items_ok :: "inflater \<Rightarrow> int \<Rightarrow> byte list list \<Rightarrow> bool" where
  "items_ok flate maxBytes items \<longleftrightarrow> (\<forall>item \<in> set items. item \<noteq> [] \<and> isDeltaFrame flate item) \<and>
     (items = [] \<or> int (length (concat items)) \<le> maxBytes)"

lemma validate_items_iff:
  "validate_items flate maxBytes items used = Inr () \<longleftrightarrow>
     (\<forall>item \<in> set items. item \<noteq> [] \<and> isDeltaFrame flate item) \<and>
     (items = [] \<or> used + int (length (concat items)) \<le> maxBytes)"
  by (induction items arbitrary: used) (auto simp: validateBatchItem_def split: if_splits)

lemma fold_append_items:
  "fold (\<lambda>item encoded. AppendUvarint encoded (of_nat (length item)) @ item) items pre = pre @ concat (map bytes_enc items)"
  by (induction items arbitrary: pre) (simp_all add: AppendUvarint_def bytes_enc_def)

lemma Batch_Marshal_iff:
  "Batch_MarshalBinary flate b maxBytes = Inr data \<longleftrightarrow>
     0 < maxBytes \<and> items_ok flate maxBytes (batch_items b) \<and> data = batch_enc (batch_items b)"
  using validate_items_iff[of flate maxBytes "batch_items b" 0]
  by (cases "validate_items flate maxBytes (batch_items b) 0")
    (auto simp: Batch_MarshalBinary_def items_ok_def batch_enc_def fold_append_items AppendUvarint_def[of batchMagic])

lemma batch_loop_iff:
  "pos \<le> length data \<Longrightarrow> batch_loop flate data maxBytes n pos used items = Inr (items', q) \<longleftrightarrow>
     (\<exists>xs. length xs = n \<and> items' = items @ xs \<and>
        (\<forall>x \<in> set xs. x \<noteq> [] \<and> isDeltaFrame flate x \<and> int (length x) \<le> max_int) \<and>
        at_pos data pos (concat (map bytes_enc xs)) \<and> q = pos + length (concat (map bytes_enc xs)) \<and>
        (xs = [] \<or> used + int (length (concat xs)) \<le> maxBytes))"
proof (induction n arbitrary: pos used items)
  case 0
  then show ?case by auto
next
  case (Suc n)
  have "batch_loop flate data maxBytes (Suc n) pos used items = Inr (items', q) \<longleftrightarrow>
      (\<exists>x. bytes_ok (maxBytes - used) x \<and> at_pos data pos (bytes_enc x) \<and> x \<noteq> [] \<and> isDeltaFrame flate x \<and>
         batch_loop flate data maxBytes n (pos + length (bytes_enc x)) (used + int (length x)) (items @ [x]) = Inr (items', q))"
    unfolding batch_loop.simps bytes_field.case_read if_Inl_Inr by simp
  also have "\<dots> \<longleftrightarrow> (\<exists>x ys. bytes_ok (maxBytes - used) x \<and> at_pos data pos (bytes_enc x) \<and> x \<noteq> [] \<and>
      isDeltaFrame flate x \<and> length ys = n \<and> items' = (items @ [x]) @ ys \<and>
      (\<forall>x \<in> set ys. x \<noteq> [] \<and> isDeltaFrame flate x \<and> int (length x) \<le> max_int) \<and>
      at_pos data (pos + length (bytes_enc x)) (concat (map bytes_enc ys)) \<and>
      q = pos + length (bytes_enc x) + length (concat (map bytes_enc ys)) \<and>
      (ys = [] \<or> used + int (length x) + int (length (concat ys)) \<le> maxBytes))"
    using Suc.IH[OF at_pos_le] by blast
  also have "\<dots> \<longleftrightarrow> (\<exists>x ys. length ys = n \<and> items' = items @ x # ys \<and>
      (\<forall>x \<in> set (x # ys). x \<noteq> [] \<and> isDeltaFrame flate x \<and> int (length x) \<le> max_int) \<and>
      at_pos data pos (concat (map bytes_enc (x # ys))) \<and> q = pos + length (concat (map bytes_enc (x # ys))) \<and>
      used + int (length (concat (x # ys))) \<le> maxBytes)"
    by (intro iff_exI) (auto simp: bytes_ok_def at_pos_append add.assoc)
  also have "\<dots> \<longleftrightarrow> (\<exists>xs. length xs = Suc n \<and> items' = items @ xs \<and>
        (\<forall>x \<in> set xs. x \<noteq> [] \<and> isDeltaFrame flate x \<and> int (length x) \<le> max_int) \<and>
        at_pos data pos (concat (map bytes_enc xs)) \<and> q = pos + length (concat (map bytes_enc xs)) \<and>
        (xs = [] \<or> used + int (length (concat xs)) \<le> maxBytes))"
    unfolding length_Suc_conv by blast
  finally show ?case .
qed


lemma length_bytes_enc_le: "length (bytes_enc x) \<le> length x + 10"
  unfolding bytes_enc_def using length_uvarint_max[of "of_nat (length x)"] by simp

lemma length_batch_enc_le: "length (batch_enc items) \<le> 14 + 10 * length items + length (concat items)"
proof -
  have "length (concat (map bytes_enc items)) \<le> 10 * length items + length (concat items)"
  proof (induction items)
    case (Cons x items)
    then show ?case using length_bytes_enc_le[of x] by simp
  qed simp
  then show ?thesis
    unfolding batch_enc_def using length_uvarint_max[of "of_nat (length items)"] by simp
qed

definition batch_bounds :: "int \<Rightarrow> int \<Rightarrow> bool" where
  "batch_bounds maxItems maxBytes \<longleftrightarrow> 0 < maxItems \<and> 0 < maxBytes \<and> maxItems \<le> (max_int - 14) div 10 \<and>
     maxBytes \<le> max_int - 14 - maxItems * 10"

lemma UnmarshalBatch_iff:
  "UnmarshalBatch flate data maxItems maxBytes = Inr b \<longleftrightarrow> batch_bounds maxItems maxBytes \<and>
     int (length (batch_items b)) \<le> maxItems \<and> items_ok flate maxBytes (batch_items b) \<and> data = batch_enc (batch_items b)"
proof
  assume ok: "UnmarshalBatch flate data maxItems maxBytes = Inr b"
  obtain cnt p where *: "batch_bounds maxItems maxBytes" "take 4 data = batchMagic" "4 \<le> length data"
      "ReadUvarint data 4 = Some (cnt, p)" "uint cnt \<le> maxItems"
      "batch_loop flate data maxBytes (unat cnt) p 0 [] = Inr (batch_items b, length data)"
    using ok unfolding UnmarshalBatch_def batch_bounds_def
    by (auto split: if_splits option.splits sum.splits)
  from *(4) have q: "at_pos data 4 (uvarint cnt)" "p = 4 + length (uvarint cnt)"
    by (simp_all add: ReadUvarint_iff)
  from *(6) have items: "length (batch_items b) = unat cnt"
      "\<forall>x \<in> set (batch_items b). x \<noteq> [] \<and> isDeltaFrame flate x"
      "at_pos data p (concat (map bytes_enc (batch_items b)))"
      "length data = p + length (concat (map bytes_enc (batch_items b)))"
      "batch_items b = [] \<or> int (length (concat (batch_items b))) \<le> maxBytes"
    using batch_loop_iff[of p data flate maxBytes "unat cnt" 0 "[]"] at_pos_le[OF q(1)] q(2) by auto
  have "data = batchMagic @ drop 4 data" using *(2) by (metis append_take_drop_id)
  also have "drop 4 data = uvarint cnt @ concat (map bytes_enc (batch_items b))"
    using q items(3,4) at_pos_whole[of data 4 "uvarint cnt @ concat (map bytes_enc (batch_items b))"]
    by (simp add: at_pos_append)
  finally have "data = batch_enc (batch_items b)" by (simp add: batch_enc_def items(1))
  then show "batch_bounds maxItems maxBytes \<and> int (length (batch_items b)) \<le> maxItems \<and>
      items_ok flate maxBytes (batch_items b) \<and> data = batch_enc (batch_items b)"
    using * items by (simp add: items_ok_def uint_of_nat_len)
next
  assume ok: "batch_bounds maxItems maxBytes \<and> int (length (batch_items b)) \<le> maxItems \<and>
      items_ok flate maxBytes (batch_items b) \<and> data = batch_enc (batch_items b)"
  define items where "items = batch_items b"
  have n: "int (length items) \<le> max_int" using ok by (auto simp: items_def batch_bounds_def)
  have len: "int (length data) \<le> 14 + 10 * maxItems + maxBytes" "items = [] \<or> int (length (concat items)) \<le> maxBytes"
    using length_batch_enc_le[of items] ok by (auto simp: items_def items_ok_def batch_bounds_def)
  have data: "data = batchMagic @ uvarint (of_nat (length items)) @ concat (map bytes_enc items)"
    using ok by (simp add: items_def batch_enc_def)
  have cnt: "ReadUvarint data 4 = Some (of_nat (length items), 4 + length (uvarint (of_nat (length items))))"
    using at_pos_middle[of batchMagic "uvarint (of_nat (length items))" "concat (map bytes_enc items)"]
    by (simp add: ReadUvarint_iff data)
  have small: "\<forall>x \<in> set items. int (length x) \<le> max_int"
  proof
    fix x assume x: "x \<in> set items"
    then have "length x \<le> length (concat items)" by (simp add: length_concat member_le_sum_list)
    then show "int (length x) \<le> max_int" using len(2) x ok by (auto simp: batch_bounds_def)
  qed
  have loop: "batch_loop flate data maxBytes (length items) (4 + length (uvarint (of_nat (length items)))) 0 [] =
      Inr (items, length data)"
    using ok small len(2) at_pos_middle[of "batchMagic @ uvarint (of_nat (length items))" "concat (map bytes_enc items)" "[]"]
    by (subst batch_loop_iff) (auto simp: data batch_enc_def items_def items_ok_def)
  have "take 4 data = batchMagic" "4 \<le> length data" by (simp_all add: data)
  then show "UnmarshalBatch flate data maxItems maxBytes = Inr b"
    using ok len(1) n cnt loop
    by (auto simp: UnmarshalBatch_def batch_bounds_def items_def uint_of_nat_len unat_of_nat_len)
qed

text \<open>
  C30. The batch envelope is canonical and bounded. Under limits the decoder admits, \<open>UnmarshalBatch\<close> returns a
  batch for exactly the bytes that \<open>MarshalBinary\<close> writes for it, provided it holds at most \<open>maxItems\<close>
  items; so a marshalled batch is read back unchanged, and no other envelope decodes to it.
\<close>

theorem batch_codec:
  assumes "0 < maxItems" and "maxItems \<le> (max_int - 14) div 10" and "maxBytes \<le> max_int - 14 - maxItems * 10"
  shows "UnmarshalBatch flate data maxItems maxBytes = Inr b \<longleftrightarrow>
    Batch_MarshalBinary flate b maxBytes = Inr data \<and> int (length (Batch_Items b)) \<le> maxItems"
  using assms unfolding UnmarshalBatch_iff Batch_Marshal_iff Batch_Items_def batch_bounds_def by auto

text \<open>A small delta frame for the concrete instances, for any decompressor.\<close>

abbreviation sample_delta :: "byte list" where
  "sample_delta \<equiv> envelope (body_v1 3 [] [0])"

lemma sample_delta_decoded: "UnmarshalFrame flate sample_delta DefaultLimits = Inr (frame_of 3 [] [0])"
  by (rule MarshalFrame_decoded) (simp add: MarshalFrame_iff DefaultLimits_def)

lemma sample_delta_facts: "length sample_delta = 13" "sample_delta \<noteq> []" "isDeltaType 3" "isDeltaFrame flate sample_delta"
proof -
  show "length sample_delta = 13" "sample_delta \<noteq> []"
    by (simp_all add: envelope_def magic_def body_v1_def header_def bytes_enc_def FormatVersion_def uvarint_small)
  show "isDeltaType 3" by (simp add: isDeltaType_def FrameTypeForDelta_def frameTypeRegistrations_def)
  then show "isDeltaFrame flate sample_delta" by (simp add: isDeltaFrame_def sample_delta_decoded)
qed

theorem batch_codec_witness:
  "\<exists>data. Batch_MarshalBinary (\<lambda>c. (c, None)) \<lparr>batch_items = [sample_delta, sample_delta]\<rparr> 100 = Inr data \<and>
     UnmarshalBatch (\<lambda>c. (c, None)) data 2 100 = Inr \<lparr>batch_items = [sample_delta, sample_delta]\<rparr>"
proof -
  let ?b = "\<lparr>batch_items = [sample_delta, sample_delta]\<rparr>"
  have "Batch_MarshalBinary (\<lambda>c. (c, None)) ?b 100 = Inr (batch_enc (batch_items ?b))"
    by (simp add: Batch_Marshal_iff items_ok_def sample_delta_facts)
  moreover have "int (length (Batch_Items ?b)) \<le> 2" by (simp add: Batch_Items_def)
  ultimately show ?thesis using batch_codec[of 2 100 "\<lambda>c. (c, None)" "batch_enc (batch_items ?b)" ?b] by auto
qed

section \<open>The coalescer\<close>

type_synonym MergeFunc = "byte list \<Rightarrow> byte list \<Rightarrow> byte list res"

record Coalescer =
  co_maxItems :: int
  co_maxBytes :: int
  co_merge :: "MergeFunc option"
  co_typeID :: u64
  co_codecID :: gostring
  co_items :: "byte list list"
  co_total :: int
  co_generation :: u64

definition NewCoalescer :: "int \<Rightarrow> int \<Rightarrow> MergeFunc option \<Rightarrow> Coalescer res" where
  "NewCoalescer maxItems maxBytes merge =
     (if maxItems \<le> 0 \<or> maxBytes \<le> 0 then Inl delta_ErrLimit
      else Inr \<lparr>co_maxItems = maxItems, co_maxBytes = maxBytes, co_merge = merge, co_typeID = 0, co_codecID = [],
                co_items = [], co_total = 0, co_generation = 0\<rparr>)"

text \<open>\<open>Add\<close> up to its loop: the checks made without the lock, which read only the immutable byte limit.\<close>

definition add_check :: "inflater \<Rightarrow> int \<Rightarrow> byte list \<Rightarrow> Frame res" where
  "add_check flate maxBytes item =
     (if length item = 0 \<or> int (length item) > maxBytes then Inl delta_ErrLimit
      else (case UnmarshalFrame flate item DefaultLimits of
          Inl err \<Rightarrow> Inl err
        | Inr decoded \<Rightarrow> if \<not> isDeltaType (TypeID decoded) then Inl delta_ErrInvalid else Inr decoded))"

text \<open>
  Where a call of \<open>Add\<close> stands in its loop: about to take the lock with so many retries behind it, merging
  outside the lock with the tail, generation, type and codec it has copied, or returned.
\<close>

datatype add_pc =
    Locking nat
  | Merging MergeFunc nat "byte list" u64 u64 gostring
  | Returned "unit res"

definition add_locked :: "byte list \<Rightarrow> Frame \<Rightarrow> nat \<Rightarrow> Coalescer \<Rightarrow> Coalescer \<times> add_pc" where
  "add_locked copyItem decoded retries c =
     (if co_items c = []
      then (c\<lparr>co_typeID := TypeID decoded, co_codecID := CodecID decoded, co_items := [copyItem],
              co_total := int (length copyItem), co_generation := co_generation c + 1\<rparr>, Returned (Inr ()))
      else if TypeID decoded \<noteq> co_typeID c \<or> CodecID decoded \<noteq> co_codecID c
      then (c, Returned (Inl delta_ErrTypeMismatch))
      else (case co_merge c of
          None \<Rightarrow>
            if int (length (co_items c)) = co_maxItems c \<or> int (length copyItem) > co_maxBytes c - co_total c
            then (c, Returned (Inl delta_ErrLimit))
            else (c\<lparr>co_items := co_items c @ [copyItem], co_total := co_total c + int (length copyItem),
                    co_generation := co_generation c + 1\<rparr>, Returned (Inr ()))
        | Some merge \<Rightarrow>
            (c, Merging merge retries (last (co_items c)) (co_generation c) (co_typeID c) (co_codecID c))))"

definition maxMergeRetries :: nat where
  "maxMergeRetries = 16"

text \<open>The rest of an iteration: the merge of the copied tail, its checks, and the second critical section.\<close>

definition add_commit ::
    "inflater \<Rightarrow> MergeFunc \<Rightarrow> byte list \<Rightarrow> nat \<Rightarrow> byte list \<Rightarrow> u64 \<Rightarrow> u64 \<Rightarrow> gostring \<Rightarrow> Coalescer \<Rightarrow> Coalescer \<times> add_pc" where
  "add_commit flate merge copyItem retries tail generation typeID codecID c = (case merge tail copyItem of
      Inl err \<Rightarrow> (c, Returned (Inl err))
    | Inr merged \<Rightarrow> (case UnmarshalFrame flate merged DefaultLimits of
        Inl err \<Rightarrow> (c, Returned (Inl err))
      | Inr mergedFrame \<Rightarrow>
          if TypeID mergedFrame \<noteq> typeID \<or> CodecID mergedFrame \<noteq> codecID
          then (c, Returned (Inl delta_ErrTypeMismatch))
          else if co_generation c \<noteq> generation
          then (c, if retries \<ge> maxMergeRetries - 1 then Returned (Inl delta_ErrMergeRetry) else Locking (retries + 1))
          else if int (length merged) > co_maxBytes c - (co_total c - int (length (last (co_items c))))
          then (c, Returned (Inl delta_ErrLimit))
          else (c\<lparr>co_total := co_total c + (int (length merged) - int (length (last (co_items c)))),
                  co_items := butlast (co_items c) @ [merged], co_generation := co_generation c + 1\<rparr>,
                Returned (Inr ()))))"

text \<open>One critical section of a call, and the loop of a call with no other call between its critical sections.\<close>

fun add_step :: "inflater \<Rightarrow> byte list \<Rightarrow> Frame \<Rightarrow> Coalescer \<Rightarrow> add_pc \<Rightarrow> Coalescer \<times> add_pc" where
  "add_step flate item decoded c (Locking retries) = add_locked item decoded retries c"
| "add_step flate item decoded c (Merging merge retries tail generation typeID codecID) =
     add_commit flate merge item retries tail generation typeID codecID c"
| "add_step flate item decoded c (Returned r) = (c, Returned r)"

fun add_measure :: "add_pc \<Rightarrow> nat" where
  "add_measure (Locking retries) = 2 + 2 * (maxMergeRetries - retries)"
| "add_measure (Merging merge retries tail generation typeID codecID) = 1 + 2 * (maxMergeRetries - retries)"
| "add_measure (Returned r) = 0"

lemma add_step_measure:
  assumes "add_step flate item decoded c pc = (c', pc')" and "\<forall>r. pc \<noteq> Returned r"
  shows "add_measure pc' < add_measure pc"
  using assms
  by (cases pc) (auto simp: add_locked_def add_commit_def maxMergeRetries_def split: if_splits option.splits sum.splits)

function add_loop :: "inflater \<Rightarrow> byte list \<Rightarrow> Frame \<Rightarrow> Coalescer \<Rightarrow> add_pc \<Rightarrow> Coalescer \<times> unit res" where
  "add_loop flate item decoded c pc = (case pc of
      Returned r \<Rightarrow> (c, r)
    | _ \<Rightarrow> (case add_step flate item decoded c pc of (c', pc') \<Rightarrow> add_loop flate item decoded c' pc'))"
  by pat_completeness auto
termination
  by (relation "measure (\<lambda>(_, _, _, _, pc). add_measure pc)")
    (auto simp del: add_step.simps add_measure.simps split: prod.splits intro: add_step_measure)

declare add_loop.simps [simp del]

definition Coalescer_Add :: "inflater \<Rightarrow> Coalescer option \<Rightarrow> byte list \<Rightarrow> Coalescer option \<times> unit res" where
  "Coalescer_Add flate co item = (case co of
      None \<Rightarrow> (None, Inl delta_ErrInvalid)
    | Some c \<Rightarrow> (case add_check flate (co_maxBytes c) item of
          Inl err \<Rightarrow> (Some c, Inl err)
        | Inr decoded \<Rightarrow> map_prod Some id (add_loop flate item decoded c (Locking 0))))"

definition co_drained :: "Coalescer \<Rightarrow> Coalescer" where
  "co_drained c = c\<lparr>co_items := [], co_total := 0, co_typeID := 0, co_codecID := [], co_generation := co_generation c + 1\<rparr>"

definition Coalescer_Drain :: "Coalescer option \<Rightarrow> Coalescer option \<times> Batch" where
  "Coalescer_Drain co = (case co of
      None \<Rightarrow> (None, \<lparr>batch_items = []\<rparr>)
    | Some c \<Rightarrow> (Some (co_drained c), \<lparr>batch_items = co_items c\<rparr>))"

definition Coalescer_Len :: "Coalescer option \<Rightarrow> int \<times> int" where
  "Coalescer_Len co = (case co of None \<Rightarrow> (0, 0) | Some c \<Rightarrow> (int (length (co_items c)), co_total c))"

section \<open>Adding one item at a time\<close>

text \<open>What a coalescer holds: bounded same-type delta frames and their total size.\<close>

definition co_item_ok :: "inflater \<Rightarrow> u64 \<Rightarrow> gostring \<Rightarrow> byte list \<Rightarrow> bool" where
  "co_item_ok flate typeID codecID item = (case UnmarshalFrame flate item DefaultLimits of
      Inl _ \<Rightarrow> False | Inr f \<Rightarrow> item \<noteq> [] \<and> TypeID f = typeID \<and> CodecID f = codecID \<and> isDeltaType typeID)"

definition co_inv :: "inflater \<Rightarrow> Coalescer \<Rightarrow> bool" where
  "co_inv flate c \<longleftrightarrow> 0 < co_maxItems c \<and> 0 < co_maxBytes c \<and> int (length (co_items c)) \<le> co_maxItems c \<and>
     co_total c = int (length (concat (co_items c))) \<and> co_total c \<le> co_maxBytes c \<and>
     (\<forall>item \<in> set (co_items c). co_item_ok flate (co_typeID c) (co_codecID c) item)"

definition co_put :: "Coalescer \<Rightarrow> byte list list \<Rightarrow> Coalescer" where
  "co_put c items = c\<lparr>co_items := items, co_total := int (length (concat items)), co_generation := co_generation c + 1\<rparr>"

text \<open>The merge callback with the checks \<open>Add\<close> makes of what it returns.\<close>

definition checked_merge :: "inflater \<Rightarrow> MergeFunc \<Rightarrow> u64 \<Rightarrow> gostring \<Rightarrow> byte list \<Rightarrow> byte list \<Rightarrow> byte list res" where
  "checked_merge flate merge typeID codecID tail item = (case merge tail item of
      Inl err \<Rightarrow> Inl err
    | Inr merged \<Rightarrow> (case UnmarshalFrame flate merged DefaultLimits of
        Inl err \<Rightarrow> Inl err
      | Inr f \<Rightarrow> if TypeID f \<noteq> typeID \<or> CodecID f \<noteq> codecID then Inl delta_ErrTypeMismatch else Inr merged))"

text \<open>The specification of \<open>Add\<close>: one indivisible change of the queue.\<close>

definition add_atomic :: "inflater \<Rightarrow> byte list \<Rightarrow> Frame \<Rightarrow> Coalescer \<Rightarrow> Coalescer \<times> unit res" where
  "add_atomic flate item decoded c =
     (if co_items c = [] then (co_put (c\<lparr>co_typeID := TypeID decoded, co_codecID := CodecID decoded\<rparr>) [item], Inr ())
      else if TypeID decoded \<noteq> co_typeID c \<or> CodecID decoded \<noteq> co_codecID c then (c, Inl delta_ErrTypeMismatch)
      else (case co_merge c of
          None \<Rightarrow>
            if int (length (co_items c)) = co_maxItems c \<or> co_total c + int (length item) > co_maxBytes c
            then (c, Inl delta_ErrLimit) else (co_put c (co_items c @ [item]), Inr ())
        | Some merge \<Rightarrow> (case checked_merge flate merge (co_typeID c) (co_codecID c) (last (co_items c)) item of
              Inl err \<Rightarrow> (c, Inl err)
            | Inr merged \<Rightarrow>
                if int (length (concat (butlast (co_items c) @ [merged]))) > co_maxBytes c
                then (c, Inl delta_ErrLimit) else (co_put c (butlast (co_items c) @ [merged]), Inr ()))))"

lemma length_concat_last: "xs \<noteq> [] \<Longrightarrow> length (concat xs) = length (concat (butlast xs)) + length (last xs)"
  by (metis append_butlast_last_id concat.simps concat_append length_append append_Nil2)

lemma UnmarshalFrame_Nil [simp]: "UnmarshalFrame flate [] limits = Inl encoding_ErrFrameLimit"
  by (simp add: UnmarshalFrame_def UnmarshalFrameView_def)

lemma add_check_iff:
  "add_check flate maxBytes item = Inr decoded \<longleftrightarrow> item \<noteq> [] \<and> int (length item) \<le> maxBytes \<and>
     UnmarshalFrame flate item DefaultLimits = Inr decoded \<and> isDeltaType (TypeID decoded)"
  by (auto simp: add_check_def split: sum.splits)

lemma co_put_inv:
  "co_inv flate (co_put c items) \<longleftrightarrow> 0 < co_maxItems c \<and> 0 < co_maxBytes c \<and> int (length items) \<le> co_maxItems c \<and>
    int (length (concat items)) \<le> co_maxBytes c \<and> (\<forall>item \<in> set items. co_item_ok flate (co_typeID c) (co_codecID c) item)"
  by (auto simp: co_inv_def co_put_def)

lemma co_put_frame [simp]:
  "co_generation (co_put c items) = co_generation c + 1" "co_maxItems (co_put c items) = co_maxItems c"
  "co_maxBytes (co_put c items) = co_maxBytes c" "co_merge (co_put c items) = co_merge c"
  "co_items (co_put c items) = items"
  by (simp_all add: co_put_def)

lemma checked_merge_ok:
  "isDeltaType typeID \<Longrightarrow> checked_merge flate merge typeID codecID tail item = Inr merged \<Longrightarrow> co_item_ok flate typeID codecID merged"
  by (auto simp: checked_merge_def co_item_ok_def split: sum.splits if_splits)

lemma add_atomic_cases:
  assumes "add_atomic flate item decoded c = (c', r)"
  obtains e where "c' = c" "r = Inl e"
  | "co_items c = []" "c' = co_put (c\<lparr>co_typeID := TypeID decoded, co_codecID := CodecID decoded\<rparr>) [item]" "r = Inr ()"
  | "co_items c \<noteq> []" "TypeID decoded = co_typeID c" "CodecID decoded = co_codecID c" "co_merge c = None" "r = Inr ()"
    "int (length (co_items c)) \<noteq> co_maxItems c" "co_total c + int (length item) \<le> co_maxBytes c" "c' = co_put c (co_items c @ [item])"
  | merge merged where "co_items c \<noteq> []" "TypeID decoded = co_typeID c" "CodecID decoded = co_codecID c" "co_merge c = Some merge"
    "checked_merge flate merge (co_typeID c) (co_codecID c) (last (co_items c)) item = Inr merged" "r = Inr ()"
    "int (length (concat (butlast (co_items c) @ [merged]))) \<le> co_maxBytes c" "c' = co_put c (butlast (co_items c) @ [merged])"
proof (cases "co_items c = []")
  case True
  show thesis by (rule that(2)) (use assms True in \<open>simp_all add: add_atomic_def\<close>)
next
  case ne: False
  show thesis
  proof (cases "TypeID decoded \<noteq> co_typeID c \<or> CodecID decoded \<noteq> co_codecID c")
    case True
    show thesis by (rule that(1)[of delta_ErrTypeMismatch]) (use assms ne True in \<open>simp_all add: add_atomic_def\<close>)
  next
    case same: False
    show thesis
    proof (cases "snd (add_atomic flate item decoded c)")
      case (Inl e)
      show thesis
        by (rule that(1)[of e])
          (use assms Inl in \<open>auto simp: add_atomic_def split: if_splits option.splits sum.splits\<close>)
    next
      case (Inr u)
      then have r: "r = Inr ()" using assms by simp
      show thesis
      proof (cases "co_merge c")
        case None
        show thesis
          by (rule that(3)) (use assms ne same None r in \<open>simp_all add: add_atomic_def split: if_splits\<close>)
      next
        case (Some merge)
        obtain merged where "checked_merge flate merge (co_typeID c) (co_codecID c) (last (co_items c)) item = Inr merged"
          using assms ne same Some r by (auto simp: add_atomic_def split: sum.splits)
        from that(4)[OF ne _ _ Some this r] assms ne same Some r this show thesis
          by (simp add: add_atomic_def del: concat_append split: if_splits)
      qed
    qed
  qed
qed

lemma add_atomic_frame:
  assumes "add_atomic flate item decoded c = (c', r)"
  shows "co_maxItems c' = co_maxItems c \<and> co_maxBytes c' = co_maxBytes c \<and> co_merge c' = co_merge c \<and>
    (if r = Inr () then co_generation c' = co_generation c + 1 else c' = c)"
  using assms by (rule add_atomic_cases) simp_all

lemma add_atomic_inv:
  assumes inv: "co_inv flate c" and chk: "add_check flate (co_maxBytes c) item = Inr decoded"
    and add: "add_atomic flate item decoded c = (c', r)"
  shows "co_inv flate c'"
  using add
proof (cases rule: add_atomic_cases)
  case (4 merge merged)
  then have "co_item_ok flate (co_typeID c) (co_codecID c) merged"
    using chk by (intro checked_merge_ok) (simp_all add: add_check_iff)
  with 4 inv show ?thesis
    unfolding 4(8) co_put_inv by (auto simp: co_inv_def simp del: concat_append dest: in_set_butlastD)
next
  case 2
  then show ?thesis unfolding 2(2) co_put_inv using inv chk by (simp add: co_inv_def co_item_ok_def add_check_iff)
next
  case 3
  then show ?thesis unfolding 3(8) co_put_inv using inv chk by (auto simp: co_inv_def co_item_ok_def add_check_iff)
qed (use inv in simp)

text \<open>Each critical section either changes nothing or is the whole atomic call.\<close>

lemma add_locked_atomic:
  assumes "co_inv flate c" and "add_locked item decoded n c = (c', pc')"
  shows "case pc' of
      Returned r \<Rightarrow> add_atomic flate item decoded c = (c', r)
    | Merging merge m tail g ty k \<Rightarrow> c' = c \<and> m = n \<and> co_merge c = Some merge \<and> co_items c \<noteq> [] \<and> tail = last (co_items c) \<and>
        g = co_generation c \<and> ty = co_typeID c \<and> k = co_codecID c \<and> ty = TypeID decoded \<and> k = CodecID decoded
    | Locking m \<Rightarrow> False"
proof (cases "co_items c = [] \<or> TypeID decoded \<noteq> co_typeID c \<or> CodecID decoded \<noteq> co_codecID c")
  case True
  then show ?thesis using assms by (cases "co_items c = []") (auto simp: add_locked_def add_atomic_def co_put_def)
next
  case False
  then show ?thesis
    using assms by (cases "co_merge c") (auto simp: add_locked_def add_atomic_def co_put_def co_inv_def split: if_splits)
qed

lemma add_commit_atomic:
  assumes "co_inv flate c" "co_items c \<noteq> []" "co_merge c = Some merge" "co_typeID c = TypeID decoded" "co_codecID c = CodecID decoded"
  shows "add_commit flate merge item n (last (co_items c)) (co_generation c) (co_typeID c) (co_codecID c) c =
    map_prod id Returned (add_atomic flate item decoded c)"
proof -
  have len: "co_total c - int (length (last (co_items c))) = int (length (concat (butlast (co_items c))))"
    using assms(1,2) by (simp add: co_inv_def length_concat_last)
  show ?thesis
  proof (cases "merge (last (co_items c)) item")
    case (Inr merged)
    then show ?thesis
      using assms(2-) len
      by (cases "UnmarshalFrame flate merged DefaultLimits")
        (auto simp: add_commit_def add_atomic_def checked_merge_def co_put_def algebra_simps)
  qed (use assms in \<open>simp add: add_commit_def add_atomic_def checked_merge_def\<close>)
qed

lemma add_loop_atomic:
  assumes "co_inv flate c"
  shows "add_loop flate item decoded c (Locking 0) = add_atomic flate item decoded c"
proof -
  obtain c' pc' where l: "add_locked item decoded 0 c = (c', pc')" by (cases "add_locked item decoded 0 c")
  note * = add_locked_atomic[OF assms l]
  show ?thesis
  proof (cases pc')
    case (Merging merge m tail g ty k)
    obtain c2 r where "add_atomic flate item decoded c = (c2, r)" by (cases "add_atomic flate item decoded c")
    then have "add_commit flate merge item m tail g ty k c = (c2, Returned r)"
      using * Merging add_commit_atomic[OF assms, of merge decoded item m] by auto
    then show ?thesis
      using * Merging l \<open>add_atomic flate item decoded c = (c2, r)\<close>
      by (simp add: add_loop.simps[of _ _ _ _ "Locking 0"] add_loop.simps[of _ _ _ _ "Merging _ _ _ _ _ _"] add_loop.simps[of _ _ _ _ "Returned _"])
  qed (use * l in \<open>simp_all add: add_loop.simps[of _ _ _ _ "Locking 0"] add_loop.simps[of _ _ _ _ "Returned _"]\<close>)
qed

lemma coalescer_contract_parts:
  assumes "co_inv flate c"
  shows "NewCoalescer maxItems maxBytes merge = Inr c0 \<Longrightarrow> co_inv flate c0"
    and "safe_call (co_inv flate) c (Coalescer_Add flate (Some c) item)"
    and "add_check flate (co_maxBytes c) item = Inr decoded \<Longrightarrow>
      Coalescer_Add flate (Some c) item = map_prod Some id (add_atomic flate item decoded c)"
    and "Coalescer_Drain (Some c) = (Some c1, b) \<Longrightarrow> co_inv flate c1 \<and> Coalescer_Len (Some c1) = (0, 0) \<and>
      Batch_Items b = co_items c \<and> (\<exists>data. Batch_MarshalBinary flate b (co_maxBytes c) = Inr data)"
proof -
  show "NewCoalescer maxItems maxBytes merge = Inr c0 \<Longrightarrow> co_inv flate c0"
    by (auto simp: NewCoalescer_def co_inv_def split: if_splits)
  show add: "Coalescer_Add flate (Some c) item = map_prod Some id (add_atomic flate item decoded c)"
    if "add_check flate (co_maxBytes c) item = Inr decoded" for decoded
    using that assms by (simp add: Coalescer_Add_def add_loop_atomic)
  show "safe_call (co_inv flate) c (Coalescer_Add flate (Some c) item)"
  proof (cases "add_check flate (co_maxBytes c) item")
    case (Inr decoded)
    obtain c' r where r: "add_atomic flate item decoded c = (c', r)" by (cases "add_atomic flate item decoded c")
    show ?thesis
      using add[OF Inr] add_atomic_inv[OF assms Inr r] add_atomic_frame[OF r] r
      by (cases r) (simp_all add: safe_call_def)
  qed (use assms in \<open>simp add: Coalescer_Add_def\<close>)
  show "co_inv flate c1 \<and> Coalescer_Len (Some c1) = (0, 0) \<and> Batch_Items b = co_items c \<and>
      (\<exists>data. Batch_MarshalBinary flate b (co_maxBytes c) = Inr data)"
    if "Coalescer_Drain (Some c) = (Some c1, b)"
    using that assms unfolding Batch_Marshal_iff
    by (auto simp: Coalescer_Drain_def Coalescer_Len_def Batch_Items_def co_drained_def co_inv_def items_ok_def isDeltaFrame_def
        co_item_ok_def split: sum.splits)
qed

text \<open>
  C21. The documented contract of \<open>Add\<close>, \<open>NewCoalescer\<close> and \<open>Drain\<close>. A new coalescer satisfies the
  invariant: at most \<open>maxItems\<close> items, at most \<open>maxBytes\<close> bytes, the byte count exact, and every item
  a delta frame of the one stored type and codec. \<open>Add\<close> keeps it and on every error, among them an error of the
  callback or a merged frame of another type, leaves the coalescer unchanged. Run alone, the optimistic loop of \<open>Add\<close>
  ends and does what its specification does in one step. \<open>Drain\<close> returns all items in order as a
  batch that marshals within the byte limit, and leaves the coalescer empty.
\<close>

theorem coalescer_contract:
  assumes "co_inv flate c"
  shows "(NewCoalescer maxItems maxBytes merge = Inr c0 \<longrightarrow> co_inv flate c0) \<and>
    (safe_call (co_inv flate) c (Coalescer_Add flate (Some c) item)) \<and>
    (add_check flate (co_maxBytes c) item = Inr decoded \<longrightarrow>
      Coalescer_Add flate (Some c) item = map_prod Some id (add_atomic flate item decoded c)) \<and>
    (Coalescer_Drain (Some c) = (Some c1, b) \<longrightarrow> co_inv flate c1 \<and> Coalescer_Len (Some c1) = (0, 0) \<and>
      Batch_Items b = co_items c \<and> (\<exists>data. Batch_MarshalBinary flate b (co_maxBytes c) = Inr data))"
  using coalescer_contract_parts(1)[OF assms] coalescer_contract_parts(2)[OF assms] coalescer_contract_parts(3)[OF assms] coalescer_contract_parts(4)[OF assms] by (intro conjI impI) blast+

lemma sample_check: "13 \<le> maxBytes \<Longrightarrow> add_check flate maxBytes sample_delta = Inr (frame_of 3 [] [0])"
  by (simp add: add_check_iff sample_delta_decoded sample_delta_facts)

definition sample_co :: Coalescer where
  "sample_co = \<lparr>co_maxItems = 4, co_maxBytes = 100, co_merge = Some (\<lambda>l r. Inr l), co_typeID = 3, co_codecID = [],
     co_items = [sample_delta], co_total = 13, co_generation = 1\<rparr>"

theorem coalescer_contract_witness:
  "\<exists>c1. Coalescer_Add (\<lambda>c. (c, None)) (Some sample_co) sample_delta = (Some c1, Inr ()) \<and> co_inv (\<lambda>c. (c, None)) c1 \<and>
     co_items c1 = [sample_delta]"
proof -
  let ?f = "\<lambda>c. (c, None) :: byte list \<times> go_error option"
  have inv: "co_inv ?f sample_co"
    by (simp add: co_inv_def sample_co_def co_item_ok_def sample_delta_decoded sample_delta_facts)
  have chk: "add_check ?f (co_maxBytes sample_co) sample_delta = Inr (frame_of 3 [] [0])"
    by (rule sample_check) (simp add: sample_co_def)
  have "add_atomic ?f sample_delta (frame_of 3 [] [0]) sample_co = (co_put sample_co [sample_delta], Inr ())"
    by (simp add: add_atomic_def sample_co_def checked_merge_def sample_delta_decoded sample_delta_facts)
  then have "Coalescer_Add ?f (Some sample_co) sample_delta = (Some (co_put sample_co [sample_delta]), Inr ())"
    using coalescer_contract[OF inv, of _ _ _ _ sample_delta "frame_of 3 [] [0]"] chk by simp
  moreover from this have "co_inv ?f (co_put sample_co [sample_delta])"
    using coalescer_contract[OF inv, of _ _ _ _ sample_delta] by simp
  ultimately show ?thesis by simp
qed

section \<open>Concurrent calls\<close>

text \<open>
  Any number of calls of \<open>Add\<close> and \<open>Drain\<close> interleave at their critical sections. A call that has passed
  its checks is a record of its item, the decoded frame and its place in the loop.
\<close>

record add_call =
  call_item :: "byte list"
  call_frame :: Frame
  call_pc :: add_pc

record co_system =
  sys_co :: Coalescer
  sys_calls :: "add_call list"

inductive co_step :: "inflater \<Rightarrow> co_system \<Rightarrow> co_system \<Rightarrow> bool" for flate where
  co_call: "add_check flate (co_maxBytes (sys_co s)) item = Inr decoded \<Longrightarrow>
    co_step flate s (s\<lparr>sys_calls := sys_calls s @ [\<lparr>call_item = item, call_frame = decoded, call_pc = Locking 0\<rparr>]\<rparr>)"
| co_advance: "i < length (sys_calls s) \<Longrightarrow> call = sys_calls s ! i \<Longrightarrow>
    add_step flate (call_item call) (call_frame call) (sys_co s) (call_pc call) = (c', pc') \<Longrightarrow>
    co_step flate s (s\<lparr>sys_co := c', sys_calls := (sys_calls s)[i := call\<lparr>call_pc := pc'\<rparr>]\<rparr>)"
| co_drain: "co_step flate s (s\<lparr>sys_co := co_drained (sys_co s)\<rparr>)"

text \<open>Reachability counts the steps: the generation is a 64-bit counter that wraps.\<close>

inductive co_reach :: "inflater \<Rightarrow> Coalescer \<Rightarrow> nat \<Rightarrow> co_system \<Rightarrow> bool" for flate c0 where
  co_start: "co_reach flate c0 0 \<lparr>sys_co = c0, sys_calls = []\<rparr>"
| co_more: "co_reach flate c0 n s \<Longrightarrow> co_step flate s s' \<Longrightarrow> co_reach flate c0 (Suc n) s'"

definition call_ok :: "inflater \<Rightarrow> Coalescer \<Rightarrow> add_call \<Rightarrow> bool" where
  "call_ok flate c call \<longleftrightarrow> add_check flate (co_maxBytes c) (call_item call) = Inr (call_frame call) \<and>
     (case call_pc call of
        Merging merge n tail g ty k \<Rightarrow> co_merge c = Some merge \<and> ty = TypeID (call_frame call) \<and> k = CodecID (call_frame call) \<and>
          g \<le> co_generation c \<and>
          (g = co_generation c \<longrightarrow> co_items c \<noteq> [] \<and> tail = last (co_items c) \<and> ty = co_typeID c \<and> k = co_codecID c)
      | _ \<Rightarrow> True)"

definition sys_inv :: "inflater \<Rightarrow> nat \<Rightarrow> co_system \<Rightarrow> bool" where
  "sys_inv flate n s \<longleftrightarrow> co_inv flate (sys_co s) \<and> unat (co_generation (sys_co s)) \<le> n \<and>
     (\<forall>call \<in> set (sys_calls s). call_ok flate (sys_co s) call)"

text \<open>A critical section of a call is one atomic \<open>Add\<close> if the call returns there without error, and otherwise no change.\<close>

lemma add_step_atomic:
  assumes inv: "co_inv flate c" and ok: "call_ok flate c call" and pc: "\<forall>r. call_pc call \<noteq> Returned r"
    and step: "add_step flate (call_item call) (call_frame call) c (call_pc call) = (c', pc')"
  shows "if pc' = Returned (Inr ()) then add_atomic flate (call_item call) (call_frame call) c = (c', Inr ())
    else c' = c \<and> call_ok flate c (call\<lparr>call_pc := pc'\<rparr>)"
proof (cases "call_pc call")
  case (Locking n)
  then have "add_locked (call_item call) (call_frame call) n c = (c', pc')" using step by simp
  from add_locked_atomic[OF inv this] add_atomic_frame[of flate "call_item call" "call_frame call" c] ok show ?thesis
    by (cases pc') (auto simp: call_ok_def split: if_splits)
next
  case (Merging merge n tail g ty k)
  then have st: "add_commit flate merge (call_item call) n tail g ty k c = (c', pc')" using step by simp
  show ?thesis
  proof (cases "g = co_generation c")
    case True
    with ok Merging st have "map_prod id Returned (add_atomic flate (call_item call) (call_frame call) c) = (c', pc')"
      using add_commit_atomic[OF inv, of merge "call_frame call" "call_item call" n] by (auto simp: call_ok_def)
    then obtain r where "add_atomic flate (call_item call) (call_frame call) c = (c', r)" "pc' = Returned r"
      by (cases "add_atomic flate (call_item call) (call_frame call) c") auto
    with add_atomic_frame[OF this(1)] ok show ?thesis by (cases r) (auto simp: call_ok_def)
  next
    case False
    with st ok show ?thesis
      by (auto simp: add_commit_def call_ok_def split: sum.splits if_splits)
  qed
qed (use pc in simp)

lemma call_ok_newer:
  assumes "call_ok flate c call" "co_maxBytes c' = co_maxBytes c" "co_merge c' = co_merge c"
    "co_generation c' = co_generation c + 1" "co_generation c \<noteq> max_u64"
  shows "call_ok flate c' call"
proof -
  have newer: "g < co_generation c'" if "g \<le> co_generation c" for g
    using that assms(4,5) unat_succ[of "co_generation c"] by (simp add: word_less_nat_alt word_le_nat_alt)
  show ?thesis
  proof (cases "call_pc call")
    case (Merging merge n tail g ty k)
    then show ?thesis using assms(1-3) newer[of g] by (auto simp: call_ok_def)
  qed (use assms(1-3) in \<open>simp_all add: call_ok_def\<close>)
qed

lemma sys_inv_step:
  assumes inv: "sys_inv flate n s" and step: "co_step flate s s'" and n: "n < 2 ^ 64 - 1"
  shows "sys_inv flate (Suc n) s'"
proof -
  have co: "co_inv flate (sys_co s)" and gen: "unat (co_generation (sys_co s)) \<le> n"
    and calls: "\<And>call. call \<in> set (sys_calls s) \<Longrightarrow> call_ok flate (sys_co s) call"
    using inv by (simp_all add: sys_inv_def)
  have room: "co_generation (sys_co s) \<noteq> max_u64" using gen n unat_max_u64 by auto
  note succ = unat_succ[OF room]
  from step show ?thesis
  proof cases
    case (co_call item decoded)
    with co gen calls show ?thesis by (auto simp: sys_inv_def call_ok_def)
  next
    case co_drain
    have "call_ok flate (co_drained (sys_co s)) call" if "call \<in> set (sys_calls s)" for call
      by (rule call_ok_newer[OF calls[OF that] _ _ _ room]) (simp_all add: co_drained_def)
    with co gen co_drain succ show ?thesis by (simp add: sys_inv_def co_inv_def co_drained_def)
  next
    case (co_advance i call c' pc')
    have mem: "call \<in> set (sys_calls s)" using co_advance by simp
    have sub: "set ((sys_calls s)[i := call\<lparr>call_pc := pc'\<rparr>]) \<subseteq> insert (call\<lparr>call_pc := pc'\<rparr>) (set (sys_calls s))"
      by (rule set_update_subset_insert)
    show ?thesis
    proof (cases "\<exists>r. call_pc call = Returned r")
      case True
      then have "c' = sys_co s" "call\<lparr>call_pc := pc'\<rparr> = call" using co_advance(4) by (cases call; auto)+
      with co gen calls sub mem co_advance(1) show ?thesis by (auto simp: sys_inv_def)
    next
      case False
      note * = add_step_atomic[OF co calls[OF mem] _ co_advance(4)]
      show ?thesis
      proof (cases "pc' = Returned (Inr ())")
        case True
        then have at: "add_atomic flate (call_item call) (call_frame call) (sys_co s) = (c', Inr ())" using * False by simp
        note frame = add_atomic_frame[OF at]
        have "add_check flate (co_maxBytes (sys_co s)) (call_item call) = Inr (call_frame call)"
          using calls[OF mem] by (simp add: call_ok_def)
        then have "co_inv flate c'" by (rule add_atomic_inv[OF co _ at])
        moreover have newer: "call_ok flate c' cl" if "cl \<in> set (sys_calls s)" for cl
          by (rule call_ok_newer[OF calls[OF that] _ _ _ room]) (use frame in simp_all)
        moreover have "call_ok flate c' (call\<lparr>call_pc := pc'\<rparr>)" using newer[OF mem] True by (simp add: call_ok_def)
        moreover have "unat (co_generation c') \<le> Suc n" using frame succ gen by simp
        ultimately show ?thesis using sub co_advance(1) by (auto simp: sys_inv_def)
      next
        case False
        with * \<open>\<nexists>r. call_pc call = Returned r\<close> have "c' = sys_co s" "call_ok flate (sys_co s) (call\<lparr>call_pc := pc'\<rparr>)" by simp_all
        with co gen calls sub co_advance(1) show ?thesis by (auto simp: sys_inv_def)
      qed
    qed
  qed
qed

lemma co_reach_inv:
  "co_reach flate c0 n s \<Longrightarrow> NewCoalescer maxItems maxBytes merge = Inr c0 \<Longrightarrow> n < 2 ^ 64 \<Longrightarrow> sys_inv flate n s"
proof (induction rule: co_reach.induct)
  case co_start
  then show ?case by (auto simp: sys_inv_def NewCoalescer_def co_inv_def split: if_splits)
next
  case (co_more n s s')
  then show ?case by (intro sys_inv_step) auto
qed

text \<open>
  C6. Concurrent calls of \<open>Add\<close> and \<open>Drain\<close> are linearizable. In every state that fewer than \<open>2^64\<close>
  critical sections lead to from a new coalescer, the invariant holds, and the next critical section of any pending
  \<open>Add\<close> changes the queue exactly when the call returns there without error, and then as one atomic \<open>Add\<close> of its
  item to the queue as it is at that moment: no concurrent update is lost although the merge ran outside the lock.
  The bound is the period of the generation counter.
\<close>

theorem coalescer_linearizable:
  assumes "NewCoalescer maxItems maxBytes merge = Inr c0" and "co_reach flate c0 n s" and "n < 2 ^ 64"
    and "call \<in> set (sys_calls s)" and "\<forall>r. call_pc call \<noteq> Returned r"
    and "add_step flate (call_item call) (call_frame call) (sys_co s) (call_pc call) = (c', pc')"
  shows "co_inv flate (sys_co s) \<and>
    (if pc' = Returned (Inr ()) then add_atomic flate (call_item call) (call_frame call) (sys_co s) = (c', Inr ())
     else c' = sys_co s)"
proof -
  have inv: "co_inv flate (sys_co s)" "call_ok flate (sys_co s) call"
    using co_reach_inv[OF assms(2,1,3)] assms(4) by (auto simp: sys_inv_def)
  with add_step_atomic[OF inv assms(5,6)] show ?thesis by (simp split: if_splits)
qed

theorem coalescer_linearizable_witness:
  "\<exists>c0 s c1. NewCoalescer 4 100 None = Inr c0 \<and> co_reach (\<lambda>c. (c, None)) c0 1 s \<and> sys_calls s \<noteq> [] \<and>
     co_inv (\<lambda>c. (c, None)) (sys_co s) \<and>
     add_atomic (\<lambda>c. (c, None)) sample_delta (frame_of 3 [] [0]) (sys_co s) = (c1, Inr ()) \<and> co_items c1 = [sample_delta]"
proof -
  let ?f = "\<lambda>c. (c, None) :: byte list \<times> go_error option"
  let ?c0 = "\<lparr>co_maxItems = 4, co_maxBytes = 100, co_merge = None, co_typeID = 0, co_codecID = [],
                co_items = [], co_total = 0, co_generation = 0\<rparr>"
  let ?call = "\<lparr>call_item = sample_delta, call_frame = frame_of 3 [] [0], call_pc = Locking 0\<rparr>"
  let ?s = "\<lparr>sys_co = ?c0, sys_calls = [?call]\<rparr>"
  have new: "NewCoalescer 4 100 None = Inr ?c0" by (simp add: NewCoalescer_def)
  have "co_step ?f \<lparr>sys_co = ?c0, sys_calls = []\<rparr> ?s"
    using co_call[of ?f "\<lparr>sys_co = ?c0, sys_calls = []\<rparr>" sample_delta] sample_check[of 100 ?f] by simp
  from co_more[OF co_start this] have reach: "co_reach ?f ?c0 1 ?s" by simp
  have step: "add_step ?f (call_item ?call) (call_frame ?call) (sys_co ?s) (call_pc ?call) =
      (?c0\<lparr>co_typeID := 3, co_items := [sample_delta], co_total := 13, co_generation := 1\<rparr>, Returned (Inr ()))"
    by (simp add: add_locked_def sample_delta_facts)
  from coalescer_linearizable[OF new reach _ _ _ step] new reach show ?thesis by (intro exI conjI) auto
qed

text \<open>A call among others: \<open>env i\<close> is the coalescer that its critical section \<open>i\<close> finds.\<close>

primrec pc_after :: "inflater \<Rightarrow> byte list \<Rightarrow> Frame \<Rightarrow> (nat \<Rightarrow> Coalescer) \<Rightarrow> nat \<Rightarrow> add_pc" where
  "pc_after flate item decoded env 0 = Locking 0"
| "pc_after flate item decoded env (Suc n) = snd (add_step flate item decoded (env n) (pc_after flate item decoded env n))"

fun sections_left :: "add_pc \<Rightarrow> nat" where
  "sections_left (Locking retries) = 2 * (maxMergeRetries - retries)"
| "sections_left (Merging merge retries tail generation typeID codecID) = 2 * (maxMergeRetries - retries) - 1"
| "sections_left (Returned r) = 0"

fun retries_left :: "add_pc \<Rightarrow> bool" where
  "retries_left (Locking retries) \<longleftrightarrow> retries < maxMergeRetries"
| "retries_left (Merging merge retries tail generation typeID codecID) \<longleftrightarrow> retries < maxMergeRetries"
| "retries_left (Returned r) \<longleftrightarrow> True"

lemma sections_left_step:
  assumes "retries_left pc"
  shows "retries_left (snd (add_step flate item decoded c pc)) \<and> sections_left (snd (add_step flate item decoded c pc)) \<le> sections_left pc - 1"
  using assms
  by (cases pc) (auto simp: add_locked_def add_commit_def maxMergeRetries_def split: option.splits sum.splits)

lemma sections_left_after:
  "retries_left (pc_after flate item decoded env n) \<and> sections_left (pc_after flate item decoded env n) \<le> 2 * maxMergeRetries - n"
proof (induction n)
  case (Suc n)
  then show ?case using sections_left_step[of "pc_after flate item decoded env n" flate item decoded "env n"] by auto
qed (simp add: maxMergeRetries_def)

text \<open>
  C22. \<open>Add\<close> returns whatever other calls do to the coalescer between its critical sections, and whatever the merge function returns: after at
  most two critical sections for each of the \<open>maxMergeRetries\<close> attempts the call has a result.
\<close>

theorem coalescer_add_terminates:
  "\<exists>n \<le> 2 * maxMergeRetries. \<exists>out. pc_after flate item decoded env n = Returned out"
proof -
  have "sections_left (pc_after flate item decoded env (2 * maxMergeRetries)) = 0" "retries_left (pc_after flate item decoded env (2 * maxMergeRetries))"
    using sections_left_after[of flate item decoded env "2 * maxMergeRetries"] by auto
  then have "\<exists>out. pc_after flate item decoded env (2 * maxMergeRetries) = Returned out"
    by (cases "pc_after flate item decoded env (2 * maxMergeRetries)") auto
  then show ?thesis by blast
qed

end
