(* ===== verification/Codecs.thy ===== *)
theory Codecs
  imports Framing
begin

text \<open>
  Application element codecs behind their panic boundary: \<open>src/internal/codecguard\<close> and
  \<open>src/set/codec.go\<close>. A codec is application code: it is a record of functions, where \<open>None\<close> is a call
  that panics, and a nil codec is \<open>None\<close>. Elements are of a linearly ordered type, so that a map of
  elements has an enumeration.
\<close>

record 'e ElementCodec =
  codec_ID :: "gostring option"
  codec_Marshal :: "'e \<Rightarrow> byte list res option"
  codec_Unmarshal :: "byte list \<Rightarrow> 'e res option"

abbreviation codecguard_ErrPanic :: go_error where
  "codecguard_ErrPanic \<equiv> errors_New ''codec: panic''"

definition codecguard_ID :: "gostring option \<Rightarrow> gostring res" where
  "codecguard_ID call = (case call of None \<Rightarrow> Inl codecguard_ErrPanic | Some i \<Rightarrow> Inr i)"

definition codecguard_Marshal :: "byte list res option \<Rightarrow> byte list res" where
  "codecguard_Marshal call = (case call of None \<Rightarrow> Inl codecguard_ErrPanic | Some r \<Rightarrow> r)"

definition codecguard_Unmarshal :: "'e res option \<Rightarrow> 'e res" where
  "codecguard_Unmarshal call = (case call of None \<Rightarrow> Inl codecguard_ErrPanic | Some r \<Rightarrow> r)"

abbreviation set_ErrInvalidCodec :: go_error where
  "set_ErrInvalidCodec \<equiv> errors_New ''set: invalid element codec''"

record 'e boundElementCodec =
  bec_value :: "'e ElementCodec"
  bec_id :: gostring

definition bindElementCodec :: "'e ElementCodec option \<Rightarrow> 'e boundElementCodec res" where
  "bindElementCodec codec = (case codec of
      None \<Rightarrow> Inl set_ErrInvalidCodec
    | Some codec \<Rightarrow> (case codecguard_ID (codec_ID codec) of
          Inl err \<Rightarrow> Inl set_ErrInvalidCodec
        | Inr i \<Rightarrow> if blank i then Inl set_ErrInvalidCodec else Inr \<lparr>bec_value = codec, bec_id = i\<rparr>))"

definition bec_marshal :: "'e boundElementCodec \<Rightarrow> 'e \<Rightarrow> byte list res" where
  "bec_marshal codec value = codecguard_Marshal (codec_Marshal (bec_value codec) value)"

definition bec_unmarshal :: "'e boundElementCodec \<Rightarrow> byte list \<Rightarrow> 'e res" where
  "bec_unmarshal codec data = codecguard_Unmarshal (codec_Unmarshal (bec_value codec) data)"

section \<open>Elements on the wire\<close>

text \<open>
  What the documentation of \<open>ElementCodec\<close> asks of a codec, for one element: its bytes decode to it.
  The decoders check it themselves for every element they accept.
\<close>

definition elem_stable :: "'e boundElementCodec \<Rightarrow> 'e \<Rightarrow> bool" where
  "elem_stable codec e \<longleftrightarrow> (\<exists>bs. bec_marshal codec e = Inr bs \<and> bec_unmarshal codec bs = Inr e)"

definition elem_bytes :: "'e boundElementCodec \<Rightarrow> 'e \<Rightarrow> byte list" where
  "elem_bytes codec e = (case bec_marshal codec e of Inr bs \<Rightarrow> bs | Inl _ \<Rightarrow> [])"

definition elem_ok :: "'e boundElementCodec \<Rightarrow> int \<Rightarrow> 'e \<Rightarrow> bool" where
  "elem_ok codec m e \<longleftrightarrow> elem_stable codec e \<and> bytes_ok m (elem_bytes codec e)"

definition elem_enc :: "'e boundElementCodec \<Rightarrow> 'e \<Rightarrow> byte list" where
  "elem_enc codec e = bytes_enc (elem_bytes codec e)"

definition read_elem :: "'e boundElementCodec \<Rightarrow> int \<Rightarrow> byte list \<Rightarrow> nat \<Rightarrow> ('e \<times> nat) option" where
  "read_elem codec m data p = (case ReadBytes data p m of
      None \<Rightarrow> None
    | Some (encoded, next) \<Rightarrow> (case bec_unmarshal codec encoded of
          Inl _ \<Rightarrow> None
        | Inr e \<Rightarrow> if bec_marshal codec e \<noteq> Inr encoded then None else Some (e, next)))"

lemma elem_stable_iff:
  "elem_stable codec e \<longleftrightarrow> bec_marshal codec e = Inr (elem_bytes codec e) \<and> bec_unmarshal codec (elem_bytes codec e) = Inr e"
  by (auto simp: elem_stable_def elem_bytes_def)

lemma elem_bytes_inject: "elem_stable codec e \<Longrightarrow> elem_stable codec e' \<Longrightarrow> elem_bytes codec e = elem_bytes codec e' \<Longrightarrow> e = e'"
  by (metis elem_stable_iff sum.inject(2))

lemma read_elem_iff:
  "read_elem codec m data p = Some (e, q) \<longleftrightarrow>
     elem_ok codec m e \<and> at_pos data p (elem_enc codec e) \<and> q = p + length (elem_enc codec e)"
proof -
  have "read_elem codec m data p = Some (e, q) \<longleftrightarrow>
      (\<exists>bs. ReadBytes data p m = Some (bs, q) \<and> bec_unmarshal codec bs = Inr e \<and> bec_marshal codec e = Inr bs)"
    by (auto simp: read_elem_def split: option.splits sum.splits if_splits)
  also have "\<dots> \<longleftrightarrow> elem_stable codec e \<and> ReadBytes data p m = Some (elem_bytes codec e, q)"
    by (auto simp: elem_stable_iff elem_bytes_def)
  also have "\<dots> \<longleftrightarrow> elem_ok codec m e \<and> at_pos data p (elem_enc codec e) \<and> q = p + length (elem_enc codec e)"
    by (auto simp: ReadBytes_iff elem_ok_def elem_enc_def)
  finally show ?thesis .
qed

interpretation elem_field: wire_field "elem_enc codec" "elem_ok codec m" "read_elem codec m" for codec m
  by unfold_locales (rule read_elem_iff)

end
