(* ===== verification/GSets.thy ===== *)
theory GSets
  imports Codecs Snapshots
begin

text \<open>
  The grow-only set of \<open>src/set/gset.go\<close>. A delta whose map is nil is \<open>None\<close>. Elements are of a
  linearly ordered type, which fixes the enumeration of a map of elements; the encoder's result does not
  depend on it, because it sorts the elements by their bytes.
\<close>

abbreviation set_ErrInvalidReplicaID :: go_error where
  "set_ErrInvalidReplicaID \<equiv> errors_New ''set: invalid replica ID''"

abbreviation set_ErrCodecMismatch :: go_error where
  "set_ErrCodecMismatch \<equiv> errors_New ''set: codec ID mismatch''"

abbreviation set_ErrNilGSet :: go_error where
  "set_ErrNilGSet \<equiv> errors_New ''set: nil G-Set''"

abbreviation set_ErrInvalidGSet :: go_error where
  "set_ErrInvalidGSet \<equiv> errors_New ''set: invalid G-Set state''"

abbreviation set_ErrInvalidGSetSnap :: go_error where
  "set_ErrInvalidGSetSnap \<equiv> errors_New ''set: invalid G-Set snapshot''"

record 'e GSet =
  gs_replicaID :: gostring
  gs_codec :: "'e boundElementCodec"
  gs_elements :: "'e fset"

record 'e GSetDelta =
  gsd_elements :: "'e fset option"

text \<open>The loop that adds every element of one map to another, shared by \<open>join\<close>, \<open>Merge\<close> and the clone.\<close>

definition add_elements :: "'e::linorder fset \<Rightarrow> 'e fset \<Rightarrow> 'e fset" where
  "add_elements into elements = fold finsert (sorted_list_of_fset elements) into"

definition cloneGSetElements :: "'e::linorder fset \<Rightarrow> 'e fset" where
  "cloneGSetElements source = add_elements {||} source"

definition NewGSet :: "gostring \<Rightarrow> 'e ElementCodec option \<Rightarrow> 'e GSet res" where
  "NewGSet replicaID codec =
     (if \<not> valid_replica replicaID then Inl set_ErrInvalidReplicaID
      else (case bindElementCodec codec of
          Inl err \<Rightarrow> Inl err
        | Inr bound \<Rightarrow> Inr \<lparr>gs_replicaID = replicaID, gs_codec = bound, gs_elements = {||}\<rparr>))"

definition GSet_Add :: "'e GSet option \<Rightarrow> 'e \<Rightarrow> 'e GSet option \<times> 'e GSetDelta res" where
  "GSet_Add s element = (case s of
      None \<Rightarrow> (None, Inl set_ErrNilGSet)
    | Some s \<Rightarrow> (Some (s\<lparr>gs_elements := finsert element (gs_elements s)\<rparr>), Inr \<lparr>gsd_elements = Some {|element|}\<rparr>))"

definition GSet_Contains :: "'e GSet option \<Rightarrow> 'e \<Rightarrow> bool" where
  "GSet_Contains s element = (case s of None \<Rightarrow> False | Some s \<Rightarrow> element |\<in>| gs_elements s)"

definition GSet_Elements :: "'e::linorder GSet option \<Rightarrow> 'e list" where
  "GSet_Elements s = (case s of None \<Rightarrow> [] | Some s \<Rightarrow> sorted_list_of_fset (gs_elements s))"

definition GSet_join :: "'e::linorder GSet \<Rightarrow> 'e fset \<Rightarrow> 'e GSet" where
  "GSet_join s elements =
     (if fcard elements = 0 then s
      else s\<lparr>gs_elements := add_elements (gs_elements s) elements\<rparr>)"

definition GSet_subsumes :: "'e::linorder GSet \<Rightarrow> 'e fset \<Rightarrow> bool" where
  "GSet_subsumes s elements = list_all (\<lambda>element. element |\<in>| gs_elements s) (sorted_list_of_fset elements)"

text \<open>A merge of a set with itself, an alias, returns before it reads the other operand.\<close>

definition GSet_Merge :: "'e::linorder GSet option \<Rightarrow> 'e GSet option \<Rightarrow> 'e GSet option \<times> unit res" where
  "GSet_Merge s other = (case (s, other) of
      (Some s, Some other) \<Rightarrow>
        if bec_id (gs_codec s) \<noteq> bec_id (gs_codec other) then (Some s, Inl set_ErrCodecMismatch)
        else (Some (GSet_join s (cloneGSetElements (gs_elements other))), Inr ())
    | _ \<Rightarrow> (s, Inl set_ErrNilGSet))"

definition GSet_ApplyDelta :: "'e::linorder GSet option \<Rightarrow> 'e GSetDelta \<Rightarrow> 'e GSet option \<times> unit res" where
  "GSet_ApplyDelta s delta = (case s of
      None \<Rightarrow> (None, Inl set_ErrNilGSet)
    | Some s \<Rightarrow> (case gsd_elements delta of
          None \<Rightarrow> (Some s, Inl set_ErrInvalidGSet)
        | Some elements \<Rightarrow> if GSet_subsumes s elements then (Some s, Inr ()) else (Some (GSet_join s elements), Inr ())))"

definition GSetDelta_Merge :: "'e::linorder GSetDelta \<Rightarrow> 'e GSetDelta \<Rightarrow> 'e GSetDelta res" where
  "GSetDelta_Merge d other = (case (gsd_elements d, gsd_elements other) of
      (Some a, Some b) \<Rightarrow> Inr \<lparr>gsd_elements = Some (add_elements (cloneGSetElements a) b)\<rparr>
    | _ \<Rightarrow> Inl set_ErrInvalidGSet)"

definition GSetDelta_Elements :: "'e::linorder GSetDelta \<Rightarrow> 'e list" where
  "GSetDelta_Elements d = (case gsd_elements d of None \<Rightarrow> [] | Some elements \<Rightarrow> sorted_list_of_fset elements)"

definition GSet_State :: "'e GSet option \<Rightarrow> StateSnapshot" where
  "GSet_State s = (case s of
      None \<Rightarrow> \<lparr>snap_Type = ''gset'', snap_ReplicaID = [], snap_ElementCount = 0, snap_TombstoneCount = 0\<rparr>
    | Some s \<Rightarrow> \<lparr>snap_Type = ''gset'', snap_ReplicaID = gs_replicaID s, snap_ElementCount = fcard (gs_elements s),
                snap_TombstoneCount = 0\<rparr>)"

fun marshal_elements :: "'e boundElementCodec \<Rightarrow> DecoderLimits \<Rightarrow> 'e list \<Rightarrow> byte list list \<Rightarrow> byte list list res" where
  "marshal_elements codec limits [] encoded = Inr encoded"
| "marshal_elements codec limits (element # elements) encoded = (case bec_marshal codec element of
      Inl err \<Rightarrow> Inl (fmt_Errorf ''marshal element'' [set_ErrInvalidCodec])
    | Inr bytes \<Rightarrow>
        if int (length bytes) > MaxStringBytes limits then Inl encoding_ErrFrameLimit
        else marshal_elements codec limits elements (encoded @ [bytes]))"

fun gset_size :: "DecoderLimits \<Rightarrow> byte list option \<Rightarrow> byte list list \<Rightarrow> int \<Rightarrow> int res" where
  "gset_size limits previous [] payloadSize = Inr payloadSize"
| "gset_size limits previous (bytes # encoded) payloadSize =
     (if previous = Some bytes then Inl (fmt_Errorf ''codec produced duplicate element bytes'' [set_ErrInvalidCodec])
      else
        (let additional = int (UvarintSize (of_nat (length bytes)) + length bytes) in
         if additional > MaxPayload limits - payloadSize then Inl encoding_ErrFrameLimit
         else gset_size limits (Some bytes) encoded (payloadSize + additional)))"

definition appendBytes :: "byte list \<Rightarrow> byte list \<Rightarrow> byte list" where
  "appendBytes dst bytes = AppendUvarint dst (of_nat (length bytes)) @ bytes"

definition marshalGSetWithCodec :: "u64 \<Rightarrow> 'e::linorder boundElementCodec \<Rightarrow> 'e fset \<Rightarrow> DecoderLimits \<Rightarrow> byte list res" where
  "marshalGSetWithCodec typeID codec elements limits =
     (if int (fcard elements) > MaxElements limits then Inl encoding_ErrFrameLimit
      else (case marshal_elements codec limits (sorted_list_of_fset elements) [] of
          Inl err \<Rightarrow> Inl err
        | Inr encoded \<Rightarrow>
            (let encoded = sort encoded in
             case gset_size limits None encoded (int (UvarintSize (of_nat (length encoded)))) of
               Inl err \<Rightarrow> Inl err
             | Inr payloadSize \<Rightarrow>
                 (let payload = fold (\<lambda>bytes payload. appendBytes payload bytes) encoded
                        (AppendUvarint [] (of_nat (length encoded))) in
                  MarshalFrameWithPayload typeID (bec_id codec) payloadSize
                    (Some (if int (length payload) \<noteq> payloadSize then Inl encoding_ErrInvalidFrame else Inr payload))))))"

definition marshalGSet :: "u64 \<Rightarrow> 'e::linorder ElementCodec option \<Rightarrow> 'e fset \<Rightarrow> DecoderLimits \<Rightarrow> byte list res" where
  "marshalGSet typeID codec elements limits = (case bindElementCodec codec of
      Inl err \<Rightarrow> Inl err | Inr bound \<Rightarrow> marshalGSetWithCodec typeID bound elements limits)"

definition GSet_MarshalBinary :: "'e::linorder GSet option \<Rightarrow> byte list res" where
  "GSet_MarshalBinary s = (case s of
      None \<Rightarrow> Inl set_ErrNilGSet
    | Some s \<Rightarrow> marshalGSetWithCodec TypeIDGSetState (gs_codec s) (cloneGSetElements (gs_elements s)) DefaultLimits)"

definition GSetDelta_MarshalBinary :: "'e::linorder GSetDelta \<Rightarrow> 'e ElementCodec option \<Rightarrow> byte list res" where
  "GSetDelta_MarshalBinary d codec = (case gsd_elements d of
      None \<Rightarrow> Inl set_ErrInvalidGSet | Some elements \<Rightarrow> marshalGSet TypeIDGSetDelta codec elements DefaultLimits)"

fun gset_loop :: "'e boundElementCodec \<Rightarrow> byte list \<Rightarrow> int \<Rightarrow> nat \<Rightarrow> byte list option \<Rightarrow> nat \<Rightarrow> 'e fset \<Rightarrow> ('e fset \<times> nat) res" where
  "gset_loop codec payload maxStringBytes 0 previous pos elements = Inr (elements, pos)"
| "gset_loop codec payload maxStringBytes (Suc n) previous pos elements = (case ReadBytes payload pos maxStringBytes of
      None \<Rightarrow> Inl encoding_ErrInvalidFrame
    | Some (encoded, next) \<Rightarrow>
        if (case previous of None \<Rightarrow> False | Some p \<Rightarrow> \<not> p < encoded) then Inl encoding_ErrInvalidFrame
        else (case bec_unmarshal codec encoded of
            Inl err \<Rightarrow> Inl (fmt_Errorf ''unmarshal element'' [set_ErrInvalidCodec])
          | Inr element \<Rightarrow>
              if bec_marshal codec element \<noteq> Inr encoded then Inl set_ErrInvalidCodec
              else if element |\<in>| elements then Inl encoding_ErrInvalidFrame
              else gset_loop codec payload maxStringBytes n (Some encoded) next (finsert element elements)))"

definition unmarshalGSetWithCodec :: "inflater \<Rightarrow> byte list \<Rightarrow> u64 \<Rightarrow> 'e boundElementCodec \<Rightarrow> DecoderLimits \<Rightarrow> 'e fset res" where
  "unmarshalGSetWithCodec flate data expectedTypeID codec limits = (case UnmarshalFrame flate data limits of
      Inl err \<Rightarrow> Inl err
    | Inr decoded \<Rightarrow>
        if TypeID decoded \<noteq> expectedTypeID \<or> CodecID decoded \<noteq> bec_id codec then Inl set_ErrCodecMismatch
        else (case ReadUvarint (Payload decoded) 0 of
            None \<Rightarrow> Inl encoding_ErrInvalidFrame
          | Some (cnt, pos) \<Rightarrow>
              if uint cnt > MaxElements limits then Inl encoding_ErrInvalidFrame
              else (case gset_loop codec (Payload decoded) (MaxStringBytes limits) (unat cnt) None pos {||} of
                  Inl err \<Rightarrow> Inl err
                | Inr (elements, pos) \<Rightarrow>
                    if pos \<noteq> length (Payload decoded) then Inl encoding_ErrInvalidFrame else Inr elements)))"

definition unmarshalGSet :: "inflater \<Rightarrow> byte list \<Rightarrow> u64 \<Rightarrow> 'e ElementCodec option \<Rightarrow> DecoderLimits \<Rightarrow> 'e fset res" where
  "unmarshalGSet flate data expectedTypeID codec limits = (case bindElementCodec codec of
      Inl err \<Rightarrow> Inl err | Inr bound \<Rightarrow> unmarshalGSetWithCodec flate data expectedTypeID bound limits)"

definition UnmarshalGSetDeltaWithLimits :: "inflater \<Rightarrow> byte list \<Rightarrow> 'e ElementCodec option \<Rightarrow> DecoderLimits \<Rightarrow> 'e GSetDelta res" where
  "UnmarshalGSetDeltaWithLimits flate data codec limits = (case unmarshalGSet flate data TypeIDGSetDelta codec limits of
      Inl err \<Rightarrow> Inl err | Inr elements \<Rightarrow> Inr \<lparr>gsd_elements = Some elements\<rparr>)"

definition UnmarshalGSetDelta :: "inflater \<Rightarrow> byte list \<Rightarrow> 'e ElementCodec option \<Rightarrow> 'e GSetDelta res" where
  "UnmarshalGSetDelta flate data codec = UnmarshalGSetDeltaWithLimits flate data codec DefaultLimits"

definition GSet_UnmarshalBinaryWithLimits :: "inflater \<Rightarrow> 'e GSet option \<Rightarrow> byte list \<Rightarrow> DecoderLimits \<Rightarrow> 'e GSet option \<times> unit res" where
  "GSet_UnmarshalBinaryWithLimits flate s data limits = (case s of
      None \<Rightarrow> (None, Inl set_ErrNilGSet)
    | Some s \<Rightarrow> (case unmarshalGSetWithCodec flate data TypeIDGSetState (gs_codec s) limits of
          Inl err \<Rightarrow> (Some s, Inl err)
        | Inr elements \<Rightarrow> (Some (s\<lparr>gs_elements := elements\<rparr>), Inr ())))"

definition GSet_UnmarshalBinary :: "inflater \<Rightarrow> 'e GSet option \<Rightarrow> byte list \<Rightarrow> 'e GSet option \<times> unit res" where
  "GSet_UnmarshalBinary flate s data = GSet_UnmarshalBinaryWithLimits flate s data DefaultLimits"

definition GSet_Snapshot :: "inflater \<Rightarrow> 'e::linorder GSet option \<Rightarrow> Snapshot res" where
  "GSet_Snapshot flate s = (case GSet_MarshalBinary s of
      Inl err \<Rightarrow> Inl err | Inr state \<Rightarrow> Snapshot_New flate state fmempty)"

definition NewGSetFromSnapshot :: "inflater \<Rightarrow> gostring \<Rightarrow> Snapshot \<Rightarrow> 'e ElementCodec option \<Rightarrow> 'e GSet res" where
  "NewGSetFromSnapshot flate replicaID saved codec =
     (if ss_TypeID saved \<noteq> TypeIDGSetState then Inl set_ErrInvalidGSetSnap
      else (case NewGSet replicaID codec of
          Inl err \<Rightarrow> Inl err
        | Inr s \<Rightarrow> (case GSet_UnmarshalBinary flate (Some s) (Snapshot_Bytes saved) of
              (_, Inl err) \<Rightarrow> Inl err
            | (None, Inr _) \<Rightarrow> Inl set_ErrNilGSet
            | (Some s, Inr _) \<Rightarrow> Inr s)))"

section \<open>Set operations\<close>

lemma add_elements_eq: "add_elements b a = a |\<union>| b"
  unfolding add_elements_def
proof -
  have "fold finsert xs b = fset_of_list xs |\<union>| b" for xs by (induction xs arbitrary: b) auto
  moreover have "fset_of_list (sorted_list_of_fset a) = a" by (auto simp: fset_eq_iff fset_of_list_elem)
  ultimately show "fold finsert (sorted_list_of_fset a) b = a |\<union>| b" by simp
qed

lemma cloneGSetElements_id [simp]: "cloneGSetElements a = a"
  by (simp add: cloneGSetElements_def add_elements_eq)

lemma GSet_join_eq: "GSet_join s a = s\<lparr>gs_elements := a |\<union>| gs_elements s\<rparr>"
  by (simp add: GSet_join_def add_elements_eq)

lemma GSet_subsumes_iff: "GSet_subsumes s a \<longleftrightarrow> a |\<subseteq>| gs_elements s"
  by (auto simp: GSet_subsumes_def list_all_iff)

interpretation gset_crdt: state_crdt "\<lambda>_. True" add_elements
  by unfold_locales (auto simp: add_elements_eq)

section \<open>The codec\<close>

abbreviation gset_enc :: "'e::linorder boundElementCodec \<Rightarrow> 'e fset \<Rightarrow> byte list" where
  "gset_enc codec S \<equiv> elem_field.counted_enc codec (fs_sorted_by (elem_bytes codec) S)"

lemma marshal_elements_iff:
  "marshal_elements codec limits es acc = Inr encoded \<longleftrightarrow> encoded = acc @ map (elem_bytes codec) es \<and>
     (\<forall>e \<in> set es. bec_marshal codec e = Inr (elem_bytes codec e) \<and> int (length (elem_bytes codec e)) \<le> MaxStringBytes limits)"
proof (induction es arbitrary: acc)
  case (Cons e es)
  then show ?case by (cases "bec_marshal codec e") (auto simp: elem_bytes_def)
qed auto

lemma gset_size_iff:
  "gset_size limits prev encoded sz = Inr s \<longleftrightarrow> s = sz + int (length (concat (map bytes_enc encoded))) \<and>
     (encoded = [] \<or> s \<le> MaxPayload limits) \<and> distinct_adj ((case prev of None \<Rightarrow> [] | Some p \<Rightarrow> [p]) @ encoded)"
proof (induction encoded arbitrary: prev sz)
  case Nil
  then show ?case by (auto split: option.splits)
next
  case (Cons b bs)
  have len: "int (UvarintSize (of_nat (length b)) + length b) = int (length (bytes_enc b))"
    by (simp add: UvarintSize_def bytes_enc_def)
  show ?case unfolding gset_size.simps Let_def if_Inl_Inr Cons len by (auto split: option.splits)
qed

lemma fold_appendBytes: "fold (\<lambda>bytes payload. appendBytes payload bytes) bs dst = dst @ concat (map bytes_enc bs)"
  by (induction bs arbitrary: dst) (simp_all add: appendBytes_def AppendUvarint_def bytes_enc_def)

lemma sort_elem_bytes: "sort (map (elem_bytes codec) (sorted_list_of_fset S)) = map (elem_bytes codec) (fs_sorted_by (elem_bytes codec) S)"
  by (simp add: sort_map fs_sorted_by_def)

lemma concat_elem_enc: "concat (map bytes_enc (map (elem_bytes codec) xs)) = concat (map (elem_enc codec) xs)"
  by (simp add: elem_enc_def[abs_def] comp_def)

lemma marshalGSetWithCodec_iff:
  "marshalGSetWithCodec t codec S DefaultLimits = Inr data \<longleftrightarrow> int (fcard S) \<le> MaxElements DefaultLimits \<and>
     (\<forall>e. e |\<in>| S \<longrightarrow> bec_marshal codec e = Inr (elem_bytes codec e) \<and>
        int (length (elem_bytes codec e)) \<le> MaxStringBytes DefaultLimits) \<and>
     inj_on (elem_bytes codec) (fset S) \<and> MarshalFrame (frame_of t (bec_id codec) (gset_enc codec S)) = Inr data"
proof -
  let ?xs = "fs_sorted_by (elem_bytes codec) S"
  have pay: "fold (\<lambda>bytes payload. appendBytes payload bytes) (map (elem_bytes codec) ?xs)
      (AppendUvarint [] (of_nat (fcard S))) = gset_enc codec S"
    unfolding fold_appendBytes concat_elem_enc by (simp add: AppendUvarint_def elem_field.counted_enc_def)
  have size: "int (UvarintSize (of_nat (fcard S))) + int (length (concat (map (elem_enc codec) ?xs))) = int (length (gset_enc codec S))"
    by (simp add: UvarintSize_def elem_field.counted_enc_def)
  have "sorted (map (elem_bytes codec) ?xs)" by (simp add: fs_sorted_by_def)
  then have adj: "distinct_adj (map (elem_bytes codec) ?xs) \<longleftrightarrow> inj_on (elem_bytes codec) (fset S)"
    by (simp add: sorted_distinct_adj distinct_map)
  have gs: "gset_size DefaultLimits None (map (elem_bytes codec) ?xs) (int (UvarintSize (of_nat (fcard S)))) = Inr s \<longleftrightarrow>
      s = int (length (gset_enc codec S)) \<and> (S = {||} \<or> s \<le> MaxPayload DefaultLimits) \<and> inj_on (elem_bytes codec) (fset S)" for s
    unfolding gset_size_iff concat_elem_enc size using adj by simp
  have me: "marshal_elements codec DefaultLimits (sorted_list_of_fset S) [] = Inr enc \<longleftrightarrow> enc = map (elem_bytes codec) (sorted_list_of_fset S) \<and>
      (\<forall>e. e |\<in>| S \<longrightarrow> bec_marshal codec e = Inr (elem_bytes codec e) \<and> int (length (elem_bytes codec e)) \<le> MaxStringBytes DefaultLimits)" for enc
    by (auto simp: marshal_elements_iff)
  have "MarshalFrame (frame_of t (bec_id codec) (gset_enc codec S)) = Inr data \<Longrightarrow>
      int (length (gset_enc codec S)) \<le> MaxPayload DefaultLimits"
    by (simp add: MarshalFrame_iff)
  then show ?thesis
    unfolding marshalGSetWithCodec_def if_Inl_Inr case_sum_Inr[OF me]
    by (simp add: Let_def sort_elem_bytes case_sum_Inr[OF gs] pay MarshalFrameWithPayload_exact not_less) blast
qed

lemma gset_loop_eq:
  "(\<forall>e. e |\<in>| S \<longrightarrow> elem_stable codec e \<and> (\<exists>p. prev = Some p \<and> elem_bytes codec e \<le> p)) \<Longrightarrow>
   gset_loop codec payload m n prev pos S = Inr (S', q) \<longleftrightarrow>
     (\<exists>xs. elem_field.read_ascending codec m (elem_bytes codec) payload n prev pos = Some (xs, q) \<and> S' = S |\<union>| fset_of_list xs)"
proof (induction n arbitrary: prev pos S)
  case 0
  then show ?case by auto
next
  case (Suc n)
  show ?case
  proof (cases "read_elem codec m payload pos")
    case None
    then have "\<forall>z. gset_loop codec payload m (Suc n) prev pos S \<noteq> Inr z"
      by (auto simp: read_elem_def split: option.splits sum.splits if_splits)
    with None show ?thesis by simp
  next
    case (Some r)
    obtain e nxt where r: "r = (e, nxt)" by (cases r)
    have e: "ReadBytes payload pos m = Some (elem_bytes codec e, nxt)" "elem_stable codec e"
      using Some r read_elem_iff[of codec m payload pos e nxt] by (auto simp: ReadBytes_iff elem_ok_def elem_enc_def)
    then have rt: "bec_unmarshal codec (elem_bytes codec e) = Inr e" "bec_marshal codec e = Inr (elem_bytes codec e)"
      by (simp_all add: elem_stable_iff)
    show ?thesis
    proof (cases "case prev of None \<Rightarrow> False | Some p \<Rightarrow> \<not> p < elem_bytes codec e")
      case True
      with Some r e show ?thesis by (auto split: option.splits)
    next
      case False
      have new: "e |\<notin>| S"
      proof
        assume "e |\<in>| S"
        then obtain p where "prev = Some p" "elem_bytes codec e \<le> p" using Suc.prems by blast
        with False show False by simp
      qed
      have ub: "\<forall>x. x |\<in>| finsert e S \<longrightarrow> elem_stable codec x \<and> (\<exists>p. Some (elem_bytes codec e) = Some p \<and> elem_bytes codec x \<le> p)"
        using Suc.prems False e(2) by (auto split: option.splits)
      from Suc.IH[OF ub, of nxt] False Some r e rt new show ?thesis
        by (auto split: option.splits)
    qed
  qed
qed

lemma unmarshalGSetWithCodec_iff:
  "unmarshalGSetWithCodec flate data t codec limits = Inr S \<longleftrightarrow>
     (\<exists>f. UnmarshalFrame flate data limits = Inr f \<and> TypeID f = t \<and> CodecID f = bec_id codec \<and> Payload f = gset_enc codec S \<and>
        int (fcard S) \<le> MaxElements limits \<and> fcard S < 2 ^ 64 \<and> (\<forall>e. e |\<in>| S \<longrightarrow> elem_ok codec (MaxStringBytes limits) e))"
proof (cases "UnmarshalFrame flate data limits")
  case (Inl e)
  then show ?thesis by (simp add: unmarshalGSetWithCodec_def)
next
  case (Inr f)
  let ?p = "Payload f" and ?ms = "MaxStringBytes limits" and ?key = "elem_bytes codec"
  have "unmarshalGSetWithCodec flate data t codec limits = Inr S \<longleftrightarrow> TypeID f = t \<and> CodecID f = bec_id codec \<and>
      (\<exists>cnt. at_pos ?p 0 (uvarint cnt) \<and> uint cnt \<le> MaxElements limits \<and>
        gset_loop codec ?p ?ms (unat cnt) None (length (uvarint cnt)) {||} = Inr (S, length ?p))"
    by (simp add: unmarshalGSetWithCodec_def Inr if_Inl_Inr uvarint_field.case_read case_read_all not_less conj_assoc)
  also have "\<dots> \<longleftrightarrow> TypeID f = t \<and> CodecID f = bec_id codec \<and> (\<exists>xs. S = fset_of_list xs \<and>
      (\<exists>cnt. at_pos ?p 0 (uvarint cnt) \<and> uint cnt \<le> MaxElements limits \<and>
        elem_field.read_ascending codec ?ms ?key ?p (unat cnt) None (0 + length (uvarint cnt)) = Some (xs, length ?p)))"
    by (subst gset_loop_eq) auto
  also have "\<dots> \<longleftrightarrow> TypeID f = t \<and> CodecID f = bec_id codec \<and> (\<exists>xs. S = fset_of_list xs \<and>
      (\<forall>x \<in> set xs. elem_ok codec ?ms x) \<and> sorted_wrt (<) (map ?key xs) \<and>
      int (length xs) \<le> MaxElements limits \<and> length xs < 2 ^ 64 \<and> ?p = elem_field.counted_enc codec xs)"
    unfolding elem_field.read_counted using at_pos_0_whole[of ?p] by (metis add_0)
  also have "\<dots> \<longleftrightarrow> TypeID f = t \<and> CodecID f = bec_id codec \<and> (\<forall>x. x |\<in>| S \<longrightarrow> elem_ok codec ?ms x) \<and>
      int (fcard S) \<le> MaxElements limits \<and> fcard S < 2 ^ 64 \<and> ?p = gset_enc codec S"
    by (subst ex_sorted_by) (auto simp: elem_ok_def intro!: inj_onI dest: elem_bytes_inject)
  finally show ?thesis using Inr by auto
qed

section \<open>Properties\<close>

text \<open>A codec of byte elements: one byte each.\<close>

definition byte_codec :: "byte ElementCodec" where
  "byte_codec = \<lparr>codec_ID = Some [98], codec_Marshal = \<lambda>b. Some (Inr [b]),
     codec_Unmarshal = \<lambda>bs. (case bs of [b] \<Rightarrow> Some (Inr b) | _ \<Rightarrow> Some (Inl (errors_New ''byte'')))\<rparr>"

definition byte_bound :: "byte boundElementCodec" where
  "byte_bound = \<lparr>bec_value = byte_codec, bec_id = [98]\<rparr>"

lemma byte_bound_facts:
  "bindElementCodec (Some byte_codec) = Inr byte_bound" "bec_id byte_bound = [98]" "bec_marshal byte_bound b = Inr [b]"
  "elem_stable byte_bound b" "elem_bytes byte_bound b = [b]"
  by (simp_all add: byte_codec_def byte_bound_def bindElementCodec_def codecguard_ID_def bec_marshal_def bec_unmarshal_def
      codecguard_Marshal_def codecguard_Unmarshal_def elem_stable_def elem_bytes_def eval)

definition gset_apply_all :: "'e::linorder GSet \<Rightarrow> 'e GSetDelta list \<Rightarrow> 'e GSet" where
  "gset_apply_all s deltas = foldl (\<lambda>s d. the (fst (GSet_ApplyDelta (Some s) d))) s deltas"

lemma GSet_ApplyDelta_eq:
  "gsd_elements d = Some a \<Longrightarrow>
   GSet_ApplyDelta (Some s) d = (Some (s\<lparr>gs_elements := add_elements (gs_elements s) a\<rparr>), Inr ())"
  by (auto simp: GSet_ApplyDelta_def GSet_subsumes_iff GSet_join_eq add_elements_eq sup.absorb2)

lemma gset_apply_all_eq:
  "\<forall>d \<in> set ds. gsd_elements d \<noteq> None \<Longrightarrow>
   gset_apply_all s ds = s\<lparr>gs_elements := gset_crdt.deliver (gs_elements s) (map (the \<circ> gsd_elements) ds)\<rparr>"
proof (induction ds arbitrary: s)
  case (Cons d ds)
  then obtain a where "gsd_elements d = Some a" by auto
  with Cons show ?case by (simp add: gset_apply_all_def GSet_ApplyDelta_eq)
qed (simp add: gset_apply_all_def)

lemma deliver_elements: "x |\<in>| gset_crdt.deliver S ms \<longleftrightarrow> x |\<in>| S \<or> (\<exists>m \<in> set ms. x |\<in>| m)"
  by (induction ms arbitrary: S) (auto simp: add_elements_eq)

text \<open>
  A grow-only set converges: replicas that start alike and receive the same deltas, in any order and any
  number of times, are equal; an element is a member exactly when it was one before or is in some delta; and
  the fast path that skips deltas already contained changes nothing. \<open>Merge\<close> of a whole state with the same codec
  is the same join, and the delta of \<open>Add\<close> carries the addition.
\<close>

theorem gset_converges:
  assumes "set deltas = set deltas'" and "\<forall>d \<in> set deltas. gsd_elements d \<noteq> None"
    and "bec_id (gs_codec s) = bec_id (gs_codec other)"
  shows "gset_apply_all s deltas = gset_apply_all s deltas' \<and>
    (GSet_Contains (Some (gset_apply_all s deltas)) e \<longleftrightarrow>
       GSet_Contains (Some s) e \<or> (\<exists>d \<in> set deltas. e \<in> set (GSetDelta_Elements d))) \<and>
    GSet_Merge (Some s) (Some other) = GSet_ApplyDelta (Some s) \<lparr>gsd_elements = Some (gs_elements other)\<rparr> \<and>
    (\<exists>s' d. GSet_Add (Some other) e = (Some s', Inr d) \<and>
       GSet_ApplyDelta (Some s) d = (Some (s\<lparr>gs_elements := finsert e (gs_elements s)\<rparr>), Inr ()))"
proof -
  have "set (map (the \<circ> gsd_elements) deltas) = set (map (the \<circ> gsd_elements) deltas')" using assms(1) by simp
  note conv = gset_crdt.deliver_converges[OF _ _ this, of "gs_elements s", simplified]
  have eq: "gset_apply_all s deltas = gset_apply_all s deltas'"
    using assms(1,2) conv by (simp add: gset_apply_all_eq)
  have mem: "GSet_Contains (Some (gset_apply_all s deltas)) e \<longleftrightarrow>
       GSet_Contains (Some s) e \<or> (\<exists>d \<in> set deltas. e \<in> set (GSetDelta_Elements d))"
    using assms(2) by (fastforce simp: gset_apply_all_eq GSet_Contains_def GSetDelta_Elements_def deliver_elements)
  have "GSet_Merge (Some s) (Some other) = GSet_ApplyDelta (Some s) \<lparr>gsd_elements = Some (gs_elements other)\<rparr>"
    using assms(3) by (simp add: GSet_Merge_def GSet_join_eq GSet_ApplyDelta_eq add_elements_eq)
  moreover have "\<exists>s' d. GSet_Add (Some other) e = (Some s', Inr d) \<and>
       GSet_ApplyDelta (Some s) d = (Some (s\<lparr>gs_elements := finsert e (gs_elements s)\<rparr>), Inr ())"
    by (simp add: GSet_Add_def GSet_ApplyDelta_eq add_elements_eq)
  ultimately show ?thesis using eq mem by blast
qed

definition byte_set :: "byte GSet" where
  "byte_set = \<lparr>gs_replicaID = [97], gs_codec = byte_bound, gs_elements = {|5|}\<rparr>"

theorem gset_converges_witness:
  "GSet_Contains (Some (gset_apply_all byte_set [\<lparr>gsd_elements = Some {|7|}\<rparr>, \<lparr>gsd_elements = Some {|5|}\<rparr>])) 7 \<and>
   gset_apply_all byte_set [\<lparr>gsd_elements = Some {|7|}\<rparr>, \<lparr>gsd_elements = Some {|5|}\<rparr>] =
   gset_apply_all byte_set [\<lparr>gsd_elements = Some {|5|}\<rparr>, \<lparr>gsd_elements = Some {|7|}\<rparr>, \<lparr>gsd_elements = Some {|7|}\<rparr>]"
  using gset_converges[of "[\<lparr>gsd_elements = Some {|7|}\<rparr>, \<lparr>gsd_elements = Some {|5|}\<rparr>]"
    "[\<lparr>gsd_elements = Some {|5|}\<rparr>, \<lparr>gsd_elements = Some {|7|}\<rparr>, \<lparr>gsd_elements = Some {|7|}\<rparr>]" byte_set byte_set 7]
  by (auto simp: GSetDelta_Elements_def)

lemma gset_codec_parts:
  assumes "\<forall>e. e |\<in>| gs_elements s \<longrightarrow> elem_stable (gs_codec s) e" and "gs_codec t = gs_codec s"
  shows "GSet_MarshalBinary (Some s) = Inr data \<longleftrightarrow>
      GSet_UnmarshalBinary flate (Some t) data = (Some (t\<lparr>gs_elements := gs_elements s\<rparr>), Inr ()) \<and>
      PeekFrameFormatVersion data DefaultLimits = Inr FormatVersion"
    and "GSet_Snapshot flate (Some s) = Inr saved \<Longrightarrow> NewGSet replicaID codec = Inr fresh \<Longrightarrow> gs_codec fresh = gs_codec s \<Longrightarrow>
      NewGSetFromSnapshot flate replicaID saved codec = Inr (fresh\<lparr>gs_elements := gs_elements s\<rparr>)"
proof -
  let ?c = "gs_codec s" and ?S = "gs_elements s"
  have inj: "inj_on (elem_bytes ?c) (fset ?S)" using assms(1) by (auto intro!: inj_onI dest: elem_bytes_inject)
  have ok: "(int (fcard ?S) \<le> MaxElements DefaultLimits \<and> (\<forall>e. e |\<in>| ?S \<longrightarrow> bec_marshal ?c e = Inr (elem_bytes ?c e) \<and>
        int (length (elem_bytes ?c e)) \<le> MaxStringBytes DefaultLimits)) \<longleftrightarrow>
      int (fcard ?S) \<le> MaxElements DefaultLimits \<and> fcard ?S < 2 ^ 64 \<and> (\<forall>e. e |\<in>| ?S \<longrightarrow> elem_ok ?c (MaxStringBytes DefaultLimits) e)"
    using assms(1) by (auto simp: elem_ok_def bytes_ok_def elem_stable_iff DefaultLimits_def)
  have m: "marshalGSetWithCodec TypeIDGSetState ?c ?S DefaultLimits = Inr d \<longleftrightarrow>
      unmarshalGSetWithCodec flate d TypeIDGSetState ?c DefaultLimits = Inr ?S \<and>
      PeekFrameFormatVersion d DefaultLimits = Inr FormatVersion" for d
    unfolding marshalGSetWithCodec_iff unmarshalGSetWithCodec_iff frame_payload_iff using inj ok by blast
  have u: "GSet_UnmarshalBinary flate (Some r) d = (Some (r\<lparr>gs_elements := ?S\<rparr>), Inr ()) \<longleftrightarrow>
      unmarshalGSetWithCodec flate d TypeIDGSetState (gs_codec r) DefaultLimits = Inr ?S" for r d
    by (cases r) (auto simp: GSet_UnmarshalBinary_def GSet_UnmarshalBinaryWithLimits_def split: sum.splits)
  show "GSet_MarshalBinary (Some s) = Inr data \<longleftrightarrow>
      GSet_UnmarshalBinary flate (Some t) data = (Some (t\<lparr>gs_elements := ?S\<rparr>), Inr ()) \<and>
      PeekFrameFormatVersion data DefaultLimits = Inr FormatVersion"
    unfolding u assms(2) by (simp add: GSet_MarshalBinary_def m)
  assume snap: "GSet_Snapshot flate (Some s) = Inr saved" "NewGSet replicaID codec = Inr fresh" "gs_codec fresh = ?c"
  then obtain d where d: "marshalGSetWithCodec TypeIDGSetState ?c ?S DefaultLimits = Inr d" "Snapshot_New flate d fmempty = Inr saved"
    by (auto simp: GSet_Snapshot_def GSet_MarshalBinary_def split: sum.splits)
  from d(1) have "unmarshalGSetWithCodec flate d TypeIDGSetState ?c DefaultLimits = Inr ?S" using m by blast
  moreover from this have "\<exists>f. UnmarshalFrame flate d DefaultLimits = Inr f \<and> TypeID f = TypeIDGSetState"
    unfolding unmarshalGSetWithCodec_iff by blast
  then have "Snapshot_Bytes saved = d \<and> ss_TypeID saved = TypeIDGSetState"
    using d(2) by (auto simp: Snapshot_New_def newSnapshot_def Snapshot_Bytes_def split: if_splits)
  ultimately show "NewGSetFromSnapshot flate replicaID saved codec = Inr (fresh\<lparr>gs_elements := ?S\<rparr>)"
    using snap u[of fresh d] by (simp add: NewGSetFromSnapshot_def)
qed

text \<open>
  C31. The framed state is canonical. For a codec that is stable on the elements of the set, \<open>MarshalBinary\<close>
  returns exactly the version 1 bytes that \<open>UnmarshalBinary\<close> of any set with the same codec accepts and
  replaces its elements by: round trip in one direction, no second encoding in the other. A snapshot restores the set.
\<close>

theorem gset_codec:
  assumes "\<forall>e. e |\<in>| gs_elements s \<longrightarrow> elem_stable (gs_codec s) e" and "gs_codec t = gs_codec s"
  shows "(GSet_MarshalBinary (Some s) = Inr data \<longleftrightarrow>
      GSet_UnmarshalBinary flate (Some t) data = (Some (t\<lparr>gs_elements := gs_elements s\<rparr>), Inr ()) \<and>
      PeekFrameFormatVersion data DefaultLimits = Inr FormatVersion) \<and>
    (GSet_Snapshot flate (Some s) = Inr saved \<longrightarrow> NewGSet replicaID codec = Inr fresh \<longrightarrow> gs_codec fresh = gs_codec s \<longrightarrow>
      NewGSetFromSnapshot flate replicaID saved codec = Inr (fresh\<lparr>gs_elements := gs_elements s\<rparr>))"
  using gset_codec_parts(1)[OF assms] gset_codec_parts(2)[OF assms] by (intro conjI impI) blast+

theorem gset_codec_witness:
  "\<exists>data. GSet_MarshalBinary (Some byte_set) = Inr data \<and>
     GSet_UnmarshalBinary (\<lambda>c. (c, None)) (Some (byte_set\<lparr>gs_elements := {||}\<rparr>)) data = (Some byte_set, Inr ())"
proof -
  have "\<exists>data. GSet_MarshalBinary (Some byte_set) = Inr data"
    unfolding GSet_MarshalBinary_def option.case cloneGSetElements_id marshalGSetWithCodec_iff MarshalFrame_iff
    by (simp add: byte_set_def byte_bound_facts DefaultLimits_def
        elem_field.counted_enc_def fs_sorted_by_def elem_enc_def bytes_enc_def uvarint_small fcard.rep_eq eval)
  then show ?thesis
    using gset_codec[of byte_set "byte_set\<lparr>gs_elements := {||}\<rparr>" _ "\<lambda>c. (c, None)"]
    by (auto simp: byte_set_def byte_bound_facts)
qed

end
