(* ===== verification/ORStates.thy ===== *)
theory ORStates
  imports Clock
begin

text \<open>
  The states of the observed-remove set, \<open>src/set/orset.go\<close>: a map from elements to their live add-tags and
  a set of tombstoned tags. This theory models the functions on such a pair that the methods share (join,
  subsumption, validation, frontier) and shows the join to be that of a state-based CRDT.
\<close>

abbreviation set_ErrInvalidDelta :: go_error where
  "set_ErrInvalidDelta \<equiv> errors_New ''set: invalid OR-Set delta''"

type_synonym 'e adds = "('e, tag fset) fmap"
type_synonym 'e orstate = "'e adds \<times> tag fset"

text \<open>Reading a missing element gives the nil map of tags, which is empty.\<close>

definition tags_at :: "'e adds \<Rightarrow> 'e \<Rightarrow> tag fset" where
  "tags_at adds e = (case fmlookup adds e of None \<Rightarrow> {||} | Some tags \<Rightarrow> tags)"

definition cloneTags :: "tag fset \<Rightarrow> tag fset" where
  "cloneTags tags = fold finsert (sorted_list_of_fset tags) {||}"

definition cloneAdds :: "'e::linorder adds \<Rightarrow> 'e adds" where
  "cloneAdds adds = fold (\<lambda>(element, tags). fmupd element (cloneTags tags)) (fm_items adds) fmempty"

text \<open>The two inner loops of \<open>joinState\<close>: adding the source's tags of one element, and dropping removed tags.\<close>

definition join_tags :: "tag fset \<Rightarrow> 'e \<Rightarrow> tag fset \<Rightarrow> 'e adds \<Rightarrow> 'e adds" where
  "join_tags tombstones element tags adds =
     fold (\<lambda>tag adds. if tag |\<in>| tombstones then adds
                      else fmupd element (finsert tag (tags_at adds element)) adds)
       (sorted_list_of_fset tags) adds"

definition drop_removed :: "tag fset \<Rightarrow> 'e \<Rightarrow> tag fset \<Rightarrow> 'e adds \<Rightarrow> 'e adds" where
  "drop_removed tombstones element tags adds =
     (let tags = fold (\<lambda>tag tags. if tag |\<in>| tombstones then tags |-| {|tag|} else tags) (sorted_list_of_fset tags) tags in
      if fcard tags = 0 then fmdrop element adds else fmupd element tags adds)"

definition joinState :: "'e::linorder adds \<Rightarrow> tag fset \<Rightarrow> 'e adds \<Rightarrow> tag fset \<Rightarrow> 'e orstate" where
  "joinState destinationAdds destinationTombstones sourceAdds sourceTombstones =
     (let destinationTombstones = fold finsert (sorted_list_of_fset sourceTombstones) destinationTombstones;
          destinationAdds = fold (\<lambda>(element, tags). join_tags destinationTombstones element tags) (fm_items sourceAdds) destinationAdds
      in if fcard sourceTombstones = 0 then (destinationAdds, destinationTombstones)
         else (fold (\<lambda>(element, tags). drop_removed destinationTombstones element tags) (fm_items destinationAdds) destinationAdds,
               destinationTombstones))"

definition subsumesState :: "'e::linorder adds \<Rightarrow> tag fset \<Rightarrow> 'e adds \<Rightarrow> tag fset \<Rightarrow> bool" where
  "subsumesState destinationAdds destinationTombstones sourceAdds sourceTombstones \<longleftrightarrow>
     list_all (\<lambda>tag. tag |\<in>| destinationTombstones) (sorted_list_of_fset sourceTombstones) \<and>
     list_all (\<lambda>(element, tags). list_all (\<lambda>tag. tag |\<in>| destinationTombstones \<or> tag |\<in>| tags_at destinationAdds element)
       (sorted_list_of_fset tags)) (fm_items sourceAdds)"

definition or_validateState :: "'e::linorder adds \<Rightarrow> tag fset \<Rightarrow> unit res" where
  "or_validateState adds tombstones =
     (if \<not> list_all (\<lambda>(element, tags). list_all Tag_Valid (sorted_list_of_fset tags)) (fm_items adds) then Inl set_ErrInvalidDelta
      else if \<not> list_all Tag_Valid (sorted_list_of_fset tombstones) then Inl set_ErrInvalidDelta
      else Inr ())"

text \<open>Marking tags as seen, failing at a tag that already is.\<close>

fun see_tags :: "tag list \<Rightarrow> tag fset \<Rightarrow> tag fset option" where
  "see_tags [] seen = Some seen"
| "see_tags (tag # tags) seen = (if tag |\<in>| seen then None else see_tags tags (finsert tag seen))"

fun see_all :: "('e \<times> tag fset) list \<Rightarrow> tag fset \<Rightarrow> tag fset option" where
  "see_all [] seen = Some seen"
| "see_all ((element, tags) # adds) seen = (case see_tags (sorted_list_of_fset tags) seen of
      None \<Rightarrow> None | Some seen \<Rightarrow> see_all adds seen)"

definition validateDeltaState :: "'e::linorder adds \<Rightarrow> tag fset \<Rightarrow> unit res" where
  "validateDeltaState adds tombstones = (case or_validateState adds tombstones of
      Inl err \<Rightarrow> Inl err
    | Inr _ \<Rightarrow>
        (let trackTags = (fm_size adds > 1 \<or> (fm_size adds > 0 \<and> fcard tombstones > 0)) in
         if \<not> trackTags then Inr ()
         else (case see_all (fm_items adds) {||} of
             None \<Rightarrow> Inl set_ErrInvalidDelta
           | Some seen \<Rightarrow> (case see_tags (sorted_list_of_fset tombstones) seen of
                 None \<Rightarrow> Inl set_ErrInvalidDelta
               | Some _ \<Rightarrow> Inr ()))))"

text \<open>The tags of a state in the order the loops visit them.\<close>

definition visit_tags :: "'e::linorder adds \<Rightarrow> tag fset \<Rightarrow> tag list" where
  "visit_tags adds tombstones = concat (map (\<lambda>(element, tags). sorted_list_of_fset tags) (fm_items adds)) @ sorted_list_of_fset tombstones"

definition note_frontier :: "tag \<Rightarrow> (gostring, tag) fmap \<Rightarrow> (gostring, tag) fmap" where
  "note_frontier tag frontier = (case fmlookup frontier (ReplicaID tag) of
      None \<Rightarrow> fmupd (ReplicaID tag) tag frontier
    | Some current \<Rightarrow> if Tag_Compare current tag < 0 then fmupd (ReplicaID tag) tag frontier else frontier)"

definition frontierForState :: "'e::linorder adds \<Rightarrow> tag fset \<Rightarrow> (gostring, tag) fmap" where
  "frontierForState adds tombstones = fold note_frontier (visit_tags adds tombstones) fmempty"

definition note_greatest :: "tag \<Rightarrow> tag option \<Rightarrow> tag option" where
  "note_greatest tag greatest = (case greatest of
      None \<Rightarrow> Some tag | Some g \<Rightarrow> if Tag_Compare g tag < 0 then Some tag else Some g)"

definition greatestStateTag :: "'e::linorder adds \<Rightarrow> tag fset \<Rightarrow> tag option" where
  "greatestStateTag adds tombstones = fold note_greatest (visit_tags adds tombstones) None"

definition greatestFrontierTag :: "(gostring, tag) fmap \<Rightarrow> tag option" where
  "greatestFrontierTag frontier = fold (\<lambda>(replica, tag). note_greatest tag) (fm_items frontier) None"

definition tagsToSortedSlice :: "tag fset \<Rightarrow> tag list" where
  "tagsToSortedSlice tags = sort (sorted_list_of_fset tags)"

section \<open>What the loops compute\<close>

lemma cloneTags_id [simp]: "cloneTags tags = tags"
  by (simp add: cloneTags_def)

lemma tags_at_fmupd [simp]: "tags_at (fmupd k v m) e = (if e = k then v else tags_at m e)"
  by (auto simp: tags_at_def)

lemma tags_at_fmempty [simp]: "tags_at fmempty e = {||}"
  by (simp add: tags_at_def)

lemma cloneAdds_id [simp]: "cloneAdds adds = adds"
  unfolding cloneAdds_def cloneTags_id
  by (rule fmap_ext)
    (simp add: fold_enumeration_lookup[of fmupd "\<lambda>_ v _. Some v", OF _ distinct_fst_items] touches_own_key_def split: option.splits)

text \<open>The normal form: no element with an empty set of tags.\<close>

definition adds_normal :: "'e adds \<Rightarrow> bool" where
  "adds_normal adds \<longleftrightarrow> (\<forall>e. fmlookup adds e \<noteq> Some {||})"

lemma adds_eqI: "adds_normal a \<Longrightarrow> adds_normal b \<Longrightarrow> (\<And>e. tags_at a e = tags_at b e) \<Longrightarrow> a = b"
proof (rule fmap_ext)
  fix e assume *: "adds_normal a" "adds_normal b" "\<And>e. tags_at a e = tags_at b e"
  from *(3)[of e] *(1,2) show "fmlookup a e = fmlookup b e"
    by (auto simp: tags_at_def adds_normal_def split: option.splits)
qed

lemma join_tags_lookup:
  "fmlookup (join_tags T e tags m) x = (if x = e \<and> tags |-| T \<noteq> {||} then Some ((tags |-| T) |\<union>| tags_at m e) else fmlookup m x)"
proof -
  let ?step = "\<lambda>tag adds. if tag |\<in>| T then adds else fmupd e (finsert tag (tags_at adds e)) adds"
  have "fmlookup (fold ?step xs m) x =
      (if x = e \<and> fset_of_list xs |-| T \<noteq> {||} then Some ((fset_of_list xs |-| T) |\<union>| tags_at m e) else fmlookup m x)" for xs
  proof (induction xs arbitrary: m)
    case (Cons t xs)
    show ?case
    proof (cases "t |\<in>| T")
      case True
      then have "finsert t (fset_of_list xs) |-| T = fset_of_list xs |-| T" by auto
      with True Cons show ?thesis by simp
    next
      case False
      then have "finsert t (fset_of_list xs) |-| T = finsert t (fset_of_list xs |-| T)" by auto
      with False Cons[of "?step t m"] show ?thesis by (auto simp: tags_at_def)
    qed
  qed simp
  then show ?thesis by (simp add: join_tags_def)
qed

lemma drop_removed_lookup:
  "fmlookup (drop_removed T e tags m) x = (if x = e then (if tags |-| T = {||} then None else Some (tags |-| T)) else fmlookup m x)"
proof -
  have "fold (\<lambda>tag tags. if tag |\<in>| T then tags |-| {|tag|} else tags) xs s = s |-| (fset_of_list xs |\<inter>| T)" for xs s
    by (induction xs arbitrary: s) auto
  then have "fold (\<lambda>tag tags. if tag |\<in>| T then tags |-| {|tag|} else tags) (sorted_list_of_fset tags) tags = tags |-| T"
    by auto
  then show ?thesis by (simp add: drop_removed_def Let_def)
qed

lemma join_loop_lookup:
  "fmlookup (fold (\<lambda>(e, tags). join_tags T e tags) (fm_items B) A) e =
    (if tags_at B e |-| T \<noteq> {||} then Some ((tags_at B e |-| T) |\<union>| tags_at A e) else fmlookup A e)"
proof -
  let ?f = "\<lambda>(e :: 'a) tags old. if tags |-| T \<noteq> {||} then Some ((tags |-| T) |\<union>| (case old of None \<Rightarrow> {||} | Some s \<Rightarrow> s)) else old"
  have "touches_own_key (join_tags T) ?f"
    unfolding touches_own_key_def join_tags_lookup by (auto simp: tags_at_def)
  from fold_enumeration_lookup[OF this distinct_fst_items, of B A e] show ?thesis
    by (auto simp: tags_at_def split: option.splits)
qed

lemma drop_loop_lookup:
  "fmlookup (fold (\<lambda>(e, tags). drop_removed T e tags) (fm_items A) A) e =
    (if tags_at A e |-| T = {||} then None else Some (tags_at A e |-| T))"
proof -
  have "touches_own_key (drop_removed T) (\<lambda>e tags _. if tags |-| T = {||} then None else Some (tags |-| T))"
    unfolding touches_own_key_def drop_removed_lookup by auto
  from fold_enumeration_lookup[OF this distinct_fst_items, of A A e] show ?thesis
    by (auto simp: tags_at_def split: option.splits)
qed

lemma tags_at_drop_loop: "tags_at (fold (\<lambda>(e, tags). drop_removed T e tags) (fm_items A) A) e = tags_at A e |-| T"
  unfolding tags_at_def[of "fold _ _ _"] drop_loop_lookup by auto

text \<open>The join on tags, before any invariant is assumed.\<close>

lemma joinState_tags:
  "joinState A T B U = (C, V) \<Longrightarrow> V = U |\<union>| T \<and>
     tags_at C e = (if U = {||} then tags_at A e |\<union>| (tags_at B e |-| T) else (tags_at A e |\<union>| tags_at B e) |-| (U |\<union>| T))"
proof -
  assume j: "joinState A T B U = (C, V)"
  let ?V = "U |\<union>| T" and ?A = "fold (\<lambda>(e, tags). join_tags (U |\<union>| T) e tags) (fm_items B) A"
  have A: "tags_at ?A e = tags_at A e |\<union>| (tags_at B e |-| ?V)" for e
    unfolding tags_at_def[of ?A] join_loop_lookup by (auto simp: tags_at_def split: option.splits)
  show ?thesis
  proof (cases "U = {||}")
    case True
    with j A[of e] show ?thesis by (auto simp: joinState_def Let_def)
  next
    case False
    with j have C: "C = fold (\<lambda>(e, tags). drop_removed ?V e tags) (fm_items ?A) ?A" and V: "V = ?V"
      by (auto simp: joinState_def Let_def)
    have "tags_at C e = tags_at ?A e |-| ?V"
      unfolding C tags_at_drop_loop ..
    also have "\<dots> = (tags_at A e |\<union>| tags_at B e) |-| ?V" unfolding A by auto
    finally show ?thesis using False V by simp
  qed
qed

lemma joinState_normal: "adds_normal A \<Longrightarrow> joinState A T B U = (C, V) \<Longrightarrow> adds_normal C"
  by (auto simp: joinState_def Let_def adds_normal_def join_loop_lookup drop_loop_lookup split: if_splits)

section \<open>The state-based CRDT\<close>

text \<open>
  The states of a replica: valid tags, no tag both live and tombstoned, no element without tags.
\<close>

definition or_inv :: "'e orstate \<Rightarrow> bool" where
  "or_inv s \<longleftrightarrow> adds_normal (fst s) \<and> (\<forall>t. t |\<in>| snd s \<longrightarrow> Tag_Valid t) \<and>
     (\<forall>e t. t |\<in>| tags_at (fst s) e \<longrightarrow> Tag_Valid t \<and> t |\<notin>| snd s)"

lemma or_inv_live: "or_inv s \<Longrightarrow> t |\<in>| tags_at (fst s) e \<Longrightarrow> Tag_Valid t \<and> t |\<notin>| snd s"
  by (simp add: or_inv_def)

definition or_join :: "'e::linorder orstate \<Rightarrow> 'e orstate \<Rightarrow> 'e orstate" where
  "or_join s other = joinState (fst s) (snd s) (fst other) (snd other)"

text \<open>Observed remove with add-wins: a tag is live in the join if it is live in one state and tombstoned in neither.\<close>

lemma or_join_live:
  assumes "or_inv s"
  shows "snd (or_join s other) = snd s |\<union>| snd other"
    and "t |\<in>| tags_at (fst (or_join s other)) e \<longleftrightarrow>
      (t |\<in>| tags_at (fst s) e \<or> t |\<in>| tags_at (fst other) e) \<and> t |\<notin>| snd s \<and> t |\<notin>| snd other"
proof -
  obtain C V where j: "joinState (fst s) (snd s) (fst other) (snd other) = (C, V)" by fastforce
  from joinState_tags[OF j, of e] assms show "snd (or_join s other) = snd s |\<union>| snd other"
    "t |\<in>| tags_at (fst (or_join s other)) e \<longleftrightarrow>
      (t |\<in>| tags_at (fst s) e \<or> t |\<in>| tags_at (fst other) e) \<and> t |\<notin>| snd s \<and> t |\<notin>| snd other"
    by (auto simp: or_join_def j or_inv_def split: if_splits)
qed

lemma or_join_inv: "or_inv s \<Longrightarrow> (\<forall>t. t |\<in>| snd other \<longrightarrow> Tag_Valid t) \<Longrightarrow>
    (\<forall>e t. t |\<in>| tags_at (fst other) e \<longrightarrow> Tag_Valid t) \<Longrightarrow> or_inv (or_join s other)"
  unfolding or_inv_def[of "or_join s other"] or_join_live
  by (auto simp: or_inv_def or_join_def intro: joinState_normal[OF _ prod.collapse[symmetric]])

lemma or_eqI: "or_inv s \<Longrightarrow> or_inv s' \<Longrightarrow> snd s = snd s' \<Longrightarrow>
    (\<And>e t. t |\<in>| tags_at (fst s) e \<longleftrightarrow> t |\<in>| tags_at (fst s') e) \<Longrightarrow> s = s'"
  by (rule prod_eqI, rule adds_eqI) (auto simp: or_inv_def)

interpretation or_crdt: state_crdt or_inv or_join
proof
  fix a b c :: "'a orstate"
  show inv: "or_inv (or_join a b)" if "or_inv a" "or_inv b" for a b :: "'a orstate"
    using that by (intro or_join_inv) (auto simp: or_inv_def)
  show "or_join a b = or_join b a" if "or_inv a" "or_inv b"
    using that inv by (intro or_eqI) (auto simp: or_join_live)
  show "or_join (or_join a b) c = or_join a (or_join b c)" if "or_inv a" "or_inv b" "or_inv c"
    using that inv by (intro or_eqI) (auto simp: or_join_live)
  show "or_join a a = a" if "or_inv a"
    using that inv by (intro or_eqI) (auto simp: or_join_live dest: or_inv_live)
qed

section \<open>The fast path and the checks\<close>

lemma items_tags: "(\<forall>(e, tags) \<in> set (fm_items A). \<forall>t. t |\<in>| tags \<longrightarrow> P e t) \<longleftrightarrow> (\<forall>e t. t |\<in>| tags_at A e \<longrightarrow> P e t)"
  by (fastforce simp: tags_at_def split: option.splits)

lemma subsumesState_iff:
  "subsumesState A T B U \<longleftrightarrow> U |\<subseteq>| T \<and> (\<forall>e t. t |\<in>| tags_at B e \<longrightarrow> t |\<in>| T \<or> t |\<in>| tags_at A e)"
  unfolding subsumesState_def list_all_iff
  using items_tags[of B "\<lambda>e t. t |\<in>| T \<or> t |\<in>| tags_at A e"] by auto

lemma subsumed_join: "or_inv s \<Longrightarrow> subsumesState (fst s) (snd s) (fst other) (snd other) \<Longrightarrow> or_inv other \<Longrightarrow> or_join s other = s"
  by (rule or_eqI) (auto simp: or_crdt.join_inv or_join_live subsumesState_iff dest: or_inv_live)

lemma or_validateState_iff:
  "or_validateState A T = (if (\<forall>e t. t |\<in>| tags_at A e \<longrightarrow> Tag_Valid t) \<and> (\<forall>t. t |\<in>| T \<longrightarrow> Tag_Valid t) then Inr () else Inl set_ErrInvalidDelta)"
  unfolding or_validateState_def list_all_iff
  using items_tags[of A "\<lambda>e t. Tag_Valid t"] by auto

lemma see_tags_iff:
  "see_tags xs seen = Some s \<longleftrightarrow> distinct xs \<and> (\<forall>t \<in> set xs. t |\<notin>| seen) \<and> s = fset_of_list xs |\<union>| seen"
  by (induction xs arbitrary: seen) auto

text \<open>Each tag belongs to one element.\<close>

definition tags_unique :: "'e adds \<Rightarrow> bool" where
  "tags_unique adds \<longleftrightarrow> (\<forall>e e' t. t |\<in>| tags_at adds e \<longrightarrow> t |\<in>| tags_at adds e' \<longrightarrow> e = e')"

lemma see_tags_append: "see_tags (xs @ ys) seen = (case see_tags xs seen of None \<Rightarrow> None | Some s \<Rightarrow> see_tags ys s)"
  by (induction xs arbitrary: seen) auto

lemma see_all_concat: "see_all xs seen = see_tags (concat (map (\<lambda>(e, a). sorted_list_of_fset a) xs)) seen"
  by (induction xs seen rule: see_all.induct) (auto simp: see_tags_append split: option.splits)

lemma distinct_all_tags:
  assumes "distinct (map fst xs)"
  shows "distinct (concat (map (\<lambda>(e, a). sorted_list_of_fset a) xs)) \<longleftrightarrow>
    (\<forall>(e, a) \<in> set xs. \<forall>(e', b) \<in> set xs. e \<noteq> e' \<longrightarrow> a |\<inter>| b = {||})"
  using assms
proof (induction xs)
  case (Cons x xs)
  obtain e a where x: "x = (e, a)" by (cases x)
  have ne: "\<forall>(e', b) \<in> set xs. e' \<noteq> e" using Cons.prems x by force
  have "(fset a \<inter> (\<Union>x \<in> set xs. fset (snd x)) = {}) \<longleftrightarrow> (\<forall>(e', b) \<in> set xs. a |\<inter>| b = {||})"
    by (auto simp: split_beta fset_eq_iff disjoint_iff)
  with Cons ne show ?case
    by (simp add: x split_beta inf_commute) blast
qed simp

lemma tags_at_items: "t |\<in>| tags_at A e \<longleftrightarrow> (\<exists>a. (e, a) \<in> set (fm_items A) \<and> t |\<in>| a)"
  by (auto simp: tags_at_def split: option.splits)

lemma set_visit_tags: "t \<in> set (visit_tags A T) \<longleftrightarrow> (\<exists>e. t |\<in>| tags_at A e) \<or> t |\<in>| T"
proof -
  have "t \<in> set (visit_tags A T) \<longleftrightarrow> (\<exists>x \<in> set (fm_items A). t |\<in>| snd x) \<or> t |\<in>| T"
    by (auto simp: visit_tags_def split_beta)
  also have "(\<exists>x \<in> set (fm_items A). t |\<in>| snd x) \<longleftrightarrow> (\<exists>e. t |\<in>| tags_at A e)"
    unfolding tags_at_items Bex_def split_paired_Ex by simp
  finally show ?thesis .
qed

lemma disjoint_tags_unique:
  "(\<forall>(e, a) \<in> set (fm_items A). \<forall>(e', b) \<in> set (fm_items A). e \<noteq> e' \<longrightarrow> a |\<inter>| b = {||}) \<longleftrightarrow> tags_unique A" (is "?l \<longleftrightarrow> ?r")
proof
  assume l: ?l
  show ?r unfolding tags_unique_def
  proof (intro allI impI)
    fix e e' t assume "t |\<in>| tags_at A e" "t |\<in>| tags_at A e'"
    then obtain a b where "(e, a) \<in> set (fm_items A)" "(e', b) \<in> set (fm_items A)" "t |\<in>| a" "t |\<in>| b"
      unfolding tags_at_items by blast
    with l show "e = e'" by fast
  qed
next
  assume ?r
  then have "e = e'" if "fmlookup A e = Some a" "fmlookup A e' = Some b" "t |\<in>| a" "t |\<in>| b" for e e' a b t
    using that by (simp add: tags_unique_def tags_at_def)
  then show ?l by (auto simp: set_fm_items)
qed

lemma small_adds:
  assumes "\<not> fm_size A > 1" and "t |\<in>| tags_at A e" and "t' |\<in>| tags_at A e'"
  shows "e = e'"
proof -
  have dom: "e |\<in>| fmdom A" "e' |\<in>| fmdom A" using assms(2,3) by (auto simp: tags_at_def fmlookup_dom_iff split: option.splits)
  then show ?thesis using assms(1) card_le_Suc0_iff_eq[of "fset (fmdom A)"] by (auto simp: fm_size_def fcard.rep_eq)
qed

lemma validateDeltaState_iff:
  "validateDeltaState A T = (if (\<forall>e t. t |\<in>| tags_at A e \<longrightarrow> Tag_Valid t \<and> t |\<notin>| T) \<and> (\<forall>t. t |\<in>| T \<longrightarrow> Tag_Valid t) \<and> tags_unique A
     then Inr () else Inl set_ErrInvalidDelta)"
proof -
  let ?track = "fm_size A > 1 \<or> (fm_size A > 0 \<and> fcard T > 0)"
  have unique: "distinct (concat (map (\<lambda>(e, a). sorted_list_of_fset a) (fm_items A))) \<longleftrightarrow> tags_unique A"
    unfolding distinct_all_tags[OF distinct_fst_items] by (rule disjoint_tags_unique)
  have all: "see_all (fm_items A) {||} = Some s \<longleftrightarrow> tags_unique A \<and> s = fset_of_list (visit_tags A {||})" for s
    unfolding see_all_concat see_tags_iff unique by (simp add: visit_tags_def)
  have untracked: "tags_unique A \<and> (\<forall>e t. t |\<in>| tags_at A e \<longrightarrow> t |\<notin>| T)" if "\<not> ?track"
  proof -
    have small: "\<not> fm_size A > 1" using that by simp
    have "tags_unique A" unfolding tags_unique_def by (intro allI impI) (rule small_adds[OF small])
    moreover have "A = fmempty \<or> T = {||}" using that by (metis fcard_0_eq fm_size_eq_0 gr0I)
    ultimately show ?thesis by auto
  qed
  have tracked: "(case see_all (fm_items A) {||} of None \<Rightarrow> Inl set_ErrInvalidDelta
      | Some seen \<Rightarrow> (case see_tags (sorted_list_of_fset T) seen of None \<Rightarrow> Inl set_ErrInvalidDelta | Some _ \<Rightarrow> Inr ())) =
    (if tags_unique A \<and> (\<forall>e t. t |\<in>| tags_at A e \<longrightarrow> t |\<notin>| T) then Inr () else Inl set_ErrInvalidDelta)"
  proof (cases "see_all (fm_items A) {||}")
    case None
    then have "\<not> tags_unique A" using all[of "fset_of_list (visit_tags A {||})"] by simp
    with None show ?thesis by simp
  next
    case (Some seen)
    then have s: "tags_unique A" "\<And>t. t |\<in>| seen \<longleftrightarrow> (\<exists>e. t |\<in>| tags_at A e)"
      using all by (simp_all add: fset_of_list_elem set_visit_tags)
    show ?thesis
      using Some s see_tags_iff[of "sorted_list_of_fset T" seen "T |\<union>| seen"]
        see_tags_iff[of "sorted_list_of_fset T" seen]
      by (cases "see_tags (sorted_list_of_fset T) seen") auto
  qed
  show ?thesis
    unfolding validateDeltaState_def or_validateState_iff Let_def tracked using untracked by auto
qed

lemma note_greatest_some [simp]: "note_greatest t (Some g) = Some (max g t)" "note_greatest t None = Some t"
  by (auto simp: note_greatest_def max_def)

lemma fold_note_greatest: "fold note_greatest xs (Some g) = Some (Max (insert g (set xs)))"
proof (induction xs arbitrary: g)
  case (Cons x xs)
  have "Max (insert (max g x) (set xs)) = Max (insert g (insert x (set xs)))"
    by (cases "xs = []") (simp_all add: ac_simps)
  with Cons show ?case by simp
qed simp

lemma greatestStateTag_eq:
  "greatestStateTag A T = (if visit_tags A T = [] then None else Some (Max (set (visit_tags A T))))"
  by (cases "visit_tags A T") (simp_all add: greatestStateTag_def fold_note_greatest)

lemma greatestStateTag_max:
  assumes "greatestStateTag A T = Some g"
  shows "(\<exists>e. g |\<in>| tags_at A e) \<or> g |\<in>| T" and "t |\<in>| tags_at A e \<or> t |\<in>| T \<Longrightarrow> t \<le> g"
  using assms Max_in[of "set (visit_tags A T)"] Max_ge[of "set (visit_tags A T)" t] set_visit_tags[of t A T]
    set_visit_tags[of g A T]
  by (auto simp: greatestStateTag_eq split: if_splits)

lemma greatestStateTag_None: "greatestStateTag A T = None \<longleftrightarrow> (\<forall>e. tags_at A e = {||}) \<and> T = {||}"
proof -
  have "visit_tags A T = [] \<longleftrightarrow> (\<forall>t. t \<notin> set (visit_tags A T))" by (cases "visit_tags A T") auto
  also have "\<dots> \<longleftrightarrow> (\<forall>e. tags_at A e = {||}) \<and> T = {||}" unfolding set_visit_tags by auto
  finally show ?thesis by (simp add: greatestStateTag_eq)
qed

text \<open>The frontier holds the greatest tag of every replica that has one.\<close>

lemma frontier_fold:
  "fmlookup (fold note_frontier xs m) r = fold (\<lambda>t. if ReplicaID t = r then note_greatest t else id) xs (fmlookup m r)"
  by (induction xs arbitrary: m)
    (auto simp: note_frontier_def note_greatest_def split: option.splits)

lemma frontier_greatest:
  "fmlookup (frontierForState A T) r = Some g \<longleftrightarrow> (g \<in> set (visit_tags A T) \<and> ReplicaID g = r \<and>
     (\<forall>t \<in> set (visit_tags A T). ReplicaID t = r \<longrightarrow> t \<le> g))"
proof -
  have filter: "fold (\<lambda>t. if ReplicaID t = r then note_greatest t else id) xs g0 = fold note_greatest (filter (\<lambda>t. ReplicaID t = r) xs) g0" for xs g0
    by (induction xs arbitrary: g0) auto
  have greatest: "fold note_greatest ys None = (if ys = [] then None else Some (Max (set ys)))" for ys
    by (cases ys) (simp_all add: fold_note_greatest)
  let ?S = "{t \<in> set (visit_tags A T). ReplicaID t = r}"
  have "fmlookup (frontierForState A T) r = (if ?S = {} then None else Some (Max ?S))"
    unfolding frontierForState_def frontier_fold filter by (simp add: greatest filter_empty_conv)
  moreover have "?S \<noteq> {} \<Longrightarrow> Max ?S = g \<longleftrightarrow> g \<in> ?S \<and> (\<forall>t \<in> ?S. t \<le> g)" by (rule Max_eq_iff) simp_all
  ultimately show ?thesis by auto
qed

end
