(* ===== verification/ORCodec.thy ===== *)
theory ORCodec
  imports GSets ORStates
begin

text \<open>
  The frame payload of the observed-remove set, \<open>src/set/orset.go\<close>: the marshal plan, the encoder with its
  size accounting, and the decoder. Where the code ranges over maps to build the plan, the order is a
  parameter: \<open>keys\<close> lists the elements and \<open>enum\<close> the tags of a set.
\<close>

record 'e planEntry =
  pe_element :: 'e
  pe_tagStart :: nat
  pe_tagEnd :: nat

record 'e orSetMarshalPlan =
  pl_entries :: "'e planEntry list"
  pl_liveTags :: "tag list"
  pl_tombstones :: "tag list"

definition plan_add :: "(tag fset \<Rightarrow> tag list) \<Rightarrow> 'e adds \<Rightarrow> 'e \<Rightarrow> 'e orSetMarshalPlan \<Rightarrow> 'e orSetMarshalPlan" where
  "plan_add enum adds element plan =
     (let tagStart = length (pl_liveTags plan); liveTags = pl_liveTags plan @ enum (tags_at adds element) in
      plan\<lparr>pl_liveTags := liveTags,
           pl_entries := pl_entries plan @ [\<lparr>pe_element = element, pe_tagStart = tagStart, pe_tagEnd = length liveTags\<rparr>]\<rparr>)"

definition newORSetMarshalPlan ::
    "'e::linorder list \<Rightarrow> (tag fset \<Rightarrow> tag list) \<Rightarrow> 'e adds \<Rightarrow> tag fset \<Rightarrow> 'e orSetMarshalPlan res" where
  "newORSetMarshalPlan keys enum adds tombstones = (case or_validateState adds tombstones of
      Inl err \<Rightarrow> Inl err
    | Inr _ \<Rightarrow> Inr (fold (plan_add enum adds) keys \<lparr>pl_entries = [], pl_liveTags = [], pl_tombstones = enum tombstones\<rparr>))"

text \<open>A subslice, and sorting it in place.\<close>

definition subslice :: "nat \<Rightarrow> nat \<Rightarrow> 'a list \<Rightarrow> 'a list" where
  "subslice start stop xs = take (stop - start) (drop start xs)"

definition sort_slice :: "nat \<Rightarrow> nat \<Rightarrow> 'a::linorder list \<Rightarrow> 'a list" where
  "sort_slice start stop xs = take start xs @ sort (subslice start stop xs) @ drop stop xs"

fun plan_entries :: "'e boundElementCodec \<Rightarrow> DecoderLimits \<Rightarrow> 'e planEntry list \<Rightarrow> tag list \<Rightarrow>
    (byte list \<times> nat \<times> nat) list \<Rightarrow> ((byte list \<times> nat \<times> nat) list \<times> tag list) res" where
  "plan_entries codec limits [] liveTags entries = Inr (entries, liveTags)"
| "plan_entries codec limits (source # sources) liveTags entries = (case bec_marshal codec (pe_element source) of
      Inl err \<Rightarrow> Inl (fmt_Errorf ''marshal element'' [set_ErrInvalidCodec, err])
    | Inr encoded \<Rightarrow>
        if int (length encoded) > MaxStringBytes limits then Inl encoding_ErrFrameLimit
        else if pe_tagStart source = pe_tagEnd source then Inl set_ErrInvalidDelta
        else plan_entries codec limits sources (sort_slice (pe_tagStart source) (pe_tagEnd source) liveTags)
               (entries @ [(encoded, pe_tagStart source, pe_tagEnd source)]))"

definition orSetCountAsUint64 :: "int \<Rightarrow> u64 option" where
  "orSetCountAsUint64 value = (if value < 0 then None else Some (word_of_int value))"

definition orSetLimit :: "int \<Rightarrow> u64 option" where
  "orSetLimit value = (if value \<le> 0 then None else Some (word_of_int value))"

definition orSetMapCapacity :: "u64 \<Rightarrow> nat option" where
  "orSetMapCapacity value = (if uint value > max_int then None else Some (unat value))"

text \<open>The size of a run of tags, with the number of tags so far.\<close>

fun tags_size :: "DecoderLimits \<Rightarrow> tag list \<Rightarrow> int \<Rightarrow> int \<Rightarrow> (int \<times> int) res" where
  "tags_size limits [] payloadSize tagCount = Inr (payloadSize, tagCount)"
| "tags_size limits (tag # tags) payloadSize tagCount =
     (if tagCount = MaxTags limits then Inl encoding_ErrFrameLimit
      else if int (length (ReplicaID tag)) > MaxStringBytes limits then Inl encoding_ErrFrameLimit
      else if int (TagSize tag) > MaxPayload limits - payloadSize then Inl encoding_ErrFrameLimit
      else tags_size limits tags (payloadSize + int (TagSize tag)) (tagCount + 1))"

fun entries_size :: "DecoderLimits \<Rightarrow> tag list \<Rightarrow> (byte list \<times> nat \<times> nat) list \<Rightarrow> int \<Rightarrow> int \<Rightarrow> (int \<times> int) res" where
  "entries_size limits liveTags [] payloadSize tagCount = Inr (payloadSize, tagCount)"
| "entries_size limits liveTags ((encoded, tagStart, tagEnd) # entries) payloadSize tagCount =
     (case orSetCountAsUint64 (int tagEnd - int tagStart) of
        None \<Rightarrow> Inl set_ErrInvalidDelta
      | Some tagCountForElement \<Rightarrow>
          (let additional = int (UvarintSize (of_nat (length encoded)) + length encoded + UvarintSize tagCountForElement) in
           if additional > MaxPayload limits - payloadSize then Inl encoding_ErrFrameLimit
           else (case tags_size limits (subslice tagStart tagEnd liveTags) (payloadSize + additional) tagCount of
               Inl err \<Rightarrow> Inl err
             | Inr (payloadSize, tagCount) \<Rightarrow> entries_size limits liveTags entries payloadSize tagCount)))"

fun append_entries :: "tag list \<Rightarrow> (byte list \<times> nat \<times> nat) list \<Rightarrow> byte list \<Rightarrow> byte list res" where
  "append_entries liveTags [] payload = Inr payload"
| "append_entries liveTags ((encoded, tagStart, tagEnd) # entries) payload =
     (let payload = appendBytes payload encoded in
      case orSetCountAsUint64 (int tagEnd - int tagStart) of
        None \<Rightarrow> Inl set_ErrInvalidDelta
      | Some tagCountForElement \<Rightarrow>
          append_entries liveTags entries
            (fold (\<lambda>tag payload. AppendTag payload tag) (subslice tagStart tagEnd liveTags) (AppendUvarint payload tagCountForElement)))"

definition marshalORSetPlanWithLimits ::
    "u64 \<Rightarrow> 'e boundElementCodec \<Rightarrow> 'e orSetMarshalPlan \<Rightarrow> DecoderLimits \<Rightarrow> byte list res" where
  "marshalORSetPlanWithLimits typeID codec plan limits =
     (if blank (bec_id codec) \<or> int (length (bec_id codec)) > MaxCodecID limits then Inl set_ErrInvalidCodec
      else (case plan_entries codec limits (pl_entries plan) (pl_liveTags plan) [] of
          Inl err \<Rightarrow> Inl err
        | Inr (entries, liveTags) \<Rightarrow>
            (let entries = sort_key fst entries in
             if \<not> distinct_adj (map fst entries)
             then Inl (fmt_Errorf ''codec produced duplicate element bytes'' [set_ErrInvalidCodec])
             else if int (length entries) > MaxElements limits then Inl encoding_ErrFrameLimit
             else (case entries_size limits liveTags entries (int (UvarintSize (of_nat (length entries)))) 0 of
                 Inl err \<Rightarrow> Inl err
               | Inr (payloadSize, tagCount) \<Rightarrow>
                   (let tags = sort (pl_tombstones plan); additional = int (UvarintSize (of_nat (length tags))) in
                    if additional > MaxPayload limits - payloadSize then Inl encoding_ErrFrameLimit
                    else (case tags_size limits tags (payloadSize + additional) tagCount of
                        Inl err \<Rightarrow> Inl err
                      | Inr (payloadSize, tagCount) \<Rightarrow>
                          MarshalFrameWithPayload typeID (bec_id codec) payloadSize
                            (Some (case append_entries liveTags entries (AppendUvarint [] (of_nat (length entries))) of
                                Inl err \<Rightarrow> Inl err
                              | Inr payload \<Rightarrow>
                                  (let payload = fold (\<lambda>tag payload. AppendTag payload tag) tags
                                         (AppendUvarint payload (of_nat (length tags))) in
                                   if int (length payload) \<noteq> payloadSize then Inl encoding_ErrInvalidFrame else Inr payload)))))))))"

definition marshalORSetPlan :: "u64 \<Rightarrow> 'e boundElementCodec \<Rightarrow> 'e orSetMarshalPlan \<Rightarrow> byte list res" where
  "marshalORSetPlan typeID codec plan = marshalORSetPlanWithLimits typeID codec plan DefaultLimits"

definition marshalORSetWithLimits ::
    "u64 \<Rightarrow> 'e::linorder ElementCodec option \<Rightarrow> 'e adds \<Rightarrow> tag fset \<Rightarrow> DecoderLimits \<Rightarrow> byte list res" where
  "marshalORSetWithLimits typeID codec adds tombstones limits = (case bindElementCodec codec of
      Inl err \<Rightarrow> Inl err
    | Inr bound \<Rightarrow> (case newORSetMarshalPlan (fm_keys adds) sorted_list_of_fset adds tombstones of
          Inl err \<Rightarrow> Inl err
        | Inr plan \<Rightarrow> marshalORSetPlanWithLimits typeID bound plan limits))"

definition marshalORSet :: "u64 \<Rightarrow> 'e::linorder ElementCodec option \<Rightarrow> 'e adds \<Rightarrow> tag fset \<Rightarrow> byte list res" where
  "marshalORSet typeID codec adds tombstones = marshalORSetWithLimits typeID codec adds tombstones DefaultLimits"

text \<open>
  The decoder's loops: the tags of one element, which must be new to the state; the elements; and the
  tombstones, which must not be live.
\<close>

fun tags_loop :: "byte list \<Rightarrow> int \<Rightarrow> nat \<Rightarrow> tag option \<Rightarrow> nat \<Rightarrow> tag fset \<Rightarrow> tag fset \<Rightarrow> (tag fset \<times> tag fset \<times> nat) res" where
  "tags_loop payload maxStringBytes 0 previousTag pos liveTags tags = Inr (tags, liveTags, pos)"
| "tags_loop payload maxStringBytes (Suc n) previousTag pos liveTags tags = (case ReadTag payload pos maxStringBytes of
      None \<Rightarrow> Inl encoding_ErrInvalidFrame
    | Some (tag, next) \<Rightarrow>
        if (case previousTag of None \<Rightarrow> False | Some p \<Rightarrow> Tag_Compare p tag \<ge> 0) then Inl encoding_ErrInvalidFrame
        else if tag |\<in>| liveTags then Inl encoding_ErrInvalidFrame
        else tags_loop payload maxStringBytes n (Some tag) next (finsert tag liveTags) (finsert tag tags))"

fun adds_loop :: "'e boundElementCodec \<Rightarrow> byte list \<Rightarrow> int \<Rightarrow> u64 \<Rightarrow> nat \<Rightarrow> byte list option \<Rightarrow> nat \<Rightarrow> 'e adds \<Rightarrow> tag fset \<Rightarrow> u64 \<Rightarrow>
    ('e adds \<times> tag fset \<times> u64 \<times> nat) res" where
  "adds_loop codec payload maxStringBytes maxTags 0 previousElement pos adds liveTags tagCount = Inr (adds, liveTags, tagCount, pos)"
| "adds_loop codec payload maxStringBytes maxTags (Suc n) previousElement pos adds liveTags tagCount =
     (case ReadBytes payload pos maxStringBytes of
        None \<Rightarrow> Inl encoding_ErrInvalidFrame
      | Some (elementBytes, next) \<Rightarrow>
          if (case previousElement of None \<Rightarrow> False | Some p \<Rightarrow> \<not> p < elementBytes) then Inl encoding_ErrInvalidFrame
          else (case bec_unmarshal codec elementBytes of
              Inl err \<Rightarrow> Inl (fmt_Errorf ''unmarshal element'' [set_ErrInvalidCodec, err])
            | Inr element \<Rightarrow>
                if bec_marshal codec element \<noteq> Inr elementBytes then Inl set_ErrInvalidCodec
                else if element |\<in>| fmdom adds then Inl encoding_ErrInvalidFrame
                else (case ReadUvarint payload next of
                    None \<Rightarrow> Inl encoding_ErrInvalidFrame
                  | Some (cnt, next) \<Rightarrow>
                      if cnt = 0 \<or> cnt > maxTags - tagCount then Inl encoding_ErrInvalidFrame
                      else (case orSetMapCapacity cnt of
                          None \<Rightarrow> Inl encoding_ErrInvalidFrame
                        | Some _ \<Rightarrow> (case tags_loop payload maxStringBytes (unat cnt) None next liveTags {||} of
                              Inl err \<Rightarrow> Inl err
                            | Inr (tags, liveTags, pos) \<Rightarrow>
                                adds_loop codec payload maxStringBytes maxTags n (Some elementBytes) pos
                                  (fmupd element tags adds) liveTags (tagCount + cnt))))))"

fun tombstones_loop :: "byte list \<Rightarrow> int \<Rightarrow> nat \<Rightarrow> tag option \<Rightarrow> nat \<Rightarrow> tag fset \<Rightarrow> tag fset \<Rightarrow> (tag fset \<times> nat) res" where
  "tombstones_loop payload maxStringBytes 0 previousTombstone pos liveTags tombstones = Inr (tombstones, pos)"
| "tombstones_loop payload maxStringBytes (Suc n) previousTombstone pos liveTags tombstones =
     (case ReadTag payload pos maxStringBytes of
        None \<Rightarrow> Inl encoding_ErrInvalidFrame
      | Some (tag, next) \<Rightarrow>
          if (case previousTombstone of None \<Rightarrow> False | Some p \<Rightarrow> Tag_Compare p tag \<ge> 0) then Inl encoding_ErrInvalidFrame
          else if tag |\<in>| liveTags then Inl encoding_ErrInvalidFrame
          else tombstones_loop payload maxStringBytes n (Some tag) next liveTags (finsert tag tombstones))"

definition unmarshalORSetWithCodec ::
    "inflater \<Rightarrow> byte list \<Rightarrow> u64 \<Rightarrow> 'e boundElementCodec \<Rightarrow> DecoderLimits \<Rightarrow> 'e orstate res" where
  "unmarshalORSetWithCodec flate data expectedTypeID codec limits = (case UnmarshalFrame flate data limits of
      Inl err \<Rightarrow> Inl err
    | Inr decoded \<Rightarrow>
        if TypeID decoded \<noteq> expectedTypeID \<or> CodecID decoded \<noteq> bec_id codec then Inl set_ErrCodecMismatch
        else (case (orSetLimit (MaxElements limits), orSetLimit (MaxTags limits)) of
            (Some maxElements, Some maxTags) \<Rightarrow>
              (case ReadUvarint (Payload decoded) 0 of
                 None \<Rightarrow> Inl encoding_ErrInvalidFrame
               | Some (elementCount, next) \<Rightarrow>
                   if elementCount > maxElements then Inl encoding_ErrInvalidFrame
                   else (case orSetMapCapacity elementCount of
                       None \<Rightarrow> Inl encoding_ErrInvalidFrame
                     | Some _ \<Rightarrow>
                         (case adds_loop codec (Payload decoded) (MaxStringBytes limits) maxTags (unat elementCount) None next fmempty {||} 0 of
                            Inl err \<Rightarrow> Inl err
                          | Inr (adds, liveTags, tagCount, pos) \<Rightarrow>
                              (case ReadUvarint (Payload decoded) pos of
                                 None \<Rightarrow> Inl encoding_ErrInvalidFrame
                               | Some (tombstoneCount, next) \<Rightarrow>
                                   if tombstoneCount > maxTags - tagCount then Inl encoding_ErrInvalidFrame
                                   else (case orSetMapCapacity tombstoneCount of
                                       None \<Rightarrow> Inl encoding_ErrInvalidFrame
                                     | Some _ \<Rightarrow>
                                         (case tombstones_loop (Payload decoded) (MaxStringBytes limits) (unat tombstoneCount) None next liveTags {||} of
                                            Inl err \<Rightarrow> Inl err
                                          | Inr (tombstones, pos) \<Rightarrow>
                                              if pos \<noteq> length (Payload decoded) then Inl encoding_ErrInvalidFrame
                                              else Inr (adds, tombstones)))))))
          | _ \<Rightarrow> Inl encoding_ErrInvalidFrame))"

definition unmarshalORSet :: "inflater \<Rightarrow> byte list \<Rightarrow> u64 \<Rightarrow> 'e ElementCodec option \<Rightarrow> DecoderLimits \<Rightarrow> 'e orstate res" where
  "unmarshalORSet flate data expectedTypeID codec limits = (case bindElementCodec codec of
      Inl err \<Rightarrow> Inl err | Inr bound \<Rightarrow> unmarshalORSetWithCodec flate data expectedTypeID bound limits)"

section \<open>The plan\<close>

fun layout :: "(tag fset \<Rightarrow> tag list) \<Rightarrow> 'e adds \<Rightarrow> nat \<Rightarrow> 'e list \<Rightarrow> 'e planEntry list" where
  "layout enum adds off [] = []"
| "layout enum adds off (e # es) = (let stop = off + length (enum (tags_at adds e)) in
     \<lparr>pe_element = e, pe_tagStart = off, pe_tagEnd = stop\<rparr> # layout enum adds stop es)"

lemma plan_layout:
  "fold (plan_add enum adds) keys plan =
     plan\<lparr>pl_liveTags := pl_liveTags plan @ concat (map (\<lambda>e. enum (tags_at adds e)) keys),
          pl_entries := pl_entries plan @ layout enum adds (length (pl_liveTags plan)) keys\<rparr>"
  by (induction keys arbitrary: plan) (simp_all add: plan_add_def Let_def)

lemma slice_middle [simp]: "subslice (length pre) (length pre + length xs) (pre @ xs @ post) = xs"
  by (simp add: subslice_def)

lemma sort_slice_middle [simp]: "sort_slice (length pre) (length pre + length xs) (pre @ xs @ post) = pre @ sort xs @ post"
  by (simp add: sort_slice_def subslice_def)

definition encode_ref :: "'e boundElementCodec \<Rightarrow> 'e planEntry \<Rightarrow> byte list \<times> nat \<times> nat" where
  "encode_ref codec src = (elem_bytes codec (pe_element src), pe_tagStart src, pe_tagEnd src)"

lemma encode_ref_simp [simp]:
  "encode_ref codec \<lparr>pe_element = e, pe_tagStart = st, pe_tagEnd = en\<rparr> = (elem_bytes codec e, st, en)"
  by (simp add: encode_ref_def)

lemma plan_entries_layout:
  "plan_entries codec limits (layout enum A (length pre) keys) (pre @ concat (map (\<lambda>e. enum (tags_at A e)) keys)) acc = Inr (entries, live) \<longleftrightarrow>
     entries = acc @ map (encode_ref codec) (layout enum A (length pre) keys) \<and>
     live = pre @ concat (map (\<lambda>e. sort (enum (tags_at A e))) keys) \<and>
     (\<forall>e \<in> set keys. bec_marshal codec e = Inr (elem_bytes codec e) \<and> int (length (elem_bytes codec e)) \<le> MaxStringBytes limits \<and>
        enum (tags_at A e) \<noteq> [])"
proof (induction keys arbitrary: pre acc)
  case Nil
  then show ?case by auto
next
  case (Cons e es)
  let ?ts = "enum (tags_at A e)" and ?rest = "concat (map (\<lambda>e. enum (tags_at A e)) es)"
  have sl: "sort_slice (length pre) (length pre + length ?ts) (pre @ ?ts @ ?rest) = (pre @ sort ?ts) @ ?rest" by simp
  have len: "length pre + length ?ts = length (pre @ sort ?ts)" by simp
  show ?case
  proof (cases "bec_marshal codec e")
    case (Inl err)
    then show ?thesis by (simp add: Let_def)
  next
    case (Inr bs)
    then have bs: "elem_bytes codec e = bs" by (simp add: elem_bytes_def)
    have "plan_entries codec limits (layout enum A (length pre) (e # es)) (pre @ concat (map (\<lambda>e. enum (tags_at A e)) (e # es))) acc =
        Inr (entries, live) \<longleftrightarrow> int (length bs) \<le> MaxStringBytes limits \<and> ?ts \<noteq> [] \<and>
        plan_entries codec limits (layout enum A (length (pre @ sort ?ts)) es) ((pre @ sort ?ts) @ ?rest)
          (acc @ [(bs, length pre, length pre + length ?ts)]) = Inr (entries, live)"
      using Inr by (simp only: layout.simps Let_def plan_entries.simps planEntry.simps sum.case if_Inl_Inr list.map concat.simps sl len) auto
    then show ?thesis
      unfolding Cons.IH using Inr bs by (simp add: Let_def) blast
  qed
qed

definition resolve :: "tag list \<Rightarrow> byte list \<times> nat \<times> nat \<Rightarrow> byte list \<times> tag list" where
  "resolve liveTags r = (fst r, subslice (fst (snd r)) (snd (snd r)) liveTags)"

definition ref_ok :: "tag list \<Rightarrow> byte list \<times> nat \<times> nat \<Rightarrow> bool" where
  "ref_ok liveTags r \<longleftrightarrow> fst (snd r) \<le> snd (snd r) \<and> snd (snd r) \<le> length liveTags"

lemma resolve_layout:
  "(\<And>S. length (tags S) = length (enum S)) \<Longrightarrow>
   map (resolve (pre @ concat (map (\<lambda>e. tags (tags_at A e)) keys) @ post)) (map (encode_ref codec) (layout enum A (length pre) keys)) =
     map (\<lambda>e. (elem_bytes codec e, tags (tags_at A e))) keys \<and>
   (\<forall>r \<in> set (map (encode_ref codec) (layout enum A (length pre) keys)).
      ref_ok (pre @ concat (map (\<lambda>e. tags (tags_at A e)) keys) @ post) r)"
proof (induction keys arbitrary: pre)
  case (Cons e es)
  let ?ts = "tags (tags_at A e)"
  have len: "length (enum (tags_at A e)) = length ?ts" using Cons.prems by simp
  have step: "layout enum A (length pre) (e # es) =
      \<lparr>pe_element = e, pe_tagStart = length pre, pe_tagEnd = length pre + length ?ts\<rparr> # layout enum A (length (pre @ ?ts)) es"
    by (simp add: Let_def len)
  note IH = Cons.IH[of "pre @ ?ts", OF Cons.prems]
  let ?L = "pre @ concat (map (\<lambda>e. tags (tags_at A e)) (e # es)) @ post"
  let ?r = "\<lparr>pe_element = e, pe_tagStart = length pre, pe_tagEnd = length pre + length ?ts\<rparr>"
  have L: "(pre @ ?ts) @ concat (map (\<lambda>e. tags (tags_at A e)) es) @ post = ?L" by simp
  have "resolve ?L (encode_ref codec ?r) = (elem_bytes codec e, ?ts)" "ref_ok ?L (encode_ref codec ?r)"
    by (simp_all add: resolve_def ref_ok_def)
  with IH[unfolded L] show ?case unfolding step by (simp del: map_map)
qed simp

section \<open>The encoder\<close>

definition or_entry_enc :: "byte list \<times> tag list \<Rightarrow> byte list" where
  "or_entry_enc x = bytes_enc (fst x) @ tag_field.counted_enc (snd x)"

lemma tags_size_iff:
  "cnt \<le> MaxTags limits \<Longrightarrow> tags_size limits ts sz cnt = Inr (s, c) \<longleftrightarrow>
     s = sz + int (length (concat (map tag_enc ts))) \<and> c = cnt + int (length ts) \<and> c \<le> MaxTags limits \<and>
     (ts = [] \<or> s \<le> MaxPayload limits) \<and> (\<forall>t \<in> set ts. int (length (ReplicaID t)) \<le> MaxStringBytes limits)"
proof (induction ts arbitrary: sz cnt)
  case (Cons t ts)
  show ?case
  proof (cases "cnt = MaxTags limits")
    case False
    then have "cnt + 1 \<le> MaxTags limits" using Cons.prems by simp
    from Cons.IH[OF this, of "sz + int (TagSize t)"] False show ?thesis
      unfolding tags_size.simps if_Inl_Inr by (auto simp: TagSize_eq)
  qed simp
qed auto

lemma orSetCount_ok: "s \<le> e \<Longrightarrow> orSetCountAsUint64 (int e - int s) = Some (of_nat (e - s))"
proof -
  assume "s \<le> e"
  then have *: "int e - int s = int (e - s)" by simp
  show ?thesis unfolding orSetCountAsUint64_def * by (simp del: of_nat_diff)
qed

lemma length_slice: "ref_ok L (b, s, e) \<Longrightarrow> length (subslice s e L) = e - s"
  by (auto simp: subslice_def ref_ok_def)

lemma entries_size_iff:
  "\<forall>r \<in> set refs. ref_ok L r \<Longrightarrow> cnt \<le> MaxTags limits \<Longrightarrow>
   entries_size limits L refs sz cnt = Inr (s, c) \<longleftrightarrow>
     s = sz + int (length (concat (map or_entry_enc (map (resolve L) refs)))) \<and>
     c = cnt + int (length (concat (map (snd \<circ> resolve L) refs))) \<and> c \<le> MaxTags limits \<and> (refs = [] \<or> s \<le> MaxPayload limits) \<and>
     (\<forall>t \<in> set (concat (map (snd \<circ> resolve L) refs)). int (length (ReplicaID t)) \<le> MaxStringBytes limits)"
proof (induction refs arbitrary: sz cnt)
  case (Cons r refs)
  obtain b st en where r: "r = (b, st, en)" by (cases r) auto
  let ?ts = "subslice st en L"
  have ok: "ref_ok L (b, st, en)" using Cons.prems r by simp
  then have n: "orSetCountAsUint64 (int en - int st) = Some (of_nat (length ?ts))"
    by (simp add: length_slice orSetCount_ok ref_ok_def)
  define ad where "ad = int (UvarintSize (of_nat (length b)) + length b + UvarintSize (of_nat (length ?ts)))"
  have enc: "int (length (or_entry_enc (b, ?ts))) = ad + int (length (concat (map tag_enc ?ts)))"
    by (simp add: ad_def or_entry_enc_def UvarintSize_def bytes_enc_def tag_field.counted_enc_def)
  have "entries_size limits L (r # refs) sz cnt = Inr (s, c) \<longleftrightarrow> ad \<le> MaxPayload limits - sz \<and>
      (\<exists>z c1. tags_size limits ?ts (sz + ad) cnt = Inr (z, c1) \<and> entries_size limits L refs z c1 = Inr (s, c))"
    unfolding r entries_size.simps n option.case Let_def ad_def[symmetric] if_Inl_Inr case_sum_pair not_less ..
  also have "\<dots> \<longleftrightarrow> ad \<le> MaxPayload limits - sz \<and> cnt + int (length ?ts) \<le> MaxTags limits \<and>
      (?ts = [] \<or> sz + ad + int (length (concat (map tag_enc ?ts))) \<le> MaxPayload limits) \<and>
      (\<forall>t \<in> set ?ts. int (length (ReplicaID t)) \<le> MaxStringBytes limits) \<and>
      entries_size limits L refs (sz + ad + int (length (concat (map tag_enc ?ts)))) (cnt + int (length ?ts)) = Inr (s, c)"
    unfolding tags_size_iff[OF Cons.prems(2)] by auto
  also have "\<dots> \<longleftrightarrow> s = sz + int (length (concat (map or_entry_enc (map (resolve L) (r # refs))))) \<and>
     c = cnt + int (length (concat (map (snd \<circ> resolve L) (r # refs)))) \<and> c \<le> MaxTags limits \<and> s \<le> MaxPayload limits \<and>
     (\<forall>t \<in> set (concat (map (snd \<circ> resolve L) (r # refs))). int (length (ReplicaID t)) \<le> MaxStringBytes limits)"
  proof (cases "cnt + int (length ?ts) \<le> MaxTags limits")
    case True
    define T where "T = int (length (concat (map tag_enc ?ts)))"
    define R where "R = int (length (concat (map or_entry_enc (map (resolve L) refs))))"
    define N where "N = int (length (concat (map (snd \<circ> resolve L) refs)))"
    have IH: "entries_size limits L refs (sz + ad + T) (cnt + int (length ?ts)) = Inr (s, c) \<longleftrightarrow>
        s = sz + ad + T + R \<and> c = cnt + int (length ?ts) + N \<and> c \<le> MaxTags limits \<and> (refs = [] \<or> s \<le> MaxPayload limits) \<and>
        (\<forall>t \<in> set (concat (map (snd \<circ> resolve L) refs)). int (length (ReplicaID t)) \<le> MaxStringBytes limits)"
      unfolding R_def N_def by (rule Cons.IH) (use Cons.prems True in simp_all)
    have "?ts = [] \<Longrightarrow> T = 0" "refs = [] \<Longrightarrow> R = 0" "0 \<le> T" "0 \<le> R" "0 \<le> N"
      by (simp_all add: T_def R_def N_def)
    moreover have "int (length (concat (map or_entry_enc (map (resolve L) (r # refs))))) = ad + T + R"
        "int (length (concat (map (snd \<circ> resolve L) (r # refs)))) = int (length ?ts) + N"
        "set (concat (map (snd \<circ> resolve L) (r # refs))) = set ?ts \<union> set (concat (map (snd \<circ> resolve L) refs))"
      using enc by (simp_all add: r resolve_def[of L "(b, st, en)"] T_def R_def N_def)
    ultimately show ?thesis
      unfolding T_def[symmetric] IH ball_Un using True by (auto simp del: map_map concat.simps)
  next
    case False
    then show ?thesis by (auto simp: r resolve_def[of L "(b, st, en)"])
  qed
  finally show ?case by (simp only: list.distinct simp_thms)
qed auto

lemma fold_AppendTag: "fold (\<lambda>tag payload. AppendTag payload tag) ts dst = dst @ concat (map tag_enc ts)"
  by (induction ts arbitrary: dst) (simp_all add: AppendTag_eq)

lemma append_entries_eq:
  "\<forall>r \<in> set refs. ref_ok L r \<Longrightarrow> append_entries L refs payload = Inr (payload @ concat (map or_entry_enc (map (resolve L) refs)))"
proof (induction refs arbitrary: payload)
  case (Cons r refs)
  obtain b st en where r: "r = (b, st, en)" by (cases r) auto
  have ok: "ref_ok L (b, st, en)" using Cons.prems r by simp
  then have n: "orSetCountAsUint64 (int en - int st) = Some (of_nat (length (subslice st en L)))"
    by (simp add: length_slice orSetCount_ok ref_ok_def)
  from Cons n show ?case
    by (simp add: r Let_def fold_AppendTag appendBytes_def AppendUvarint_def or_entry_enc_def resolve_def bytes_enc_def
        tag_field.counted_enc_def)
qed simp

text \<open>The payload of a state, its elements by ascending bytes.\<close>

abbreviation or_entries :: "'e::linorder boundElementCodec \<Rightarrow> 'e adds \<Rightarrow> (byte list \<times> tag list) list" where
  "or_entries codec A \<equiv> map (\<lambda>e. (elem_bytes codec e, sorted_list_of_fset (tags_at A e))) (fs_sorted_by (elem_bytes codec) (fmdom A))"

definition or_enc :: "'e::linorder boundElementCodec \<Rightarrow> 'e orstate \<Rightarrow> byte list" where
  "or_enc codec s = uvarint (of_nat (fm_size (fst s))) @ concat (map or_entry_enc (or_entries codec (fst s))) @
     tag_field.counted_enc (sorted_list_of_fset (snd s))"

definition tag_total :: "'e::linorder orstate \<Rightarrow> nat" where
  "tag_total s = (\<Sum>e \<in> fset (fmdom (fst s)). fcard (tags_at (fst s) e)) + fcard (snd s)"

definition orset_sizes_ok :: "'e::linorder boundElementCodec \<Rightarrow> DecoderLimits \<Rightarrow> 'e orstate \<Rightarrow> bool" where
  "orset_sizes_ok codec limits s \<longleftrightarrow> int (fm_size (fst s)) \<le> MaxElements limits \<and> int (tag_total s) \<le> MaxTags limits \<and>
     (\<forall>e. e |\<in>| fmdom (fst s) \<longrightarrow> int (length (elem_bytes codec e)) \<le> MaxStringBytes limits) \<and>
     (\<forall>t. t |\<in>| snd s \<or> (\<exists>e. t |\<in>| tags_at (fst s) e) \<longrightarrow> int (length (ReplicaID t)) \<le> MaxStringBytes limits)"

text \<open>An enumeration of a map: every element once, and every set of tags as a list without repetition.\<close>

definition enumerates :: "'e list \<Rightarrow> (tag fset \<Rightarrow> tag list) \<Rightarrow> 'e adds \<Rightarrow> bool" where
  "enumerates keys enum A \<longleftrightarrow> distinct keys \<and> set keys = fset (fmdom A) \<and> (\<forall>S. distinct (enum S) \<and> set (enum S) = fset S)"

lemma enumerates_sort: "enumerates keys enum A \<Longrightarrow> sort (enum S) = sorted_list_of_fset S"
  unfolding enumerates_def sorted_list_of_fset.rep_eq
  by (metis sorted_list_of_set_sort_remdups distinct_remdups_id)

lemma enumerates_length: "enumerates keys enum A \<Longrightarrow> length (enum S) = fcard S"
  by (metis enumerates_sort length_sort length_sorted_list_of_fset)

lemma enumerates_sorted: "enumerates keys enum A \<Longrightarrow> enumerates (fm_keys A) sorted_list_of_fset A"
  by (simp add: enumerates_def)

lemma enumerates_default [simp]: "enumerates (fm_keys A) sorted_list_of_fset A"
  by (simp add: enumerates_def)

lemma enumerates_sort_key:
  assumes "enumerates keys enum A" and "inj_on key (fset (fmdom A))"
  shows "sort_key key keys = fs_sorted_by key (fmdom A)"
proof (rule sort_key_inj_key_eq)
  show "mset keys = mset (fs_sorted_by key (fmdom A))"
    using assms(1) by (intro set_eq_iff_mset_eq_distinct[THEN iffD1]) (simp_all add: enumerates_def)
  show "inj_on key (set keys)" using assms by (simp add: enumerates_def)
  show "sorted (map key (fs_sorted_by key (fmdom A)))" by (simp add: fs_sorted_by_def)
qed

lemma sum_entries: "int (length (concat (map snd (or_entries codec A)))) = int (\<Sum>e \<in> fset (fmdom A). fcard (tags_at A e))"
proof -
  have "length (concat (map snd (or_entries codec A))) = (\<Sum>e \<leftarrow> fs_sorted_by (elem_bytes codec) (fmdom A). fcard (tags_at A e))"
    by (simp add: length_concat comp_def)
  also have "\<dots> = (\<Sum>e \<in> fset (fmdom A). fcard (tags_at A e))" by (simp add: sum_list_distinct_conv_sum_set)
  finally show ?thesis by simp
qed

lemma tags_entries: "t \<in> set (concat (map snd (or_entries codec A))) \<longleftrightarrow> (\<exists>e. t |\<in>| tags_at A e)"
  by (auto simp: tags_at_def fmlookup_dom_iff split: option.splits)

lemma sorted_refs:
  fixes A :: "'e::linorder adds" and codec :: "'e boundElementCodec"
  assumes en: "enumerates keys enum A"
  defines "refs \<equiv> map (encode_ref codec) (layout enum A 0 keys)"
    and "L \<equiv> concat (map (\<lambda>e. sort (enum (tags_at A e))) keys)"
  shows "\<forall>r \<in> set (sort_key fst refs). ref_ok L r" "length (sort_key fst refs) = fm_size A"
    "distinct_adj (map fst (sort_key fst refs)) \<longleftrightarrow> inj_on (elem_bytes codec) (fset (fmdom A))"
    "inj_on (elem_bytes codec) (fset (fmdom A)) \<Longrightarrow> map (resolve L) (sort_key fst refs) = or_entries codec A"
proof -
  have res: "map (resolve L) refs = map (\<lambda>e. (elem_bytes codec e, sort (enum (tags_at A e)))) keys"
    and ok: "\<forall>r \<in> set refs. ref_ok L r"
    using resolve_layout[of "\<lambda>S. sort (enum S)" enum "[]" A keys "[]" codec] by (simp_all add: refs_def L_def)
  show "\<forall>r \<in> set (sort_key fst refs). ref_ok L r" using ok by simp
  have "length refs = length keys" using arg_cong[OF res, of length] by simp
  then show "length (sort_key fst refs) = fm_size A"
    using en by (metis distinct_card enumerates_def fcard.rep_eq fm_size_def length_sort)
  have sorted: "map (resolve L) (sort_key fst refs) = map (\<lambda>e. (elem_bytes codec e, sort (enum (tags_at A e)))) (sort_key (elem_bytes codec) keys)"
    unfolding map_sort_key[of fst "resolve L" fst refs, OF resolve_def[THEN arg_cong[of _ _ fst], simplified]] res
    by (rule map_sort_key[symmetric]) simp
  have "map fst (sort_key fst refs) = map (elem_bytes codec) (sort_key (elem_bytes codec) keys)"
    using arg_cong[OF sorted, of "map fst"] by (simp add: comp_def resolve_def)
  moreover have "sorted (map (elem_bytes codec) (sort_key (elem_bytes codec) keys))" by simp
  ultimately show "distinct_adj (map fst (sort_key fst refs)) \<longleftrightarrow> inj_on (elem_bytes codec) (fset (fmdom A))"
    using en by (simp add: sorted_distinct_adj distinct_map enumerates_def)
  assume "inj_on (elem_bytes codec) (fset (fmdom A))"
  with sorted show "map (resolve L) (sort_key fst refs) = or_entries codec A"
    by (simp add: enumerates_sort_key[OF en] enumerates_sort[OF en])
qed

lemma marshalORSetPlan_iff:
  fixes A :: "'e::linorder adds"
  assumes en: "enumerates keys enum A" and plan: "newORSetMarshalPlan keys enum A T = Inr plan"
  shows "marshalORSetPlan t codec plan = Inr data \<longleftrightarrow> \<not> blank (bec_id codec) \<and>
    (\<forall>e. e |\<in>| fmdom A \<longrightarrow> bec_marshal codec e = Inr (elem_bytes codec e) \<and> tags_at A e \<noteq> {||}) \<and>
    inj_on (elem_bytes codec) (fset (fmdom A)) \<and> orset_sizes_ok codec DefaultLimits (A, T) \<and>
    MarshalFrame (frame_of t (bec_id codec) (or_enc codec (A, T))) = Inr data"
proof -
  let ?D = DefaultLimits
  define refs where "refs = sort_key fst (map (encode_ref codec) (layout enum A 0 keys))"
  define L where "L = concat (map (\<lambda>e. sort (enum (tags_at A e))) keys)"
  define ts where "ts = sorted_list_of_fset T"
  have p: "pl_entries plan = layout enum A 0 keys" "pl_liveTags plan = concat (map (\<lambda>e. enum (tags_at A e)) keys)"
    "pl_tombstones plan = enum T"
    using plan by (auto simp: newORSetMarshalPlan_def plan_layout split: sum.splits)
  have pe: "plan_entries codec ?D (pl_entries plan) (pl_liveTags plan) [] = Inr (entries, live) \<longleftrightarrow>
      entries = map (encode_ref codec) (layout enum A 0 keys) \<and> live = L \<and>
      (\<forall>e. e |\<in>| fmdom A \<longrightarrow> bec_marshal codec e = Inr (elem_bytes codec e) \<and> int (length (elem_bytes codec e)) \<le> MaxStringBytes ?D \<and>
         tags_at A e \<noteq> {||})" for entries live
  proof -
    have "enum S = [] \<longleftrightarrow> S = {||}" for S using en by (metis enumerates_length fcard_0_eq length_0_conv)
    moreover have "set keys = fset (fmdom A)" using en by (simp add: enumerates_def)
    ultimately show ?thesis
      using plan_entries_layout[of codec ?D enum A "[]" keys "[]" entries live] by (auto simp: p L_def)
  qed
  note refs = sorted_refs[OF en, of codec, folded refs_def L_def]
  note es = entries_size_iff[OF refs(1), of 0 ?D]
  show ?thesis
  proof (cases "inj_on (elem_bytes codec) (fset (fmdom A))")
    case False
    then show ?thesis
      unfolding marshalORSetPlan_def marshalORSetPlanWithLimits_def Let_def if_Inl_Inr case_sum_pair pe
      using refs(3) by (auto simp: refs_def)
  next
    case True
    note re = refs(4)[OF True]
    define E where "E = int (length (concat (map or_entry_enc (or_entries codec A))))"
    define N where "N = int (\<Sum>e \<in> fset (fmdom A). fcard (tags_at A e))"
    define U where "U = int (UvarintSize (of_nat (fm_size A)))"
    define V where "V = int (UvarintSize (of_nat (fcard T)))"
    define W where "W = int (length (concat (map tag_enc ts)))"
    have len: "int (length (or_enc codec (A, T))) = U + E + V + W"
      by (simp add: or_enc_def U_def E_def V_def W_def UvarintSize_def tag_field.counted_enc_def ts_def)
    have sr: "map (snd \<circ> resolve L) refs = map snd (or_entries codec A)" unfolding re[symmetric] map_map ..
    have N: "int (length (concat (map (snd \<circ> resolve L) refs))) = N" unfolding sr N_def by (rule sum_entries)
    have T: "set (concat (map (snd \<circ> resolve L) refs)) = {t. \<exists>e. t |\<in>| tags_at A e}"
      unfolding sr using tags_entries by blast
    have D0: "0 \<le> MaxTags ?D" by (simp add: DefaultLimits_def)
    have es: "entries_size ?D L refs U 0 = Inr (s, c) \<longleftrightarrow> s = U + E \<and> c = N \<and> N \<le> MaxTags ?D \<and> (refs = [] \<or> s \<le> MaxPayload ?D) \<and>
        (\<forall>e t. t |\<in>| tags_at A e \<longrightarrow> int (length (ReplicaID t)) \<le> MaxStringBytes ?D)" for s c
      unfolding entries_size_iff[OF refs(1) D0] re E_def[symmetric] N T by auto
    have tsz: "N \<le> MaxTags ?D \<Longrightarrow> tags_size ?D ts (U + E + V) N = Inr (s, c) \<longleftrightarrow> s = U + E + V + W \<and> c = N + int (fcard T) \<and>
        N + int (fcard T) \<le> MaxTags ?D \<and> (ts = [] \<or> s \<le> MaxPayload ?D) \<and>
        (\<forall>t. t |\<in>| T \<longrightarrow> int (length (ReplicaID t)) \<le> MaxStringBytes ?D)" for s c
      by (auto simp: tags_size_iff W_def ts_def)
    define B where "B = concat (map or_entry_enc (or_entries codec A))"
    have app: "append_entries L refs (AppendUvarint [] (of_nat (fm_size A))) = Inr (uvarint (of_nat (fm_size A)) @ B)"
      by (simp add: append_entries_eq[OF refs(1)] re AppendUvarint_def B_def del: map_map)
    have pay: "fold (\<lambda>tag payload. AppendTag payload tag) ts (AppendUvarint (uvarint (of_nat (fm_size A)) @ B)
        (of_nat (fcard T))) = or_enc codec (A, T)"
      by (simp add: fold_AppendTag AppendUvarint_def or_enc_def tag_field.counted_enc_def ts_def B_def)
    have sortT: "sort (enum T) = ts" "length ts = fcard T" using enumerates_sort[OF en] by (simp_all add: ts_def)
    have lay: "length (layout enum A 0 keys) = fm_size A" using refs(2) by (simp add: refs_def)
    have total: "int (tag_total (A, T)) = N + int (fcard T)" by (simp add: tag_total_def N_def)
    have mf: "MarshalFrame (frame_of t (bec_id codec) (or_enc codec (A, T))) = Inr data \<Longrightarrow>
        U + E + V + W \<le> MaxPayload ?D \<and> int (length (bec_id codec)) \<le> MaxCodecID ?D"
      unfolding MarshalFrame_iff len by (simp add: DefaultLimits_def)
    have nonneg: "0 \<le> E" "0 \<le> V" "0 \<le> W" "0 \<le> N" by (simp_all add: E_def V_def W_def N_def sum_nonneg)
    have "marshalORSetPlan t codec plan = Inr data \<longleftrightarrow>
        \<not> (blank (bec_id codec) \<or> int (length (bec_id codec)) > MaxCodecID ?D) \<and>
        (\<forall>e. e |\<in>| fmdom A \<longrightarrow> bec_marshal codec e = Inr (elem_bytes codec e) \<and> int (length (elem_bytes codec e)) \<le> MaxStringBytes ?D \<and>
         tags_at A e \<noteq> {||}) \<and> \<not> int (fm_size A) > MaxElements ?D \<and>
        (\<exists>s c. entries_size ?D L refs U 0 = Inr (s, c) \<and> \<not> V > MaxPayload ?D - s \<and>
          (\<exists>s' c'. tags_size ?D ts (s + V) c = Inr (s', c') \<and>
            MarshalFrameWithPayload t (bec_id codec) s' (Some (if int (length (or_enc codec (A, T))) \<noteq> s' then Inl encoding_ErrInvalidFrame
              else Inr (or_enc codec (A, T)))) = Inr data))"
      unfolding marshalORSetPlan_def marshalORSetPlanWithLimits_def Let_def if_Inl_Inr case_sum_pair pe p(3) sortT
      using refs(3) True by (simp add: refs_def[symmetric] lay U_def[symmetric] V_def[symmetric] app pay)
    also have "\<dots> \<longleftrightarrow> \<not> blank (bec_id codec) \<and> int (length (bec_id codec)) \<le> MaxCodecID ?D \<and>
        (\<forall>e. e |\<in>| fmdom A \<longrightarrow> bec_marshal codec e = Inr (elem_bytes codec e) \<and> int (length (elem_bytes codec e)) \<le> MaxStringBytes ?D \<and>
         tags_at A e \<noteq> {||}) \<and> int (fm_size A) \<le> MaxElements ?D \<and> N + int (fcard T) \<le> MaxTags ?D \<and>
        (\<forall>e t. t |\<in>| tags_at A e \<longrightarrow> int (length (ReplicaID t)) \<le> MaxStringBytes ?D) \<and>
        (\<forall>t. t |\<in>| T \<longrightarrow> int (length (ReplicaID t)) \<le> MaxStringBytes ?D) \<and> U + E + V + W \<le> MaxPayload ?D \<and>
        MarshalFrame (frame_of t (bec_id codec) (or_enc codec (A, T))) = Inr data" (is "?l \<longleftrightarrow> ?r")
    proof
      assume ?l
      then obtain s c s' c' where l: "entries_size ?D L refs U 0 = Inr (s, c)" "tags_size ?D ts (s + V) c = Inr (s', c')"
        "MarshalFrameWithPayload t (bec_id codec) s' (Some (if int (length (or_enc codec (A, T))) \<noteq> s' then Inl encoding_ErrInvalidFrame
              else Inr (or_enc codec (A, T)))) = Inr data" by blast
      from l(1) have 1: "s = U + E" "c = N" "N \<le> MaxTags ?D"
        "\<forall>e t. t |\<in>| tags_at A e \<longrightarrow> int (length (ReplicaID t)) \<le> MaxStringBytes ?D" unfolding es by blast+
      from l(2) have 2: "s' = U + E + V + W" "N + int (fcard T) \<le> MaxTags ?D"
        "\<forall>t. t |\<in>| T \<longrightarrow> int (length (ReplicaID t)) \<le> MaxStringBytes ?D" unfolding 1(1,2) tsz[OF 1(3)] by blast+
      from l(3) have "MarshalFrame (frame_of t (bec_id codec) (or_enc codec (A, T))) = Inr data"
        unfolding 2(1) len[symmetric] by (simp add: MarshalFrameWithPayload_exact)
      with \<open>?l\<close> 1 2 mf show ?r by auto
    next
      assume r: ?r
      then have NT: "N \<le> MaxTags ?D" by simp
      have "entries_size ?D L refs U 0 = Inr (U + E, N)" unfolding es using r nonneg NT by auto
      moreover have "tags_size ?D ts (U + E + V) N = Inr (U + E + V + W, N + int (fcard T))"
        unfolding tsz[OF NT] using r by auto
      moreover have "MarshalFrameWithPayload t (bec_id codec) (U + E + V + W) (Some (if int (length (or_enc codec (A, T))) \<noteq> U + E + V + W
          then Inl encoding_ErrInvalidFrame else Inr (or_enc codec (A, T)))) = Inr data"
        unfolding len[symmetric] using r by (simp add: MarshalFrameWithPayload_exact)
      moreover have "\<not> V > MaxPayload ?D - (U + E)" using r nonneg by simp
      ultimately show ?l using r by auto
    qed
    also have "\<dots> \<longleftrightarrow> \<not> blank (bec_id codec) \<and>
        (\<forall>e. e |\<in>| fmdom A \<longrightarrow> bec_marshal codec e = Inr (elem_bytes codec e) \<and> tags_at A e \<noteq> {||}) \<and>
        inj_on (elem_bytes codec) (fset (fmdom A)) \<and> orset_sizes_ok codec ?D (A, T) \<and>
        MarshalFrame (frame_of t (bec_id codec) (or_enc codec (A, T))) = Inr data"
      unfolding orset_sizes_ok_def total using True mf by auto
    finally show ?thesis .
  qed
qed

section \<open>The decoder\<close>

text \<open>
  One element with its tags, read without regard to the rest of the state, is a field of the wire format;
  the loops of the decoder are this field read in ascending order, with the checks across elements added.
\<close>

definition or_field_enc :: "'e boundElementCodec \<Rightarrow> 'e \<times> tag fset \<Rightarrow> byte list" where
  "or_field_enc codec x = elem_enc codec (fst x) @ tag_field.counted_enc (sorted_list_of_fset (snd x))"

definition or_field_ok :: "'e boundElementCodec \<Rightarrow> int \<Rightarrow> 'e \<times> tag fset \<Rightarrow> bool" where
  "or_field_ok codec m x \<longleftrightarrow> elem_ok codec m (fst x) \<and> snd x \<noteq> {||} \<and> int (fcard (snd x)) \<le> max_int \<and>
     (\<forall>t. t |\<in>| snd x \<longrightarrow> tag_ok m t)"

definition read_tag_set :: "int \<Rightarrow> byte list \<Rightarrow> nat \<Rightarrow> (tag fset \<times> nat) option" where
  "read_tag_set m data p = (case ReadUvarint data p of
      None \<Rightarrow> None
    | Some (cnt, q) \<Rightarrow>
        if uint cnt > max_int then None
        else map_option (\<lambda>(ts, q). (fset_of_list ts, q)) (tag_field.read_ascending m (\<lambda>t. t) data (unat cnt) None q))"

definition read_or_field :: "'e boundElementCodec \<Rightarrow> int \<Rightarrow> byte list \<Rightarrow> nat \<Rightarrow> (('e \<times> tag fset) \<times> nat) option" where
  "read_or_field codec m data p = (case read_elem codec m data p of
      None \<Rightarrow> None
    | Some (e, q) \<Rightarrow> (case read_tag_set m data q of
          None \<Rightarrow> None
        | Some (S, q) \<Rightarrow> if S = {||} then None else Some ((e, S), q)))"

definition tag_set_ok :: "int \<Rightarrow> tag fset \<Rightarrow> bool" where
  "tag_set_ok m S \<longleftrightarrow> int (fcard S) \<le> max_int \<and> (\<forall>t. t |\<in>| S \<longrightarrow> tag_ok m t)"

lemma read_tag_set_raw:
  "read_tag_set m data p = Some (S, q) \<longleftrightarrow> (\<exists>cnt n. ReadUvarint data p = Some (cnt, n) \<and> uint cnt \<le> max_int \<and>
     (\<exists>xs. S = fset_of_list xs \<and> tag_field.read_ascending m (\<lambda>t. t) data (unat cnt) None n = Some (xs, q)))"
  by (auto simp: read_tag_set_def not_less split: option.splits if_splits)

lemma read_tag_set_iff:
  "read_tag_set m data p = Some (S, q) \<longleftrightarrow> tag_set_ok m S \<and> at_pos data p (tag_field.counted_enc (sorted_list_of_fset S)) \<and>
     q = p + length (tag_field.counted_enc (sorted_list_of_fset S))"
proof -
  have "read_tag_set m data p = Some (S, q) \<longleftrightarrow> (\<exists>cnt n. ReadUvarint data p = Some (cnt, n) \<and> uint cnt \<le> max_int \<and>
      (\<exists>xs. S = fset_of_list xs \<and> tag_field.read_ascending m (\<lambda>t. t) data (unat cnt) None n = Some (xs, q)))"
    by (rule read_tag_set_raw)
  also have "\<dots> \<longleftrightarrow> (\<exists>xs. S = fset_of_list xs \<and> (\<exists>cnt. at_pos data p (uvarint cnt) \<and> uint cnt \<le> max_int \<and>
      tag_field.read_ascending m (\<lambda>t. t) data (unat cnt) None (p + length (uvarint cnt)) = Some (xs, q)))"
    unfolding ReadUvarint_iff by blast
  also have "\<dots> \<longleftrightarrow> (\<exists>xs. S = fset_of_list xs \<and> (\<forall>x \<in> set xs. tag_ok m x) \<and> sorted_wrt (<) (map (\<lambda>t. t) xs) \<and>
      int (length xs) \<le> max_int \<and> at_pos data p (tag_field.counted_enc xs) \<and> q = p + length (tag_field.counted_enc xs))"
    unfolding tag_field.read_counted by auto
  also have "\<dots> \<longleftrightarrow> (\<forall>x. x |\<in>| S \<longrightarrow> tag_ok m x) \<and> int (length (fs_sorted_by (\<lambda>t. t) S)) \<le> max_int \<and>
      at_pos data p (tag_field.counted_enc (fs_sorted_by (\<lambda>t. t) S)) \<and> q = p + length (tag_field.counted_enc (fs_sorted_by (\<lambda>t. t) S))"
    by (rule ex_sorted_by) simp
  finally show ?thesis by (simp add: tag_set_ok_def conj_ac)
qed

interpretation tag_set_field: wire_field "\<lambda>S. tag_field.counted_enc (sorted_list_of_fset S)" "tag_set_ok m" "read_tag_set m" for m
  by unfold_locales (rule read_tag_set_iff)

lemma read_or_field_iff:
  "read_or_field codec m data p = Some (x, q) \<longleftrightarrow>
     or_field_ok codec m x \<and> at_pos data p (or_field_enc codec x) \<and> q = p + length (or_field_enc codec x)"
proof -
  have "read_or_field codec m data p = Some (x, q) \<longleftrightarrow> (\<exists>n. read_elem codec m data p = Some (fst x, n) \<and>
      read_tag_set m data n = Some (snd x, q) \<and> snd x \<noteq> {||})"
    by (cases x) (auto simp: read_or_field_def split: option.splits if_splits)
  also have "\<dots> \<longleftrightarrow> or_field_ok codec m x \<and> at_pos data p (or_field_enc codec x) \<and> q = p + length (or_field_enc codec x)"
    by (auto simp: read_elem_iff read_tag_set_iff or_field_ok_def or_field_enc_def tag_set_ok_def at_pos_append add.assoc)
  finally show ?thesis .
qed

interpretation or_field: wire_field "or_field_enc codec" "or_field_ok codec m" "read_or_field codec m" for codec m
  by unfold_locales (rule read_or_field_iff)

text \<open>The tag loops.\<close>

lemma tags_loop_eq:
  "tags_loop data m n prev p live tags = Inr (tags', live', q) \<longleftrightarrow>
     (\<exists>ts. tag_field.read_ascending m (\<lambda>t. t) data n prev p = Some (ts, q) \<and> tags' = tags |\<union>| fset_of_list ts \<and>
        live' = live |\<union>| fset_of_list ts \<and> (\<forall>t \<in> set ts. t |\<notin>| live) \<and> distinct ts)"
proof (induction n arbitrary: prev p live tags)
  case 0
  then show ?case by auto
next
  case (Suc n)
  show ?case
  proof (cases "ReadTag data p m")
    case None
    then show ?thesis by simp
  next
    case (Some r)
    obtain t nxt where r: "r = (t, nxt)" by (cases r)
    show ?thesis
    proof (cases "case prev of None \<Rightarrow> False | Some k \<Rightarrow> \<not> k < t")
      case True
      with Some r show ?thesis by (auto split: option.splits)
    next
      case False
      then have nf: "\<not> (case prev of None \<Rightarrow> False | Some k \<Rightarrow> Tag_Compare k t \<ge> 0)" by (auto split: option.splits)
      have "tags_loop data m (Suc n) prev p live tags = Inr (tags', live', q) \<longleftrightarrow> t |\<notin>| live \<and>
          tags_loop data m n (Some t) nxt (finsert t live) (finsert t tags) = Inr (tags', live', q)"
        using Some r nf by auto
      also have "\<dots> \<longleftrightarrow> (\<exists>us. tag_field.read_ascending m (\<lambda>t. t) data n (Some t) nxt = Some (us, q) \<and>
          tags' = tags |\<union>| fset_of_list (t # us) \<and> live' = live |\<union>| fset_of_list (t # us) \<and>
          (\<forall>x \<in> set (t # us). x |\<notin>| live) \<and> distinct (t # us))"
        unfolding Suc.IH by auto
      also have "\<dots> \<longleftrightarrow> (\<exists>ts. tag_field.read_ascending m (\<lambda>t. t) data (Suc n) prev p = Some (ts, q) \<and> tags' = tags |\<union>| fset_of_list ts \<and>
          live' = live |\<union>| fset_of_list ts \<and> (\<forall>t \<in> set ts. t |\<notin>| live) \<and> distinct ts)"
        using Some r False by (auto split: option.splits)
      finally show ?thesis .
    qed
  qed
qed

lemma tombstones_loop_eq:
  "tombstones_loop data m n prev p live tombs = Inr (tombs', q) \<longleftrightarrow>
     (\<exists>ts. tag_field.read_ascending m (\<lambda>t. t) data n prev p = Some (ts, q) \<and> tombs' = tombs |\<union>| fset_of_list ts \<and> (\<forall>t \<in> set ts. t |\<notin>| live))"
proof (induction n arbitrary: prev p tombs)
  case 0
  then show ?case by auto
next
  case (Suc n)
  show ?case
  proof (cases "ReadTag data p m")
    case None
    then show ?thesis by simp
  next
    case (Some r)
    obtain t nxt where r: "r = (t, nxt)" by (cases r)
    from Suc.IH[of "Some t" nxt "finsert t tombs"] Some r show ?thesis
      by (auto split: option.splits)
  qed
qed

text \<open>The tags of one element, with the checks against the state.\<close>

lemma ascending_tags:
  assumes "ReadUvarint data p = Some (cnt, n)" and "tag_field.read_ascending m (\<lambda>t. t) data k None n = Some (ts, q)"
  shows "length ts = k" "distinct ts" "fcard (fset_of_list ts) = k"
proof -
  have "n \<le> length data" using assms(1) by (auto simp: ReadUvarint_iff dest: at_pos_le)
  from tag_field.read_ascending_iff[OF this, of m "\<lambda>t. t" k None ts q] assms(2)
  show len: "length ts = k" and "distinct ts" by (auto simp: strict_sorted_iff)
  then show "fcard (fset_of_list ts) = k" by (simp add: fcard.rep_eq fset_of_list.rep_eq distinct_card)
qed

lemma u64_le_room: "tc \<le> mx \<Longrightarrow> \<not> cnt > mx - tc \<longleftrightarrow> unat tc + unat cnt \<le> unat (mx :: u64)"
  by (auto simp: word_le_nat_alt word_less_nat_alt unat_sub not_less)

lemma tag_part:
  assumes "tagCount \<le> maxTags"
  shows "(case ReadUvarint data p of
      None \<Rightarrow> Inl E
    | Some (cnt, next) \<Rightarrow>
        if cnt = 0 \<or> cnt > maxTags - tagCount then Inl E
        else (case orSetMapCapacity cnt of
            None \<Rightarrow> Inl E
          | Some _ \<Rightarrow> (case tags_loop data m (unat cnt) None next live {||} of
                Inl err \<Rightarrow> Inl err | Inr (tags, live, pos) \<Rightarrow> F tags live pos cnt))) = Inr r \<longleftrightarrow>
    (\<exists>S q. read_tag_set m data p = Some (S, q) \<and> S \<noteq> {||} \<and> unat tagCount + fcard S \<le> unat maxTags \<and>
      (\<forall>t. t |\<in>| S \<longrightarrow> t |\<notin>| live) \<and> F S (live |\<union>| S) q (of_nat (fcard S)) = Inr r)" (is "?l \<longleftrightarrow> ?r")
proof
  assume ?l
  then obtain cnt n tags live' q where l: "ReadUvarint data p = Some (cnt, n)" "cnt \<noteq> 0" "\<not> cnt > maxTags - tagCount"
    "uint cnt \<le> max_int" "tags_loop data m (unat cnt) None n live {||} = Inr (tags, live', q)" "F tags live' q cnt = Inr r"
    by (auto simp: orSetMapCapacity_def not_less split: option.splits if_splits sum.splits)
  from l(5) obtain ts where ts: "tag_field.read_ascending m (\<lambda>t. t) data (unat cnt) None n = Some (ts, q)"
    "tags = fset_of_list ts" "live' = live |\<union>| fset_of_list ts" "\<forall>t \<in> set ts. t |\<notin>| live"
    unfolding tags_loop_eq by auto
  note asc = ascending_tags[OF l(1) ts(1)]
  have "read_tag_set m data p = Some (fset_of_list ts, q)" unfolding read_tag_set_raw using l ts by blast
  moreover have "fset_of_list ts \<noteq> {||}" using asc(3) l(2) by (metis fcard_0_eq unsigned_eq_0_iff)
  moreover have "unat tagCount + fcard (fset_of_list ts) \<le> unat maxTags" using u64_le_room[OF assms] l(3) asc(3) by simp
  ultimately show ?r using l(6) ts asc(3) by (intro exI[of _ "fset_of_list ts"] exI[of _ q]) (simp add: fset_of_list_elem)
next
  assume ?r
  then obtain S q cnt n ts where r: "ReadUvarint data p = Some (cnt, n)" "uint cnt \<le> max_int" "S = fset_of_list ts"
    "tag_field.read_ascending m (\<lambda>t. t) data (unat cnt) None n = Some (ts, q)" "S \<noteq> {||}" "unat tagCount + fcard S \<le> unat maxTags"
    "\<forall>t. t |\<in>| S \<longrightarrow> t |\<notin>| live" "F S (live |\<union>| S) q (of_nat (fcard S)) = Inr r"
    unfolding read_tag_set_raw by blast
  note asc = ascending_tags[OF r(1,4)]
  have "tags_loop data m (unat cnt) None n live {||} = Inr (S, live |\<union>| S, q)"
    unfolding tags_loop_eq using r asc by (auto simp: fset_of_list_elem)
  moreover have "cnt \<noteq> 0" using asc(3) r(3,5) by (metis fcard_0_eq unat_0)
  moreover have "\<not> cnt > maxTags - tagCount" using u64_le_room[OF assms] r(3,6) asc(3) by simp
  moreover have "of_nat (fcard S) = cnt" using asc(3) r(3) by simp
  ultimately show ?l using r by (simp add: orSetMapCapacity_def)
qed

abbreviation field_tags :: "('e \<times> tag fset) list \<Rightarrow> tag list" where
  "field_tags xs \<equiv> concat (map (\<lambda>(e, S). sorted_list_of_fset S) xs)"

text \<open>One round of the element loop.\<close>

lemma adds_loop_step:
  assumes inv: "\<forall>e. e |\<in>| fmdom adds \<longrightarrow> (\<exists>p. prev = Some p \<and> elem_bytes codec e \<le> p)" and tc: "tagCount \<le> maxTags"
  shows "adds_loop codec data m maxTags (Suc n) prev pos adds live tagCount = Inr r \<longleftrightarrow>
    (\<exists>e S q. read_or_field codec m data pos = Some ((e, S), q) \<and> (case prev of None \<Rightarrow> True | Some p \<Rightarrow> p < elem_bytes codec e) \<and>
      unat tagCount + fcard S \<le> unat maxTags \<and> (\<forall>t. t |\<in>| S \<longrightarrow> t |\<notin>| live) \<and>
      adds_loop codec data m maxTags n (Some (elem_bytes codec e)) q (fmupd e S adds) (live |\<union>| S) (tagCount + of_nat (fcard S)) = Inr r)"
proof (cases "read_elem codec m data pos")
  case None
  then have "adds_loop codec data m maxTags (Suc n) prev pos adds live tagCount \<noteq> Inr r"
    by (auto simp: read_elem_def split: option.splits sum.splits if_splits)
  with None show ?thesis by (simp add: read_or_field_def del: adds_loop.simps)
next
  case (Some x)
  obtain e nxt where x: "x = (e, nxt)" by (cases x)
  have e: "ReadBytes data pos m = Some (elem_bytes codec e, nxt)" "elem_stable codec e"
    using Some x read_elem_iff[of codec m data pos e nxt] by (auto simp: ReadBytes_iff elem_ok_def elem_enc_def)
  then have rt: "bec_unmarshal codec (elem_bytes codec e) = Inr e" "bec_marshal codec e = Inr (elem_bytes codec e)"
    by (simp_all add: elem_stable_iff)
  show ?thesis
  proof (cases "case prev of None \<Rightarrow> False | Some p \<Rightarrow> \<not> p < elem_bytes codec e")
    case True
    with Some x e show ?thesis by (auto simp: read_or_field_def split: option.splits)
  next
    case False
    have new: "e |\<notin>| fmdom adds"
    proof
      assume "e |\<in>| fmdom adds"
      then obtain p where "prev = Some p" "elem_bytes codec e \<le> p" using inv by blast
      with False show False by simp
    qed
    have "adds_loop codec data m maxTags (Suc n) prev pos adds live tagCount = Inr r \<longleftrightarrow>
        (\<exists>S q. read_tag_set m data nxt = Some (S, q) \<and> S \<noteq> {||} \<and> unat tagCount + fcard S \<le> unat maxTags \<and> (\<forall>t. t |\<in>| S \<longrightarrow> t |\<notin>| live) \<and>
          adds_loop codec data m maxTags n (Some (elem_bytes codec e)) q (fmupd e S adds) (live |\<union>| S) (tagCount + of_nat (fcard S)) = Inr r)"
      using e False new rt tag_part[OF tc, where data = data and p = nxt and E = encoding_ErrInvalidFrame and m = m and live = live and r = r and
        F = "\<lambda>tags liveTags pos cnt. adds_loop codec data m maxTags n (Some (elem_bytes codec e)) pos (fmupd e tags adds) liveTags (tagCount + cnt)"]
      by simp
    also have "\<dots> \<longleftrightarrow> (\<exists>S q. read_or_field codec m data pos = Some ((e, S), q) \<and> unat tagCount + fcard S \<le> unat maxTags \<and>
        (\<forall>t. t |\<in>| S \<longrightarrow> t |\<notin>| live) \<and>
        adds_loop codec data m maxTags n (Some (elem_bytes codec e)) q (fmupd e S adds) (live |\<union>| S) (tagCount + of_nat (fcard S)) = Inr r)"
      using Some x by (auto simp: read_or_field_def split: option.splits if_splits)
    also have "\<dots> \<longleftrightarrow> (\<exists>e S q. read_or_field codec m data pos = Some ((e, S), q) \<and> (case prev of None \<Rightarrow> True | Some p \<Rightarrow> p < elem_bytes codec e) \<and>
        unat tagCount + fcard S \<le> unat maxTags \<and> (\<forall>t. t |\<in>| S \<longrightarrow> t |\<notin>| live) \<and>
        adds_loop codec data m maxTags n (Some (elem_bytes codec e)) q (fmupd e S adds) (live |\<union>| S) (tagCount + of_nat (fcard S)) = Inr r)"
    proof -
      have "read_or_field codec m data pos = Some ((e', S), q) \<Longrightarrow> e' = e" for e' S q
        using Some x by (auto simp: read_or_field_def split: option.splits if_splits)
      moreover have "case prev of None \<Rightarrow> True | Some p \<Rightarrow> p < elem_bytes codec e" using False by (auto split: option.splits)
      ultimately show ?thesis by (metis (no_types, lifting))
    qed
    finally show ?thesis .
  qed
qed

lemma tags_cons:
  "\<forall>t. t |\<in>| S \<longrightarrow> t |\<notin>| live \<Longrightarrow> L = L' \<Longrightarrow> R = R' \<Longrightarrow>
   (P \<and> L \<and> distinct F \<and> (\<forall>t \<in> set F. t |\<notin>| live |\<union>| S) \<and> R) =
   (P \<and> L' \<and> distinct (sorted_list_of_fset S @ F) \<and> (\<forall>t \<in> set (sorted_list_of_fset S @ F). t |\<notin>| live) \<and> R')"
  by (auto simp: disjoint_iff)

lemma adds_loop_eq:
  "\<forall>e. e |\<in>| fmdom adds \<longrightarrow> (\<exists>p. prev = Some p \<and> elem_bytes codec e \<le> p) \<Longrightarrow> tagCount \<le> maxTags \<Longrightarrow>
   adds_loop codec data m maxTags n prev pos adds live tagCount = Inr (adds', live', tc', q) \<longleftrightarrow>
    (\<exists>xs. or_field.read_ascending codec m (\<lambda>x. elem_bytes codec (fst x)) data n prev pos = Some (xs, q) \<and>
      unat tagCount + length (field_tags xs) \<le> unat maxTags \<and> distinct (field_tags xs) \<and> (\<forall>t \<in> set (field_tags xs). t |\<notin>| live) \<and>
      adds' = fold (\<lambda>(e, S). fmupd e S) xs adds \<and> live' = live |\<union>| fset_of_list (field_tags xs) \<and>
      tc' = tagCount + of_nat (length (field_tags xs)))"
proof (induction n arbitrary: prev pos adds live tagCount)
  case 0
  then show ?case by (auto simp: word_le_nat_alt)
next
  case (Suc n)
  show ?case
  proof (cases "read_or_field codec m data pos")
    case None
    then show ?thesis unfolding adds_loop_step[OF Suc.prems] by simp
  next
    case (Some x)
    obtain e S nxt where x: "x = ((e, S), nxt)" by (cases x) auto
    let ?b = "elem_bytes codec e" and ?tc = "tagCount + of_nat (fcard S)"
    let ?above = "case prev of None \<Rightarrow> True | Some p \<Rightarrow> p < ?b"
    have step: "adds_loop codec data m maxTags (Suc n) prev pos adds live tagCount = Inr (adds', live', tc', q) \<longleftrightarrow>
        ?above \<and> unat tagCount + fcard S \<le> unat maxTags \<and> (\<forall>t. t |\<in>| S \<longrightarrow> t |\<notin>| live) \<and>
        adds_loop codec data m maxTags n (Some ?b) nxt (fmupd e S adds) (live |\<union>| S) ?tc = Inr (adds', live', tc', q)"
      unfolding adds_loop_step[OF Suc.prems] using Some x by auto
    show ?thesis
    proof (cases "?above \<and> unat tagCount + fcard S \<le> unat maxTags \<and> (\<forall>t. t |\<in>| S \<longrightarrow> t |\<notin>| live)")
      case False
      then show ?thesis unfolding step using Some x by (auto split: option.splits if_splits)
    next
      case True
      then have ub: "\<forall>e'. e' |\<in>| fmdom (fmupd e S adds) \<longrightarrow> (\<exists>p. Some ?b = Some p \<and> elem_bytes codec e' \<le> p)"
        using Suc.prems(1) by (auto split: option.splits)
      have u: "unat ?tc = unat tagCount + fcard S"
      proof -
        have "fcard S < 2 ^ 64" using True unat_u64_less[of maxTags] by simp
        then have "unat (of_nat (fcard S) :: u64) = fcard S" by (simp add: unsigned_of_nat take_bit_nat_eq_self)
        moreover have "unat tagCount + fcard S < 2 ^ 64" using True unat_u64_less[of maxTags] by simp
        ultimately show ?thesis by (subst unat_plus_if') simp
      qed
      then have tc: "?tc \<le> maxTags" using True by (simp add: word_le_nat_alt)
      have ra: "or_field.read_ascending codec m (\<lambda>x. elem_bytes codec (fst x)) data (Suc n) prev pos = Some (xs, q) \<longleftrightarrow>
          (\<exists>ys. xs = (e, S) # ys \<and> or_field.read_ascending codec m (\<lambda>x. elem_bytes codec (fst x)) data n (Some ?b) nxt = Some (ys, q))" for xs
        using True Some x by (auto split: option.splits)
      have tags: "field_tags ((e, S) # ys) = sorted_list_of_fset S @ field_tags ys" for ys by simp
      have step': "adds_loop codec data m maxTags (Suc n) prev pos adds live tagCount = Inr (adds', live', tc', q) \<longleftrightarrow>
          adds_loop codec data m maxTags n (Some ?b) nxt (fmupd e S adds) (live |\<union>| S) ?tc = Inr (adds', live', tc', q)"
        unfolding step using True by blast
      let ?R = "\<lambda>ys. or_field.read_ascending codec m (\<lambda>x. elem_bytes codec (fst x)) data n (Some ?b) nxt = Some (ys, q)"
      have "adds_loop codec data m maxTags (Suc n) prev pos adds live tagCount = Inr (adds', live', tc', q) \<longleftrightarrow>
          (\<exists>ys. ?R ys \<and> unat tagCount + length (field_tags ((e, S) # ys)) \<le> unat maxTags \<and> distinct (field_tags ((e, S) # ys)) \<and>
            (\<forall>t \<in> set (field_tags ((e, S) # ys)). t |\<notin>| live) \<and> adds' = fold (\<lambda>(e, S). fmupd e S) ((e, S) # ys) adds \<and>
            live' = live |\<union>| fset_of_list (field_tags ((e, S) # ys)) \<and> tc' = tagCount + of_nat (length (field_tags ((e, S) # ys))))"
        unfolding step' Suc.IH[OF ub tc] u tags using True
        by (intro iff_exI tags_cons) (simp_all add: sup_assoc add.assoc)
      then show ?thesis unfolding ra by blast
    qed
  qed
qed


lemmas adds_loop_fresh = adds_loop_eq[where adds = fmempty and prev = None and tagCount = 0 and live = "{||}", simplified]

lemma tomb_part:
  assumes "tagCount \<le> maxTags"
  shows "(case ReadUvarint data p of
      None \<Rightarrow> Inl E
    | Some (cnt, next) \<Rightarrow>
        if cnt > maxTags - tagCount then Inl E
        else (case orSetMapCapacity cnt of
            None \<Rightarrow> Inl E
          | Some _ \<Rightarrow> (case tombstones_loop data m (unat cnt) None next live {||} of
                Inl err \<Rightarrow> Inl err | Inr (tombs, pos) \<Rightarrow> if pos \<noteq> length data then Inl E else Inr (A, tombs)))) = Inr (B, T) \<longleftrightarrow>
    B = A \<and> read_tag_set m data p = Some (T, length data) \<and> unat tagCount + fcard T \<le> unat maxTags \<and>
      (\<forall>t. t |\<in>| T \<longrightarrow> t |\<notin>| live)" (is "?l \<longleftrightarrow> ?r")
proof
  assume ?l
  then obtain cnt n where l: "ReadUvarint data p = Some (cnt, n)" "\<not> cnt > maxTags - tagCount" "uint cnt \<le> max_int"
    "tombstones_loop data m (unat cnt) None n live {||} = Inr (T, length data)" "B = A"
    by (auto simp: orSetMapCapacity_def not_less split: option.splits if_splits sum.splits)
  from l(4) obtain ts where ts: "tag_field.read_ascending m (\<lambda>t. t) data (unat cnt) None n = Some (ts, length data)"
    "T = fset_of_list ts" "\<forall>t \<in> set ts. t |\<notin>| live"
    unfolding tombstones_loop_eq by auto
  have "read_tag_set m data p = Some (T, length data)" unfolding read_tag_set_raw using l ts by blast
  moreover have "unat tagCount + fcard T \<le> unat maxTags"
    using u64_le_room[OF assms] l(2) ascending_tags(3)[OF l(1) ts(1)] ts(2) by simp
  ultimately show ?r using l(5) ts by (simp add: fset_of_list_elem)
next
  assume r: ?r
  then obtain cnt n ts where ts: "ReadUvarint data p = Some (cnt, n)" "uint cnt \<le> max_int" "T = fset_of_list ts"
    "tag_field.read_ascending m (\<lambda>t. t) data (unat cnt) None n = Some (ts, length data)"
    unfolding read_tag_set_raw by blast
  have "tombstones_loop data m (unat cnt) None n live {||} = Inr (T, length data)"
    unfolding tombstones_loop_eq using r ts by (auto simp: fset_of_list_elem)
  moreover have "\<not> cnt > maxTags - tagCount" using u64_le_room[OF assms] r ts(3) ascending_tags(3)[OF ts(1,4)] by simp
  ultimately show ?l using r ts by (simp add: orSetMapCapacity_def)
qed

definition orset_wire_ok :: "'e::linorder boundElementCodec \<Rightarrow> DecoderLimits \<Rightarrow> 'e orstate \<Rightarrow> bool" where
  "orset_wire_ok codec limits s \<longleftrightarrow> int (fm_size (fst s)) \<le> MaxElements limits \<and> int (tag_total s) \<le> MaxTags limits \<and>
     (\<forall>e S. fmlookup (fst s) e = Some S \<longrightarrow> or_field_ok codec (MaxStringBytes limits) (e, S)) \<and>
     tag_set_ok (MaxStringBytes limits) (snd s) \<and> tags_unique (fst s) \<and> (\<forall>e t. t |\<in>| tags_at (fst s) e \<longrightarrow> t |\<notin>| snd s)"

lemma or_enc_fields:
  "or_enc codec (A, T) = or_field.counted_enc codec (fm_items_by (elem_bytes codec) A) @ tag_field.counted_enc (sorted_list_of_fset T)"
proof -
  have "map or_entry_enc (or_entries codec A) = map (or_field_enc codec) (fm_items_by (elem_bytes codec) A)"
    by (auto simp: fm_items_by_def or_entry_enc_def or_field_enc_def elem_enc_def tags_at_def fmlookup_dom_iff)
  then show ?thesis by (simp add: or_enc_def or_field.counted_enc_def del: map_map)
qed

lemma field_tags_items:
  "t \<in> set (field_tags (fm_items_by key A)) \<longleftrightarrow> (\<exists>e. t |\<in>| tags_at A e)"
  "distinct (field_tags (fm_items_by key A)) \<longleftrightarrow> tags_unique A"
  "length (field_tags (fm_items_by key A)) = (\<Sum>e \<in> fset (fmdom A). fcard (tags_at A e))"
proof -
  have items: "set (fm_items_by key A) = set (fm_items A)" by (simp add: set_fm_items)
  show "t \<in> set (field_tags (fm_items_by key A)) \<longleftrightarrow> (\<exists>e. t |\<in>| tags_at A e)"
    by (auto simp: tags_at_def split: option.splits)
  show "distinct (field_tags (fm_items_by key A)) \<longleftrightarrow> tags_unique A"
    unfolding distinct_all_tags[OF fm_items_by_simps(4)] items by (rule disjoint_tags_unique)
  have "length (field_tags (fm_items_by key A)) = (\<Sum>e \<leftarrow> fs_sorted_by key (fmdom A). fcard (tags_at A e))"
    unfolding length_concat fm_items_by_def map_map
    by (intro arg_cong[of _ _ sum_list] map_cong) (auto simp: tags_at_def fmlookup_dom_iff)
  also have "\<dots> = (\<Sum>e \<in> fset (fmdom A). fcard (tags_at A e))" by (simp add: sum_list_distinct_conv_sum_set)
  finally show "length (field_tags (fm_items_by key A)) = (\<Sum>e \<in> fset (fmdom A). fcard (tags_at A e))" .
qed

lemma word_of_limit:
  assumes "0 < n" and "n \<le> max_int"
  shows "uint (word_of_int n :: u64) = n" "int (unat (word_of_int n :: u64)) = n" "c > (word_of_int n :: u64) \<longleftrightarrow> uint c > n"
proof -
  show u: "uint (word_of_int n :: u64) = n" using assms by (simp add: uint_word_of_int take_bit_int_eq_self)
  then show "int (unat (word_of_int n :: u64)) = n" by simp
  show "c > (word_of_int n :: u64) \<longleftrightarrow> uint c > n" by (simp add: word_less_def u)
qed

lemma unmarshalORSet_payload:
  assumes f: "UnmarshalFrame flate data limits = Inr f" and go: "go_limits limits"
  shows "unmarshalORSetWithCodec flate data t codec limits = Inr (A, T) \<longleftrightarrow> TypeID f = t \<and> CodecID f = bec_id codec \<and>
    (\<exists>cnt. at_pos (Payload f) 0 (uvarint cnt) \<and> uint cnt \<le> MaxElements limits \<and>
      (\<exists>live tc q. adds_loop codec (Payload f) (MaxStringBytes limits) (word_of_int (MaxTags limits)) (unat cnt) None (length (uvarint cnt))
          fmempty {||} 0 = Inr (A, live, tc, q) \<and>
        read_tag_set (MaxStringBytes limits) (Payload f) q = Some (T, length (Payload f)) \<and>
        unat tc + fcard T \<le> unat (word_of_int (MaxTags limits) :: u64) \<and> (\<forall>t. t |\<in>| T \<longrightarrow> t |\<notin>| live)))" (is "?l \<longleftrightarrow> ?r")
proof -
  let ?p = "Payload f" and ?ms = "MaxStringBytes limits" and ?mT = "word_of_int (MaxTags limits) :: u64"
  have pos: "0 < MaxElements limits" "MaxElements limits \<le> max_int" "0 < MaxTags limits"
    using Unmarshal_limits[OF f] go by (auto simp: limits_valid_def go_limits_def)
  have lim: "orSetLimit (MaxElements limits) = Some (word_of_int (MaxElements limits))" "orSetLimit (MaxTags limits) = Some ?mT"
    using pos by (simp_all add: orSetLimit_def)
  have cap: "uint cnt \<le> MaxElements limits \<Longrightarrow> orSetMapCapacity cnt = Some (unat cnt)" for cnt
    using pos by (simp add: orSetMapCapacity_def)
  have tc: "tc \<le> ?mT" if "adds_loop codec ?p ?ms ?mT n None q0 fmempty {||} 0 = Inr (A', live, tc, q)" for n q0 A' live tc q
  proof -
    from that obtain k where k: "k \<le> unat ?mT" "tc = of_nat k" unfolding adds_loop_fresh by blast
    then have "unat tc = k" using unat_u64_less[of ?mT] by (simp add: unsigned_of_nat take_bit_nat_eq_self)
    with k show ?thesis by (simp add: word_le_nat_alt)
  qed
  have step: "unmarshalORSetWithCodec flate data t codec limits = Inr (A, T) \<longleftrightarrow> TypeID f = t \<and> CodecID f = bec_id codec \<and>
      (\<exists>cnt. at_pos ?p 0 (uvarint cnt) \<and> \<not> cnt > word_of_int (MaxElements limits) \<and>
        (case orSetMapCapacity cnt of None \<Rightarrow> Inl encoding_ErrInvalidFrame | Some _ \<Rightarrow>
          (case adds_loop codec ?p ?ms ?mT (unat cnt) None (length (uvarint cnt)) fmempty {||} 0 of
             Inl err \<Rightarrow> Inl err
           | Inr (adds, liveTags, tagCount, pos) \<Rightarrow>
               (case ReadUvarint ?p pos of
                 None \<Rightarrow> Inl encoding_ErrInvalidFrame
               | Some (tombstoneCount, next) \<Rightarrow>
                   if tombstoneCount > ?mT - tagCount then Inl encoding_ErrInvalidFrame
                   else (case orSetMapCapacity tombstoneCount of
                       None \<Rightarrow> Inl encoding_ErrInvalidFrame
                     | Some _ \<Rightarrow> (case tombstones_loop ?p ?ms (unat tombstoneCount) None next liveTags {||} of
                           Inl err \<Rightarrow> Inl err
                         | Inr (tombstones, pos) \<Rightarrow>
                             if pos \<noteq> length ?p then Inl encoding_ErrInvalidFrame else Inr (adds, tombstones)))))) = Inr (A, T))"
    unfolding unmarshalORSetWithCodec_def f sum.case lim prod.case option.case if_Inl_Inr uvarint_field.case_read add_0 by simp
  have inner: "(case adds_loop codec ?p ?ms ?mT n None q0 fmempty {||} 0 of
             Inl err \<Rightarrow> Inl err
           | Inr (adds, liveTags, tagCount, pos) \<Rightarrow>
               (case ReadUvarint ?p pos of
                 None \<Rightarrow> Inl encoding_ErrInvalidFrame
               | Some (tombstoneCount, next) \<Rightarrow>
                   if tombstoneCount > ?mT - tagCount then Inl encoding_ErrInvalidFrame
                   else (case orSetMapCapacity tombstoneCount of
                       None \<Rightarrow> Inl encoding_ErrInvalidFrame
                     | Some _ \<Rightarrow> (case tombstones_loop ?p ?ms (unat tombstoneCount) None next liveTags {||} of
                           Inl err \<Rightarrow> Inl err
                         | Inr (tombstones, pos) \<Rightarrow>
                             if pos \<noteq> length ?p then Inl encoding_ErrInvalidFrame else Inr (adds, tombstones))))) = Inr (A, T) \<longleftrightarrow>
      (\<exists>live tc q. adds_loop codec ?p ?ms ?mT n None q0 fmempty {||} 0 = Inr (A, live, tc, q) \<and>
        read_tag_set ?ms ?p q = Some (T, length ?p) \<and> unat tc + fcard T \<le> unat ?mT \<and> (\<forall>t. t |\<in>| T \<longrightarrow> t |\<notin>| live))" for n q0
  proof (cases "adds_loop codec ?p ?ms ?mT n None q0 fmempty {||} 0")
    case (Inr r)
    obtain A' live tc0 q where r: "r = (A', live, tc0, q)" by (cases r) auto
    show ?thesis unfolding Inr r sum.case prod.case tomb_part[OF tc[OF Inr[unfolded r]]] by auto
  qed simp
  show ?thesis
    unfolding step word_of_limit(3)[OF pos(1,2)] not_less by (intro conj_cong refl iff_exI) (simp add: cap inner)
qed

lemma unmarshalORSetWithCodec_iff:
  assumes go: "go_limits limits"
  shows "unmarshalORSetWithCodec flate data t codec limits = Inr s \<longleftrightarrow>
    (\<exists>f. UnmarshalFrame flate data limits = Inr f \<and> TypeID f = t \<and> CodecID f = bec_id codec \<and> Payload f = or_enc codec s \<and>
       orset_wire_ok codec limits s)"
proof (cases "UnmarshalFrame flate data limits")
  case (Inl e)
  then show ?thesis by (simp add: unmarshalORSetWithCodec_def)
next
  case (Inr f)
  obtain A T where s: "s = (A, T)" by (cases s)
  let ?p = "Payload f" and ?ms = "MaxStringBytes limits" and ?mT = "word_of_int (MaxTags limits) :: u64" and ?k = "elem_bytes codec"
  have pos: "0 < MaxTags limits" "MaxTags limits \<le> max_int" "MaxElements limits \<le> max_int"
    using Unmarshal_limits[OF Inr] go by (auto simp: limits_valid_def go_limits_def)
  have mT: "unat ?mT = nat (MaxTags limits)" using arg_cong[OF word_of_limit(2)[OF pos(1,2)], of nat] by (simp only: nat_int)
  let ?P = "\<lambda>xs q. length (field_tags xs) \<le> unat ?mT \<and> distinct (field_tags xs) \<and>
      read_tag_set ?ms ?p q = Some (T, length ?p) \<and> length (field_tags xs) + fcard T \<le> unat ?mT \<and> (\<forall>t. t |\<in>| T \<longrightarrow> t \<notin> set (field_tags xs))"
  have tc: "length (field_tags xs) \<le> unat ?mT \<Longrightarrow> unat (of_nat (length (field_tags xs)) :: u64) = length (field_tags xs)" for xs :: "('a \<times> tag fset) list"
    using unat_u64_less[of ?mT] by (simp add: unsigned_of_nat take_bit_nat_eq_self)
  have "unmarshalORSetWithCodec flate data t codec limits = Inr s \<longleftrightarrow> TypeID f = t \<and> CodecID f = bec_id codec \<and>
      (\<exists>xs q. (\<exists>cnt. at_pos ?p 0 (uvarint cnt) \<and> uint cnt \<le> MaxElements limits \<and>
        or_field.read_ascending codec ?ms (\<lambda>x. ?k (fst x)) ?p (unat cnt) None (0 + length (uvarint cnt)) = Some (xs, q)) \<and>
        A = fold (\<lambda>(e, S). fmupd e S) xs fmempty \<and> ?P xs q)"
  proof -
    have "(\<exists>live tc q. (\<exists>xs. R xs q \<and> length (field_tags xs) \<le> unat ?mT \<and> distinct (field_tags xs) \<and> A = fold (\<lambda>(e, S). fmupd e S) xs fmempty \<and>
          live = fset_of_list (field_tags xs) \<and> tc = of_nat (length (field_tags xs))) \<and>
        read_tag_set ?ms ?p q = Some (T, length ?p) \<and> unat (tc :: u64) + fcard T \<le> unat ?mT \<and> (\<forall>t. t |\<in>| T \<longrightarrow> t |\<notin>| live)) \<longleftrightarrow>
      (\<exists>xs q. R xs q \<and> A = fold (\<lambda>(e, S). fmupd e S) xs fmempty \<and> ?P xs q)" (is "?L \<longleftrightarrow> ?R") for R
    proof
      assume ?L
      then obtain xs q where "R xs q" "A = fold (\<lambda>(e, S). fmupd e S) xs fmempty" "length (field_tags xs) \<le> unat ?mT" "distinct (field_tags xs)"
        "read_tag_set ?ms ?p q = Some (T, length ?p)" "unat (of_nat (length (field_tags xs)) :: u64) + fcard T \<le> unat ?mT"
        "\<forall>t. t |\<in>| T \<longrightarrow> t |\<notin>| fset_of_list (field_tags xs)" by blast
      then show ?R using tc[of xs] unfolding fset_of_list_elem by (intro exI[of _ xs] exI[of _ q]) simp
    next
      assume ?R
      then obtain xs q where r: "R xs q" "A = fold (\<lambda>(e, S). fmupd e S) xs fmempty" "?P xs q" by blast
      then have "unat (of_nat (length (field_tags xs)) :: u64) + fcard T \<le> unat ?mT"
        "\<forall>t. t |\<in>| T \<longrightarrow> t |\<notin>| fset_of_list (field_tags xs)" using tc[of xs] unfolding fset_of_list_elem by simp_all
      with r show ?L by blast
    qed
    note swap = this
    show ?thesis unfolding s unmarshalORSet_payload[OF Inr go] adds_loop_fresh swap add_0 by blast
  qed
  also have "\<dots> \<longleftrightarrow> TypeID f = t \<and> CodecID f = bec_id codec \<and> (\<exists>xs. A = fmap_of_list xs \<and> (\<forall>x \<in> set xs. or_field_ok codec ?ms x) \<and>
      sorted_wrt (<) (map (\<lambda>x. ?k (fst x)) xs) \<and>
      int (length xs) \<le> MaxElements limits \<and> at_pos ?p 0 (or_field.counted_enc codec xs) \<and> ?P xs (length (or_field.counted_enc codec xs)))"
  proof -
    have "(\<exists>xs q. (\<exists>cnt. at_pos ?p 0 (uvarint cnt) \<and> uint cnt \<le> MaxElements limits \<and>
        or_field.read_ascending codec ?ms (\<lambda>x. ?k (fst x)) ?p (unat cnt) None (0 + length (uvarint cnt)) = Some (xs, q)) \<and>
        A = fold (\<lambda>(e, S). fmupd e S) xs fmempty \<and> Q xs q) \<longleftrightarrow>
      (\<exists>xs. A = fmap_of_list xs \<and> (\<forall>x \<in> set xs. or_field_ok codec ?ms x) \<and> sorted_wrt (<) (map (\<lambda>x. ?k (fst x)) xs) \<and>
        int (length xs) \<le> MaxElements limits \<and> at_pos ?p 0 (or_field.counted_enc codec xs) \<and> Q xs (length (or_field.counted_enc codec xs)))" for Q
    proof -
      have "distinct (map fst xs)" if "sorted_wrt (<) (map (\<lambda>x. ?k (fst x)) xs)" for xs :: "('a \<times> tag fset) list"
        using that distinct_map[of ?k "map fst xs"] by (simp add: strict_sorted_iff comp_def)
      then have fold: "sorted_wrt (<) (map (\<lambda>x. ?k (fst x)) xs) \<Longrightarrow> fold (\<lambda>(e, S). fmupd e S) xs fmempty = fmap_of_list xs" for xs :: "('a \<times> tag fset) list"
        by (rule fold_fmupd_of_list)
      have "int (length xs) \<le> MaxElements limits \<Longrightarrow> length xs < 2 ^ 64" for xs :: "('a \<times> tag fset) list" using pos(3) by simp
      with fold show ?thesis unfolding or_field.read_counted by (auto; metis)
    qed
    then show ?thesis by simp
  qed
  also have "\<dots> \<longleftrightarrow> TypeID f = t \<and> CodecID f = bec_id codec \<and> (\<forall>e S. fmlookup A e = Some S \<longrightarrow> or_field_ok codec ?ms (e, S)) \<and>
      int (length (fm_items_by ?k A)) \<le> MaxElements limits \<and> at_pos ?p 0 (or_field.counted_enc codec (fm_items_by ?k A)) \<and>
      ?P (fm_items_by ?k A) (length (or_field.counted_enc codec (fm_items_by ?k A)))"
  proof -
    have "inj_on ?k (fset (fmdom A))" if "\<forall>e S. fmlookup A e = Some S \<longrightarrow> or_field_ok codec ?ms (e, S)"
    proof (rule inj_onI)
      fix x y assume "x \<in> fset (fmdom A)" "y \<in> fset (fmdom A)" "?k x = ?k y"
      moreover from this that have "elem_stable codec x" "elem_stable codec y"
        by (auto simp: fmlookup_dom_iff or_field_ok_def elem_ok_def)
      ultimately show "x = y" by (simp add: elem_bytes_inject)
    qed
    from ex_sorted_items[OF this] show ?thesis by simp
  qed
  also have "\<dots> \<longleftrightarrow> TypeID f = t \<and> CodecID f = bec_id codec \<and> ?p = or_enc codec s \<and> orset_wire_ok codec limits s"
  proof -
    let ?X = "or_field.counted_enc codec (fm_items_by ?k A)" and ?Y = "tag_field.counted_enc (sorted_list_of_fset T)"
    have bytes: "at_pos ?p 0 ?X \<and> at_pos ?p (length ?X) ?Y \<and> length ?p = length ?X + length ?Y \<longleftrightarrow> ?p = or_enc codec s"
      unfolding s or_enc_fields using at_pos_0_whole[of ?p "?X @ ?Y"] by (auto simp: at_pos_append)
    have total: "(\<Sum>e \<in> fset (fmdom A). fcard (tags_at A e)) + fcard T \<le> unat ?mT \<longleftrightarrow> int (tag_total s) \<le> MaxTags limits"
      unfolding mT s tag_total_def fst_conv snd_conv by (rule le_nat_iff) (use pos(1) in simp)
    show ?thesis
      unfolding field_tags_items read_tag_set_iff bytes[symmetric] orset_wire_ok_def total[symmetric] fm_items_by_simps(2)
      by (auto simp: s)
  qed
  finally show ?thesis using Inr by auto
qed

end
