(* ===== verification/ORSets.thy ===== *)
theory ORSets
  imports ORCodec
begin

text \<open>
  The observed-remove, add-wins set of \<open>src/set/orset.go\<close>. The methods that read the physical clock take
  its reading as an argument, as in \<open>Clock\<close>. A call of \<open>Merge\<close> holds both locks, so it is one step.
\<close>

abbreviation set_ErrNilORSet :: go_error where
  "set_ErrNilORSet \<equiv> errors_New ''set: nil OR-Set''"

abbreviation set_ErrInvalidFrontier :: go_error where
  "set_ErrInvalidFrontier \<equiv> errors_New ''set: invalid frontier''"

abbreviation set_ErrInvalidSnapshot :: go_error where
  "set_ErrInvalidSnapshot \<equiv> errors_New ''set: invalid OR-Set snapshot''"

record 'e ORSet =
  os_replicaID :: gostring
  os_clock :: "HLC option"
  os_codec :: "'e boundElementCodec"
  os_elements :: "'e adds"
  os_tombstones :: "tag fset"

record 'e ORSetDelta =
  od_adds :: "'e adds"
  od_tombstones :: "tag fset"

definition NewORSetFromClock :: "clock_State \<Rightarrow> 'e ElementCodec option \<Rightarrow> 'e ORSet res" where
  "NewORSetFromClock clockState codec = (case bindElementCodec codec of
      Inl err \<Rightarrow> Inl err
    | Inr bound \<Rightarrow> (case NewHLCFromState clockState of
          Inl err \<Rightarrow> Inl err
        | Inr hlc \<Rightarrow> Inr \<lparr>os_replicaID = st_ReplicaID clockState, os_clock = Some hlc, os_codec = bound,
                         os_elements = fmempty, os_tombstones = {||}\<rparr>))"

definition NewORSet :: "gostring \<Rightarrow> 'e ElementCodec option \<Rightarrow> 'e ORSet res" where
  "NewORSet replicaID codec = NewORSetFromClock \<lparr>st_ReplicaID = replicaID, st_WallTime = 0, st_Logical = 0\<rparr> codec"

definition ORSet_ClockState :: "'e ORSet option \<Rightarrow> clock_State" where
  "ORSet_ClockState s = HLC_Snapshot (Option.bind s os_clock)"

definition ORSet_Frontier :: "'e::linorder ORSet option \<Rightarrow> (gostring, tag) fmap option" where
  "ORSet_Frontier s = map_option (\<lambda>s. frontierForState (os_elements s) (os_tombstones s)) s"

definition ORSet_TombstoneTags :: "'e ORSet option \<Rightarrow> tag list" where
  "ORSet_TombstoneTags s = (case s of None \<Rightarrow> [] | Some s \<Rightarrow> tagsToSortedSlice (os_tombstones s))"

definition ORSet_Add :: "'e ORSet option \<Rightarrow> 'e \<Rightarrow> int option \<Rightarrow> 'e ORSet option \<times> 'e ORSetDelta res" where
  "ORSet_Add s element now = (case s of
      None \<Rightarrow> (None, Inl set_ErrNilORSet)
    | Some s \<Rightarrow> (case HLC_Now (os_clock s) now of
          (clock, Inl err) \<Rightarrow> (Some (s\<lparr>os_clock := clock\<rparr>), Inl err)
        | (clock, Inr tag) \<Rightarrow>
            (let s = s\<lparr>os_clock := clock\<rparr> in
             if tag |\<in>| os_tombstones s then (Some s, Inl set_ErrInvalidDelta)
             else (Some (s\<lparr>os_elements := fmupd element (finsert tag (tags_at (os_elements s) element)) (os_elements s)\<rparr>),
                   Inr \<lparr>od_adds = fmupd element {|tag|} fmempty, od_tombstones = {||}\<rparr>))))"

definition ORSet_Remove :: "'e ORSet option \<Rightarrow> 'e \<Rightarrow> 'e ORSet option \<times> 'e ORSetDelta res" where
  "ORSet_Remove s element = (case s of
      None \<Rightarrow> (None, Inl set_ErrNilORSet)
    | Some s \<Rightarrow>
        (let observed = tags_at (os_elements s) element in
         if fcard observed = 0 then (Some s, Inr \<lparr>od_adds = fmempty, od_tombstones = {||}\<rparr>)
         else (Some (s\<lparr>os_tombstones := fold finsert (sorted_list_of_fset observed) (os_tombstones s),
                      os_elements := fmdrop element (os_elements s)\<rparr>),
               Inr \<lparr>od_adds = fmempty, od_tombstones = fold finsert (sorted_list_of_fset observed) {||}\<rparr>)))"

text \<open>The body of the loop of \<open>Compact\<close>, on the tombstones left and the number removed.\<close>

definition compact_tag :: "(tag \<Rightarrow> bool) \<Rightarrow> tag \<Rightarrow> tag fset \<times> nat \<Rightarrow> tag fset \<times> nat" where
  "compact_tag acked tag r = (if acked tag then (fst r |-| {|tag|}, snd r + 1) else r)"

definition ORSet_Compact :: "'e ORSet option \<Rightarrow> (gostring, tag) fmap \<Rightarrow> 'e ORSet option \<times> nat res" where
  "ORSet_Compact s stableFrontier = (case s of
      None \<Rightarrow> (None, Inl set_ErrNilORSet)
    | Some s \<Rightarrow>
        if \<not> validFrontier stableFrontier then (Some s, Inl set_ErrInvalidFrontier)
        else
          (let (tombstones, removed) = fold (compact_tag (\<lambda>tag. case fmlookup stableFrontier (ReplicaID tag) of
                   None \<Rightarrow> False | Some acknowledged \<Rightarrow> Tag_Compare tag acknowledged \<le> 0))
                 (sorted_list_of_fset (os_tombstones s)) (os_tombstones s, 0)
           in (Some (s\<lparr>os_tombstones := tombstones\<rparr>), Inr removed)))"

definition drop_tombstone :: "tag \<Rightarrow> tag fset \<times> nat \<Rightarrow> tag fset \<times> nat" where
  "drop_tombstone tag r = (if tag |\<in>| fst r then (fst r |-| {|tag|}, snd r + 1) else r)"

definition ORSet_CompactTombstones :: "'e ORSet option \<Rightarrow> tag list \<Rightarrow> 'e ORSet option \<times> nat res" where
  "ORSet_CompactTombstones s acknowledged = (case s of
      None \<Rightarrow> (None, Inl set_ErrNilORSet)
    | Some s \<Rightarrow>
        if \<not> list_all Tag_Valid acknowledged then (Some s, Inl set_ErrInvalidFrontier)
        else
          (let (tombstones, removed) = fold drop_tombstone acknowledged (os_tombstones s, 0)
           in (Some (s\<lparr>os_tombstones := tombstones\<rparr>), Inr removed)))"

definition ORSet_Contains :: "'e ORSet option \<Rightarrow> 'e \<Rightarrow> bool" where
  "ORSet_Contains s element = (case s of None \<Rightarrow> False | Some s \<Rightarrow> fcard (tags_at (os_elements s) element) > 0)"

definition ORSet_Elements :: "'e::linorder ORSet option \<Rightarrow> 'e list" where
  "ORSet_Elements s = (case s of None \<Rightarrow> [] | Some s \<Rightarrow> fm_keys (os_elements s))"

text \<open>The last part of \<open>Merge\<close>, \<open>ApplyDelta\<close>: witness the greatest tag of the source, then join.\<close>

definition witness_join :: "'e::linorder ORSet \<Rightarrow> 'e adds \<Rightarrow> tag fset \<Rightarrow> int option \<Rightarrow> 'e ORSet option \<times> unit res" where
  "witness_join s adds tombstones now =
     (case (case greatestStateTag adds tombstones of
              None \<Rightarrow> (os_clock s, Inr ()) | Some tag \<Rightarrow> HLC_Witness (os_clock s) tag now) of
        (clock, Inl err) \<Rightarrow> (Some (s\<lparr>os_clock := clock\<rparr>), Inl err)
      | (clock, Inr _) \<Rightarrow>
          (let (elements, tombs) = joinState (os_elements s) (os_tombstones s) adds tombstones
           in (Some (s\<lparr>os_clock := clock, os_elements := elements, os_tombstones := tombs\<rparr>), Inr ())))"

definition ORSet_Merge :: "'e::linorder ORSet option \<Rightarrow> 'e ORSet option \<Rightarrow> int option \<Rightarrow> 'e ORSet option \<times> unit res" where
  "ORSet_Merge s other now = (case (s, other) of
      (Some s, Some other) \<Rightarrow>
        if bec_id (os_codec s) \<noteq> bec_id (os_codec other) then (Some s, Inl set_ErrCodecMismatch)
        else (case or_validateState (os_elements other) (os_tombstones other) of
            Inl err \<Rightarrow> (Some s, Inl err)
          | Inr _ \<Rightarrow>
              if subsumesState (os_elements s) (os_tombstones s) (os_elements other) (os_tombstones other) then (Some s, Inr ())
              else witness_join s (os_elements other) (os_tombstones other) now)
    | _ \<Rightarrow> (s, Inl set_ErrNilORSet))"

definition ORSet_ApplyDelta :: "'e::linorder ORSet option \<Rightarrow> 'e ORSetDelta \<Rightarrow> int option \<Rightarrow> 'e ORSet option \<times> unit res" where
  "ORSet_ApplyDelta s delta now = (case s of
      None \<Rightarrow> (None, Inl set_ErrNilORSet)
    | Some s \<Rightarrow> (case validateDeltaState (od_adds delta) (od_tombstones delta) of
          Inl err \<Rightarrow> (Some s, Inl err)
        | Inr _ \<Rightarrow>
            if subsumesState (os_elements s) (os_tombstones s) (od_adds delta) (od_tombstones delta) then (Some s, Inr ())
            else witness_join s (od_adds delta) (od_tombstones delta) now))"

definition ORSetDelta_Merge :: "'e::linorder ORSetDelta \<Rightarrow> 'e ORSetDelta \<Rightarrow> 'e ORSetDelta res" where
  "ORSetDelta_Merge d other = (case validateDeltaState (od_adds d) (od_tombstones d) of
      Inl err \<Rightarrow> Inl err
    | Inr _ \<Rightarrow> (case validateDeltaState (od_adds other) (od_tombstones other) of
          Inl err \<Rightarrow> Inl err
        | Inr _ \<Rightarrow>
            (let (adds, tombstones) = joinState (cloneAdds (od_adds d)) (cloneTags (od_tombstones d)) (od_adds other) (od_tombstones other)
             in Inr \<lparr>od_adds = adds, od_tombstones = tombstones\<rparr>)))"

definition ORSet_State :: "'e ORSet option \<Rightarrow> StateSnapshot" where
  "ORSet_State s = (case s of
      None \<Rightarrow> \<lparr>snap_Type = ''orset'', snap_ReplicaID = [], snap_ElementCount = 0, snap_TombstoneCount = 0\<rparr>
    | Some s \<Rightarrow> \<lparr>snap_Type = ''orset'', snap_ReplicaID = os_replicaID s, snap_ElementCount = fm_size (os_elements s),
                snap_TombstoneCount = fcard (os_tombstones s)\<rparr>)"

definition os_plan :: "'e::linorder ORSet \<Rightarrow> 'e orSetMarshalPlan res" where
  "os_plan s = newORSetMarshalPlan (fm_keys (os_elements s)) sorted_list_of_fset (os_elements s) (os_tombstones s)"

definition ORSet_MarshalBinary :: "'e::linorder ORSet option \<Rightarrow> byte list res" where
  "ORSet_MarshalBinary s = (case s of
      None \<Rightarrow> Inl set_ErrNilORSet
    | Some s \<Rightarrow> (case os_plan s of
          Inl err \<Rightarrow> Inl err | Inr plan \<Rightarrow> marshalORSetPlan TypeIDORSetState (os_codec s) plan))"

definition MarshalBinaryWithClockState :: "'e::linorder ORSet option \<Rightarrow> (byte list \<times> clock_State) res" where
  "MarshalBinaryWithClockState s = (case s of
      None \<Rightarrow> Inl set_ErrNilORSet
    | Some s \<Rightarrow>
        if os_clock s = None then Inl set_ErrNilORSet
        else (case os_plan s of
            Inl err \<Rightarrow> Inl err
          | Inr plan \<Rightarrow> (case marshalORSetPlan TypeIDORSetState (os_codec s) plan of
                Inl err \<Rightarrow> Inl err | Inr encoded \<Rightarrow> Inr (encoded, HLC_Snapshot (os_clock s)))))"

definition ORSet_Snapshot :: "inflater \<Rightarrow> 'e::linorder ORSet option \<Rightarrow> frontier \<Rightarrow> Snapshot res" where
  "ORSet_Snapshot flate s frontier = (case MarshalBinaryWithClockState s of
      Inl err \<Rightarrow> Inl err | Inr (state, clockState) \<Rightarrow> NewWithClockState flate state frontier clockState)"

definition frontierForORSetMarshalPlan :: "'e orSetMarshalPlan \<Rightarrow> frontier" where
  "frontierForORSetMarshalPlan plan = fold note_frontier (pl_tombstones plan) (fold note_frontier (pl_liveTags plan) fmempty)"

definition SnapshotCurrentState :: "inflater \<Rightarrow> 'e::linorder ORSet option \<Rightarrow> Snapshot res" where
  "SnapshotCurrentState flate s = (case s of
      None \<Rightarrow> Inl set_ErrNilORSet
    | Some s \<Rightarrow>
        if os_clock s = None then Inl set_ErrNilORSet
        else (case os_plan s of
            Inl err \<Rightarrow> Inl err
          | Inr plan \<Rightarrow> (case marshalORSetPlan TypeIDORSetState (os_codec s) plan of
                Inl err \<Rightarrow> Inl err
              | Inr state \<Rightarrow> NewWithClockState flate state (frontierForORSetMarshalPlan plan) (HLC_Snapshot (os_clock s)))))"

definition ORSetDelta_MarshalBinary :: "'e::linorder ORSetDelta \<Rightarrow> 'e ElementCodec option \<Rightarrow> byte list res" where
  "ORSetDelta_MarshalBinary d codec = marshalORSet TypeIDORSetDelta codec (od_adds d) (od_tombstones d)"

definition UnmarshalORSetDeltaWithLimits :: "inflater \<Rightarrow> byte list \<Rightarrow> 'e ElementCodec option \<Rightarrow> DecoderLimits \<Rightarrow> 'e ORSetDelta res" where
  "UnmarshalORSetDeltaWithLimits flate data codec limits = (case unmarshalORSet flate data TypeIDORSetDelta codec limits of
      Inl err \<Rightarrow> Inl err | Inr (adds, tombstones) \<Rightarrow> Inr \<lparr>od_adds = adds, od_tombstones = tombstones\<rparr>)"

definition UnmarshalORSetDelta :: "inflater \<Rightarrow> byte list \<Rightarrow> 'e ElementCodec option \<Rightarrow> 'e ORSetDelta res" where
  "UnmarshalORSetDelta flate data codec = UnmarshalORSetDeltaWithLimits flate data codec DefaultLimits"

definition ORSet_UnmarshalBinaryWithLimits ::
    "inflater \<Rightarrow> 'e::linorder ORSet option \<Rightarrow> byte list \<Rightarrow> DecoderLimits \<Rightarrow> int option \<Rightarrow> 'e ORSet option \<times> unit res" where
  "ORSet_UnmarshalBinaryWithLimits flate s data limits now = (case s of
      None \<Rightarrow> (None, Inl set_ErrNilORSet)
    | Some s \<Rightarrow> (case unmarshalORSetWithCodec flate data TypeIDORSetState (os_codec s) limits of
          Inl err \<Rightarrow> (Some s, Inl err)
        | Inr (adds, tombstones) \<Rightarrow>
            (case (case greatestStateTag adds tombstones of
                     None \<Rightarrow> (os_clock s, Inr ()) | Some tag \<Rightarrow> HLC_Witness (os_clock s) tag now) of
               (clock, Inl err) \<Rightarrow> (Some (s\<lparr>os_clock := clock\<rparr>), Inl err)
             | (clock, Inr _) \<Rightarrow> (Some (s\<lparr>os_clock := clock, os_elements := adds, os_tombstones := tombstones\<rparr>), Inr ()))))"

definition ORSet_UnmarshalBinary :: "inflater \<Rightarrow> 'e::linorder ORSet option \<Rightarrow> byte list \<Rightarrow> int option \<Rightarrow> 'e ORSet option \<times> unit res" where
  "ORSet_UnmarshalBinary flate s data now = ORSet_UnmarshalBinaryWithLimits flate s data DefaultLimits now"

text \<open>Restoring reads the physical clock twice: for the state and for the frontier.\<close>

definition NewORSetFromSnapshot ::
    "inflater \<Rightarrow> Snapshot \<Rightarrow> 'e::linorder ElementCodec option \<Rightarrow> int option \<Rightarrow> int option \<Rightarrow> 'e ORSet res" where
  "NewORSetFromSnapshot flate saved codec now now' =
     (if ss_TypeID saved \<noteq> TypeIDORSetState then Inl set_ErrInvalidSnapshot
      else (case Snapshot_ClockState saved of
          None \<Rightarrow> Inl set_ErrInvalidSnapshot
        | Some clockState \<Rightarrow> (case NewORSetFromClock clockState codec of
              Inl err \<Rightarrow> Inl err
            | Inr restored \<Rightarrow> (case ORSet_UnmarshalBinary flate (Some restored) (Snapshot_Bytes saved) now of
                  (_, Inl err) \<Rightarrow> Inl err
                | (None, Inr _) \<Rightarrow> Inl set_ErrNilORSet
                | (Some restored, Inr _) \<Rightarrow> (case greatestFrontierTag (Snapshot_Frontier saved) of
                      None \<Rightarrow> Inr restored
                    | Some tag \<Rightarrow> (case HLC_Witness (os_clock restored) tag now' of
                          (_, Inl err) \<Rightarrow> Inl err
                        | (clock, Inr _) \<Rightarrow> Inr (restored\<lparr>os_clock := clock\<rparr>)))))))"

section \<open>The invariant\<close>

abbreviation os_state :: "'e ORSet \<Rightarrow> 'e orstate" where
  "os_state s \<equiv> (os_elements s, os_tombstones s)"

abbreviation od_state :: "'e ORSetDelta \<Rightarrow> 'e orstate" where
  "od_state d \<equiv> (od_adds d, od_tombstones d)"

definition has_tag :: "'e orstate \<Rightarrow> tag \<Rightarrow> bool" where
  "has_tag s t \<longleftrightarrow> (\<exists>e. t |\<in>| tags_at (fst s) e) \<or> t |\<in>| snd s"

text \<open>The clock is that of the replica and stands at or after every tag of the state.\<close>

definition clock_covers :: "HLC option \<Rightarrow> gostring \<Rightarrow> 'e orstate \<Rightarrow> bool" where
  "clock_covers c replicaID s \<longleftrightarrow> (\<exists>h. c = Some h \<and> hlc_inv h \<and> hlc_replicaID h = replicaID \<and>
     (\<forall>t. has_tag s t \<longrightarrow> tag_stamp t \<le> hlc_stamp h))"

definition os_inv :: "'e ORSet \<Rightarrow> bool" where
  "os_inv s \<longleftrightarrow> or_inv (os_state s) \<and> clock_covers (os_clock s) (os_replicaID s) (os_state s) \<and> \<not> blank (bec_id (os_codec s))"

lemma tag_le_stamp: "t \<le> g \<Longrightarrow> tag_stamp t \<le> tag_stamp g"
  using tag_stamp_less[of g t] by (metis leD linorder_not_less)

lemma has_tag_join: "or_inv s \<Longrightarrow> has_tag (or_join s other) t \<Longrightarrow> has_tag s t \<or> has_tag other t"
  by (auto simp: has_tag_def or_join_live)

lemma covers_mono: "clock_covers c r s \<Longrightarrow> (\<And>t. has_tag s' t \<Longrightarrow> has_tag s t) \<Longrightarrow> clock_covers c r s'"
  by (auto simp: clock_covers_def)

text \<open>Witnessing the greatest tag of a state makes the clock cover it.\<close>

definition witness_greatest :: "HLC option \<Rightarrow> 'e::linorder orstate \<Rightarrow> int option \<Rightarrow> HLC option \<times> unit res" where
  "witness_greatest c s now = (case greatestStateTag (fst s) (snd s) of None \<Rightarrow> (c, Inr ()) | Some tag \<Rightarrow> HLC_Witness c tag now)"

lemma witness_greatest_cases:
  assumes cov: "clock_covers c r s0" and w: "witness_greatest c s now = (c', out)"
  shows "isl out \<Longrightarrow> c' = c" and "out = Inr () \<Longrightarrow> (\<And>t. has_tag s1 t \<Longrightarrow> has_tag s0 t \<or> has_tag s t) \<Longrightarrow> clock_covers c' r s1"
proof -
  obtain h where h: "c = Some h" "hlc_inv h" "hlc_replicaID h = r" "\<And>t. has_tag s0 t \<Longrightarrow> tag_stamp t \<le> hlc_stamp h"
    using cov by (auto simp: clock_covers_def)
  have both: "(isl out \<longrightarrow> c' = c) \<and> (out = Inr () \<longrightarrow> (\<forall>s1. (\<forall>t. has_tag s1 t \<longrightarrow> has_tag s0 t \<or> has_tag s t) \<longrightarrow> clock_covers c' r s1))"
  proof (cases "greatestStateTag (fst s) (snd s)")
    case None
    then have "\<not> has_tag s t" for t by (auto simp: greatestStateTag_None has_tag_def)
    with None w cov show ?thesis by (auto simp: witness_greatest_def clock_covers_def)
  next
    case (Some g)
    then have "HLC_Witness (Some h) g now = (c', out)" using w h by (simp add: witness_greatest_def)
    then show ?thesis
    proof (cases rule: Witness_cases)
      case (error e)
      then show ?thesis using h by simp
    next
      case (ok h')
      have "tag_stamp t \<le> hlc_stamp h'" if "has_tag s t" for t
      proof -
        have "t \<le> g" using that greatestStateTag_max(2)[OF Some] by (auto simp: has_tag_def)
        then show ?thesis using tag_le_stamp ok(5) by fastforce
      qed
      moreover have "tag_stamp t \<le> hlc_stamp h'" if "has_tag s0 t" for t using h(4)[OF that] ok(4) by simp
      ultimately show ?thesis using ok h by (auto simp: clock_covers_def hlc_inv_def)
    qed
  qed
  then show "isl out \<Longrightarrow> c' = c" by blast
  show "out = Inr () \<Longrightarrow> (\<And>t. has_tag s1 t \<Longrightarrow> has_tag s0 t \<or> has_tag s t) \<Longrightarrow> clock_covers c' r s1" using both by blast
qed

lemma witness_join_eq:
  "witness_join s adds tombstones now = (case witness_greatest (os_clock s) (adds, tombstones) now of
      (clock, Inl err) \<Rightarrow> (Some (s\<lparr>os_clock := clock\<rparr>), Inl err)
    | (clock, Inr _) \<Rightarrow> (Some (s\<lparr>os_clock := clock, os_elements := fst (or_join (os_state s) (adds, tombstones)),
        os_tombstones := snd (or_join (os_state s) (adds, tombstones))\<rparr>), Inr ()))"
  by (auto simp: witness_join_def witness_greatest_def or_join_def split: prod.splits sum.splits)

lemma witness_join_safe:
  assumes "os_inv s" and "\<forall>t. t |\<in>| tombstones \<longrightarrow> Tag_Valid t" and "\<forall>e t. t |\<in>| tags_at adds e \<longrightarrow> Tag_Valid t"
  shows "safe_call os_inv s (witness_join s adds tombstones now)"
    and "witness_join s adds tombstones now = (Some s', Inr ()) \<Longrightarrow> os_state s' = or_join (os_state s) (adds, tombstones)"
proof -
  obtain c' out where w: "witness_greatest (os_clock s) (adds, tombstones) now = (c', out)" by fastforce
  have inv: "or_inv (os_state s)" "clock_covers (os_clock s) (os_replicaID s) (os_state s)" using assms(1) by (simp_all add: os_inv_def)
  show "safe_call os_inv s (witness_join s adds tombstones now)"
  proof (cases out)
    case (Inl e)
    then have "c' = os_clock s" using witness_greatest_cases(1)[OF inv(2) w] by simp
    with Inl w assms(1) show ?thesis by (simp add: witness_join_eq)
  next
    case (Inr u)
    have "or_inv (or_join (os_state s) (adds, tombstones))" using inv assms(2,3) by (intro or_join_inv) simp_all
    moreover have "clock_covers c' (os_replicaID s) (or_join (os_state s) (adds, tombstones))"
      by (rule witness_greatest_cases(2)[OF inv(2) w]) (use Inr has_tag_join[OF inv(1)] in auto)
    ultimately show ?thesis using Inr w assms(1) by (simp add: witness_join_eq os_inv_def)
  qed
  show "witness_join s adds tombstones now = (Some s', Inr ()) \<Longrightarrow> os_state s' = or_join (os_state s) (adds, tombstones)"
    using w by (cases out) (auto simp: witness_join_eq)
qed

lemma subsumed_noop:
  assumes "or_inv s" "subsumesState (fst s) (snd s) (fst other) (snd other)"
    "\<forall>t. t |\<in>| snd other \<longrightarrow> Tag_Valid t" "\<forall>e t. t |\<in>| tags_at (fst other) e \<longrightarrow> Tag_Valid t"
  shows "or_join s other = s"
  by (rule or_eqI) (use assms or_join_inv[OF assms(1,3,4)] in \<open>auto simp: or_join_live subsumesState_iff dest: or_inv_live\<close>)

definition delta_valid :: "'e orstate \<Rightarrow> bool" where
  "delta_valid d \<longleftrightarrow> (\<forall>e t. t |\<in>| tags_at (fst d) e \<longrightarrow> Tag_Valid t \<and> t |\<notin>| snd d) \<and> (\<forall>t. t |\<in>| snd d \<longrightarrow> Tag_Valid t) \<and> tags_unique (fst d)"

lemma ApplyDelta_safe:
  assumes "os_inv s"
  shows "safe_call os_inv s (ORSet_ApplyDelta (Some s) d now)"
    and "ORSet_ApplyDelta (Some s) d now = (Some s', Inr ()) \<Longrightarrow>
      delta_valid (od_state d) \<and> os_inv s' \<and> os_state s' = or_join (os_state s) (od_state d)"
proof -
  have inv: "or_inv (os_state s)" using assms by (simp add: os_inv_def)
  show safe: "safe_call os_inv s (ORSet_ApplyDelta (Some s) d now)"
    using assms witness_join_safe(1)[OF assms, of "od_tombstones d" "od_adds d" now]
    by (simp add: ORSet_ApplyDelta_def validateDeltaState_iff)
  assume a: "ORSet_ApplyDelta (Some s) d now = (Some s', Inr ())"
  then have v: "delta_valid (od_state d)"
    by (auto simp: ORSet_ApplyDelta_def validateDeltaState_iff delta_valid_def split: if_splits)
  then have valid: "\<forall>t. t |\<in>| od_tombstones d \<longrightarrow> Tag_Valid t" "\<forall>e t. t |\<in>| tags_at (od_adds d) e \<longrightarrow> Tag_Valid t"
    by (auto simp: delta_valid_def)
  have ok: "validateDeltaState (od_adds d) (od_tombstones d) = Inr ()"
    using v unfolding validateDeltaState_iff delta_valid_def by simp
  have "os_state s' = or_join (os_state s) (od_state d)"
  proof (cases "subsumesState (os_elements s) (os_tombstones s) (od_adds d) (od_tombstones d)")
    case True
    with a ok subsumed_noop[OF inv, of "od_state d"] valid show ?thesis by (simp add: ORSet_ApplyDelta_def)
  next
    case False
    with a ok have "witness_join s (od_adds d) (od_tombstones d) now = (Some s', Inr ())" by (simp add: ORSet_ApplyDelta_def)
    from witness_join_safe(2)[OF assms valid this] show ?thesis .
  qed
  with v safe a show "delta_valid (od_state d) \<and> os_inv s' \<and> os_state s' = or_join (os_state s) (od_state d)" by simp
qed

lemma Merge_safe:
  assumes "os_inv s" and "os_inv other"
  shows "safe_call os_inv s (ORSet_Merge (Some s) (Some other) now)"
    and "ORSet_Merge (Some s) (Some other) now = (Some s', Inr ()) \<Longrightarrow>
      os_inv s' \<and> os_state s' = or_join (os_state s) (os_state other)"
proof -
  have inv: "or_inv (os_state s)" "or_inv (os_state other)" using assms by (simp_all add: os_inv_def)
  then have valid: "\<forall>t. t |\<in>| os_tombstones other \<longrightarrow> Tag_Valid t" "\<forall>e t. t |\<in>| tags_at (os_elements other) e \<longrightarrow> Tag_Valid t"
    by (auto simp: or_inv_def)
  then have m: "ORSet_Merge (Some s) (Some other) now =
      (if bec_id (os_codec s) \<noteq> bec_id (os_codec other) then (Some s, Inl set_ErrCodecMismatch)
       else if subsumesState (os_elements s) (os_tombstones s) (os_elements other) (os_tombstones other) then (Some s, Inr ())
       else witness_join s (os_elements other) (os_tombstones other) now)"
    by (simp add: ORSet_Merge_def or_validateState_iff)
  show safe: "safe_call os_inv s (ORSet_Merge (Some s) (Some other) now)"
    unfolding m using assms witness_join_safe(1)[OF assms(1) valid] by simp
  assume a: "ORSet_Merge (Some s) (Some other) now = (Some s', Inr ())"
  have "os_state s' = or_join (os_state s) (os_state other)"
  proof (cases "subsumesState (os_elements s) (os_tombstones s) (os_elements other) (os_tombstones other)")
    case True
    with a subsumed_noop[OF inv(1), of "os_state other"] valid show ?thesis unfolding m by (simp split: if_splits)
  next
    case False
    with a have "witness_join s (os_elements other) (os_tombstones other) now = (Some s', Inr ())"
      unfolding m by (simp split: if_splits)
    from witness_join_safe(2)[OF assms(1) valid this] show ?thesis .
  qed
  with safe a show "os_inv s' \<and> os_state s' = or_join (os_state s) (os_state other)" by simp
qed

text \<open>A local tag is new: it was never seen, live or tombstoned.\<close>

lemma Add_cases:
  assumes "os_inv s"
  obtains (error) "ORSet_Add (Some s) e now = (Some s, Inl clock_ErrClockExhausted)"
  | (ok) t c where "Tag_Valid t" "ReplicaID t = os_replicaID s" "\<And>u. has_tag (os_state s) u \<Longrightarrow> u < t"
    "clock_covers c (os_replicaID s) (fmupd e (finsert t (tags_at (os_elements s) e)) (os_elements s), os_tombstones s)"
    "ORSet_Add (Some s) e now =
       (Some (s\<lparr>os_clock := c, os_elements := fmupd e (finsert t (tags_at (os_elements s) e)) (os_elements s)\<rparr>),
        Inr \<lparr>od_adds = fmupd e {|t|} fmempty, od_tombstones = {||}\<rparr>)"
proof -
  obtain h where h: "os_clock s = Some h" "hlc_inv h" "hlc_replicaID h = os_replicaID s"
    "\<And>t. has_tag (os_state s) t \<Longrightarrow> tag_stamp t \<le> hlc_stamp h"
    using assms by (auto simp: os_inv_def clock_covers_def)
  obtain c r where n: "HLC_Now (Some h) now = (c, r)" by fastforce
  then show thesis
  proof (cases rule: Now_cases)
    case (error x)
    with n h that(1) show thesis by (simp add: ORSet_Add_def)
  next
    case (ok h')
    let ?t = "Tag (hlc_replicaID h') (hlc_wallTime h') (hlc_logical h')"
    have st: "tag_stamp ?t = hlc_stamp h'" by (simp add: tag_stamp_def hlc_stamp_def)
    have fresh: "u < ?t" if "has_tag (os_state s) u" for u
      using h(4)[OF that] ok(3) st by (intro tag_stamp_less) simp
    then have "?t |\<notin>| os_tombstones s" using less_irrefl by (fastforce simp: has_tag_def)
    with n h ok have "ORSet_Add (Some s) e now =
       (Some (s\<lparr>os_clock := c, os_elements := fmupd e (finsert ?t (tags_at (os_elements s) e)) (os_elements s)\<rparr>),
        Inr \<lparr>od_adds = fmupd e {|?t|} fmempty, od_tombstones = {||}\<rparr>)"
      by (simp add: ORSet_Add_def Let_def)
    moreover have "tag_stamp u \<le> hlc_stamp h'"
      if "has_tag (fmupd e (finsert ?t (tags_at (os_elements s) e)) (os_elements s), os_tombstones s) u" for u
    proof -
      from that have "u = ?t \<or> has_tag (os_state s) u" by (auto simp: has_tag_def split: if_splits)
      then show ?thesis using h(4) ok(3) st by fastforce
    qed
    then have "clock_covers c (os_replicaID s) (fmupd e (finsert ?t (tags_at (os_elements s) e)) (os_elements s), os_tombstones s)"
      using ok h by (simp add: clock_covers_def hlc_inv_def)
    ultimately show thesis using that(2)[of ?t c] fresh h ok by (simp add: hlc_inv_def Tag_Valid_def)
  qed
qed

lemma Add_safe:
  assumes "os_inv s"
  shows "safe_call os_inv s (ORSet_Add (Some s) e now)"
  using assms
proof (cases rule: Add_cases[where e = e and now = now])
  case (ok t c)
  have "or_inv (os_state s)" using assms by (simp add: os_inv_def)
  then have "or_inv (fmupd e (finsert t (tags_at (os_elements s) e)) (os_elements s), os_tombstones s)"
    using ok(1,3) less_irrefl by (fastforce simp: or_inv_def adds_normal_def has_tag_def)
  with ok assms show ?thesis by (simp add: os_inv_def)
qed (use assms in simp)

lemma Remove_eq:
  assumes "or_inv (os_state s)"
  shows "ORSet_Remove (Some s) e =
    (Some (s\<lparr>os_tombstones := tags_at (os_elements s) e |\<union>| os_tombstones s, os_elements := fmdrop e (os_elements s)\<rparr>),
     Inr \<lparr>od_adds = fmempty, od_tombstones = tags_at (os_elements s) e\<rparr>)"
proof (cases "tags_at (os_elements s) e = {||}")
  case True
  then have "fmlookup (os_elements s) e = None"
    using assms by (auto simp: or_inv_def adds_normal_def tags_at_def split: option.splits)
  then have "fmdrop e (os_elements s) = os_elements s" by (intro fmap_ext) auto
  with True show ?thesis by (simp add: ORSet_Remove_def)
qed (simp add: ORSet_Remove_def Let_def)

lemma tags_at_fmdrop [simp]: "tags_at (fmdrop e m) x = (if x = e then {||} else tags_at m x)"
  by (simp add: tags_at_def)

lemma Remove_safe:
  assumes "os_inv s" and "tags_unique (os_elements s)"
  shows "safe_call os_inv s (ORSet_Remove (Some s) e)"
proof -
  have inv: "or_inv (os_state s)" using assms by (simp add: os_inv_def)
  let ?s = "(fmdrop e (os_elements s), tags_at (os_elements s) e |\<union>| os_tombstones s)"
  have "or_inv ?s"
    using inv assms(2) unfolding or_inv_def tags_unique_def by (auto simp: adds_normal_def)
  moreover have "clock_covers (os_clock s) (os_replicaID s) ?s"
    by (rule covers_mono[of _ _ "os_state s"]) (use assms in \<open>auto simp: os_inv_def has_tag_def split: if_splits\<close>)
  ultimately show ?thesis using assms Remove_eq[OF inv] by (simp add: os_inv_def)
qed

text \<open>
  Tags are issued once: no tag stands for two different elements. Deltas of this package keep that, and so
  does the decoder for one frame; that two states agree on their common tags is what unique tags give.
\<close>

definition tags_agree :: "'e adds \<Rightarrow> 'e adds \<Rightarrow> bool" where
  "tags_agree A B \<longleftrightarrow> (\<forall>e e' t. t |\<in>| tags_at A e \<longrightarrow> t |\<in>| tags_at B e' \<longrightarrow> e = e')"

definition os_ok :: "'e ORSet \<Rightarrow> bool" where
  "os_ok s \<longleftrightarrow> os_inv s \<and> tags_unique (os_elements s)"

lemma join_unique:
  assumes "or_inv s" "tags_unique (fst s)" "tags_unique (fst other)" "tags_agree (fst s) (fst other)"
  shows "tags_unique (fst (or_join s other))"
  using assms unfolding tags_unique_def tags_agree_def or_join_live(2)[OF assms(1)] by metis

lemma ApplyDelta_ok:
  assumes "os_ok s" and "tags_agree (os_elements s) (od_adds d)"
  shows "safe_call os_ok s (ORSet_ApplyDelta (Some s) d now)"
proof -
  have inv: "os_inv s" "tags_unique (os_elements s)" "or_inv (os_state s)" using assms(1) by (simp_all add: os_ok_def os_inv_def)
  obtain out r where o: "ORSet_ApplyDelta (Some s) d now = (out, r)" by fastforce
  have "tags_unique (os_elements s')" if "out = Some s'" "r = Inr ()" for s'
  proof -
    have j: "delta_valid (od_state d)" "os_state s' = or_join (os_state s) (od_state d)"
      using ApplyDelta_safe(2)[OF inv(1), of d now s'] o that by simp_all
    then have "tags_unique (fst (or_join (os_state s) (od_state d)))"
      using inv assms(2) by (intro join_unique) (simp_all add: delta_valid_def)
    with j(2) show ?thesis by (metis fst_conv)
  qed
  then show ?thesis
    using ApplyDelta_safe(1)[OF inv(1), of d now] assms(1) unfolding o by (cases r) (auto simp: safe_call_def os_ok_def)
qed

lemma Merge_ok:
  assumes "os_ok s" and "os_ok other" and "tags_agree (os_elements s) (os_elements other)"
  shows "safe_call os_ok s (ORSet_Merge (Some s) (Some other) now)"
proof -
  have inv: "os_inv s" "os_inv other" "tags_unique (os_elements s)" "tags_unique (os_elements other)" "or_inv (os_state s)"
    using assms(1,2) by (simp_all add: os_ok_def os_inv_def)
  obtain out r where o: "ORSet_Merge (Some s) (Some other) now = (out, r)" by fastforce
  have "tags_unique (os_elements s')" if "out = Some s'" "r = Inr ()" for s'
  proof -
    have j: "os_state s' = or_join (os_state s) (os_state other)"
      using Merge_safe(2)[OF inv(1,2), of now s'] o that by simp
    have "tags_unique (fst (or_join (os_state s) (os_state other)))"
      using inv assms(3) by (intro join_unique) simp_all
    with j show ?thesis by (metis fst_conv)
  qed
  then show ?thesis
    using Merge_safe(1)[OF inv(1,2), of now] assms(1) unfolding o by (cases r) (auto simp: safe_call_def os_ok_def)
qed

lemma Add_ok:
  assumes "os_ok s"
  shows "safe_call os_ok s (ORSet_Add (Some s) e now)"
proof -
  have inv: "os_inv s" "tags_unique (os_elements s)" using assms by (simp_all add: os_ok_def)
  from inv(1) show ?thesis
  proof (cases rule: Add_cases[where e = e and now = now])
    case (ok t c)
    have new: "t |\<notin>| tags_at (os_elements s) x" for x using ok(3)[of t] by (auto simp: has_tag_def)
    have "tags_unique (fmupd e (finsert t (tags_at (os_elements s) e)) (os_elements s))"
      using inv(2) new unfolding tags_unique_def by (simp split: if_splits) metis
    with Add_safe[OF inv(1), of e now] ok(5) show ?thesis by (simp add: os_ok_def)
  qed (use assms in simp)
qed

lemma Remove_ok: "os_ok s \<Longrightarrow> safe_call os_ok s (ORSet_Remove (Some s) e)"
proof -
  assume ok: "os_ok s"
  then have inv: "os_inv s" "tags_unique (os_elements s)" "or_inv (os_state s)" by (simp_all add: os_ok_def os_inv_def)
  have "tags_unique (fmdrop e (os_elements s))" using inv(2) by (auto simp: tags_unique_def)
  with Remove_safe[OF inv(1,2), of e] Remove_eq[OF inv(3), of e] show ?thesis by (simp add: os_ok_def)
qed

text \<open>The loops of the compactions.\<close>

lemma fold_compact_tag: "fold (compact_tag P) xs (T, n) = (T |-| fset_of_list (filter P xs), n + length (filter P xs))"
  by (induction xs arbitrary: T n) (auto simp: compact_tag_def)

lemma fold_drop_tombstone:
  "fold drop_tombstone xs (T, n) = (T |-| fset_of_list xs, n + fcard (T |\<inter>| fset_of_list xs))"
proof (induction xs arbitrary: T n)
  case (Cons x xs)
  show ?case
  proof (cases "x |\<in>| T")
    case True
    have "T |\<inter>| finsert x (fset_of_list xs) = finsert x ((T |-| {|x|}) |\<inter>| fset_of_list xs)" using True by auto
    moreover have "x |\<notin>| (T |-| {|x|}) |\<inter>| fset_of_list xs" by simp
    ultimately have "fcard (T |\<inter>| finsert x (fset_of_list xs)) = Suc (fcard ((T |-| {|x|}) |\<inter>| fset_of_list xs))"
      by (simp add: fcard_finsert_disjoint)
    with True Cons[of "T |-| {|x|}" "n + 1"] show ?thesis by (auto simp: drop_tombstone_def)
  next
    case False
    then have "T |\<inter>| finsert x (fset_of_list xs) = T |\<inter>| fset_of_list xs" "T |-| finsert x (fset_of_list xs) = T |-| fset_of_list xs" by auto
    with False Cons[of T n] show ?thesis by (simp add: drop_tombstone_def)
  qed
qed simp

definition frontier_acks :: "frontier \<Rightarrow> tag \<Rightarrow> bool" where
  "frontier_acks frontier t = (case fmlookup frontier (ReplicaID t) of None \<Rightarrow> False | Some g \<Rightarrow> t \<le> g)"

lemma Compact_eq:
  "ORSet_Compact (Some s) frontier = (if validFrontier frontier
     then (Some (s\<lparr>os_tombstones := ffilter (\<lambda>t. \<not> frontier_acks frontier t) (os_tombstones s)\<rparr>),
           Inr (fcard (ffilter (frontier_acks frontier) (os_tombstones s))))
     else (Some s, Inl set_ErrInvalidFrontier))"
proof -
  have acks: "(\<lambda>tag. case fmlookup frontier (ReplicaID tag) of None \<Rightarrow> False | Some acknowledged \<Rightarrow> Tag_Compare tag acknowledged \<le> 0) = frontier_acks frontier"
    by (auto simp: frontier_acks_def fun_eq_iff split: option.splits)
  let ?xs = "filter (frontier_acks frontier) (sorted_list_of_fset (os_tombstones s))"
  have fs: "fset_of_list ?xs = ffilter (frontier_acks frontier) (os_tombstones s)" by (auto simp: fset_eq_iff fset_of_list_elem)
  have "distinct ?xs" by simp
  then have "length ?xs = fcard (ffilter (frontier_acks frontier) (os_tombstones s))"
    by (metis distinct_card fcard.rep_eq fs fset_of_list.rep_eq)
  moreover have "os_tombstones s |-| ffilter (frontier_acks frontier) (os_tombstones s) = ffilter (\<lambda>t. \<not> frontier_acks frontier t) (os_tombstones s)"
    by auto
  ultimately show ?thesis by (simp add: ORSet_Compact_def acks fold_compact_tag fs)
qed

lemma CompactTombstones_eq:
  "ORSet_CompactTombstones (Some s) acked = (if list_all Tag_Valid acked
     then (Some (s\<lparr>os_tombstones := os_tombstones s |-| fset_of_list acked\<rparr>), Inr (fcard (os_tombstones s |\<inter>| fset_of_list acked)))
     else (Some s, Inl set_ErrInvalidFrontier))"
  by (simp add: ORSet_CompactTombstones_def fold_drop_tombstone)

lemma shrink_tombstones_ok: "os_ok s \<Longrightarrow> T |\<subseteq>| os_tombstones s \<Longrightarrow> os_ok (s\<lparr>os_tombstones := T\<rparr>)"
  using covers_mono[of "os_clock s" "os_replicaID s" "os_state s" "(os_elements s, T)"]
  by (auto simp: os_ok_def os_inv_def or_inv_def has_tag_def)

section \<open>The codec of a whole set\<close>

lemma wire_ok_sizes:
  fixes s :: "'e::linorder orstate"
  assumes "or_inv s" "tags_unique (fst s)" "\<forall>e. e |\<in>| fmdom (fst s) \<longrightarrow> elem_stable codec e"
  shows "orset_wire_ok codec DefaultLimits s \<longleftrightarrow> orset_sizes_ok codec DefaultLimits s"
proof -
  obtain A T where s: "s = (A, T)" by (cases s)
  let ?ms = "MaxStringBytes DefaultLimits"
  have le: "fcard S \<le> tag_total s" if "fmlookup A e = Some S" for e S
  proof -
    have "e \<in> fset (fmdom A)" "S = tags_at A e" using that by (auto simp: tags_at_def fmlookup_dom_iff)
    then have "fcard S \<le> (\<Sum>e \<in> fset (fmdom A). fcard (tags_at A e))"
      using member_le_sum[of e "fset (fmdom A)" "\<lambda>e. fcard (tags_at A e)"] by simp
    then show ?thesis by (simp add: tag_total_def s)
  qed
  have valid: "t |\<in>| T \<or> t |\<in>| tags_at A e \<Longrightarrow> Tag_Valid t" for t e using assms(1) by (auto simp: or_inv_def s)
  have tags: "tag_ok ?ms t \<longleftrightarrow> int (length (ReplicaID t)) \<le> ?ms" if "Tag_Valid t" for t
    using that by (auto simp: tag_ok_def bytes_ok_def DefaultLimits_def)
  show ?thesis
  proof
    assume w: "orset_wire_ok codec DefaultLimits s"
    have "int (length (elem_bytes codec e)) \<le> ?ms" if "e |\<in>| fmdom A" for e
      using w that by (auto simp: orset_wire_ok_def s fmlookup_dom_iff or_field_ok_def elem_ok_def bytes_ok_def)
    moreover have "int (length (ReplicaID t)) \<le> ?ms" if "t |\<in>| T \<or> (\<exists>e. t |\<in>| tags_at A e)" for t
    proof -
      have "tag_ok ?ms t" using w that
        by (auto simp: orset_wire_ok_def s or_field_ok_def tag_set_ok_def tags_at_def split: option.splits)
      then show ?thesis by (simp add: tag_ok_def bytes_ok_def)
    qed
    ultimately show "orset_sizes_ok codec DefaultLimits s" using w by (simp add: orset_sizes_ok_def orset_wire_ok_def s)
  next
    assume z: "orset_sizes_ok codec DefaultLimits s"
    have tok: "tag_ok ?ms t" if "t |\<in>| T \<or> (\<exists>e. t |\<in>| tags_at A e)" for t
    proof -
      have "Tag_Valid t" using that valid by blast
      moreover have "int (length (ReplicaID t)) \<le> ?ms" using z that by (auto simp: orset_sizes_ok_def s)
      ultimately show ?thesis using tags by blast
    qed
    have "or_field_ok codec ?ms (e, S)" if l: "fmlookup A e = Some S" for e S
    proof -
      have e: "e |\<in>| fmdom A" "tags_at A e = S" using l by (auto simp: fmlookup_dom_iff tags_at_def)
      have "S \<noteq> {||}" using l assms(1) by (auto simp: or_inv_def adds_normal_def s)
      moreover have "int (fcard S) \<le> max_int" using le[OF l] z by (simp add: orset_sizes_ok_def DefaultLimits_def)
      moreover have "elem_ok codec ?ms e" using z e assms(3) by (auto simp: orset_sizes_ok_def elem_ok_def bytes_ok_def s DefaultLimits_def)
      ultimately show ?thesis using tok e by (auto simp: or_field_ok_def)
    qed
    moreover have "fcard T \<le> tag_total s" by (simp add: tag_total_def s)
    then have "int (fcard T) \<le> max_int" using z by (simp add: orset_sizes_ok_def DefaultLimits_def)
    then have "tag_set_ok ?ms T" using tok by (simp add: tag_set_ok_def)
    ultimately show "orset_wire_ok codec DefaultLimits s"
      using z assms(1,2) by (simp add: orset_wire_ok_def orset_sizes_ok_def or_inv_def s)
  qed
qed

lemma orset_bytes_iff:
  fixes s :: "'e::linorder orstate"
  assumes "or_inv s" "tags_unique (fst s)" "\<forall>e. e |\<in>| fmdom (fst s) \<longrightarrow> elem_stable codec e" "\<not> blank (bec_id codec)"
    and "enumerates keys enum (fst s)" and "newORSetMarshalPlan keys enum (fst s) (snd s) = Inr plan"
  shows "marshalORSetPlan t codec plan = Inr data \<longleftrightarrow> unmarshalORSetWithCodec flate data t codec DefaultLimits = Inr s \<and>
    PeekFrameFormatVersion data DefaultLimits = Inr FormatVersion"
proof -
  have "inj_on (elem_bytes codec) (fset (fmdom (fst s)))"
    using assms(3) by (auto intro!: inj_onI dest: elem_bytes_inject)
  moreover have "bec_marshal codec e = Inr (elem_bytes codec e) \<and> tags_at (fst s) e \<noteq> {||}" if "e |\<in>| fmdom (fst s)" for e
    using that assms(1,3) by (auto simp: elem_stable_iff or_inv_def adds_normal_def tags_at_def fmlookup_dom_iff)
  ultimately show ?thesis
    unfolding marshalORSetPlan_iff[OF assms(5,6)] unmarshalORSetWithCodec_iff[OF DefaultLimits_go] frame_payload_iff
      wire_ok_sizes[OF assms(1-3)] using assms(4) by auto
qed

lemma plan_exists: "or_inv s \<Longrightarrow> \<exists>plan. newORSetMarshalPlan keys enum (fst s) (snd s) = Inr plan"
  by (simp add: newORSetMarshalPlan_def or_validateState_iff or_inv_def)

lemma wire_ok_inv: "orset_wire_ok codec limits s \<Longrightarrow> or_inv s \<and> tags_unique (fst s)"
  by (fastforce simp: orset_wire_ok_def or_inv_def adds_normal_def or_field_ok_def tag_set_ok_def tag_ok_def tags_at_def
      split: option.splits)

lemma Unmarshal_ok:
  assumes "os_ok s" and go: "go_limits limits"
  shows "safe_call os_ok s (ORSet_UnmarshalBinaryWithLimits flate (Some s) data limits now)"
proof (cases "unmarshalORSetWithCodec flate data TypeIDORSetState (os_codec s) limits")
  case (Inl e)
  with assms show ?thesis by (simp add: ORSet_UnmarshalBinaryWithLimits_def)
next
  case (Inr d)
  obtain A T where d: "d = (A, T)" by (cases d)
  have inv: "or_inv d" "tags_unique A"
    using Inr wire_ok_inv[of "os_codec s" limits d] unfolding unmarshalORSetWithCodec_iff[OF go] by (auto simp: d)
  obtain c' out where w: "witness_greatest (os_clock s) d now = (c', out)" by fastforce
  have cov: "clock_covers (os_clock s) (os_replicaID s) (os_state s)" using assms by (simp add: os_ok_def os_inv_def)
  have u: "ORSet_UnmarshalBinaryWithLimits flate (Some s) data limits now = (case (c', out) of
      (clock, Inl err) \<Rightarrow> (Some (s\<lparr>os_clock := clock\<rparr>), Inl err)
    | (clock, Inr _) \<Rightarrow> (Some (s\<lparr>os_clock := clock, os_elements := A, os_tombstones := T\<rparr>), Inr ()))"
    using Inr w by (simp add: ORSet_UnmarshalBinaryWithLimits_def witness_greatest_def d)
  show ?thesis
  proof (cases out)
    case (Inl e)
    then have "c' = os_clock s" using witness_greatest_cases(1)[OF cov w] by simp
    with Inl u assms(1) show ?thesis by simp
  next
    case (Inr x)
    have "clock_covers c' (os_replicaID s) d" by (rule witness_greatest_cases(2)[OF cov w]) (use Inr in auto)
    with Inr u assms(1) inv show ?thesis by (simp add: os_ok_def os_inv_def d)
  qed
qed

section \<open>Properties\<close>

lemma fcard_pos: "0 < fcard S \<longleftrightarrow> (\<exists>x. x |\<in>| S)"
  by (auto simp: fcard.rep_eq card_gt_0_iff)

text \<open>Two replicas with byte elements: \<open>a\<close> holds the element 7, \<open>b\<close> holds 7 and 9 under its own tags.\<close>

definition set_a :: "byte ORSet" where
  "set_a = \<lparr>os_replicaID = [97], os_clock = Some \<lparr>hlc_replicaID = [97], hlc_wallTime = 5, hlc_logical = 0\<rparr>, os_codec = byte_bound,
     os_elements = fmupd 7 {|Tag [97] 5 0|} fmempty, os_tombstones = {||}\<rparr>"

definition set_b :: "byte ORSet" where
  "set_b = \<lparr>os_replicaID = [98], os_clock = Some \<lparr>hlc_replicaID = [98], hlc_wallTime = 6, hlc_logical = 1\<rparr>, os_codec = byte_bound,
     os_elements = fmupd 9 {|Tag [98] 6 1|} (fmupd 7 {|Tag [97] 5 0, Tag [98] 6 0|} fmempty), os_tombstones = {||}\<rparr>"

lemma sets_ok: "os_ok set_a" "os_ok set_b" "tags_agree (os_elements set_a) (os_elements set_b)"
proof -
  show "os_ok set_a"
    by (auto simp: set_a_def os_ok_def os_inv_def or_inv_def adds_normal_def tags_unique_def clock_covers_def hlc_inv_def has_tag_def
        tag_stamp_def hlc_stamp_def stamp_def byte_bound_facts eval split: if_splits)
  show "os_ok set_b"
    by (auto simp: set_b_def os_ok_def os_inv_def or_inv_def adds_normal_def tags_unique_def clock_covers_def hlc_inv_def has_tag_def
        tag_stamp_def hlc_stamp_def stamp_def byte_bound_facts eval split: if_splits)
  show "tags_agree (os_elements set_a) (os_elements set_b)"
    by (auto simp: set_a_def set_b_def tags_agree_def split: if_splits)
qed

definition add_delta :: "byte ORSetDelta" where
  "add_delta = \<lparr>od_adds = fmupd 9 {|Tag [98] 6 1|} fmempty, od_tombstones = {||}\<rparr>"

definition remove_delta :: "byte ORSetDelta" where
  "remove_delta = \<lparr>od_adds = fmempty, od_tombstones = {|Tag [97] 5 0|}\<rparr>"

lemma ApplyDelta_clock:
  assumes "delta_valid (od_state d)" "greatestStateTag (od_adds d) (od_tombstones d) = Some t" "HLC_Witness (os_clock s) t now = (c, Inr ())"
  shows "\<exists>s'. ORSet_ApplyDelta (Some s) d now = (Some s', Inr ()) \<and> (os_clock s' = os_clock s \<or> os_clock s' = c)"
proof -
  have "validateDeltaState (od_adds d) (od_tombstones d) = Inr ()"
    using assms(1) unfolding validateDeltaState_iff delta_valid_def by simp
  then show ?thesis using assms(2,3) by (simp add: ORSet_ApplyDelta_def witness_join_eq witness_greatest_def)
qed

lemma deltas_ok:
  "delta_valid (od_state add_delta)" "greatestStateTag (od_adds add_delta) (od_tombstones add_delta) = Some (Tag [98] 6 1)"
  "delta_valid (od_state remove_delta)" "greatestStateTag (od_adds remove_delta) (od_tombstones remove_delta) = Some (Tag [97] 5 0)"
proof -
  show "delta_valid (od_state add_delta)" "delta_valid (od_state remove_delta)"
    by (auto simp: delta_valid_def add_delta_def remove_delta_def Tag_Valid_def tags_unique_def eval split: if_splits)
  show "greatestStateTag (od_adds add_delta) (od_tombstones add_delta) = Some (Tag [98] 6 1)"
    using greatestStateTag_max(1)[of "od_adds add_delta" "od_tombstones add_delta"] greatestStateTag_None[of "od_adds add_delta" "od_tombstones add_delta"]
    by (cases "greatestStateTag (od_adds add_delta) (od_tombstones add_delta)") (auto simp: add_delta_def split: if_splits)
  show "greatestStateTag (od_adds remove_delta) (od_tombstones remove_delta) = Some (Tag [97] 5 0)"
    using greatestStateTag_max(1)[of "od_adds remove_delta" "od_tombstones remove_delta"] greatestStateTag_None[of "od_adds remove_delta" "od_tombstones remove_delta"]
    by (cases "greatestStateTag (od_adds remove_delta) (od_tombstones remove_delta)") (auto simp: remove_delta_def)
qed

lemmas witness_eval = HLC_Witness_def physicalMillis_def Let_def set_next_def nextTimestamp_def Tag_Valid_def max_def eval

text \<open>
  A delta is checked against itself and not against the state: a tag that is live under one element
  is accepted for another one.
\<close>

definition clash_delta :: "byte ORSetDelta" where
  "clash_delta = \<lparr>od_adds = fmupd 8 {|Tag [97] 5 0|} fmempty, od_tombstones = {||}\<rparr>"

lemma orset_tag_clash:
  "\<exists>s' s''. ORSet_ApplyDelta (Some set_a) clash_delta (Some 3) = (Some s', Inr ()) \<and> \<not> tags_unique (os_elements s') \<and>
     fst (ORSet_Remove (Some s') 7) = Some s'' \<and> Tag [97] 5 0 |\<in>| os_tombstones s'' \<and> ORSet_Contains (Some s'') 8"
proof -
  have inv: "os_inv set_a" "or_inv (os_state set_a)" using sets_ok(1) by (simp_all add: os_ok_def os_inv_def)
  have d: "delta_valid (od_state clash_delta)"
    by (auto simp: delta_valid_def clash_delta_def Tag_Valid_def tags_unique_def eval split: if_splits)
  have g: "greatestStateTag (od_adds clash_delta) (od_tombstones clash_delta) = Some (Tag [97] 5 0)"
    using greatestStateTag_max(1)[of "od_adds clash_delta" "od_tombstones clash_delta"] greatestStateTag_None[of "od_adds clash_delta" "od_tombstones clash_delta"]
    by (cases "greatestStateTag (od_adds clash_delta) (od_tombstones clash_delta)") (auto simp: clash_delta_def split: if_splits)
  obtain s' where s': "ORSet_ApplyDelta (Some set_a) clash_delta (Some 3) = (Some s', Inr ())"
    using ApplyDelta_clock[OF d g, of set_a "Some 3"] by (auto simp: set_a_def witness_eval)
  from ApplyDelta_safe(2)[OF inv(1) s'] have s'_inv: "or_inv (os_state s')" and st: "os_state s' = or_join (os_state set_a) (od_state clash_delta)"
    by (auto simp: os_inv_def)
  have "t |\<in>| tags_at (fst (os_state s')) e \<longleftrightarrow> t |\<in>| tags_at (os_elements set_a) e \<or> t |\<in>| tags_at (od_adds clash_delta) e" for t e
    unfolding st or_join_live[OF inv(2)] by (simp add: set_a_def clash_delta_def)
  then have live: "Tag [97] 5 0 |\<in>| tags_at (os_elements s') 7" "Tag [97] 5 0 |\<in>| tags_at (os_elements s') 8"
    by (simp_all add: set_a_def clash_delta_def)
  have "\<not> tags_unique (os_elements s')"
  proof
    assume "tags_unique (os_elements s')"
    then have "(7::byte) = 8" using live unfolding tags_unique_def by blast
    then show False by simp
  qed
  with s' live show ?thesis by (auto simp: Remove_eq[OF s'_inv] ORSet_Contains_def fcard_pos)
qed



text \<open>
  C19. \<open>Add\<close> succeeds unless the clock is exhausted, and then under a tag of this replica that is greater than
  every tag the set has seen; so it never takes the branch that reports a tombstoned tag. The element becomes
  visible, the others stay as they were, and the returned delta carries the whole change.
\<close>

theorem orset_add:
  assumes "os_ok s" and "ORSet_Add (Some s) e now = (Some s', r)"
  shows "(r = Inl clock_ErrClockExhausted \<and> s' = s) \<or>
    (\<exists>t. r = Inr \<lparr>od_adds = fmupd e {|t|} fmempty, od_tombstones = {||}\<rparr> \<and> ReplicaID t = os_replicaID s \<and>
       (\<forall>u. has_tag (os_state s) u \<longrightarrow> u < t) \<and> (\<forall>x. ORSet_Contains (Some s') x \<longleftrightarrow> x = e \<or> ORSet_Contains (Some s) x) \<and>
       os_state s' = or_join (os_state s) (fmupd e {|t|} fmempty, {||}))"
proof -
  have inv: "os_inv s" "or_inv (os_state s)" using assms(1) by (simp_all add: os_ok_def os_inv_def)
  from inv(1) show ?thesis
  proof (cases rule: Add_cases[where e = e and now = now])
    case error
    with assms(2) show ?thesis by simp
  next
    case (ok t c)
    have "safe_call os_ok s (ORSet_Add (Some s) e now)" using assms(1) by (rule Add_ok)
    then have "or_inv (os_state s')" using assms(2) ok(5) by (auto simp: safe_call_def os_ok_def os_inv_def)
    moreover have new: "t |\<notin>| os_tombstones s" using ok(3)[of t] by (auto simp: has_tag_def)
    moreover have "or_inv (or_join (os_state s) (fmupd e {|t|} fmempty, {||}))"
      using inv(2) ok(1) by (intro or_join_inv) (auto split: if_splits)
    ultimately have "os_state s' = or_join (os_state s) (fmupd e {|t|} fmempty, {||})"
      using assms(2) ok(5) or_inv_live[OF inv(2)] by (intro or_eqI) (auto simp: or_join_live[OF inv(2)] split: if_splits)
    moreover have "ORSet_Contains (Some s') x \<longleftrightarrow> x = e \<or> ORSet_Contains (Some s) x" for x
      using assms(2) ok(5) by (auto simp: ORSet_Contains_def fcard_pos)
    ultimately show ?thesis using assms(2) ok by auto
  qed
qed

theorem orset_add_witness:
  "\<exists>s' t. ORSet_Add (Some set_b) 8 (Some 3) = (Some s', Inr \<lparr>od_adds = fmupd 8 {|t|} fmempty, od_tombstones = {||}\<rparr>) \<and>
     ORSet_Contains (Some s') 8 \<and> Tag [98] 6 1 < t"
proof -
  obtain s' r where add: "ORSet_Add (Some set_b) 8 (Some 3) = (Some s', r)" "\<not> isl r"
    by (simp add: ORSet_Add_def set_b_def HLC_Now_def physicalMillis_def advanceLocal_def nextTimestamp_def)
  moreover have "has_tag (os_state set_b) (Tag [98] 6 1)" by (auto simp: has_tag_def set_b_def intro: exI[of _ 9])
  ultimately show ?thesis using orset_add[OF sets_ok(2) add(1)] by auto
qed

text \<open>
  C3. A removal covers exactly the additions it has observed. After \<open>Remove e\<close> the element is gone here and the others
  stay. Once another replica \<open>r\<close> has applied the returned delta, \<open>e\<close> is a member there exactly when \<open>r\<close> holds it under a tag
  that the remover did not hold (a concurrent or later addition wins), and no other element changes.
\<close>

theorem orset_observed_remove:
  assumes "os_ok s" and "ORSet_Remove (Some s) e = (Some s', Inr delta)"
    and "os_ok r" and "tags_agree (os_elements s) (os_elements r)" and "ORSet_ApplyDelta (Some r) delta now = (Some r', Inr ())"
  shows "(\<forall>x. ORSet_Contains (Some s') x \<longleftrightarrow> x \<noteq> e \<and> ORSet_Contains (Some s) x) \<and>
    (ORSet_Contains (Some r') e \<longleftrightarrow> \<not> tags_at (os_elements r) e |\<subseteq>| tags_at (os_elements s) e) \<and>
    (\<forall>x. x \<noteq> e \<longrightarrow> tags_at (os_elements r') x = tags_at (os_elements r) x)"
proof -
  have inv: "or_inv (os_state s)" "or_inv (os_state r)" "os_inv r" using assms(1,3) by (simp_all add: os_ok_def os_inv_def)
  have s': "s' = s\<lparr>os_tombstones := tags_at (os_elements s) e |\<union>| os_tombstones s, os_elements := fmdrop e (os_elements s)\<rparr>"
    and delta: "od_state delta = (fmempty, tags_at (os_elements s) e)"
    using assms(2) Remove_eq[OF inv(1)] by auto
  have "os_state r' = or_join (os_state r) (fmempty, tags_at (os_elements s) e)"
    using ApplyDelta_safe(2)[OF inv(3) assms(5)] delta by simp
  then have live: "t |\<in>| tags_at (os_elements r') x \<longleftrightarrow> t |\<in>| tags_at (os_elements r) x \<and> t |\<notin>| tags_at (os_elements s) e" for t x
    using or_join_live(2)[OF inv(2), of t "(fmempty, tags_at (os_elements s) e)" x] or_inv_live[OF inv(2), of t x]
    by (metis fst_conv snd_conv tags_at_fmempty fempty_iff)
  have "tags_at (os_elements r') x = tags_at (os_elements r) x" if "x \<noteq> e" for x
    using that assms(4) live[of _ x] by (fastforce simp: tags_agree_def fset_eq_iff)
  moreover have "ORSet_Contains (Some r') e \<longleftrightarrow> \<not> tags_at (os_elements r) e |\<subseteq>| tags_at (os_elements s) e"
    using live[of _ e] by (fastforce simp: ORSet_Contains_def fcard_pos)
  ultimately show ?thesis by (auto simp: s' ORSet_Contains_def)
qed

theorem orset_observed_remove_witness:
  "\<exists>s' delta r'. ORSet_Remove (Some set_a) 7 = (Some s', Inr delta) \<and> ORSet_ApplyDelta (Some set_b) delta (Some 3) = (Some r', Inr ()) \<and>
     \<not> ORSet_Contains (Some s') 7 \<and> ORSet_Contains (Some r') 7"
proof -
  obtain s' where rem: "ORSet_Remove (Some set_a) 7 = (Some s', Inr remove_delta)"
    by (simp add: ORSet_Remove_def set_a_def fcard.rep_eq Let_def remove_delta_def)
  obtain r' where r: "ORSet_ApplyDelta (Some set_b) remove_delta (Some 3) = (Some r', Inr ())"
    using ApplyDelta_clock[OF deltas_ok(3,4), of set_b "Some 3"] by (auto simp: set_b_def witness_eval)
  have "\<not> tags_at (os_elements set_b) 7 |\<subseteq>| tags_at (os_elements set_a) 7" by (simp add: set_a_def set_b_def)
  then show ?thesis using orset_observed_remove[OF sets_ok(1) rem sets_ok(2,3) r] rem r by blast
qed

text \<open>Applying a list of deltas, each at a reading of the physical clock, stopping at the first error.\<close>

fun os_apply_all :: "'e::linorder ORSet \<Rightarrow> ('e ORSetDelta \<times> int option) list \<Rightarrow> 'e ORSet option" where
  "os_apply_all s [] = Some s"
| "os_apply_all s ((d, now) # ds) = (case ORSet_ApplyDelta (Some s) d now of
      (Some s', Inr _) \<Rightarrow> os_apply_all s' ds | _ \<Rightarrow> None)"

definition or_normal :: "'e orstate \<Rightarrow> 'e orstate" where
  "or_normal d = (fmfilter (\<lambda>e. tags_at (fst d) e \<noteq> {||}) (fst d), snd d)"

lemma tags_at_normal [simp]: "tags_at (fst (or_normal d)) e = tags_at (fst d) e" "snd (or_normal d) = snd d"
  by (auto simp: or_normal_def tags_at_def)

lemma or_normal_inv: "delta_valid d \<Longrightarrow> or_inv (or_normal d)"
  unfolding or_inv_def tags_at_normal by (auto simp: delta_valid_def adds_normal_def or_normal_def tags_at_def split: if_splits)

lemma or_join_normal: "or_inv s \<Longrightarrow> delta_valid d \<Longrightarrow> or_join s d = or_join s (or_normal d)"
  by (rule or_eqI) (auto simp: or_join_live delta_valid_def intro!: or_join_inv)

lemma os_apply_all_deliver:
  "os_inv s \<Longrightarrow> os_apply_all s ds = Some s' \<Longrightarrow>
   (\<forall>d \<in> set ds. delta_valid (od_state (fst d))) \<and> os_state s' = or_crdt.deliver (os_state s) (map (or_normal \<circ> od_state \<circ> fst) ds)"
proof (induction ds arbitrary: s)
  case (Cons x ds)
  obtain d now where x: "x = (d, now)" by fastforce
  then obtain s1 where s1: "ORSet_ApplyDelta (Some s) d now = (Some s1, Inr ())" "os_apply_all s1 ds = Some s'"
    using Cons.prems(2) by (auto split: prod.splits option.splits sum.splits)
  from ApplyDelta_safe(2)[OF Cons.prems(1) s1(1)]
  have 1: "delta_valid (od_state d)" "os_inv s1" "os_state s1 = or_join (os_state s) (od_state d)" by auto
  moreover have "or_inv (os_state s)" using Cons.prems(1) by (simp add: os_inv_def)
  ultimately show ?case using Cons.IH[OF 1(2) s1(2)] or_join_normal[of "os_state s" "od_state d"] by (simp add: x)
qed simp

lemma witness_join_codec: "witness_join s A T now = (Some s', r) \<Longrightarrow> os_codec s' = os_codec s"
  by (auto simp: witness_join_eq split: prod.splits sum.splits)

text \<open>Merging a state a second time takes the fast path.\<close>

lemma Merge_again:
  assumes "os_inv a" "os_inv b" "ORSet_Merge (Some a) (Some b) now = (Some a', Inr ())"
  shows "ORSet_Merge (Some a') (Some b) now' = (Some a', Inr ())"
proof -
  have inv: "or_inv (os_state a)" "or_inv (os_state b)" using assms(1,2) by (simp_all add: os_inv_def)
  have a': "os_state a' = or_join (os_state a) (os_state b)" using Merge_safe(2)[OF assms] by simp
  have "bec_id (os_codec a') = bec_id (os_codec b)"
    using assms(3) by (auto simp: ORSet_Merge_def split: if_splits sum.splits dest: witness_join_codec)
  moreover have "or_validateState (os_elements b) (os_tombstones b) = Inr ()"
    using inv(2) by (simp add: or_validateState_iff or_inv_def)
  moreover have "subsumesState (fst (or_join (os_state a) (os_state b))) (snd (or_join (os_state a) (os_state b))) (os_elements b) (os_tombstones b)"
    unfolding subsumesState_iff or_join_live[OF inv(1)] by auto
  then have "subsumesState (os_elements a') (os_tombstones a') (os_elements b) (os_tombstones b)"
    unfolding a'[symmetric] by simp
  ultimately show ?thesis by (simp add: ORSet_Merge_def)
qed

lemma orset_converges_parts:
  assumes "os_inv s" and "os_inv t" and "os_state s = os_state t" and "fst ` set ds = fst ` set es"
    and "os_apply_all s ds = Some s'" and "os_apply_all t es = Some t'"
  shows "os_state s' = os_state t'"
    and "os_inv a \<Longrightarrow> os_inv b \<Longrightarrow> ORSet_Merge (Some a) (Some b) now = (Some a', Inr ()) \<Longrightarrow>
      ORSet_Merge (Some b) (Some a) now' = (Some b', Inr ()) \<Longrightarrow>
      os_state a' = os_state b' \<and> ORSet_Merge (Some a') (Some b) now'' = (Some a', Inr ())"
proof -
  note s = os_apply_all_deliver[OF assms(1,5)] and t = os_apply_all_deliver[OF assms(2,6)]
  have inv: "or_inv (os_state s)" using assms(1) by (simp add: os_inv_def)
  have "set (map (or_normal \<circ> od_state \<circ> fst) ds) = set (map (or_normal \<circ> od_state \<circ> fst) es)"
    unfolding set_map image_comp[symmetric] assms(4) ..
  then show "os_state s' = os_state t'"
    using s t or_crdt.deliver_converges[OF inv, of "map (or_normal \<circ> od_state \<circ> fst) ds" "map (or_normal \<circ> od_state \<circ> fst) es"]
    by (auto simp: assms(3) intro: or_normal_inv)
  assume ab: "os_inv a" "os_inv b" "ORSet_Merge (Some a) (Some b) now = (Some a', Inr ())" "ORSet_Merge (Some b) (Some a) now' = (Some b', Inr ())"
  then have or: "or_inv (os_state a)" "or_inv (os_state b)" by (simp_all add: os_inv_def)
  have a': "os_inv a'" "os_state a' = or_join (os_state a) (os_state b)" and b': "os_state b' = or_join (os_state b) (os_state a)"
    using Merge_safe(2)[OF ab(1,2,3)] Merge_safe(2)[OF ab(2,1,4)] by auto
  have "os_state a' = os_state b'" unfolding a'(2) b' by (rule or_crdt.join_commute[OF or])
  then show "os_state a' = os_state b' \<and> ORSet_Merge (Some a') (Some b) now'' = (Some a', Inr ())"
    using Merge_again[OF ab(1,2,3)] by blast
qed

text \<open>
  C1. OR-Sets converge: two replicas that start from the same state and successfully apply the same deltas, in any order,
  any number of times and at any clock readings, hold the same elements under the same tags and the same tombstones, whatever
  their own clocks and codecs. Two replicas that merge each other's states agree, and merging the same state again changes
  nothing, the clock included.
\<close>

theorem orset_converges:
  assumes "os_inv s" and "os_inv t" and "os_state s = os_state t" and "fst ` set ds = fst ` set es"
    and "os_apply_all s ds = Some s'" and "os_apply_all t es = Some t'"
  shows "(os_state s' = os_state t') \<and>
    (os_inv a \<longrightarrow> os_inv b \<longrightarrow> ORSet_Merge (Some a) (Some b) now = (Some a', Inr ()) \<longrightarrow>
      ORSet_Merge (Some b) (Some a) now' = (Some b', Inr ()) \<longrightarrow>
      os_state a' = os_state b' \<and> ORSet_Merge (Some a') (Some b) now'' = (Some a', Inr ()))"
  using orset_converges_parts(1)[OF assms] orset_converges_parts(2)[OF assms] by (intro conjI impI) blast+

theorem orset_converges_witness:
  "\<exists>s' t'. os_apply_all set_a [(add_delta, Some 3), (remove_delta, Some 8)] = Some s' \<and>
     os_apply_all set_a [(remove_delta, Some 3), (add_delta, Some 8)] = Some t' \<and> os_state s' = os_state t'"
proof -
  obtain s1 where s1: "ORSet_ApplyDelta (Some set_a) add_delta (Some 3) = (Some s1, Inr ())"
      "os_clock s1 \<in> {Some \<lparr>hlc_replicaID = [97], hlc_wallTime = 5, hlc_logical = 0\<rparr>, Some \<lparr>hlc_replicaID = [97], hlc_wallTime = 6, hlc_logical = 2\<rparr>}"
    using ApplyDelta_clock[OF deltas_ok(1,2), of set_a "Some 3"] by (auto simp: set_a_def witness_eval)
  then obtain s' where s': "ORSet_ApplyDelta (Some s1) remove_delta (Some 8) = (Some s', Inr ())"
    using ApplyDelta_clock[OF deltas_ok(3,4), of s1 "Some 8"] by (auto simp: witness_eval)
  obtain t1 where t1: "ORSet_ApplyDelta (Some set_a) remove_delta (Some 3) = (Some t1, Inr ())"
      "os_clock t1 \<in> {Some \<lparr>hlc_replicaID = [97], hlc_wallTime = 5, hlc_logical = 0\<rparr>, Some \<lparr>hlc_replicaID = [97], hlc_wallTime = 5, hlc_logical = 1\<rparr>}"
    using ApplyDelta_clock[OF deltas_ok(3,4), of set_a "Some 3"] by (auto simp: set_a_def witness_eval)
  then obtain t' where t': "ORSet_ApplyDelta (Some t1) add_delta (Some 8) = (Some t', Inr ())"
    using ApplyDelta_clock[OF deltas_ok(1,2), of t1 "Some 8"] by (auto simp: witness_eval)
  have runs: "os_apply_all set_a [(add_delta, Some 3), (remove_delta, Some 8)] = Some s'"
    "os_apply_all set_a [(remove_delta, Some 3), (add_delta, Some 8)] = Some t'" by (simp_all add: s1 s' t1 t')
  moreover have "os_inv set_a" using sets_ok(1) by (simp add: os_ok_def)
  moreover have "fst ` set [(add_delta, Some (3::int)), (remove_delta, Some 8)] = fst ` set [(remove_delta, Some (3::int)), (add_delta, Some 8)]"
    by auto
  ultimately have "os_state s' = os_state t'" using runs by (intro conjunct1[OF orset_converges[OF _ _ refl]])
  with runs show ?thesis by blast
qed

lemma Marshal_iff:
  assumes "os_ok s" and "\<forall>e. e |\<in>| fmdom (os_elements s) \<longrightarrow> elem_stable (os_codec s) e"
  shows "ORSet_MarshalBinary (Some s) = Inr data \<longleftrightarrow>
      unmarshalORSetWithCodec flate data TypeIDORSetState (os_codec s) DefaultLimits = Inr (os_state s) \<and>
      PeekFrameFormatVersion data DefaultLimits = Inr FormatVersion"
    and "enumerates keys enum (os_elements s) \<Longrightarrow> newORSetMarshalPlan keys enum (os_elements s) (os_tombstones s) = Inr plan \<Longrightarrow>
      marshalORSetPlan TypeIDORSetState (os_codec s) plan = Inr data \<longleftrightarrow> ORSet_MarshalBinary (Some s) = Inr data"
proof -
  have inv: "or_inv (os_state s)" "tags_unique (os_elements s)" "\<not> blank (bec_id (os_codec s))"
    using assms(1) by (simp_all add: os_ok_def os_inv_def)
  have iff: "marshalORSetPlan TypeIDORSetState (os_codec s) plan = Inr d \<longleftrightarrow>
      unmarshalORSetWithCodec flate d TypeIDORSetState (os_codec s) DefaultLimits = Inr (os_state s) \<and>
      PeekFrameFormatVersion d DefaultLimits = Inr FormatVersion"
    if "enumerates keys enum (os_elements s)" "newORSetMarshalPlan keys enum (os_elements s) (os_tombstones s) = Inr plan" for keys enum plan d
    using orset_bytes_iff[OF inv(1) _ _ inv(3), of keys enum plan TypeIDORSetState d flate] assms(2) inv(2) that by simp
  obtain plan' where plan': "newORSetMarshalPlan (fm_keys (os_elements s)) sorted_list_of_fset (os_elements s) (os_tombstones s) = Inr plan'"
    using plan_exists[OF inv(1)] by auto
  show m: "ORSet_MarshalBinary (Some s) = Inr data \<longleftrightarrow>
      unmarshalORSetWithCodec flate data TypeIDORSetState (os_codec s) DefaultLimits = Inr (os_state s) \<and>
      PeekFrameFormatVersion data DefaultLimits = Inr FormatVersion"
    unfolding iff[OF enumerates_default plan', symmetric] by (simp add: ORSet_MarshalBinary_def os_plan_def plan')
  show "marshalORSetPlan TypeIDORSetState (os_codec s) plan = Inr data \<longleftrightarrow> ORSet_MarshalBinary (Some s) = Inr data"
    if "enumerates keys enum (os_elements s)" "newORSetMarshalPlan keys enum (os_elements s) (os_tombstones s) = Inr plan"
    unfolding m by (rule iff[OF that])
qed

lemma Unmarshal_back:
  assumes "os_ok s" and "\<forall>e. e |\<in>| fmdom (os_elements s) \<longrightarrow> elem_stable (os_codec s) e"
    and t: "ORSet_MarshalBinary (Some s) = Inr data" "os_ok t" "os_codec t = os_codec s"
      "ORSet_UnmarshalBinary flate (Some t) data now = (Some t', r)"
  shows "os_ok t' \<and> (if isl r then t' = t else os_state t' = os_state s)"
proof -
  have "safe_call os_ok t (Some t', r)"
    using Unmarshal_ok[OF t(2) DefaultLimits_go, of flate data now] t(4) by (simp add: ORSet_UnmarshalBinary_def)
  moreover have "unmarshalORSetWithCodec flate data TypeIDORSetState (os_codec t) DefaultLimits = Inr (os_state s)"
    using t(1,3) Marshal_iff(1)[OF assms(1,2), of data flate] by simp
  then have "\<not> isl r \<Longrightarrow> os_state t' = os_state s"
    using t(4) by (auto simp: ORSet_UnmarshalBinary_def ORSet_UnmarshalBinaryWithLimits_def split: sum.splits prod.splits)
  ultimately show ?thesis by (auto simp: safe_call_def)
qed

lemma set_a_bytes: "\<exists>data. ORSet_MarshalBinary (Some set_a) = Inr data"
proof -
  let ?A = "fmupd (7::byte) {|Tag [97] 5 0|} fmempty"
  obtain plan where plan: "newORSetMarshalPlan (fm_keys ?A) sorted_list_of_fset ?A {||} = Inr plan"
    using plan_exists[of "(?A, {||})"] sets_ok(1) by (auto simp: os_ok_def os_inv_def set_a_def)
  have "length (or_enc byte_bound (?A, {||})) \<le> 100"
    by (simp add: or_enc_def or_entry_enc_def fs_sorted_by_def comp_def fcard.rep_eq fm_size_def tag_field.counted_enc_def tag_enc_def elem_enc_def bytes_enc_def uvarint_small
        fm_items_by_def byte_bound_facts eval)
  then have "\<exists>data. marshalORSetPlan TypeIDORSetState byte_bound plan = Inr data"
    unfolding marshalORSetPlan_iff[OF enumerates_default plan] MarshalFrame_iff
    by (auto simp: byte_bound_facts orset_sizes_ok_def tag_total_def fcard.rep_eq DefaultLimits_def fm_size_def eval split: if_splits)
  then show ?thesis
    using plan by (simp add: ORSet_MarshalBinary_def os_plan_def set_a_def)
qed

lemma orset_codec_parts:
  assumes "os_ok s" and "\<forall>e. e |\<in>| fmdom (os_elements s) \<longrightarrow> elem_stable (os_codec s) e"
  shows "ORSet_MarshalBinary (Some s) = Inr data \<longleftrightarrow>
      unmarshalORSetWithCodec flate data TypeIDORSetState (os_codec s) DefaultLimits = Inr (os_state s) \<and>
      PeekFrameFormatVersion data DefaultLimits = Inr FormatVersion"
    and "enumerates keys enum (os_elements s) \<Longrightarrow> newORSetMarshalPlan keys enum (os_elements s) (os_tombstones s) = Inr plan \<Longrightarrow>
      marshalORSetPlan TypeIDORSetState (os_codec s) plan = Inr data \<longleftrightarrow> ORSet_MarshalBinary (Some s) = Inr data"
    and "ORSet_MarshalBinary (Some s) = Inr data \<Longrightarrow> os_ok t \<Longrightarrow> os_codec t = os_codec s \<Longrightarrow>
      ORSet_UnmarshalBinary flate (Some t) data now = (Some t', r) \<Longrightarrow> os_ok t' \<and> (if isl r then t' = t else os_state t' = os_state s)"
  by (rule Marshal_iff[OF assms(1,2)]) (rule Marshal_iff[OF assms(1,2)], assumption+, rule Unmarshal_back[OF assms(1,2)])

text \<open>
  C11. The framed state of an OR-Set is canonical. For a codec that is stable on the elements held, \<open>MarshalBinary\<close> returns
  exactly the version 1 bytes that decode to this state; the order in which Go visits the maps does not show in them; and
  \<open>UnmarshalBinary\<close> of these bytes at a set with the same codec restores elements, tags and tombstones, or fails in the
  clock and changes nothing.
\<close>

theorem orset_codec:
  assumes "os_ok s" and "\<forall>e. e |\<in>| fmdom (os_elements s) \<longrightarrow> elem_stable (os_codec s) e"
  shows "(ORSet_MarshalBinary (Some s) = Inr data \<longleftrightarrow>
      unmarshalORSetWithCodec flate data TypeIDORSetState (os_codec s) DefaultLimits = Inr (os_state s) \<and>
      PeekFrameFormatVersion data DefaultLimits = Inr FormatVersion) \<and>
    (enumerates keys enum (os_elements s) \<longrightarrow> newORSetMarshalPlan keys enum (os_elements s) (os_tombstones s) = Inr plan \<longrightarrow>
      marshalORSetPlan TypeIDORSetState (os_codec s) plan = Inr data \<longleftrightarrow> ORSet_MarshalBinary (Some s) = Inr data) \<and>
    (ORSet_MarshalBinary (Some s) = Inr data \<longrightarrow> os_ok t \<longrightarrow> os_codec t = os_codec s \<longrightarrow>
      ORSet_UnmarshalBinary flate (Some t) data now = (Some t', r) \<longrightarrow> os_ok t' \<and> (if isl r then t' = t else os_state t' = os_state s))"
  using orset_codec_parts(1)[OF assms] orset_codec_parts(2)[OF assms] orset_codec_parts(3)[OF assms] by (intro conjI impI) blast+

theorem orset_codec_witness:
  "\<exists>data. ORSet_MarshalBinary (Some set_a) = Inr data \<and>
     unmarshalORSetWithCodec (\<lambda>c. (c, None)) data TypeIDORSetState byte_bound DefaultLimits = Inr (fmupd 7 {|Tag [97] 5 0|} fmempty, {||})"
  using set_a_bytes orset_codec[OF sets_ok(1), of _ "\<lambda>c. (c, None)"] by (auto simp: set_a_def byte_bound_facts)

lemma orset_compact_parts:
  assumes "os_ok s" and "os_ok r"
    and "ORSet_Compact (Some s) frontier = (Some s', Inr n) \<and> gone = ffilter (frontier_acks frontier) (os_tombstones s) \<or>
         ORSet_CompactTombstones (Some s) acked = (Some s', Inr n) \<and> gone = os_tombstones s |\<inter>| fset_of_list acked"
  shows "os_elements s' = os_elements s \<and> os_clock s' = os_clock s \<and> os_tombstones s' = os_tombstones s |-| gone \<and> n = fcard gone"
    and "(\<And>e. tags_at (os_elements r) e |\<inter>| gone = {||}) \<Longrightarrow> ORSet_Merge (Some s) (Some r) now = (Some a, Inr ()) \<Longrightarrow>
      ORSet_Merge (Some s') (Some r) now = (Some b, Inr ()) \<Longrightarrow> os_elements b = os_elements a"
    and "(\<And>e. tags_at (os_elements r) e |\<inter>| gone = {||}) \<Longrightarrow> ORSet_Merge (Some r) (Some s) now = (Some c, Inr ()) \<Longrightarrow>
      ORSet_Merge (Some r) (Some s') now = (Some d, Inr ()) \<Longrightarrow> os_elements d = os_elements c"
proof -
  have gone: "gone |\<subseteq>| os_tombstones s" using assms(3) by auto
  show s': "os_elements s' = os_elements s \<and> os_clock s' = os_clock s \<and> os_tombstones s' = os_tombstones s |-| gone \<and> n = fcard gone"
    using assms(3) by (auto simp: Compact_eq CompactTombstones_eq split: if_splits)
  have "s' = s\<lparr>os_tombstones := os_tombstones s |-| gone\<rparr>"
    using assms(3) by (auto simp: Compact_eq CompactTombstones_eq split: if_splits intro!: arg_cong[of _ _ "\<lambda>T. s\<lparr>os_tombstones := T\<rparr>"])
  then have ok: "os_ok s'" using assms(1) by (auto intro: shrink_tombstones_ok)
  have inv: "os_inv s" "os_inv s'" "os_inv r" "or_inv (os_state s)" "or_inv (os_state s')" "or_inv (os_state r)"
    using assms(1,2) ok by (simp_all add: os_ok_def os_inv_def)
  have same: "os_elements y = os_elements x" if "os_inv x" "os_inv y" "\<And>t e. t |\<in>| tags_at (fst (os_state y)) e \<longleftrightarrow> t |\<in>| tags_at (fst (os_state x)) e"
    for x y :: "'a ORSet" using that by (intro adds_eqI) (auto simp: os_inv_def or_inv_def)
  show "os_elements b = os_elements a" if free: "\<And>e. tags_at (os_elements r) e |\<inter>| gone = {||}"
    and m: "ORSet_Merge (Some s) (Some r) now = (Some a, Inr ())" "ORSet_Merge (Some s') (Some r) now = (Some b, Inr ())"
  proof (rule same)
    have a: "os_inv a" "os_state a = or_join (os_state s) (os_state r)" using Merge_safe(2)[OF inv(1,3) m(1)] by auto
    have b: "os_inv b" "os_state b = or_join (os_state s') (os_state r)" using Merge_safe(2)[OF inv(2,3) m(2)] by auto
    show "t |\<in>| tags_at (fst (os_state b)) e \<longleftrightarrow> t |\<in>| tags_at (fst (os_state a)) e" for t e
      unfolding a(2) b(2) or_join_live[OF inv(4)] or_join_live[OF inv(5)]
      using s' free[of e] or_inv_live[OF inv(4), of t e] by auto
    show "os_inv a" "os_inv b" by (fact a(1), fact b(1))
  qed
  show "os_elements d = os_elements c" if free: "\<And>e. tags_at (os_elements r) e |\<inter>| gone = {||}"
    and m: "ORSet_Merge (Some r) (Some s) now = (Some c, Inr ())" "ORSet_Merge (Some r) (Some s') now = (Some d, Inr ())"
  proof (rule same)
    have c: "os_inv c" "os_state c = or_join (os_state r) (os_state s)" using Merge_safe(2)[OF inv(3,1) m(1)] by auto
    have d: "os_inv d" "os_state d = or_join (os_state r) (os_state s')" using Merge_safe(2)[OF inv(3,2) m(2)] by auto
    show "t |\<in>| tags_at (fst (os_state d)) e \<longleftrightarrow> t |\<in>| tags_at (fst (os_state c)) e" for t e
      unfolding c(2) d(2) or_join_live[OF inv(6)] using s' free[of e] or_inv_live[OF inv(4), of t e] by auto
    show "os_inv c" "os_inv d" by (fact c(1), fact d(1))
  qed
qed

text \<open>
  C20. Compaction forgets tombstones only: the elements and their tags stay, the count returned is the number of tombstones
  dropped, and these are exactly the acknowledged ones. If another replica holds no dropped tag as live, a later merge with it, in either
  direction, shows the same elements as without compaction.
\<close>

theorem orset_compact:
  assumes "os_ok s" and "os_ok r"
    and "ORSet_Compact (Some s) frontier = (Some s', Inr n) \<and> gone = ffilter (frontier_acks frontier) (os_tombstones s) \<or>
         ORSet_CompactTombstones (Some s) acked = (Some s', Inr n) \<and> gone = os_tombstones s |\<inter>| fset_of_list acked"
  shows "(os_elements s' = os_elements s \<and> os_clock s' = os_clock s \<and> os_tombstones s' = os_tombstones s |-| gone \<and> n = fcard gone) \<and>
    ((\<forall>e. tags_at (os_elements r) e |\<inter>| gone = {||}) \<longrightarrow> ORSet_Merge (Some s) (Some r) now = (Some a, Inr ()) \<longrightarrow>
      ORSet_Merge (Some s') (Some r) now = (Some b, Inr ()) \<longrightarrow> os_elements b = os_elements a) \<and>
    ((\<forall>e. tags_at (os_elements r) e |\<inter>| gone = {||}) \<longrightarrow> ORSet_Merge (Some r) (Some s) now = (Some c, Inr ()) \<longrightarrow>
      ORSet_Merge (Some r) (Some s') now = (Some d, Inr ()) \<longrightarrow> os_elements d = os_elements c)"
  using orset_compact_parts(1)[OF assms] orset_compact_parts(2)[OF assms] orset_compact_parts(3)[OF assms] by (intro conjI impI) blast+

theorem orset_compact_witness:
  "\<exists>s'. ORSet_CompactTombstones (Some (set_a\<lparr>os_tombstones := {|Tag [98] 2 0|}\<rparr>)) [Tag [98] 2 0] = (Some s', Inr 1) \<and>
     os_elements s' = os_elements set_a"
proof -
  let ?s = "set_a\<lparr>os_tombstones := {|Tag [98] 2 0|}\<rparr>"
  have ok: "os_ok ?s"
    by (auto simp: set_a_def os_ok_def os_inv_def or_inv_def adds_normal_def tags_unique_def clock_covers_def hlc_inv_def has_tag_def
        tag_stamp_def hlc_stamp_def stamp_def byte_bound_facts eval split: if_splits)
  obtain s' where s': "ORSet_CompactTombstones (Some ?s) [Tag [98] 2 0] = (Some s', Inr 1)"
    by (simp add: CompactTombstones_eq fcard.rep_eq Tag_Valid_def set_a_def eval)
  have gone: "os_tombstones ?s |\<inter>| fset_of_list [Tag [98] 2 0] = {|Tag [98] 2 0|}" by simp
  have "os_elements s' = os_elements ?s"
    using orset_compact[OF ok ok disjI2[OF conjI[OF s' gone[symmetric]]]] by blast
  with s' show ?thesis by simp
qed

end
