(* ===== verification/Registers.thy ===== *)
theory Registers
  imports Clock
begin

text \<open>
  The last-writer-wins and the maximum register of \<open>src/register/register.go\<close>. \<open>Merge\<close> is the call with two
  different registers; with itself a register returns at once.
\<close>

abbreviation register_ErrInvalidReplicaID :: go_error where
  "register_ErrInvalidReplicaID \<equiv> errors_New ''register: invalid replica ID''"

abbreviation register_ErrNilLWW :: go_error where
  "register_ErrNilLWW \<equiv> errors_New ''register: nil LWW register''"

abbreviation register_ErrNilMax :: go_error where
  "register_ErrNilMax \<equiv> errors_New ''register: nil max register''"

abbreviation register_ErrTagConflict :: go_error where
  "register_ErrTagConflict \<equiv> errors_New ''register: conflicting value for one tag''"

record LWW =
  lw_clock :: "HLC option"
  lw_replicaID :: gostring
  lw_tag :: tag
  lw_value :: "byte list"
  lw_hasValue :: bool

definition NewLWWFromClock :: "clock_State \<Rightarrow> LWW res" where
  "NewLWWFromClock state =
     (if \<not> Tag_Valid (Tag (st_ReplicaID state) 0 0) then Inl register_ErrInvalidReplicaID
      else (case NewHLCFromState state of
          Inl err \<Rightarrow> Inl err
        | Inr hlc \<Rightarrow> Inr \<lparr>lw_clock = Some hlc, lw_replicaID = st_ReplicaID state, lw_tag = Tag [] 0 0, lw_value = [], lw_hasValue = False\<rparr>))"

definition NewLWW :: "gostring \<Rightarrow> LWW res" where
  "NewLWW replicaID = NewLWWFromClock \<lparr>st_ReplicaID = replicaID, st_WallTime = 0, st_Logical = 0\<rparr>"

definition LWW_ClockState :: "LWW option \<Rightarrow> clock_State" where
  "LWW_ClockState r = (case r of
      None \<Rightarrow> \<lparr>st_ReplicaID = [], st_WallTime = 0, st_Logical = 0\<rparr>
    | Some r \<Rightarrow> if lw_clock r = None then \<lparr>st_ReplicaID = [], st_WallTime = 0, st_Logical = 0\<rparr> else HLC_Snapshot (lw_clock r))"

text \<open>The critical section of \<open>Set\<close> and the end of \<open>Merge\<close>: a value is stored if its tag is greater.\<close>

definition lww_store :: "tag \<Rightarrow> byte list \<Rightarrow> LWW \<Rightarrow> LWW" where
  "lww_store tag value r = (if \<not> lw_hasValue r \<or> Tag_Compare (lw_tag r) tag < 0
     then r\<lparr>lw_tag := tag, lw_value := value, lw_hasValue := True\<rparr> else r)"

definition LWW_Set :: "LWW option \<Rightarrow> byte list \<Rightarrow> int option \<Rightarrow> LWW option \<times> unit res" where
  "LWW_Set r value now = (case r of
      None \<Rightarrow> (None, Inl register_ErrNilLWW)
    | Some r \<Rightarrow>
        if lw_clock r = None then (Some r, Inl register_ErrNilLWW)
        else (case HLC_Now (lw_clock r) now of
            (clock, Inl err) \<Rightarrow> (Some (r\<lparr>lw_clock := clock\<rparr>), Inl err)
          | (clock, Inr tag) \<Rightarrow> (Some (lww_store tag value (r\<lparr>lw_clock := clock\<rparr>)), Inr ())))"

definition LWW_Get :: "LWW option \<Rightarrow> byte list option" where
  "LWW_Get r = (case r of None \<Rightarrow> None | Some r \<Rightarrow> if \<not> lw_hasValue r then None else Some (lw_value r))"

definition LWW_Merge :: "LWW option \<Rightarrow> LWW option \<Rightarrow> int option \<Rightarrow> LWW option \<times> unit res" where
  "LWW_Merge r other now = (case (r, other) of
      (Some r, Some other) \<Rightarrow>
        if \<not> lw_hasValue other then (Some r, Inr ())
        else if lw_hasValue r \<and> lw_tag r = lw_tag other \<and> lw_value r \<noteq> lw_value other then (Some r, Inl register_ErrTagConflict)
        else (case HLC_Witness (lw_clock r) (lw_tag other) now of
            (clock, Inl err) \<Rightarrow> (Some (r\<lparr>lw_clock := clock\<rparr>), Inl err)
          | (clock, Inr _) \<Rightarrow> (Some (lww_store (lw_tag other) (lw_value other) (r\<lparr>lw_clock := clock\<rparr>)), Inr ()))
    | _ \<Rightarrow> (r, Inl register_ErrNilLWW))"

definition LWW_State :: "LWW option \<Rightarrow> StateSnapshot" where
  "LWW_State r = (case r of
      None \<Rightarrow> \<lparr>snap_Type = ''lww-register'', snap_ReplicaID = [], snap_ElementCount = 0, snap_TombstoneCount = 0\<rparr>
    | Some r \<Rightarrow> \<lparr>snap_Type = ''lww-register'', snap_ReplicaID = lw_replicaID r,
                snap_ElementCount = (if lw_hasValue r then 1 else 0), snap_TombstoneCount = 0\<rparr>)"

record Max =
  mx_value :: u64
  mx_hasValue :: bool

definition NewMax :: Max where
  "NewMax = \<lparr>mx_value = 0, mx_hasValue = False\<rparr>"

definition Max_Set :: "Max option \<Rightarrow> u64 \<Rightarrow> Max option \<times> unit res" where
  "Max_Set r value = (case r of
      None \<Rightarrow> (None, Inl register_ErrNilMax)
    | Some r \<Rightarrow> (Some (if \<not> mx_hasValue r \<or> value > mx_value r then r\<lparr>mx_value := value, mx_hasValue := True\<rparr> else r), Inr ()))"

definition Max_Get :: "Max option \<Rightarrow> u64 \<times> bool" where
  "Max_Get r = (case r of None \<Rightarrow> (0, False) | Some r \<Rightarrow> (mx_value r, mx_hasValue r))"

definition Max_Merge :: "Max option \<Rightarrow> Max option \<Rightarrow> Max option \<times> unit res" where
  "Max_Merge r other = (case (r, other) of
      (Some r, Some other) \<Rightarrow> if \<not> mx_hasValue other then (Some r, Inr ()) else Max_Set (Some r) (mx_value other)
    | _ \<Rightarrow> (r, Inl register_ErrNilMax))"

definition Max_State :: "Max option \<Rightarrow> StateSnapshot" where
  "Max_State r = (case r of
      None \<Rightarrow> \<lparr>snap_Type = ''max-register'', snap_ReplicaID = [], snap_ElementCount = 0, snap_TombstoneCount = 0\<rparr>
    | Some r \<Rightarrow> \<lparr>snap_Type = ''max-register'', snap_ReplicaID = [],
                snap_ElementCount = (if mx_hasValue r then 1 else 0), snap_TombstoneCount = 0\<rparr>)"

section \<open>Both are joins\<close>

text \<open>What a register shows, and the join of what two registers show. Tags are issued once: \<open>val\<close> is the value written under a tag.\<close>

definition lww_view :: "LWW \<Rightarrow> (tag \<times> byte list) option" where
  "lww_view r = (if lw_hasValue r then Some (lw_tag r, lw_value r) else None)"

fun lww_join :: "(tag \<times> byte list) option \<Rightarrow> (tag \<times> byte list) option \<Rightarrow> (tag \<times> byte list) option" where
  "lww_join a None = a"
| "lww_join None b = b"
| "lww_join (Some a) (Some b) = (if fst a < fst b then Some b else Some a)"

definition written :: "(tag \<Rightarrow> byte list) \<Rightarrow> (tag \<times> byte list) option \<Rightarrow> bool" where
  "written val a \<longleftrightarrow> (\<forall>t v. a = Some (t, v) \<longrightarrow> v = val t)"

lemma lww_join_assoc: "lww_join (lww_join a b) c = lww_join a (lww_join b c)"
  by (cases a; cases b; cases c) auto

interpretation lww_crdt: state_crdt "written val" lww_join for val
proof
  fix a b c :: "(tag \<times> byte list) option"
  show "written val (lww_join a b)" if "written val a" "written val b"
    using that by (cases a; cases b) (auto simp: written_def)
  show "lww_join a b = lww_join b a" if "written val a" "written val b"
    using that by (cases a; cases b) (auto simp: written_def)
  show "lww_join (lww_join a b) c = lww_join a (lww_join b c)" by (rule lww_join_assoc)
  show "lww_join a a = a" by (cases a) auto
qed

lemma lww_store_view [simp]: "lww_view (lww_store t v r) = lww_join (lww_view r) (Some (t, v))"
  by (auto simp: lww_view_def lww_store_def)

lemma lww_store_simps [simp]: "lw_clock (lww_store t v r) = lw_clock r" "lw_replicaID (lww_store t v r) = lw_replicaID r"
  by (simp_all add: lww_store_def)

definition max_view :: "Max \<Rightarrow> u64 option" where
  "max_view r = (if mx_hasValue r then Some (mx_value r) else None)"

fun max_join :: "u64 option \<Rightarrow> u64 option \<Rightarrow> u64 option" where
  "max_join a None = a"
| "max_join None b = b"
| "max_join (Some a) (Some b) = Some (max a b)"

interpretation max_crdt: state_crdt "\<lambda>_. True" max_join
proof
  fix a b c :: "u64 option"
  show "max_join a b = max_join b a" by (cases a; cases b) (auto simp: max.commute)
  show "max_join (max_join a b) c = max_join a (max_join b c)" by (cases a; cases b; cases c) (auto simp: max.assoc)
  show "max_join a a = a" by (cases a) auto
qed simp

lemma Max_Merge_view: "\<exists>r'. Max_Merge (Some r) (Some q) = (Some r', Inr ()) \<and> max_view r' = max_join (max_view r) (max_view q)"
  by (auto simp: Max_Merge_def Max_Set_def max_view_def max_def)

definition max_merge_all :: "Max \<Rightarrow> Max list \<Rightarrow> Max" where
  "max_merge_all r others = foldl (\<lambda>r q. the (fst (Max_Merge (Some r) (Some q)))) r others"

lemma max_merge_all_view: "max_view (max_merge_all r others) = max_crdt.deliver (max_view r) (map max_view others)"
proof (induction others arbitrary: r)
  case (Cons q others)
  obtain r' where "Max_Merge (Some r) (Some q) = (Some r', Inr ())" "max_view r' = max_join (max_view r) (max_view q)"
    using Max_Merge_view by blast
  with Cons[of r'] show ?case by (simp add: max_merge_all_def)
qed (simp add: max_merge_all_def)

section \<open>The invariant and convergence of the LWW register\<close>

definition lww_inv :: "LWW \<Rightarrow> bool" where
  "lww_inv r \<longleftrightarrow> (\<exists>h. lw_clock r = Some h \<and> hlc_inv h \<and> hlc_replicaID h = lw_replicaID r \<and>
     (lw_hasValue r \<longrightarrow> Tag_Valid (lw_tag r) \<and> tag_stamp (lw_tag r) \<le> hlc_stamp h))"

lemma LWW_Set_cases:
  assumes "lww_inv r"
  obtains (error) "LWW_Set (Some r) v now = (Some r, Inl clock_ErrClockExhausted)"
  | (ok) r' where "LWW_Set (Some r) v now = (Some r', Inr ())" "lww_inv r'" "lww_view r' = Some (lw_tag r', v)"
      "ReplicaID (lw_tag r') = lw_replicaID r" "lw_hasValue r \<Longrightarrow> lw_tag r < lw_tag r'"
proof -
  obtain h where h: "lw_clock r = Some h" "hlc_inv h" "hlc_replicaID h = lw_replicaID r"
    "lw_hasValue r \<Longrightarrow> Tag_Valid (lw_tag r) \<and> tag_stamp (lw_tag r) \<le> hlc_stamp h"
    using assms by (auto simp: lww_inv_def)
  obtain c n where n: "HLC_Now (Some h) now = (c, n)" by fastforce
  then show thesis
  proof (cases rule: Now_cases)
    case (error e)
    with n h that(1) show thesis by (simp add: LWW_Set_def)
  next
    case (ok h')
    let ?t = "Tag (hlc_replicaID h') (hlc_wallTime h') (hlc_logical h')"
    have st: "tag_stamp ?t = hlc_stamp h'" by (simp add: tag_stamp_def hlc_stamp_def)
    have less: "lw_hasValue r \<Longrightarrow> lw_tag r < ?t" using h(4) ok(3) st by (intro tag_stamp_less) simp
    define r' where "r' = r\<lparr>lw_clock := c, lw_tag := ?t, lw_value := v, lw_hasValue := True\<rparr>"
    have "lww_store ?t v (r\<lparr>lw_clock := c\<rparr>) = r'" using less by (simp add: lww_store_def r'_def)
    then have run: "LWW_Set (Some r) v now = (Some r', Inr ())" using n h(1) ok by (simp add: LWW_Set_def)
    have inv: "lww_inv r'" using h ok st by (simp add: lww_inv_def r'_def hlc_inv_def Tag_Valid_def)
    show thesis by (rule that(2)[OF run inv]) (use h ok less in \<open>simp_all add: r'_def lww_view_def\<close>)
  qed
qed

lemma LWW_Merge_cases:
  assumes "lww_inv r" and "lww_inv q"
  obtains (error) e where "LWW_Merge (Some r) (Some q) now = (Some r, Inl e)"
  | (ok) r' where "LWW_Merge (Some r) (Some q) now = (Some r', Inr ())" "lww_inv r'" "lww_view r' = lww_join (lww_view r) (lww_view q)"
      "lw_replicaID r' = lw_replicaID r"
proof (cases "lw_hasValue q")
  case False
  then show thesis using that(2)[of r] assms(1) by (simp add: LWW_Merge_def lww_view_def)
next
  case True
  obtain h where h: "lw_clock r = Some h" "hlc_inv h" "hlc_replicaID h = lw_replicaID r"
    "lw_hasValue r \<Longrightarrow> Tag_Valid (lw_tag r) \<and> tag_stamp (lw_tag r) \<le> hlc_stamp h"
    using assms(1) by (auto simp: lww_inv_def)
  show thesis
  proof (cases "lw_hasValue r \<and> lw_tag r = lw_tag q \<and> lw_value r \<noteq> lw_value q")
    case clash: True
    with True that(1)[of register_ErrTagConflict] show thesis by (simp add: LWW_Merge_def)
  next
    case same: False
    obtain c n where n: "HLC_Witness (Some h) (lw_tag q) now = (c, n)" by fastforce
    then show thesis
    proof (cases rule: Witness_cases)
      case (error e)
      have "LWW_Merge (Some r) (Some q) now = (Some r, Inl e)" using n error True same h by (simp add: LWW_Merge_def)
      then show thesis by (rule that(1))
    next
      case (ok h')
      let ?r' = "lww_store (lw_tag q) (lw_value q) (r\<lparr>lw_clock := c\<rparr>)"
      have "Tag_Valid (lw_tag q)" using assms(2) True by (auto simp: lww_inv_def)
      moreover have "lw_hasValue r \<Longrightarrow> tag_stamp (lw_tag r) \<le> hlc_stamp h'" using h(4) ok(4) by simp
      ultimately have "lww_inv ?r'" using h ok by (auto simp: lww_inv_def hlc_inv_def lww_store_def)
      moreover have "LWW_Merge (Some r) (Some q) now = (Some ?r', Inr ())" using n ok True same h by (simp add: LWW_Merge_def)
      moreover have "lww_view q = Some (lw_tag q, lw_value q)" using True by (simp add: lww_view_def)
      moreover have "lww_view (r\<lparr>lw_clock := c\<rparr>) = lww_view r" by (simp add: lww_view_def)
      ultimately show thesis by (intro that(2)[of ?r']) simp_all
    qed
  qed
qed

text \<open>Merging a list of registers, each at a reading of the physical clock, stopping at the first error.\<close>

fun lww_merge_all :: "LWW \<Rightarrow> (LWW \<times> int option) list \<Rightarrow> LWW option" where
  "lww_merge_all r [] = Some r"
| "lww_merge_all r ((q, now) # qs) = (case LWW_Merge (Some r) (Some q) now of (Some r', Inr _) \<Rightarrow> lww_merge_all r' qs | _ \<Rightarrow> None)"

lemma lww_merge_all_view:
  "lww_inv r \<Longrightarrow> \<forall>q \<in> set qs. lww_inv (fst q) \<Longrightarrow> lww_merge_all r qs = Some r' \<Longrightarrow>
   lww_inv r' \<and> lww_view r' = lww_crdt.deliver (lww_view r) (map (lww_view \<circ> fst) qs)"
proof (induction qs arbitrary: r)
  case (Cons x qs)
  obtain q now where x: "x = (q, now)" by fastforce
  have inv: "lww_inv r" "lww_inv q" using Cons.prems x by auto
  from inv show ?case
  proof (cases rule: LWW_Merge_cases[where now = now])
    case (error e)
    with Cons.prems(3) x show ?thesis by simp
  next
    case (ok r1)
    with Cons.IH[of r1] Cons.prems x show ?thesis by simp
  qed
qed simp

text \<open>The register shows one of the writes it has seen, and none of them has a greater tag.\<close>

definition shows_greatest :: "(tag \<times> byte list) option \<Rightarrow> (tag \<times> byte list) option set \<Rightarrow> bool" where
  "shows_greatest a S \<longleftrightarrow> a \<in> S \<and> (\<forall>t v. Some (t, v) \<in> S \<longrightarrow> (\<exists>t' v'. a = Some (t', v') \<and> t \<le> t'))"

lemma shows_greatest_join: "shows_greatest a S \<Longrightarrow> shows_greatest (lww_join a b) (insert b S)"
  by (cases a; cases b) (fastforce simp: shows_greatest_def)+

lemma deliver_greatest: "shows_greatest a S \<Longrightarrow> shows_greatest (lww_crdt.deliver a bs) (S \<union> set bs)"
proof (induction bs arbitrary: a S)
  case (Cons b bs)
  from Cons.IH[OF shows_greatest_join[OF Cons.prems, of b]] show ?case by simp
qed simp

section \<open>Properties\<close>

text \<open>
  C32. A last-writer-wins register shows the greatest write. After successful merges it shows one of the writes it held or merged, and
  none of these has a greater tag; replicas that start alike and merge the same registers, in any order and any number of times, show
  the same value, where each tag stands for one value. \<open>Set\<close> fails only on an exhausted clock; otherwise \<open>Get\<close> returns the value
  written. The clock stays at or after the tag shown, and on an error the register is unchanged.
\<close>

theorem lww_register:
  assumes "lww_inv r" and "written val (lww_view r)" and "\<forall>q \<in> set qs. lww_inv (fst q) \<and> written val (lww_view (fst q))"
    and "fst ` set qs = fst ` set ps" and "lww_merge_all r qs = Some a" and "lww_merge_all r ps = Some b"
  shows "lww_view a = lww_view b \<and> shows_greatest (lww_view a) (lww_view ` insert r (fst ` set qs)) \<and> lww_inv a \<and>
    safe_call lww_inv r (LWW_Set (Some r) v now) \<and> (\<forall>q. lww_inv q \<longrightarrow> safe_call lww_inv r (LWW_Merge (Some r) (Some q) now)) \<and>
    (case snd (LWW_Set (Some r) v now) of Inl e \<Rightarrow> e = clock_ErrClockExhausted | Inr _ \<Rightarrow> LWW_Get (fst (LWW_Set (Some r) v now)) = Some v)"
proof -
  have ps: "\<forall>q \<in> set ps. lww_inv (fst q)" using assms(3,4) by (metis imageE image_eqI)
  note a = lww_merge_all_view[OF assms(1) _ assms(5)] and b = lww_merge_all_view[OF assms(1) ps assms(6)]
  have "set (map (lww_view \<circ> fst) qs) = set (map (lww_view \<circ> fst) ps)"
    unfolding set_map image_comp[symmetric] assms(4) ..
  moreover have "\<forall>x \<in> set (map (lww_view \<circ> fst) qs). written val x" using assms(3) by auto
  ultimately have "lww_crdt.deliver (lww_view r) (map (lww_view \<circ> fst) qs) = lww_crdt.deliver (lww_view r) (map (lww_view \<circ> fst) ps)"
    using lww_crdt.deliver_converges[of val "lww_view r"] assms(2) by metis
  then have conv: "lww_view a = lww_view b \<and> lww_inv a" using a b assms(3) by auto
  have "shows_greatest (lww_view r) {lww_view r}" by (cases "lww_view r") (auto simp: shows_greatest_def)
  from deliver_greatest[OF this, of "map (lww_view \<circ> fst) qs"]
  have great: "shows_greatest (lww_view a) (lww_view ` insert r (fst ` set qs))" using a assms(3) by (simp add: image_comp)
  have set: "safe_call lww_inv r (LWW_Set (Some r) v now) \<and>
    (case snd (LWW_Set (Some r) v now) of Inl e \<Rightarrow> e = clock_ErrClockExhausted | Inr _ \<Rightarrow> LWW_Get (fst (LWW_Set (Some r) v now)) = Some v)"
    using assms(1)
  proof (cases rule: LWW_Set_cases[where v = v and now = now])
    case (ok r')
    then show ?thesis by (auto simp: LWW_Get_def lww_view_def split: if_splits)
  qed (use assms(1) in simp)
  have merge: "safe_call lww_inv r (LWW_Merge (Some r) (Some q) now)" if "lww_inv q" for q
    using assms(1) that by (cases rule: LWW_Merge_cases[where now = now]) (use assms(1) in simp_all)
  from conv great set merge show ?thesis by blast
qed

definition lww_a :: LWW where
  "lww_a = \<lparr>lw_clock = Some \<lparr>hlc_replicaID = [97], hlc_wallTime = 5, hlc_logical = 0\<rparr>, lw_replicaID = [97], lw_tag = Tag [97] 5 0, lw_value = [1], lw_hasValue = True\<rparr>"

definition lww_b :: LWW where
  "lww_b = \<lparr>lw_clock = Some \<lparr>hlc_replicaID = [98], hlc_wallTime = 6, hlc_logical = 0\<rparr>, lw_replicaID = [98], lw_tag = Tag [98] 6 0, lw_value = [2], lw_hasValue = True\<rparr>"

theorem lww_register_witness:
  "\<exists>a b. lww_merge_all lww_a [(lww_b, Some 8)] = Some a \<and> lww_merge_all lww_a [(lww_b, Some 9)] = Some b \<and> lww_view a = lww_view b"
proof -
  have inv: "lww_inv lww_a" "lww_inv lww_b"
    by (simp_all add: lww_inv_def lww_a_def lww_b_def hlc_inv_def tag_stamp_def hlc_stamp_def Tag_Valid_def eval)
  obtain a b where run: "lww_merge_all lww_a [(lww_b, Some 8)] = Some a" "lww_merge_all lww_a [(lww_b, Some 9)] = Some b"
    by (simp add: LWW_Merge_def lww_a_def lww_b_def HLC_Witness_def physicalMillis_def Tag_Valid_def max_def eval)
  have w: "written (\<lambda>t. if t = Tag [97] 5 0 then [1] else [2]) (lww_view lww_a)" "written (\<lambda>t. if t = Tag [97] 5 0 then [1] else [2]) (lww_view lww_b)"
    by (simp_all add: written_def lww_view_def lww_a_def lww_b_def)
  show ?thesis
    using lww_register[OF inv(1) w(1) _ _ run] inv(2) w(2) run by auto
qed

text \<open>
  A maximum register shows the greatest value written or merged: \<open>Set\<close> and \<open>Merge\<close> always succeed, and merging the same
  registers in any order and any number of times shows the same.
\<close>

theorem max_register:
  "(\<forall>r v. \<exists>r'. Max_Set (Some r) v = (Some r', Inr ()) \<and> max_view r' = max_join (max_view r) (Some v)) \<and>
   (\<forall>r q. \<exists>r'. Max_Merge (Some r) (Some q) = (Some r', Inr ()) \<and> max_view r' = max_join (max_view r) (max_view q)) \<and>
   (\<forall>r ms ns. set ms = set ns \<longrightarrow> max_view (max_merge_all r ms) = max_view (max_merge_all r ns))"
proof (intro conjI allI impI)
  show "\<exists>r'. Max_Set (Some r) v = (Some r', Inr ()) \<and> max_view r' = max_join (max_view r) (Some v)" for r v
    by (auto simp: Max_Set_def max_view_def max_def)
  show "max_view (max_merge_all r ms) = max_view (max_merge_all r ns)" if "set ms = set ns" for r ms ns
    using max_crdt.deliver_converges[where ms = "map max_view ms" and ns = "map max_view ns"] that by (simp add: max_merge_all_view)
qed (rule Max_Merge_view)

definition mx_a :: Max where
  "mx_a = \<lparr>mx_value = 3, mx_hasValue = True\<rparr>"

definition mx_b :: Max where
  "mx_b = \<lparr>mx_value = 7, mx_hasValue = True\<rparr>"

theorem max_register_witness: "max_view (max_merge_all NewMax [mx_a, mx_b]) = max_view (max_merge_all NewMax [mx_b, mx_a, mx_b])"
proof -
  have "set [mx_a, mx_b] = set [mx_b, mx_a, mx_b]" by auto
  with max_register show ?thesis by blast
qed

end
