(* ===== verification/MVRegisters.thy ===== *)
theory MVRegisters
  imports Counts Snapshots Registers
begin

text \<open>
  The multi-value register of \<open>src/register/mvregister.go\<close>: its operations, its codec, and a system of
  replicas that exchange deltas and states in any order. The causal context is a \<open>map[string]uint64\<close> like the
  components of a counter. A delta can hold nil maps, which are \<open>None\<close>; those of a register are made by its constructor.
\<close>

abbreviation register_ErrNilMVRegister :: go_error where
  "register_ErrNilMVRegister \<equiv> errors_New ''register: nil MV-Register''"

abbreviation register_ErrInvalidMVRegister :: go_error where
  "register_ErrInvalidMVRegister \<equiv> errors_New ''register: invalid MV-Register state''"

abbreviation register_ErrMVRegisterOverflow :: go_error where
  "register_ErrMVRegisterOverflow \<equiv> errors_New ''register: MV-Register version overflow''"

abbreviation register_ErrInvalidMVSnapshot :: go_error where
  "register_ErrInvalidMVSnapshot \<equiv> errors_New ''register: invalid MV-Register snapshot''"

section \<open>Dots\<close>

datatype mvDot = MvDot (dot_replicaID: gostring) (dot_counter: u64)

definition compareMVDot :: "mvDot \<Rightarrow> mvDot \<Rightarrow> int" where
  "compareMVDot left right =
     (if dot_replicaID left < dot_replicaID right then -1
      else if dot_replicaID left > dot_replicaID right then 1
      else if dot_counter left < dot_counter right then -1
      else if dot_counter left > dot_counter right then 1
      else 0)"

instantiation mvDot :: linorder
begin

definition less_eq_mvDot :: "mvDot \<Rightarrow> mvDot \<Rightarrow> bool" where
  "less_eq_mvDot d e \<longleftrightarrow> dot_replicaID d < dot_replicaID e \<or> dot_replicaID d = dot_replicaID e \<and> dot_counter d \<le> dot_counter e"

definition less_mvDot :: "mvDot \<Rightarrow> mvDot \<Rightarrow> bool" where
  "less_mvDot d e \<longleftrightarrow> dot_replicaID d < dot_replicaID e \<or> dot_replicaID d = dot_replicaID e \<and> dot_counter d < dot_counter e"

instance
proof
  fix d e f :: mvDot
  show "d < e \<longleftrightarrow> d \<le> e \<and> \<not> e \<le> d" by (auto simp: less_eq_mvDot_def less_mvDot_def)
  show "d \<le> d" by (simp add: less_eq_mvDot_def)
  show "d \<le> e \<Longrightarrow> e \<le> f \<Longrightarrow> d \<le> f" by (auto simp: less_eq_mvDot_def)
  show "d \<le> e \<Longrightarrow> e \<le> d \<Longrightarrow> d = e" by (auto simp: less_eq_mvDot_def intro: mvDot.expand)
  show "d \<le> e \<or> e \<le> d" by (auto simp: less_eq_mvDot_def)
qed

end

lemma compareMVDot_iff [simp]: "compareMVDot d e \<ge> 0 \<longleftrightarrow> e \<le> d" "compareMVDot d e < 0 \<longleftrightarrow> d < e"
  by (auto simp: compareMVDot_def less_eq_mvDot_def less_mvDot_def)

type_synonym mvvalues = "(mvDot, byte list) fmap"
type_synonym mvstate = "counts \<times> mvvalues"

section \<open>The register\<close>

record MVEntry =
  mve_ReplicaID :: gostring
  mve_Counter :: u64
  mve_Value :: "byte list"

record MVRegister =
  mv_replicaID :: gostring
  mv_context :: counts
  mv_values :: mvvalues

record MVRegisterDelta =
  mvd_context :: "counts option"
  mvd_values :: "mvvalues option"

definition validMVDot :: "mvDot \<Rightarrow> bool" where
  "validMVDot dot \<longleftrightarrow> \<not> blank (dot_replicaID dot) \<and> dot_counter dot \<noteq> 0"

definition mvContextCovers :: "counts \<Rightarrow> mvDot \<Rightarrow> bool" where
  "mvContextCovers context dot \<longleftrightarrow> count_at context (dot_replicaID dot) \<ge> dot_counter dot"

definition sortedMVDots :: "mvvalues \<Rightarrow> mvDot list" where
  "sortedMVDots values = sort (fm_keys values)"

definition cloneMVContext :: "counts \<Rightarrow> counts" where
  "cloneMVContext context = fold (\<lambda>(replicaID, counter). fmupd replicaID counter) (fm_items context) fmempty"

definition cloneMVValues :: "mvvalues \<Rightarrow> mvvalues" where
  "cloneMVValues values = fold (\<lambda>(dot, value). fmupd dot value) (fm_items values) fmempty"

definition mvEntries :: "mvvalues \<Rightarrow> MVEntry list" where
  "mvEntries values = map (\<lambda>dot. \<lparr>mve_ReplicaID = dot_replicaID dot, mve_Counter = dot_counter dot,
     mve_Value = the (fmlookup values dot)\<rparr>) (sortedMVDots values)"

definition validateMVState :: "counts option \<Rightarrow> mvvalues option \<Rightarrow> unit res" where
  "validateMVState context values = (case (context, values) of
      (Some context, Some values) \<Rightarrow>
        if \<not> list_all (\<lambda>(replicaID, counter). \<not> (\<not> valid_replica replicaID \<or> counter = 0)) (fm_items context) then Inl register_ErrInvalidMVRegister
        else if \<not> list_all (\<lambda>dot. \<not> (\<not> validMVDot dot \<or> \<not> mvContextCovers context dot)) (fm_keys values) then Inl register_ErrInvalidMVRegister
        else Inr ()
    | _ \<Rightarrow> Inl register_ErrInvalidMVRegister)"

definition NewMVRegister :: "gostring \<Rightarrow> MVRegister res" where
  "NewMVRegister replicaID =
     (if \<not> valid_replica replicaID then Inl register_ErrInvalidReplicaID
      else Inr \<lparr>mv_replicaID = replicaID, mv_context = fmempty, mv_values = fmempty\<rparr>)"

definition MVRegister_Set :: "MVRegister option \<Rightarrow> byte list \<Rightarrow> MVRegister option \<times> MVRegisterDelta res" where
  "MVRegister_Set r value = (case r of
      None \<Rightarrow> (None, Inl register_ErrNilMVRegister)
    | Some r \<Rightarrow>
        (let current = count_at (mv_context r) (mv_replicaID r) in
         if current = max_u64 then (Some r, Inl register_ErrMVRegisterOverflow)
         else
           (let next = current + 1;
                context = fmupd (mv_replicaID r) next (mv_context r);
                dot = MvDot (mv_replicaID r) next;
                values = fmupd dot value fmempty in
            (Some (r\<lparr>mv_context := context, mv_values := values\<rparr>),
             Inr \<lparr>mvd_context = Some (cloneMVContext context), mvd_values = Some (cloneMVValues values)\<rparr>))))"

definition MVRegister_Values :: "MVRegister option \<Rightarrow> MVEntry list" where
  "MVRegister_Values r = (case r of None \<Rightarrow> [] | Some r \<Rightarrow> mvEntries (mv_values r))"

definition MVRegister_Value :: "MVRegister option \<Rightarrow> byte list option" where
  "MVRegister_Value r = (case r of
      None \<Rightarrow> None
    | Some r \<Rightarrow>
        if fm_size (mv_values r) \<noteq> 1 then None
        else (case fm_items (mv_values r) of (_, value) # _ \<Rightarrow> Some value | [] \<Rightarrow> None))"

text \<open>The two loops of \<open>joinMVState\<close> over the values of the left and of the right state.\<close>

fun mv_left :: "counts \<Rightarrow> mvvalues \<Rightarrow> (mvDot \<times> byte list) list \<Rightarrow> mvvalues \<Rightarrow> mvvalues res" where
  "mv_left rightContext rightValues [] mergedValues = Inr mergedValues"
| "mv_left rightContext rightValues ((dot, left) # rest) mergedValues = (case fmlookup rightValues dot of
      Some right \<Rightarrow>
        if left \<noteq> right then Inl register_ErrTagConflict
        else mv_left rightContext rightValues rest (fmupd dot left mergedValues)
    | None \<Rightarrow>
        if \<not> mvContextCovers rightContext dot then mv_left rightContext rightValues rest (fmupd dot left mergedValues)
        else mv_left rightContext rightValues rest mergedValues)"

definition mv_right :: "counts \<Rightarrow> mvvalues \<Rightarrow> mvDot \<Rightarrow> byte list \<Rightarrow> mvvalues \<Rightarrow> mvvalues" where
  "mv_right leftContext leftValues dot right mergedValues =
     (if dot |\<in>| fmdom leftValues then mergedValues
      else if \<not> mvContextCovers leftContext dot then fmupd dot right mergedValues
      else mergedValues)"

definition joinMVState :: "counts \<Rightarrow> mvvalues \<Rightarrow> counts \<Rightarrow> mvvalues \<Rightarrow> mvstate res" where
  "joinMVState leftContext leftValues rightContext rightValues =
     (case mv_left rightContext rightValues (fm_items leftValues) fmempty of
        Inl err \<Rightarrow> Inl err
      | Inr mergedValues \<Rightarrow>
          (let mergedValues = fold (\<lambda>(dot, right). mv_right leftContext leftValues dot right) (fm_items rightValues) mergedValues;
               mergedContext = fold (\<lambda>(replicaID, counter) merged.
                 if counter > count_at merged replicaID then fmupd replicaID counter merged else merged)
                 (fm_items rightContext) (cloneMVContext leftContext)
           in Inr (mergedContext, mergedValues)))"

definition MVRegister_join :: "MVRegister \<Rightarrow> counts \<Rightarrow> mvvalues \<Rightarrow> MVRegister option \<times> unit res" where
  "MVRegister_join r context values = (case validateMVState (Some (mv_context r)) (Some (mv_values r)) of
      Inl err \<Rightarrow> (Some r, Inl err)
    | Inr _ \<Rightarrow> (case joinMVState (mv_context r) (mv_values r) context values of
          Inl err \<Rightarrow> (Some r, Inl err)
        | Inr (mergedContext, mergedValues) \<Rightarrow> (Some (r\<lparr>mv_context := mergedContext, mv_values := mergedValues\<rparr>), Inr ())))"

definition MVRegister_subsumes :: "MVRegister \<Rightarrow> counts \<Rightarrow> mvvalues \<Rightarrow> bool res" where
  "MVRegister_subsumes r context values =
     (if \<not> list_all (\<lambda>(dot, incoming). case fmlookup (mv_values r) dot of
             None \<Rightarrow> True | Some current \<Rightarrow> \<not> current \<noteq> incoming) (fm_items values)
      then Inl register_ErrTagConflict
      else Inr (list_all (\<lambda>(replicaID, counter). \<not> count_at (mv_context r) replicaID < counter) (fm_items context)))"

definition MVRegister_Merge :: "MVRegister option \<Rightarrow> MVRegister option \<Rightarrow> MVRegister option \<times> unit res" where
  "MVRegister_Merge r other = (case (r, other) of
      (Some r, Some other) \<Rightarrow>
        (let context = cloneMVContext (mv_context other); values = cloneMVValues (mv_values other) in
         case validateMVState (Some context) (Some values) of
           Inl err \<Rightarrow> (Some r, Inl err)
         | Inr _ \<Rightarrow> MVRegister_join r context values)
    | _ \<Rightarrow> (r, Inl register_ErrNilMVRegister))"

definition MVRegister_ApplyDelta :: "MVRegister option \<Rightarrow> MVRegisterDelta \<Rightarrow> MVRegister option \<times> unit res" where
  "MVRegister_ApplyDelta r delta = (case r of
      None \<Rightarrow> (None, Inl register_ErrNilMVRegister)
    | Some r \<Rightarrow> (case validateMVState (mvd_context delta) (mvd_values delta) of
          Inl err \<Rightarrow> (Some r, Inl err)
        | Inr _ \<Rightarrow> (case MVRegister_subsumes r (the (mvd_context delta)) (the (mvd_values delta)) of
              Inl err \<Rightarrow> (Some r, Inl err)
            | Inr covered \<Rightarrow>
                if covered then (Some r, Inr ())
                else MVRegister_join r (the (mvd_context delta)) (the (mvd_values delta)))))"

definition MVRegisterDelta_Merge :: "MVRegisterDelta \<Rightarrow> MVRegisterDelta \<Rightarrow> MVRegisterDelta res" where
  "MVRegisterDelta_Merge d other = (case validateMVState (mvd_context d) (mvd_values d) of
      Inl err \<Rightarrow> Inl err
    | Inr _ \<Rightarrow> (case validateMVState (mvd_context other) (mvd_values other) of
          Inl err \<Rightarrow> Inl err
        | Inr _ \<Rightarrow> (case joinMVState (the (mvd_context d)) (the (mvd_values d)) (the (mvd_context other)) (the (mvd_values other)) of
              Inl err \<Rightarrow> Inl err
            | Inr (context, values) \<Rightarrow> Inr \<lparr>mvd_context = Some context, mvd_values = Some values\<rparr>)))"

definition MVRegisterDelta_Values :: "MVRegisterDelta \<Rightarrow> MVEntry list" where
  "MVRegisterDelta_Values d = (case mvd_values d of None \<Rightarrow> [] | Some values \<Rightarrow> mvEntries values)"

definition MVRegister_State :: "MVRegister option \<Rightarrow> StateSnapshot" where
  "MVRegister_State r = (case r of
      None \<Rightarrow> \<lparr>snap_Type = ''mv-register'', snap_ReplicaID = [], snap_ElementCount = 0, snap_TombstoneCount = 0\<rparr>
    | Some r \<Rightarrow> \<lparr>snap_Type = ''mv-register'', snap_ReplicaID = mv_replicaID r, snap_ElementCount = fm_size (mv_values r),
                snap_TombstoneCount = 0\<rparr>)"

section \<open>Encoding\<close>

definition appendMVBytes :: "byte list \<Rightarrow> byte list \<Rightarrow> byte list" where
  "appendMVBytes dst value = AppendUvarint dst (of_nat (length value)) @ value"

fun mv_values_size :: "mvvalues \<Rightarrow> DecoderLimits \<Rightarrow> mvDot list \<Rightarrow> int \<Rightarrow> int res" where
  "mv_values_size values limits [] payloadSize = Inr payloadSize"
| "mv_values_size values limits (dot # dots) payloadSize =
     (let value = the (fmlookup values dot) in
      if int (length (dot_replicaID dot)) > MaxStringBytes limits \<or> int (length value) > MaxStringBytes limits
      then Inl encoding_ErrFrameLimit
      else
        (let additional = int (UvarintSize (of_nat (length (dot_replicaID dot))) + length (dot_replicaID dot) +
               UvarintSize (dot_counter dot) + UvarintSize (of_nat (length value)) + length value) in
         if additional > MaxPayload limits - payloadSize then Inl encoding_ErrFrameLimit
         else mv_values_size values limits dots (payloadSize + additional)))"

definition marshalMVRegister :: "u64 \<Rightarrow> counts option \<Rightarrow> mvvalues option \<Rightarrow> DecoderLimits \<Rightarrow> byte list res" where
  "marshalMVRegister typeID context0 values0 limits = (case validateMVState context0 values0 of
      Inl err \<Rightarrow> Inl err
    | Inr _ \<Rightarrow>
        (let context = the context0; values = the values0 in
         if int (fm_size context) > MaxElements limits \<or> int (fm_size values) > MaxElements limits - int (fm_size context)
         then Inl encoding_ErrFrameLimit
         else
           (let replicas = fm_keys context; dots = sortedMVDots values in
            case counts_size context limits replicas (int (UvarintSize (of_nat (length replicas)))) of
              Inl err \<Rightarrow> Inl err
            | Inr payloadSize \<Rightarrow>
                (let additional = int (UvarintSize (of_nat (length dots))) in
                 if additional > MaxPayload limits - payloadSize then Inl encoding_ErrFrameLimit
                 else (case mv_values_size values limits dots (payloadSize + additional) of
                     Inl err \<Rightarrow> Inl err
                   | Inr payloadSize \<Rightarrow>
                       (let payload = AppendUvarint [] (of_nat (length replicas));
                            payload = fold (\<lambda>replicaID payload. AppendUvarint (appendMVBytes payload replicaID) (count_at context replicaID)) replicas payload;
                            payload = AppendUvarint payload (of_nat (length dots));
                            payload = fold (\<lambda>dot payload. appendMVBytes (AppendUvarint (appendMVBytes payload (dot_replicaID dot)) (dot_counter dot))
                                              (the (fmlookup values dot))) dots payload in
                        MarshalFrameWithPayload typeID [] payloadSize
                          (Some (if int (length payload) \<noteq> payloadSize then Inl encoding_ErrInvalidFrame else Inr payload))))))))"

definition MVRegister_MarshalBinary :: "MVRegister option \<Rightarrow> byte list res" where
  "MVRegister_MarshalBinary r = (case r of
      None \<Rightarrow> Inl register_ErrNilMVRegister
    | Some r \<Rightarrow> marshalMVRegister TypeIDMVRegisterState (Some (cloneMVContext (mv_context r))) (Some (cloneMVValues (mv_values r))) DefaultLimits)"

definition MVRegister_Snapshot :: "inflater \<Rightarrow> MVRegister option \<Rightarrow> Snapshot res" where
  "MVRegister_Snapshot flate r = (case MVRegister_MarshalBinary r of
      Inl err \<Rightarrow> Inl err | Inr state \<Rightarrow> Snapshot_New flate state fmempty)"

definition MVRegisterDelta_MarshalBinary :: "MVRegisterDelta \<Rightarrow> byte list res" where
  "MVRegisterDelta_MarshalBinary d = marshalMVRegister TypeIDMVRegisterDelta (mvd_context d) (mvd_values d) DefaultLimits"

text \<open>The two loops of the decoder; \<open>previous\<close> is \<open>None\<close> at index 0.\<close>

fun mv_context_loop :: "byte list \<Rightarrow> int \<Rightarrow> nat \<Rightarrow> gostring option \<Rightarrow> nat \<Rightarrow> counts \<Rightarrow> (counts \<times> nat) res" where
  "mv_context_loop payload maxStringBytes 0 previous pos context = Inr (context, pos)"
| "mv_context_loop payload maxStringBytes (Suc n) previous pos context = (case ReadBytes payload pos maxStringBytes of
      None \<Rightarrow> Inl encoding_ErrInvalidFrame
    | Some (replicaID, pos) \<Rightarrow> (case ReadUvarint payload pos of
          None \<Rightarrow> Inl encoding_ErrInvalidFrame
        | Some (counter, pos) \<Rightarrow>
            if \<not> valid_replica replicaID \<or> counter = 0 \<or> (case previous of None \<Rightarrow> False | Some p \<Rightarrow> replicaID \<le> p)
            then Inl encoding_ErrInvalidFrame
            else mv_context_loop payload maxStringBytes n (Some replicaID) pos (fmupd replicaID counter context)))"

fun mv_values_loop :: "byte list \<Rightarrow> int \<Rightarrow> counts \<Rightarrow> nat \<Rightarrow> mvDot option \<Rightarrow> nat \<Rightarrow> mvvalues \<Rightarrow> (mvvalues \<times> nat) res" where
  "mv_values_loop payload maxStringBytes context 0 previous pos values = Inr (values, pos)"
| "mv_values_loop payload maxStringBytes context (Suc n) previous pos values = (case ReadBytes payload pos maxStringBytes of
      None \<Rightarrow> Inl encoding_ErrInvalidFrame
    | Some (replicaBytes, pos) \<Rightarrow> (case ReadUvarint payload pos of
          None \<Rightarrow> Inl encoding_ErrInvalidFrame
        | Some (counter, pos) \<Rightarrow> (case ReadBytes payload pos maxStringBytes of
              None \<Rightarrow> Inl encoding_ErrInvalidFrame
            | Some (value, pos) \<Rightarrow>
                (let dot = MvDot replicaBytes counter in
                 if \<not> validMVDot dot \<or> \<not> mvContextCovers context dot \<or> (case previous of None \<Rightarrow> False | Some p \<Rightarrow> compareMVDot p dot \<ge> 0)
                 then Inl encoding_ErrInvalidFrame
                 else mv_values_loop payload maxStringBytes context n (Some dot) pos (fmupd dot value values)))))"

definition unmarshalMVRegister :: "inflater \<Rightarrow> byte list \<Rightarrow> u64 \<Rightarrow> DecoderLimits \<Rightarrow> mvstate res" where
  "unmarshalMVRegister flate data expectedTypeID limits = (case UnmarshalFrame flate data limits of
      Inl err \<Rightarrow> Inl err
    | Inr decoded \<Rightarrow>
        if TypeID decoded \<noteq> expectedTypeID \<or> CodecID decoded \<noteq> [] then Inl encoding_ErrInvalidFrame
        else (case ReadUvarint (Payload decoded) 0 of
            None \<Rightarrow> Inl encoding_ErrInvalidFrame
          | Some (contextCount, pos) \<Rightarrow>
              if uint contextCount > MaxElements limits then Inl encoding_ErrInvalidFrame
              else (case mv_context_loop (Payload decoded) (MaxStringBytes limits) (unat contextCount) None pos fmempty of
                  Inl err \<Rightarrow> Inl err
                | Inr (context, pos) \<Rightarrow> (case ReadUvarint (Payload decoded) pos of
                      None \<Rightarrow> Inl encoding_ErrInvalidFrame
                    | Some (valueCount, pos) \<Rightarrow>
                        if uint valueCount > MaxElements limits - uint contextCount then Inl encoding_ErrInvalidFrame
                        else (case mv_values_loop (Payload decoded) (MaxStringBytes limits) context (unat valueCount) None pos fmempty of
                            Inl err \<Rightarrow> Inl err
                          | Inr (values, pos) \<Rightarrow>
                              if pos \<noteq> length (Payload decoded) then Inl encoding_ErrInvalidFrame
                              else Inr (context, values))))))"

definition UnmarshalMVRegisterDeltaWithLimits :: "inflater \<Rightarrow> byte list \<Rightarrow> DecoderLimits \<Rightarrow> MVRegisterDelta res" where
  "UnmarshalMVRegisterDeltaWithLimits flate data limits = (case unmarshalMVRegister flate data TypeIDMVRegisterDelta limits of
      Inl err \<Rightarrow> Inl err | Inr (context, values) \<Rightarrow> Inr \<lparr>mvd_context = Some context, mvd_values = Some values\<rparr>)"

definition UnmarshalMVRegisterDelta :: "inflater \<Rightarrow> byte list \<Rightarrow> MVRegisterDelta res" where
  "UnmarshalMVRegisterDelta flate data = UnmarshalMVRegisterDeltaWithLimits flate data DefaultLimits"

definition MVRegister_UnmarshalBinaryWithLimits ::
    "inflater \<Rightarrow> MVRegister option \<Rightarrow> byte list \<Rightarrow> DecoderLimits \<Rightarrow> MVRegister option \<times> unit res" where
  "MVRegister_UnmarshalBinaryWithLimits flate r data limits = (case r of
      None \<Rightarrow> (None, Inl register_ErrNilMVRegister)
    | Some r \<Rightarrow> (case unmarshalMVRegister flate data TypeIDMVRegisterState limits of
          Inl err \<Rightarrow> (Some r, Inl err)
        | Inr (context, values) \<Rightarrow> (Some (r\<lparr>mv_context := context, mv_values := values\<rparr>), Inr ())))"

definition MVRegister_UnmarshalBinary :: "inflater \<Rightarrow> MVRegister option \<Rightarrow> byte list \<Rightarrow> MVRegister option \<times> unit res" where
  "MVRegister_UnmarshalBinary flate r data = MVRegister_UnmarshalBinaryWithLimits flate r data DefaultLimits"

definition NewMVRegisterFromSnapshot :: "inflater \<Rightarrow> gostring \<Rightarrow> Snapshot \<Rightarrow> MVRegister res" where
  "NewMVRegisterFromSnapshot flate replicaID saved =
     (if ss_TypeID saved \<noteq> TypeIDMVRegisterState then Inl register_ErrInvalidMVSnapshot
      else (case NewMVRegister replicaID of
          Inl err \<Rightarrow> Inl err
        | Inr value \<Rightarrow> (case MVRegister_UnmarshalBinary flate (Some value) (Snapshot_Bytes saved) of
              (_, Inl err) \<Rightarrow> Inl err
            | (None, Inr _) \<Rightarrow> Inl register_ErrNilMVRegister
            | (Some value, Inr _) \<Rightarrow> Inr value)))"

section \<open>What the loops compute\<close>

lemma mv_clones [simp]: "cloneMVContext c = c" "cloneMVValues v = v" "sortedMVDots v = fm_keys v"
  unfolding cloneMVContext_def cloneMVValues_def sortedMVDots_def
  using fold_fmupd_of_list[OF distinct_fst_items[of c]] fold_fmupd_of_list[OF distinct_fst_items[of v]]
  by (simp_all add: sorted_sort_id fm_keys_def)

definition mv_wf :: "mvstate \<Rightarrow> bool" where
  "mv_wf s \<longleftrightarrow> no_zeros (fst s) \<and> valid_counts (fst s) \<and> (\<forall>d. d |\<in>| fmdom (snd s) \<longrightarrow> validMVDot d \<and> mvContextCovers (fst s) d)"

lemma validateMVState_iff:
  "validateMVState c v = (case (c, v) of (Some c, Some v) \<Rightarrow> if mv_wf (c, v) then Inr () else Inl register_ErrInvalidMVRegister
     | _ \<Rightarrow> Inl register_ErrInvalidMVRegister)"
proof (cases "\<exists>c' v'. c = Some c' \<and> v = Some v'")
  case True
  then obtain c' v' where cv: "c = Some c'" "v = Some v'" by blast
  have "list_all (\<lambda>(r, n). \<not> (\<not> valid_replica r \<or> n = 0)) (fm_items c') \<longleftrightarrow> no_zeros c' \<and> valid_counts c'"
    unfolding list_all_iff set_fm_items by (fastforce simp: no_zeros_def valid_counts_def fmlookup_dom_iff)
  then show ?thesis by (auto simp: cv validateMVState_def mv_wf_def list_all_iff)
qed (auto simp: validateMVState_def split: option.splits)

lemma mv_left_eq:
  "distinct (map fst xs) \<Longrightarrow> mv_left C V xs acc = Inr out \<longleftrightarrow>
     (\<forall>(d, l) \<in> set xs. \<forall>r. fmlookup V d = Some r \<longrightarrow> l = r) \<and>
     out = fold (\<lambda>(d, l) m. if d |\<in>| fmdom V \<or> \<not> mvContextCovers C d then fmupd d l m else m) xs acc"
proof (induction xs arbitrary: acc)
  case (Cons x xs)
  obtain d l where x: "x = (d, l)" by fastforce
  from Cons show ?case by (cases "fmlookup V d") (auto simp: x fmlookup_dom_iff)
qed auto

lemma mv_left_error: "mv_left C V xs acc = Inl e \<Longrightarrow> e = register_ErrTagConflict"
  by (induction C V xs acc rule: mv_left.induct) (auto split: option.splits if_splits)

text \<open>Two states agree if no dot has different values in them; then the join succeeds.\<close>

definition mv_agree :: "mvvalues \<Rightarrow> mvvalues \<Rightarrow> bool" where
  "mv_agree V W \<longleftrightarrow> (\<forall>d l r. fmlookup V d = Some l \<longrightarrow> fmlookup W d = Some r \<longrightarrow> l = r)"

lemma joinMVState_error:
  "joinMVState C V D W = Inl e \<longleftrightarrow> \<not> mv_agree V W \<and> e = register_ErrTagConflict"
proof -
  have "(\<exists>out. mv_left D W (fm_items V) fmempty = Inr out) \<longleftrightarrow> mv_agree V W"
    unfolding mv_left_eq[OF distinct_fst_items] set_fm_items by (auto simp: mv_agree_def)
  then show ?thesis
    by (cases "mv_left D W (fm_items V) fmempty") (auto simp: joinMVState_def Let_def dest: mv_left_error)
qed

lemma joinMVState_lookup:
  assumes "joinMVState C V D W = Inr (C', V')"
  shows "mv_agree V W" and "C' = joinCounts C D"
    and "fmlookup V' d = (case (fmlookup V d, fmlookup W d) of
       (Some l, Some r) \<Rightarrow> Some l
     | (Some l, None) \<Rightarrow> if mvContextCovers D d then None else Some l
     | (None, Some r) \<Rightarrow> if mvContextCovers C d then None else Some r
     | (None, None) \<Rightarrow> None)"
proof -
  obtain L where l: "mv_left D W (fm_items V) fmempty = Inr L"
    and V': "V' = fold (\<lambda>(d, r). mv_right C V d r) (fm_items W) L" and C': "C' = joinCounts C D"
    using assms by (auto simp: joinMVState_def Let_def joinCounts_def join_step_def[abs_def] split: sum.splits)
  show "C' = joinCounts C D" by (rule C')
  from l have agree: "\<forall>(d, l) \<in> set (fm_items V). \<forall>r. fmlookup W d = Some r \<longrightarrow> l = r"
    and L: "L = fold (\<lambda>(d, l) m. if d |\<in>| fmdom W \<or> \<not> mvContextCovers D d then fmupd d l m else m) (fm_items V) fmempty"
    unfolding mv_left_eq[OF distinct_fst_items] by auto
  show "mv_agree V W" using agree unfolding set_fm_items by (auto simp: mv_agree_def)
  have left: "fmlookup L d = (case fmlookup V d of None \<Rightarrow> None
      | Some l \<Rightarrow> if d |\<in>| fmdom W \<or> \<not> mvContextCovers D d then Some l else None)"
    unfolding L using fold_enumeration_lookup[OF _ distinct_fst_items, of
        "\<lambda>d l m. if d |\<in>| fmdom W \<or> \<not> mvContextCovers D d then fmupd d l m else m"
        "\<lambda>d l old. if d |\<in>| fmdom W \<or> \<not> mvContextCovers D d then Some l else old" V fmempty d]
    by (simp add: touches_own_key_def split: option.splits)
  have right: "fmlookup V' d = (case fmlookup W d of None \<Rightarrow> fmlookup L d
      | Some r \<Rightarrow> if d |\<notin>| fmdom V \<and> \<not> mvContextCovers C d then Some r else fmlookup L d)"
    unfolding V' using fold_enumeration_lookup[OF _ distinct_fst_items, of "mv_right C V"
        "\<lambda>d r old. if d |\<notin>| fmdom V \<and> \<not> mvContextCovers C d then Some r else old" W L d]
    by (auto simp: touches_own_key_def mv_right_def split: option.splits)
  show "fmlookup V' d = (case (fmlookup V d, fmlookup W d) of
       (Some l, Some r) \<Rightarrow> Some l
     | (Some l, None) \<Rightarrow> if mvContextCovers D d then None else Some l
     | (None, Some r) \<Rightarrow> if mvContextCovers C d then None else Some r
     | (None, None) \<Rightarrow> None)"
    unfolding right left by (auto simp: fmlookup_dom_iff fmdom_notI split: option.splits)
qed

lemma covers_join: "mvContextCovers (joinCounts C D) d \<longleftrightarrow> mvContextCovers C d \<or> mvContextCovers D d"
  by (auto simp: mvContextCovers_def le_max_iff_disj)

lemma joinMVState_wf:
  assumes "mv_wf (C, V)" "mv_wf (D, W)" "joinMVState C V D W = Inr s"
  shows "mv_wf s"
proof -
  obtain C' V' where s: "s = (C', V')" by (cases s)
  note j = joinMVState_lookup[OF assms(3)[unfolded s]]
  have "d |\<in>| fmdom V' \<Longrightarrow> d |\<in>| fmdom V \<or> d |\<in>| fmdom W" for d
    using j(3)[of d] by (auto simp: fmlookup_dom_iff split: option.splits if_splits)
  then show ?thesis using assms(1,2) j(2) by (auto simp: s mv_wf_def no_zeros_join valid_counts_join covers_join)
qed

section \<open>A system of replicas\<close>

text \<open>
  Replicas write, send deltas, merge deltas on the way and merge whole states, in any order and with any
  repetition. The history, which no replica sees, records for each write the causal context it was made in. The specification
  of a state is: its values are the writes its context covers that no other write it covers has overwritten.
\<close>

type_synonym mv_history = "(mvDot, counts \<times> byte list) fmap"

definition overwritten :: "mv_history \<Rightarrow> counts \<Rightarrow> mvDot \<Rightarrow> bool" where
  "overwritten H C d \<longleftrightarrow> (\<exists>w c x. fmlookup H w = Some (c, x) \<and> w \<noteq> d \<and> mvContextCovers C w \<and> mvContextCovers c d)"

definition maximal_write :: "mv_history \<Rightarrow> counts \<Rightarrow> mvDot \<Rightarrow> byte list \<Rightarrow> bool" where
  "maximal_write H C d v \<longleftrightarrow> (\<exists>c. fmlookup H d = Some (c, v)) \<and> mvContextCovers C d \<and> \<not> overwritten H C d"

definition causally_closed :: "mv_history \<Rightarrow> counts \<Rightarrow> bool" where
  "causally_closed H C \<longleftrightarrow> (\<forall>w c x. fmlookup H w = Some (c, x) \<longrightarrow> mvContextCovers C w \<longrightarrow> (\<forall>k. count_at c k \<le> count_at C k))"

definition mv_spec :: "mv_history \<Rightarrow> mvstate \<Rightarrow> bool" where
  "mv_spec H s \<longleftrightarrow> mv_wf s \<and> causally_closed H (fst s) \<and> (\<forall>d v. fmlookup (snd s) d = Some v \<longleftrightarrow> maximal_write H (fst s) d v)"

lemma covers_mono_context: "(\<forall>k. count_at c k \<le> count_at C k) \<Longrightarrow> mvContextCovers c d \<Longrightarrow> mvContextCovers C d"
  by (auto simp: mvContextCovers_def intro: order_trans)

lemma overwritten_covered: "causally_closed H C \<Longrightarrow> overwritten H C d \<Longrightarrow> mvContextCovers C d"
  unfolding causally_closed_def overwritten_def by (blast intro: covers_mono_context)

lemma mv_spec_unique: "mv_spec H (C, V) \<Longrightarrow> mv_spec H (C, W) \<Longrightarrow> V = W"
  by (rule fmap_ext) (metis mv_spec_def fst_conv snd_conv not_None_eq)

lemma mv_spec_agree: "mv_spec H (C, V) \<Longrightarrow> mv_spec H (D, W) \<Longrightarrow> mv_agree V W"
  by (auto simp: mv_spec_def mv_agree_def maximal_write_def)

lemma joined_values:
  assumes "mv_spec H (C, V)" "mv_spec H (D, W)"
  shows "(case (fmlookup V d, fmlookup W d) of
       (Some l, Some r) \<Rightarrow> Some l
     | (Some l, None) \<Rightarrow> if mvContextCovers D d then None else Some l
     | (None, Some r) \<Rightarrow> if mvContextCovers C d then None else Some r
     | (None, None) \<Rightarrow> None) = Some v \<longleftrightarrow> maximal_write H (joinCounts C D) d v"
proof -
  have left: "fmlookup V d = Some x \<longleftrightarrow> (\<exists>c. fmlookup H d = Some (c, x)) \<and> mvContextCovers C d \<and> \<not> overwritten H C d" for x
    using assms(1) by (simp add: mv_spec_def maximal_write_def)
  have right: "fmlookup W d = Some x \<longleftrightarrow> (\<exists>c. fmlookup H d = Some (c, x)) \<and> mvContextCovers D d \<and> \<not> overwritten H D d" for x
    using assms(2) by (simp add: mv_spec_def maximal_write_def)
  have ov: "overwritten H (joinCounts C D) d \<longleftrightarrow> overwritten H C d \<or> overwritten H D d"
    unfolding overwritten_def covers_join by blast
  have cov: "overwritten H C d \<Longrightarrow> mvContextCovers C d" "overwritten H D d \<Longrightarrow> mvContextCovers D d"
    using assms by (auto simp: mv_spec_def intro: overwritten_covered)
  show ?thesis
  proof (cases "\<exists>c x. fmlookup H d = Some (c, x)")
    case True
    then obtain c x where h: "fmlookup H d = Some (c, x)" by blast
    have "fmlookup V d = (if mvContextCovers C d \<and> \<not> overwritten H C d then Some x else None)"
      using left by (cases "fmlookup V d") (auto simp: h)
    moreover have "fmlookup W d = (if mvContextCovers D d \<and> \<not> overwritten H D d then Some x else None)"
      using right by (cases "fmlookup W d") (auto simp: h)
    ultimately show ?thesis using cov by (auto simp: maximal_write_def h ov covers_join)
  next
    case False
    then have "fmlookup V d = None" "fmlookup W d = None" using left right by (metis not_None_eq)+
    with False show ?thesis by (auto simp: maximal_write_def)
  qed
qed

lemma mv_spec_join:
  assumes "mv_spec H (C, V)" "mv_spec H (D, W)"
  shows "\<exists>V'. joinMVState C V D W = Inr (joinCounts C D, V') \<and> mv_spec H (joinCounts C D, V')"
proof -
  obtain s where s: "joinMVState C V D W = Inr s"
    using joinMVState_error[of C V D W] mv_spec_agree[OF assms] by (cases "joinMVState C V D W") auto
  obtain C' V' where CV: "s = (C', V')" by (cases s)
  note j = joinMVState_lookup[OF s[unfolded CV]]
  have "mv_wf s" using assms s by (auto simp: mv_spec_def intro: joinMVState_wf)
  moreover have "causally_closed H (joinCounts C D)"
    using assms unfolding mv_spec_def causally_closed_def covers_join fst_conv count_at_join le_max_iff_disj by blast
  moreover have "fmlookup V' d = Some v \<longleftrightarrow> maximal_write H (joinCounts C D) d v" for d v
    unfolding j(3) by (rule joined_values[OF assms])
  ultimately show ?thesis using s CV j(2) by (simp add: mv_spec_def)
qed

abbreviation mv_state :: "MVRegister \<Rightarrow> mvstate" where
  "mv_state r \<equiv> (mv_context r, mv_values r)"

text \<open>Within the specification a join cannot conflict, and the fast path of \<open>ApplyDelta\<close> gives the same register.\<close>

lemma join_spec:
  assumes "mv_spec H (mv_state r)" "mv_spec H (D, W)"
  shows "\<exists>r'. MVRegister_join r D W = (Some r', Inr ()) \<and> mv_spec H (mv_state r') \<and>
    mv_context r' = joinCounts (mv_context r) D \<and> mv_replicaID r' = mv_replicaID r"
  using mv_spec_join[OF assms] assms(1) by (auto simp: MVRegister_join_def validateMVState_iff mv_spec_def)

lemma subsumes_spec:
  assumes "mv_spec H (mv_state r)" "mv_spec H (D, W)"
  shows "MVRegister_subsumes r D W = Inr (\<forall>k. count_at D k \<le> count_at (mv_context r) k)"
proof -
  have "list_all (\<lambda>(dot, incoming). case fmlookup (mv_values r) dot of None \<Rightarrow> True | Some current \<Rightarrow> \<not> current \<noteq> incoming) (fm_items W)"
    using mv_spec_agree[OF assms] unfolding list_all_iff set_fm_items by (auto simp: mv_agree_def split: option.splits)
  moreover have "list_all (\<lambda>(k, n). \<not> count_at (mv_context r) k < n) (fm_items D) \<longleftrightarrow> (\<forall>k. count_at D k \<le> count_at (mv_context r) k)"
    unfolding list_all_iff set_fm_items by (auto simp: count_at_def[of D] not_less split: option.splits)
  ultimately show ?thesis by (simp add: MVRegister_subsumes_def)
qed

lemma joinCounts_absorb: "(\<forall>k. count_at D k \<le> count_at C k) \<Longrightarrow> joinCounts C D = C"
  by (rule fmap_ext) (auto simp: joinCounts_lookup not_less[symmetric])

lemma apply_spec:
  assumes "mv_spec H (mv_state r)" "mv_spec H (D, W)"
  shows "\<exists>r'. MVRegister_ApplyDelta (Some r) \<lparr>mvd_context = Some D, mvd_values = Some W\<rparr> = (Some r', Inr ()) \<and>
    mv_spec H (mv_state r') \<and> mv_context r' = joinCounts (mv_context r) D \<and> mv_replicaID r' = mv_replicaID r"
proof -
  have v: "validateMVState (Some D) (Some W) = Inr ()" using assms(2) by (simp add: validateMVState_iff mv_spec_def)
  show ?thesis
  proof (cases "\<forall>k. count_at D k \<le> count_at (mv_context r) k")
    case True
    with v subsumes_spec[OF assms] joinCounts_absorb[OF True] assms(1) show ?thesis by (simp add: MVRegister_ApplyDelta_def)
  next
    case False
    with v subsumes_spec[OF assms] join_spec[OF assms] show ?thesis by (simp add: MVRegister_ApplyDelta_def)
  qed
qed

lemma merge_spec:
  assumes "mv_spec H (mv_state r)" "mv_spec H (mv_state q)"
  shows "\<exists>r'. MVRegister_Merge (Some r) (Some q) = (Some r', Inr ()) \<and>
    mv_spec H (mv_state r') \<and> mv_context r' = joinCounts (mv_context r) (mv_context q) \<and> mv_replicaID r' = mv_replicaID r"
  using join_spec[OF assms] assms(2) by (simp add: MVRegister_Merge_def validateMVState_iff mv_spec_def)

record mv_system =
  mvs_regs :: "(gostring, MVRegister) fmap"
  mvs_deltas :: "MVRegisterDelta list"
  mvs_hist :: mv_history

inductive mv_step :: "mv_system \<Rightarrow> mv_system \<Rightarrow> bool" where
  mv_write: "fmlookup (mvs_regs s) i = Some r \<Longrightarrow> MVRegister_Set (Some r) v = (Some r', Inr delta) \<Longrightarrow>
     mv_step s (s\<lparr>mvs_regs := fmupd i r' (mvs_regs s), mvs_deltas := delta # mvs_deltas s,
       mvs_hist := fmupd (MvDot i (count_at (mv_context r') i)) (mv_context r', v) (mvs_hist s)\<rparr>)"
| mv_deliver: "fmlookup (mvs_regs s) i = Some r \<Longrightarrow> delta \<in> set (mvs_deltas s) \<Longrightarrow>
     MVRegister_ApplyDelta (Some r) delta = (Some r', out) \<Longrightarrow> mv_step s (s\<lparr>mvs_regs := fmupd i r' (mvs_regs s)\<rparr>)"
| mv_merge: "fmlookup (mvs_regs s) i = Some r \<Longrightarrow> fmlookup (mvs_regs s) j = Some q \<Longrightarrow>
     MVRegister_Merge (Some r) (Some q) = (Some r', out) \<Longrightarrow> mv_step s (s\<lparr>mvs_regs := fmupd i r' (mvs_regs s)\<rparr>)"
| mv_combine: "d \<in> set (mvs_deltas s) \<Longrightarrow> e \<in> set (mvs_deltas s) \<Longrightarrow> MVRegisterDelta_Merge d e = Inr delta \<Longrightarrow>
     mv_step s (s\<lparr>mvs_deltas := delta # mvs_deltas s\<rparr>)"

inductive mv_reach :: "mv_system \<Rightarrow> bool" where
  mv_start: "(\<And>i r. fmlookup regs i = Some r \<Longrightarrow> NewMVRegister i = Inr r) \<Longrightarrow>
     mv_reach \<lparr>mvs_regs = regs, mvs_deltas = [], mvs_hist = fmempty\<rparr>"
| mv_more: "mv_reach s \<Longrightarrow> mv_step s s' \<Longrightarrow> mv_reach s'"

text \<open>No context knows more writes of a replica than the replica itself.\<close>

definition mv_bounded :: "(gostring, MVRegister) fmap \<Rightarrow> counts \<Rightarrow> bool" where
  "mv_bounded regs C \<longleftrightarrow> (\<forall>i r. fmlookup regs i = Some r \<longrightarrow> count_at C i \<le> count_at (mv_context r) i)"

definition mv_known :: "(gostring, MVRegister) fmap \<Rightarrow> mv_history \<Rightarrow> mvstate \<Rightarrow> bool" where
  "mv_known regs H st \<longleftrightarrow> mv_spec H st \<and> mv_bounded regs (fst st)"

definition delta_of :: "mvstate \<Rightarrow> MVRegisterDelta" where
  "delta_of st = \<lparr>mvd_context = Some (fst st), mvd_values = Some (snd st)\<rparr>"

definition mv_sys_inv :: "mv_system \<Rightarrow> bool" where
  "mv_sys_inv s \<longleftrightarrow>
     (\<forall>i r. fmlookup (mvs_regs s) i = Some r \<longrightarrow> mv_replicaID r = i \<and> valid_replica i \<and> mv_known (mvs_regs s) (mvs_hist s) (mv_state r)) \<and>
     (\<forall>d \<in> set (mvs_deltas s). \<exists>st. d = delta_of st \<and> mv_known (mvs_regs s) (mvs_hist s) st)"

lemma mv_sys_reg:
  "mv_sys_inv s \<Longrightarrow> fmlookup (mvs_regs s) i = Some r \<Longrightarrow> mv_replicaID r = i \<and> valid_replica i \<and> mv_known (mvs_regs s) (mvs_hist s) (mv_state r)"
  by (simp add: mv_sys_inv_def)

lemma mv_sys_delta: "mv_sys_inv s \<Longrightarrow> d \<in> set (mvs_deltas s) \<Longrightarrow> \<exists>st. d = delta_of st \<and> mv_known (mvs_regs s) (mvs_hist s) st"
  by (simp add: mv_sys_inv_def)

lemma mv_bounded_join: "mv_bounded regs C \<Longrightarrow> mv_bounded regs D \<Longrightarrow> mv_bounded regs (joinCounts C D)"
  by (simp add: mv_bounded_def)

lemma mv_bounded_grow:
  "mv_bounded regs C \<Longrightarrow> fmlookup regs i = Some r \<Longrightarrow> count_at (mv_context r) i \<le> count_at (mv_context r') i \<Longrightarrow> mv_bounded (fmupd i r' regs) C"
  unfolding mv_bounded_def by (auto intro: order_trans)

text \<open>A step that changes one register, and keeps what is known.\<close>

lemma mv_sys_update:
  assumes inv: "mv_sys_inv s" and i: "fmlookup (mvs_regs s) i = Some r" and "mv_replicaID r' = mv_replicaID r"
    and keep: "\<And>st. mv_known (mvs_regs s) (mvs_hist s) st \<Longrightarrow> mv_known (fmupd i r' (mvs_regs s)) H' st"
    and new: "mv_known (fmupd i r' (mvs_regs s)) H' (mv_state r')"
  shows "mv_sys_inv (s\<lparr>mvs_regs := fmupd i r' (mvs_regs s), mvs_hist := H'\<rparr>)"
proof -
  have id: "mv_replicaID r' = i" "valid_replica i" using assms(3) mv_sys_reg[OF inv i] by simp_all
  have "mv_replicaID q = j \<and> valid_replica j \<and> mv_known (fmupd i r' (mvs_regs s)) H' (mv_state q)"
    if "fmlookup (fmupd i r' (mvs_regs s)) j = Some q" for j q
  proof (cases "j = i")
    case True
    with that id new show ?thesis by simp
  next
    case False
    with that have "fmlookup (mvs_regs s) j = Some q" by simp
    from mv_sys_reg[OF inv this] keep show ?thesis by blast
  qed
  moreover have "\<exists>st. d = delta_of st \<and> mv_known (fmupd i r' (mvs_regs s)) H' st" if "d \<in> set (mvs_deltas s)" for d
    using mv_sys_delta[OF inv that] keep by blast
  ultimately show ?thesis unfolding mv_sys_inv_def by simp
qed

lemma mv_receive:
  assumes inv: "mv_sys_inv s" "fmlookup (mvs_regs s) i = Some r" and "mv_spec (mvs_hist s) (mv_state r')" "mv_replicaID r' = mv_replicaID r"
    and r': "mv_context r' = joinCounts (mv_context r) D" and "mv_bounded (mvs_regs s) D"
  shows "mv_sys_inv (s\<lparr>mvs_regs := fmupd i r' (mvs_regs s)\<rparr>)"
proof -
  have le: "count_at (mv_context r) i \<le> count_at (mv_context r') i" by (simp add: r')
  note grow = mv_bounded_grow[OF _ inv(2) le]
  have "mv_bounded (mvs_regs s) (mv_context r')"
    unfolding r' using mv_sys_reg[OF inv] assms(6) by (intro mv_bounded_join) (simp_all add: mv_known_def)
  then have "mv_sys_inv (s\<lparr>mvs_regs := fmupd i r' (mvs_regs s), mvs_hist := mvs_hist s\<rparr>)"
    using assms(3,4) by (intro mv_sys_update[OF inv]) (auto simp: mv_known_def intro: grow)
  then show ?thesis by simp
qed

lemma unseen_write:
  assumes "\<not> mvContextCovers D w"
  shows "causally_closed (fmupd w e H) D \<longleftrightarrow> causally_closed H D" "overwritten (fmupd w e H) D d \<longleftrightarrow> overwritten H D d"
    "maximal_write (fmupd w e H) D d v \<longleftrightarrow> maximal_write H D d v"
proof -
  have look: "mvContextCovers D u \<Longrightarrow> fmlookup (fmupd w e H) u = fmlookup H u" for u using assms by auto
  show "causally_closed (fmupd w e H) D \<longleftrightarrow> causally_closed H D" unfolding causally_closed_def using look by metis
  show ov: "overwritten (fmupd w e H) D d \<longleftrightarrow> overwritten H D d" unfolding overwritten_def using look by metis
  show "maximal_write (fmupd w e H) D d v \<longleftrightarrow> maximal_write H D d v" unfolding maximal_write_def ov using look by metis
qed

lemma mv_spec_extend: "mv_spec H (D, W) \<Longrightarrow> \<not> mvContextCovers D w \<Longrightarrow> mv_spec (fmupd w e H) (D, W)"
  unfolding mv_spec_def by (simp add: unseen_write)

lemma old_dot:
  assumes "count_at C i \<noteq> max_u64"
  shows "mvContextCovers (fmupd i (count_at C i + 1) C) d \<longleftrightarrow> mvContextCovers C d \<or> d = MvDot i (count_at C i + 1)"
proof -
  have "a \<le> count_at C i + 1 \<longleftrightarrow> a \<le> count_at C i \<or> a = count_at C i + 1" for a
    using unat_succ[OF assms] by (auto simp: word_le_nat_alt word_unat_eq_iff)
  then show ?thesis by (cases d) (auto simp: mvContextCovers_def)
qed

lemma mv_spec_write:
  assumes spec: "mv_spec H (C, V)" and n: "count_at C i \<noteq> max_u64" and "valid_replica i"
  defines "w \<equiv> MvDot i (count_at C i + 1)" and "C' \<equiv> fmupd i (count_at C i + 1) C"
  shows "mv_spec (fmupd w (C', v) H) (C', fmupd w v fmempty)" and "\<not> mvContextCovers C w"
proof -
  have less: "count_at C i < count_at C i + 1" using unat_succ[OF n] by (simp add: word_less_nat_alt)
  show new: "\<not> mvContextCovers C w" using less by (simp add: w_def mvContextCovers_def)
  have grow: "count_at C k \<le> count_at C' k" for k using less by (cases "k = i") (simp_all add: C'_def)
  have old: "mvContextCovers C u" if "mvContextCovers C' u" "u \<noteq> w" for u
    using that old_dot[OF n, of u] by (simp add: C'_def w_def)
  have closed: "count_at c k \<le> count_at C k" if "fmlookup H u = Some (c, x)" "mvContextCovers C u" for u c x k
    using spec that unfolding mv_spec_def causally_closed_def fst_conv by blast
  have "mvContextCovers C' w" by (simp add: C'_def w_def mvContextCovers_def)
  moreover have "causally_closed (fmupd w (C', v) H) C'"
    unfolding causally_closed_def
  proof (intro allI impI)
    fix u c x k assume u: "fmlookup (fmupd w (C', v) H) u = Some (c, x)" "mvContextCovers C' u"
    show "count_at c k \<le> count_at C' k"
    proof (cases "u = w")
      case False
      with u have "count_at c k \<le> count_at C k" by (intro closed[of u c x] old) simp_all
      then show ?thesis using grow[of k] by (rule order_trans)
    qed (use u in simp)
  qed
  moreover have "\<not> overwritten (fmupd w (C', v) H) C' w"
    unfolding overwritten_def using old closed covers_mono_context[of _ C w] new by (auto split: if_splits) metis
  moreover have "overwritten (fmupd w (C', v) H) C' d" if "mvContextCovers C' d" "d \<noteq> w" for d
    unfolding overwritten_def using that \<open>mvContextCovers C' w\<close> by (intro exI[of _ w] exI[of _ C'] exI[of _ v]) simp
  moreover have "mv_wf (C', fmupd w v fmempty)"
  proof -
    have "count_at C i + 1 \<noteq> 0" using less by auto
    moreover have "no_zeros C" "valid_counts C" using spec by (simp_all add: mv_spec_def mv_wf_def)
    ultimately show ?thesis using assms(3) \<open>mvContextCovers C' w\<close>
      by (auto simp: mv_wf_def C'_def w_def no_zeros_def valid_counts_def validMVDot_def Tag_Valid_def)
  qed
  ultimately show "mv_spec (fmupd w (C', v) H) (C', fmupd w v fmempty)"
    by (auto simp: mv_spec_def maximal_write_def)
qed

lemma mv_step_inv:
  assumes "mv_step s s'" "mv_sys_inv s"
  shows "mv_sys_inv s'"
  using assms(1)
proof cases
  case (mv_write i r v r' delta)
  note reg = mv_sys_reg[OF assms(2) mv_write(2)]
  let ?C = "mv_context r" and ?H = "mvs_hist s"
  let ?n = "count_at ?C i + 1"
  let ?w = "MvDot i ?n" and ?C' = "fmupd i ?n ?C"
  have n: "count_at ?C i \<noteq> max_u64" and r': "r' = r\<lparr>mv_context := ?C', mv_values := fmupd ?w v fmempty\<rparr>"
    and d: "delta = delta_of (?C', fmupd ?w v fmempty)"
    using mv_write(3) reg by (auto simp: MVRegister_Set_def Let_def delta_of_def split: if_splits)
  have spec: "mv_spec ?H (?C, mv_values r)" using reg by (simp add: mv_known_def)
  have valid: "valid_replica i" using reg by simp
  note w = mv_spec_write[OF spec n valid]
  have less: "count_at ?C i \<le> ?n" using unat_succ[OF n] by (simp add: word_le_nat_alt)
  have bound: "mv_bounded (fmupd i r' (mvs_regs s)) D" if "mv_bounded (mvs_regs s) D" for D
    using that mv_write(2) less by (intro mv_bounded_grow) (simp_all add: r')
  have keep: "mv_known (fmupd i r' (mvs_regs s)) (fmupd ?w (?C', v) ?H) st" if "mv_known (mvs_regs s) ?H st" for st
  proof -
    have "count_at (fst st) i \<le> count_at ?C i" using that mv_write(2) by (simp add: mv_known_def mv_bounded_def)
    then have "\<not> mvContextCovers (fst st) ?w" using w(2) reg by (auto simp: mvContextCovers_def)
    with that bound show ?thesis using mv_spec_extend[of ?H "fst st" "snd st" ?w "(?C', v)"] by (simp add: mv_known_def)
  qed
  have "mv_bounded (fmupd i r' (mvs_regs s)) ?C'"
    using reg less unfolding mv_known_def mv_bounded_def by (auto simp: r' intro: order_trans)
  then have known: "mv_known (fmupd i r' (mvs_regs s)) (fmupd ?w (?C', v) ?H) (?C', fmupd ?w v fmempty)"
    using w(1) reg by (simp add: mv_known_def)
  have upd: "mv_sys_inv (s\<lparr>mvs_regs := fmupd i r' (mvs_regs s), mvs_hist := fmupd ?w (?C', v) ?H\<rparr>)"
    using known by (intro mv_sys_update[OF assms(2) mv_write(2) _ keep]) (simp_all add: r')
  have "s' = s\<lparr>mvs_regs := fmupd i r' (mvs_regs s), mvs_hist := fmupd ?w (?C', v) ?H\<rparr>\<lparr>mvs_deltas := delta # mvs_deltas s\<rparr>"
    using mv_write(1) by (simp add: r')
  with upd known show ?thesis unfolding mv_sys_inv_def d by auto
next
  case (mv_deliver i r delta r' out)
  obtain st where d: "delta = delta_of st" "mv_known (mvs_regs s) (mvs_hist s) st" using mv_sys_delta[OF assms(2) mv_deliver(3)] by blast
  have "mv_spec (mvs_hist s) (mv_state r)" using mv_sys_reg[OF assms(2) mv_deliver(2)] by (simp add: mv_known_def)
  from apply_spec[OF this, of "fst st" "snd st"] d mv_deliver(4)
  have "mv_spec (mvs_hist s) (mv_state r')" "mv_context r' = joinCounts (mv_context r) (fst st)" "mv_replicaID r' = mv_replicaID r"
    by (auto simp: delta_of_def mv_known_def)
  then show ?thesis unfolding mv_deliver(1) using d(2) by (intro mv_receive[OF assms(2) mv_deliver(2)]) (auto simp: mv_known_def)
next
  case (mv_merge i r j q r' out)
  have "mv_spec (mvs_hist s) (mv_state r)" "mv_known (mvs_regs s) (mvs_hist s) (mv_state q)"
    using mv_sys_reg[OF assms(2) mv_merge(2)] mv_sys_reg[OF assms(2) mv_merge(3)] by (simp_all add: mv_known_def)
  with merge_spec[of "mvs_hist s" r q] mv_merge(4)
  have "mv_spec (mvs_hist s) (mv_state r')" "mv_context r' = joinCounts (mv_context r) (mv_context q)" "mv_replicaID r' = mv_replicaID r"
    "mv_bounded (mvs_regs s) (mv_context q)"
    by (auto simp: mv_known_def)
  then show ?thesis unfolding mv_merge(1) by (intro mv_receive[OF assms(2) mv_merge(2)])
next
  case (mv_combine d e delta)
  obtain x y where xy: "d = delta_of x" "e = delta_of y" "mv_known (mvs_regs s) (mvs_hist s) x" "mv_known (mvs_regs s) (mvs_hist s) y"
    using mv_sys_delta[OF assms(2)] mv_combine(2,3) by blast
  then have "mv_spec (mvs_hist s) (fst x, snd x)" "mv_spec (mvs_hist s) (fst y, snd y)" by (simp_all add: mv_known_def)
  from mv_spec_join[OF this] mv_combine(4) xy obtain V where "delta = delta_of (joinCounts (fst x) (fst y), V)"
      "mv_spec (mvs_hist s) (joinCounts (fst x) (fst y), V)"
    by (auto simp: MVRegisterDelta_Merge_def delta_of_def split: sum.splits)
  moreover have "mv_bounded (mvs_regs s) (joinCounts (fst x) (fst y))" using xy by (intro mv_bounded_join) (simp_all add: mv_known_def)
  ultimately show ?thesis unfolding mv_combine(1) using assms(2) by (auto simp: mv_sys_inv_def mv_known_def)
qed

lemma mv_reach_inv: "mv_reach s \<Longrightarrow> mv_sys_inv s"
proof (induction rule: mv_reach.induct)
  case (mv_start regs)
  have "mv_replicaID r = i \<and> valid_replica i \<and> mv_context r = fmempty \<and> mv_values r = fmempty" if "fmlookup regs i = Some r" for i r
    using mv_start[OF that] by (auto simp: NewMVRegister_def split: if_splits)
  then show ?case
    by (auto simp: mv_sys_inv_def mv_known_def mv_spec_def mv_wf_def mv_bounded_def no_zeros_def valid_counts_def causally_closed_def maximal_write_def)
qed (blast intro: mv_step_inv)

section \<open>The wire format\<close>

definition read_mv_entry :: "int \<Rightarrow> byte list \<Rightarrow> nat \<Rightarrow> ((gostring \<times> u64) \<times> nat) option" where
  "read_mv_entry m data p = (case read_entry m data p of
      Some (e, q) \<Rightarrow> if snd e = 0 then None else Some (e, q) | None \<Rightarrow> None)"

interpretation mv_entry_field: wire_map entry_enc "\<lambda>e. entry_ok m e \<and> snd e \<noteq> 0" "read_mv_entry m" for m
proof
  fix data p x q
  have "read_mv_entry m data p = Some (x, q) \<longleftrightarrow> read_entry m data p = Some (x, q) \<and> snd x \<noteq> 0"
    by (auto simp: read_mv_entry_def split: option.splits if_splits)
  then show "read_mv_entry m data p = Some (x, q) \<longleftrightarrow>
      (entry_ok m x \<and> snd x \<noteq> 0) \<and> at_pos data p (entry_enc x) \<and> q = p + length (entry_enc x)"
    unfolding read_entry_iff by blast
qed

definition mv_value_enc :: "mvDot \<times> byte list \<Rightarrow> byte list" where
  "mv_value_enc x = bytes_enc (dot_replicaID (fst x)) @ uvarint (dot_counter (fst x)) @ bytes_enc (snd x)"

definition mv_value_ok :: "int \<Rightarrow> counts \<Rightarrow> mvDot \<times> byte list \<Rightarrow> bool" where
  "mv_value_ok m C x \<longleftrightarrow> bytes_ok m (dot_replicaID (fst x)) \<and> bytes_ok m (snd x) \<and> validMVDot (fst x) \<and> mvContextCovers C (fst x)"

definition read_mv_value :: "int \<Rightarrow> counts \<Rightarrow> byte list \<Rightarrow> nat \<Rightarrow> ((mvDot \<times> byte list) \<times> nat) option" where
  "read_mv_value m C data p = (case ReadBytes data p m of
      None \<Rightarrow> None
    | Some (r, p) \<Rightarrow> (case ReadUvarint data p of
          None \<Rightarrow> None
        | Some (n, p) \<Rightarrow> (case ReadBytes data p m of
              None \<Rightarrow> None
            | Some (v, p) \<Rightarrow> if validMVDot (MvDot r n) \<and> mvContextCovers C (MvDot r n) then Some ((MvDot r n, v), p) else None)))"

interpretation mv_value_field: wire_map mv_value_enc "mv_value_ok m C" "read_mv_value m C" for m C
proof
  fix data p x q
  have "read_mv_value m C data p = Some (x, q) \<longleftrightarrow> (\<exists>k l. ReadBytes data p m = Some (dot_replicaID (fst x), k) \<and>
      ReadUvarint data k = Some (dot_counter (fst x), l) \<and> ReadBytes data l m = Some (snd x, q) \<and>
      validMVDot (fst x) \<and> mvContextCovers C (fst x))"
    by (cases x; cases "fst x") (auto simp: read_mv_value_def split: option.splits if_splits)
  also have "\<dots> \<longleftrightarrow> mv_value_ok m C x \<and> at_pos data p (mv_value_enc x) \<and> q = p + length (mv_value_enc x)"
    by (auto simp: ReadBytes_iff ReadUvarint_iff mv_value_ok_def mv_value_enc_def at_pos_append add.assoc)
  finally show "read_mv_value m C data p = Some (x, q) \<longleftrightarrow>
      mv_value_ok m C x \<and> at_pos data p (mv_value_enc x) \<and> q = p + length (mv_value_enc x)" .
qed

lemma mv_context_loop_eq:
  "mv_context_loop payload m n previous pos C = Inr (C', q) \<longleftrightarrow>
     (\<exists>xs. mv_entry_field.read_ascending m fst payload n previous pos = Some (xs, q) \<and> C' = fold (\<lambda>(k, v). fmupd k v) xs C)"
proof (induction n arbitrary: previous pos C)
  case (Suc n)
  show ?case
  proof (cases "read_entry m payload pos")
    case None
    then have "\<forall>z. mv_context_loop payload m (Suc n) previous pos C \<noteq> Inr z"
      by (auto simp: read_entry_def split: option.splits if_splits)
    moreover have "read_mv_entry m payload pos = None" using None by (simp add: read_mv_entry_def)
    ultimately show ?thesis by simp
  next
    case (Some r)
    obtain k v nxt where r: "r = ((k, v), nxt)" by (metis surj_pair)
    then have "\<exists>p. ReadBytes payload pos m = Some (k, p) \<and> ReadUvarint payload p = Some (v, nxt) \<and> valid_replica k"
      using Some by (auto simp: read_entry_def split: option.splits if_splits)
    moreover have "read_mv_entry m payload pos = (if v = 0 then None else Some ((k, v), nxt))"
      using Some r by (simp add: read_mv_entry_def)
    ultimately show ?thesis using Suc by (auto simp: not_less split: option.splits)
  qed
qed auto

lemma mv_values_loop_eq:
  "mv_values_loop payload m C n previous pos V = Inr (V', q) \<longleftrightarrow>
     (\<exists>xs. mv_value_field.read_ascending m C fst payload n previous pos = Some (xs, q) \<and> V' = fold (\<lambda>(k, v). fmupd k v) xs V)"
proof (induction n arbitrary: previous pos V)
  case (Suc n)
  show ?case
  proof (cases "read_mv_value m C payload pos")
    case None
    then have "\<forall>z. mv_values_loop payload m C (Suc n) previous pos V \<noteq> Inr z"
      by (auto simp: read_mv_value_def Let_def split: option.splits if_splits)
    with None show ?thesis by simp
  next
    case (Some r)
    obtain r' c v nxt where r: "r = ((MvDot r' c, v), nxt)" by (metis surj_pair mvDot.exhaust)
    then have "\<exists>p p'. ReadBytes payload pos m = Some (r', p) \<and> ReadUvarint payload p = Some (c, p') \<and> ReadBytes payload p' m = Some (v, nxt) \<and>
        validMVDot (MvDot r' c) \<and> mvContextCovers C (MvDot r' c)"
      using Some by (auto simp: read_mv_value_def split: option.splits if_splits)
    with Suc Some r show ?thesis
      by (auto simp: Let_def not_less split: option.splits)
  qed
qed auto

definition mv_enc :: "mvstate \<Rightarrow> byte list" where
  "mv_enc s = section_enc (fst s) @ mv_value_field.counted_enc (fm_items (snd s))"

definition mv_wire_ok :: "DecoderLimits \<Rightarrow> mvstate \<Rightarrow> bool" where
  "mv_wire_ok limits s \<longleftrightarrow> mv_wf s \<and> int (fm_size (fst s)) + int (fm_size (snd s)) \<le> MaxElements limits \<and>
     fm_size (fst s) < 2 ^ 64 \<and> fm_size (snd s) < 2 ^ 64 \<and>
     (\<forall>k. k |\<in>| fmdom (fst s) \<longrightarrow> bytes_ok (MaxStringBytes limits) k) \<and>
     (\<forall>d v. fmlookup (snd s) d = Some v \<longrightarrow> bytes_ok (MaxStringBytes limits) (dot_replicaID d) \<and> bytes_ok (MaxStringBytes limits) v)"

lemma fm_items_by_id [simp]: "fm_items_by (\<lambda>x. x) m = fm_items m"
  by (simp add: fm_items_by_def fm_items_def fm_keys_def)

lemma section_counted: "section_enc C = entry_field.counted_enc (fm_items C)"
  by (simp add: section_enc_def entry_field.counted_enc_def)

lemma read_mv_context:
  "(\<exists>cnt. at_pos data p (uvarint cnt) \<and> uint cnt \<le> maxCount \<and>
      mv_context_loop data m (unat cnt) None (p + length (uvarint cnt)) fmempty = Inr (C, q) \<and> R (unat cnt)) \<longleftrightarrow>
   int (fm_size C) \<le> maxCount \<and> fm_size C < 2 ^ 64 \<and> (\<forall>k v. fmlookup C k = Some v \<longrightarrow> entry_ok m (k, v) \<and> v \<noteq> 0) \<and>
   at_pos data p (section_enc C) \<and> q = p + length (section_enc C) \<and> R (fm_size C)"
  using mv_entry_field.read_counted_map[of data p maxCount m q C R]
  unfolding mv_context_loop_eq section_counted entry_field.counted_enc_def mv_entry_field.counted_enc_def snd_conv
  by (simp add: conj_ac)

lemma read_mv_values:
  "(\<exists>cnt. at_pos data p (uvarint cnt) \<and> uint cnt \<le> maxCount \<and>
      mv_values_loop data m C (unat cnt) None (p + length (uvarint cnt)) fmempty = Inr (V, q)) \<longleftrightarrow>
   int (fm_size V) \<le> maxCount \<and> fm_size V < 2 ^ 64 \<and> (\<forall>d v. fmlookup V d = Some v \<longrightarrow> mv_value_ok m C (d, v)) \<and>
   at_pos data p (mv_value_field.counted_enc (fm_items V)) \<and> q = p + length (mv_value_field.counted_enc (fm_items V))"
  using mv_value_field.read_counted_map[of data p maxCount m C q V "\<lambda>_. True"]
  unfolding mv_values_loop_eq by (simp add: conj_ac)

lemma mv_wire_ok_iff:
  "mv_wire_ok limits (C, V) \<longleftrightarrow> int (fm_size C) \<le> MaxElements limits \<and> fm_size C < 2 ^ 64 \<and>
     (\<forall>k v. fmlookup C k = Some v \<longrightarrow> entry_ok (MaxStringBytes limits) (k, v) \<and> v \<noteq> 0) \<and>
     int (fm_size V) \<le> MaxElements limits - int (fm_size C) \<and> fm_size V < 2 ^ 64 \<and>
     (\<forall>d v. fmlookup V d = Some v \<longrightarrow> mv_value_ok (MaxStringBytes limits) C (d, v))"
  by (auto simp: mv_wire_ok_def mv_wf_def no_zeros_def valid_counts_def entry_ok_def mv_value_ok_def fmlookup_dom_iff)

lemma unmarshalMVRegister_iff:
  "unmarshalMVRegister flate data t limits = Inr s \<longleftrightarrow>
     (\<exists>f. UnmarshalFrame flate data limits = Inr f \<and> TypeID f = t \<and> CodecID f = [] \<and> Payload f = mv_enc s \<and> mv_wire_ok limits s)"
proof (cases "UnmarshalFrame flate data limits")
  case (Inl e)
  then show ?thesis by (simp add: unmarshalMVRegister_def)
next
  case (Inr f)
  obtain C V where s: "s = (C, V)" by (cases s)
  let ?p = "Payload f" and ?ms = "MaxStringBytes limits" and ?me = "MaxElements limits"
  let ?cenc = "section_enc C" and ?venc = "mv_value_field.counted_enc (fm_items V)"
  have "unmarshalMVRegister flate data t limits = Inr (C, V) \<longleftrightarrow> TypeID f = t \<and> CodecID f = [] \<and>
      (\<exists>q cnt. at_pos ?p 0 (uvarint cnt) \<and> uint cnt \<le> ?me \<and>
         mv_context_loop ?p ?ms (unat cnt) None (0 + length (uvarint cnt)) fmempty = Inr (C, q) \<and>
         (\<exists>vc. at_pos ?p q (uvarint vc) \<and> uint vc \<le> ?me - int (unat cnt) \<and>
            mv_values_loop ?p ?ms C (unat vc) None (q + length (uvarint vc)) fmempty = Inr (V, length ?p)))"
    by (simp add: unmarshalMVRegister_def Inr if_Inl_Inr uvarint_field.case_read case_sum_pair not_less conj_assoc) blast
  also have "\<dots> \<longleftrightarrow> TypeID f = t \<and> CodecID f = [] \<and> mv_wire_ok limits (C, V) \<and> at_pos ?p 0 ?cenc \<and>
      at_pos ?p (length ?cenc) ?venc \<and> length ?p = length ?cenc + length ?venc"
    unfolding read_mv_values read_mv_context[where R = "\<lambda>n. int (fm_size V) \<le> ?me - int n \<and> _"] mv_wire_ok_iff by auto
  also have "\<dots> \<longleftrightarrow> TypeID f = t \<and> CodecID f = [] \<and> mv_wire_ok limits (C, V) \<and> ?p = ?cenc @ ?venc"
    using at_pos_0_whole[of ?p "?cenc @ ?venc"] by (auto simp: at_pos_append)
  finally show ?thesis using Inr by (auto simp: s mv_enc_def)
qed

lemma mv_values_size_iff:
  "mv_values_size V limits ds sz = Inr s \<longleftrightarrow>
     s = sz + int (length (concat (map (\<lambda>d. mv_value_enc (d, the (fmlookup V d))) ds))) \<and>
     (\<forall>d \<in> set ds. int (length (dot_replicaID d)) \<le> MaxStringBytes limits \<and> int (length (the (fmlookup V d))) \<le> MaxStringBytes limits) \<and>
     (ds = [] \<or> s \<le> MaxPayload limits)"
proof (induction ds arbitrary: sz)
  case (Cons d ds)
  have len: "int (UvarintSize (of_nat (length (dot_replicaID d))) + length (dot_replicaID d) + UvarintSize (dot_counter d) +
      UvarintSize (of_nat (length (the (fmlookup V d)))) + length (the (fmlookup V d))) = int (length (mv_value_enc (d, the (fmlookup V d))))"
    by (simp add: UvarintSize_def mv_value_enc_def bytes_enc_def)
  show ?case unfolding mv_values_size.simps Let_def if_Inl_Inr Cons len by auto
qed auto

lemma items_of_dots: "map (\<lambda>d. (d, the (fmlookup V d))) (fm_keys V) = fm_items V"
  by (simp add: fm_items_def)

lemma mv_payload:
  "fold (\<lambda>d payload. appendMVBytes (AppendUvarint (appendMVBytes payload (dot_replicaID d)) (dot_counter d)) (the (fmlookup V d))) ds p =
     p @ concat (map (\<lambda>d. mv_value_enc (d, the (fmlookup V d))) ds)"
  "fold (\<lambda>r payload. AppendUvarint (appendMVBytes payload r) (count_at C r)) rs p = p @ concat (map (\<lambda>r. entry_enc (r, count_at C r)) rs)"
  by (induction ds arbitrary: p) (simp_all add: appendMVBytes_def AppendUvarint_def mv_value_enc_def bytes_enc_def,
      induction rs arbitrary: p, simp_all add: appendMVBytes_def AppendUvarint_def entry_enc_def bytes_enc_def)

lemma marshalMVRegister_iff:
  "marshalMVRegister t (Some C) (Some V) DefaultLimits = Inr data \<longleftrightarrow>
     mv_wire_ok DefaultLimits (C, V) \<and> MarshalFrame (frame_of t [] (mv_enc (C, V))) = Inr data"
proof -
  let ?D = DefaultLimits
  let ?venc = "mv_value_field.counted_enc (fm_items V)" and ?cenc = "section_enc C"
  have venc: "?venc = uvarint (of_nat (fm_size V)) @ concat (map (\<lambda>d. mv_value_enc (d, the (fmlookup V d))) (fm_keys V))"
    unfolding mv_value_field.counted_enc_def items_of_dots[symmetric] by (simp add: comp_def)
  have cenc: "?cenc = uvarint (of_nat (fm_size C)) @ concat (map (\<lambda>r. entry_enc (r, count_at C r)) (fm_keys C))"
    unfolding section_enc_def items_of_keys[symmetric] by (simp add: comp_def)
  define payload where "payload = ?cenc @ ?venc"
  have p: "fold (\<lambda>d payload. appendMVBytes (AppendUvarint (appendMVBytes payload (dot_replicaID d)) (dot_counter d)) (the (fmlookup V d))) (fm_keys V)
      (AppendUvarint (fold (\<lambda>r payload. AppendUvarint (appendMVBytes payload r) (count_at C r)) (fm_keys C)
        (AppendUvarint [] (of_nat (length (fm_keys C))))) (of_nat (length (fm_keys V)))) = payload"
    unfolding mv_payload payload_def venc cenc by (simp add: AppendUvarint_def)
  have keys: "fm_keys V = [] \<Longrightarrow> concat (map (\<lambda>d. mv_value_enc (d, the (fmlookup V d))) (fm_keys V)) = []" by simp
  define B where "B = concat (map (\<lambda>d. mv_value_enc (d, the (fmlookup V d))) (fm_keys V))"
  define F where "F n \<longleftrightarrow> MarshalFrameWithPayload t [] n (Some (if int (length payload) \<noteq> n then Inl encoding_ErrInvalidFrame else Inr payload)) = Inr data" for n
  have len: "int (length payload) = int (length ?cenc) + (int (UvarintSize (of_nat (fm_size V))) + int (length B))"
    by (simp add: payload_def venc B_def UvarintSize_def)
  then have frame: "F (int (length ?cenc) + (int (UvarintSize (of_nat (fm_size V))) + int (length B))) \<longleftrightarrow> MarshalFrame (frame_of t [] payload) = Inr data"
    unfolding F_def len[symmetric] by (simp add: MarshalFrameWithPayload_exact)
  have "marshalMVRegister t (Some C) (Some V) ?D = Inr data \<longleftrightarrow> mv_wf (C, V) \<and>
      int (fm_size C) + int (fm_size V) \<le> MaxElements ?D \<and>
      (\<exists>s1. counts_size C ?D (fm_keys C) (int (UvarintSize (of_nat (fm_size C)))) = Inr s1 \<and>
        int (UvarintSize (of_nat (fm_size V))) \<le> MaxPayload ?D - s1 \<and>
        (\<exists>s2. mv_values_size V ?D (fm_keys V) (s1 + int (UvarintSize (of_nat (fm_size V)))) = Inr s2 \<and>
          MarshalFrameWithPayload t [] s2 (Some (if int (length payload) \<noteq> s2 then Inl encoding_ErrInvalidFrame else Inr payload)) = Inr data))"
    unfolding marshalMVRegister_def Let_def option.sel mv_clones p
    by (auto simp: validateMVState_iff split: sum.splits if_splits)
  also have "\<dots> \<longleftrightarrow> mv_wf (C, V) \<and> int (fm_size C) + int (fm_size V) \<le> MaxElements ?D \<and>
      (\<forall>k. k |\<in>| fmdom C \<longrightarrow> int (length k) \<le> MaxStringBytes ?D) \<and>
      (\<forall>d. d |\<in>| fmdom V \<longrightarrow> int (length (dot_replicaID d)) \<le> MaxStringBytes ?D \<and> int (length (the (fmlookup V d))) \<le> MaxStringBytes ?D) \<and>
      int (length payload) \<le> MaxPayload ?D \<and> MarshalFrame (frame_of t [] payload) = Inr data"
    unfolding section_size mv_values_size_iff F_def[symmetric] B_def[symmetric] using keys[folded B_def] frame len by (auto simp: add.assoc)
  also have "\<dots> \<longleftrightarrow> mv_wire_ok ?D (C, V) \<and> MarshalFrame (frame_of t [] payload) = Inr data"
    by (auto simp: mv_wire_ok_def bytes_ok_def DefaultLimits_def MarshalFrame_iff fmlookup_dom_iff)
  finally show ?thesis by (simp add: payload_def mv_enc_def)
qed

section \<open>Properties\<close>

text \<open>
  C5. A multi-value register shows exactly the maximal writes it knows. However replicas write, exchange and merge deltas and
  merge states, the values of a register are the writes its causal context covers that no other covered write has overwritten;
  registers with the same context show the same values; and applying a delta or merging a register never fails,
  so the fast path that skips a covered delta and the check for conflicting values lose nothing.
\<close>

theorem mv_maximal_writes:
  assumes "mv_reach s" and "fmlookup (mvs_regs s) i = Some r"
  shows "(\<forall>d v. fmlookup (mv_values r) d = Some v \<longleftrightarrow> maximal_write (mvs_hist s) (mv_context r) d v) \<and>
    (\<forall>j q. fmlookup (mvs_regs s) j = Some q \<longrightarrow> (mv_context q = mv_context r \<longrightarrow> mv_values q = mv_values r) \<and>
       (\<exists>r'. MVRegister_Merge (Some r) (Some q) = (Some r', Inr ()) \<and> mv_context r' = joinCounts (mv_context r) (mv_context q))) \<and>
    (\<forall>delta. delta \<in> set (mvs_deltas s) \<longrightarrow> (\<exists>r'. MVRegister_ApplyDelta (Some r) delta = (Some r', Inr ()) \<and>
       mv_context r' = joinCounts (mv_context r) (the (mvd_context delta))))"
proof -
  have inv: "mv_sys_inv s" using assms(1) by (rule mv_reach_inv)
  have r: "mv_spec (mvs_hist s) (mv_state r)" using mv_sys_reg[OF inv assms(2)] by (simp add: mv_known_def)
  have "fmlookup (mv_values r) d = Some v \<longleftrightarrow> maximal_write (mvs_hist s) (mv_context r) d v" for d v
    using r by (simp add: mv_spec_def)
  moreover have "(mv_context q = mv_context r \<longrightarrow> mv_values q = mv_values r) \<and>
      (\<exists>r'. MVRegister_Merge (Some r) (Some q) = (Some r', Inr ()) \<and> mv_context r' = joinCounts (mv_context r) (mv_context q))"
    if "fmlookup (mvs_regs s) j = Some q" for j q
  proof -
    have q: "mv_spec (mvs_hist s) (mv_state q)" using mv_sys_reg[OF inv that] by (simp add: mv_known_def)
    then show ?thesis using merge_spec[OF r q] mv_spec_unique[OF q, of "mv_values r"] r by auto
  qed
  moreover have "\<exists>r'. MVRegister_ApplyDelta (Some r) delta = (Some r', Inr ()) \<and> mv_context r' = joinCounts (mv_context r) (the (mvd_context delta))"
    if d: "delta \<in> set (mvs_deltas s)" for delta
  proof -
    obtain st where st: "delta = delta_of st" "mv_known (mvs_regs s) (mvs_hist s) st" using mv_sys_delta[OF inv d] by blast
    have "mv_spec (mvs_hist s) (fst st, snd st)" using st(2) by (simp add: mv_known_def)
    from apply_spec[OF r this] show ?thesis by (auto simp: st(1) delta_of_def)
  qed
  ultimately show ?thesis by blast
qed

definition mv_a :: MVRegister where
  "mv_a = \<lparr>mv_replicaID = [97], mv_context = fmempty, mv_values = fmempty\<rparr>"

definition mv_b :: MVRegister where
  "mv_b = \<lparr>mv_replicaID = [98], mv_context = fmempty, mv_values = fmempty\<rparr>"

theorem mv_maximal_writes_witness:
  "\<exists>s r q. mv_reach s \<and> fmlookup (mvs_regs s) [97] = Some r \<and> fmlookup (mvs_regs s) [98] = Some q \<and>
     maximal_write (mvs_hist s) (mv_context r) (MvDot [97] 1) [7] \<and> mvs_deltas s \<noteq> [] \<and>
     (\<exists>q'. MVRegister_ApplyDelta (Some q) (hd (mvs_deltas s)) = (Some q', Inr ()))"
proof -
  let ?s = "\<lparr>mvs_regs = fmupd [97] mv_a (fmupd [98] mv_b fmempty), mvs_deltas = [], mvs_hist = fmempty\<rparr>"
  obtain r d where set: "MVRegister_Set (Some mv_a) [7] = (Some r, Inr d)" and r: "mv_values r = fmupd (MvDot [97] 1) [7] fmempty"
    by (simp add: MVRegister_Set_def mv_a_def Let_def)
  have "mv_reach ?s"
    by (rule mv_start) (auto simp: mv_a_def mv_b_def NewMVRegister_def Tag_Valid_def eval split: if_splits)
  moreover have "fmlookup (mvs_regs ?s) [97] = Some mv_a" by simp
  ultimately obtain s' where s': "mv_reach s'" "fmlookup (mvs_regs s') [97] = Some r" "fmlookup (mvs_regs s') [98] = Some mv_b" "mvs_deltas s' = [d]"
    using mv_more[OF _ mv_write[OF _ set, of ?s "[97]"]] by auto
  have w: "maximal_write (mvs_hist s') (mv_context r) (MvDot [97] 1) [7]"
    using mv_maximal_writes[OF s'(1,2)] r by (metis fmupd_lookup)
  have "\<exists>q'. MVRegister_ApplyDelta (Some mv_b) (hd (mvs_deltas s')) = (Some q', Inr ())"
    using mv_maximal_writes[OF s'(1,3)] s'(4) by auto
  with s' w show ?thesis by (intro exI[of _ s'] exI[of _ r] exI[of _ mv_b]) simp
qed

text \<open>
  C33. \<open>Set\<close> overwrites what it has observed and nothing else. It fails only when the replica's counter is exhausted, and then changes
  nothing. Otherwise the new value is the only one here; and at a replica that has not seen the write, applying the
  delta adds the value, removes exactly the values the writer had observed, and keeps the concurrent ones.
\<close>

theorem mv_set:
  assumes "mv_wf (mv_state r)" and "valid_replica (mv_replicaID r)" and "MVRegister_Set (Some r) v = (Some r', out)"
    and "mv_wf (mv_state q)" and "count_at (mv_context q) (mv_replicaID r) \<le> count_at (mv_context r) (mv_replicaID r)"
  shows "(out = Inl register_ErrMVRegisterOverflow \<and> r' = r \<and> count_at (mv_context r) (mv_replicaID r) = max_u64) \<or>
    (\<exists>delta q'. out = Inr delta \<and> MVRegister_Value (Some r') = Some v \<and> MVRegister_ApplyDelta (Some q) delta = (Some q', Inr ()) \<and>
       (\<forall>d. fmlookup (mv_values q') d = (if d = MvDot (mv_replicaID r) (count_at (mv_context r') (mv_replicaID r)) then Some v
          else if mvContextCovers (mv_context r) d then None else fmlookup (mv_values q) d)))"
proof (cases "count_at (mv_context r) (mv_replicaID r) = max_u64")
  case True
  with assms(3) show ?thesis by (simp add: MVRegister_Set_def)
next
  case False
  let ?i = "mv_replicaID r" and ?C = "mv_context r"
  let ?n = "count_at ?C ?i + 1"
  let ?w = "MvDot ?i ?n" and ?C' = "fmupd ?i ?n ?C"
  let ?V = "fmupd ?w v fmempty"
  let ?delta = "\<lparr>mvd_context = Some ?C', mvd_values = Some ?V\<rparr>"
  have r': "r' = r\<lparr>mv_context := ?C', mv_values := ?V\<rparr>" "out = Inr ?delta"
    using assms(3) False by (auto simp: MVRegister_Set_def Let_def)
  have less: "count_at ?C ?i < ?n" using unat_succ[OF False] by (simp add: word_less_nat_alt)
  then have n0: "?n \<noteq> 0" by auto
  have wf: "mv_wf (?C', ?V)"
    using assms(1,2) n0 by (auto simp: mv_wf_def no_zeros_def valid_counts_def validMVDot_def mvContextCovers_def Tag_Valid_def)
  have new: "\<not> mvContextCovers (mv_context q) ?w" using less assms(5) by (auto simp: mvContextCovers_def)
  then have q: "fmlookup (mv_values q) ?w = None" using assms(4) by (auto simp: mv_wf_def fmlookup_dom_iff intro: ccontr)
  have "\<not> count_at (mv_context q) ?i \<ge> ?n" using new by (simp add: mvContextCovers_def)
  then have sub: "MVRegister_subsumes q ?C' ?V = Inr False"
    using q by (auto simp: MVRegister_subsumes_def list_all_iff set_fm_items not_le split: if_splits)
  have agree: "mv_agree (mv_values q) ?V" using q by (auto simp: mv_agree_def)
  then obtain C2 V2 where j: "joinMVState (mv_context q) (mv_values q) ?C' ?V = Inr (C2, V2)"
    using joinMVState_error[of "mv_context q" "mv_values q" ?C' ?V] by (cases "joinMVState (mv_context q) (mv_values q) ?C' ?V") auto
  have app: "MVRegister_ApplyDelta (Some q) ?delta = (Some (q\<lparr>mv_context := C2, mv_values := V2\<rparr>), Inr ())"
    using sub j wf assms(4) by (simp add: MVRegister_ApplyDelta_def MVRegister_join_def validateMVState_iff)
  have old: "mvContextCovers ?C' d \<longleftrightarrow> mvContextCovers ?C d" if "d \<noteq> ?w" for d
    using that old_dot[OF False] by simp
  have "fmlookup V2 d = (if d = ?w then Some v else if mvContextCovers ?C d then None else fmlookup (mv_values q) d)" for d
    unfolding joinMVState_lookup(3)[OF j] using q new old[of d] by (auto split: option.splits)
  moreover have "MVRegister_Value (Some r') = Some v" by (simp add: r' MVRegister_Value_def fm_size_fmupd fm_items_def fm_keys_def eval)
  ultimately show ?thesis using app by (intro disjI2) (simp add: r')
qed

theorem mv_set_witness:
  "\<exists>r' delta q'. MVRegister_Set (Some mv_a) [7] = (Some r', Inr delta) \<and> MVRegister_Value (Some r') = Some [7] \<and>
     MVRegister_ApplyDelta (Some mv_b) delta = (Some q', Inr ()) \<and> fmlookup (mv_values q') (MvDot [97] 1) = Some [7]"
proof -
  obtain r' delta where s: "MVRegister_Set (Some mv_a) [7] = (Some r', Inr delta)" and c: "count_at (mv_context r') [97] = 1"
    by (simp add: MVRegister_Set_def mv_a_def Let_def)
  have "mv_wf (mv_state mv_a)" "mv_wf (mv_state mv_b)" "valid_replica (mv_replicaID mv_a)"
    "count_at (mv_context mv_b) (mv_replicaID mv_a) \<le> count_at (mv_context mv_a) (mv_replicaID mv_a)"
    by (simp_all add: mv_a_def mv_b_def mv_wf_def no_zeros_def valid_counts_def Tag_Valid_def eval)
  from mv_set[OF this(1,3) s this(2,4)] s c show ?thesis by (auto simp: mv_a_def)
qed

text \<open>
  C34. The framed state is canonical: for a well-formed register \<open>MarshalBinary\<close> returns exactly the version 1 bytes that
  \<open>UnmarshalBinary\<close> turns into its context and values, and whatever a decoder accepts is well formed. A
  register restored from its snapshot is the register.
\<close>

theorem mv_codec:
  assumes "mv_wf (mv_state r)" and "valid_replica (mv_replicaID r)"
  shows "(MVRegister_MarshalBinary (Some r) = Inr data \<longleftrightarrow>
      MVRegister_UnmarshalBinary flate (Some q) data = (Some (q\<lparr>mv_context := mv_context r, mv_values := mv_values r\<rparr>), Inr ()) \<and>
      PeekFrameFormatVersion data DefaultLimits = Inr FormatVersion) \<and>
    (unmarshalMVRegister flate data t limits = Inr st \<longrightarrow> mv_wf st) \<and>
    (MVRegister_Snapshot flate (Some r) = Inr saved \<longrightarrow> NewMVRegisterFromSnapshot flate (mv_replicaID r) saved = Inr r)"
proof -
  have u: "MVRegister_UnmarshalBinary flate (Some q) d = (Some (q\<lparr>mv_context := mv_context r, mv_values := mv_values r\<rparr>), Inr ()) \<longleftrightarrow>
      unmarshalMVRegister flate d TypeIDMVRegisterState DefaultLimits = Inr (mv_state r)" for q d
    by (cases q) (auto simp: MVRegister_UnmarshalBinary_def MVRegister_UnmarshalBinaryWithLimits_def split: sum.splits)
  have m: "MVRegister_MarshalBinary (Some r) = Inr d \<longleftrightarrow>
      unmarshalMVRegister flate d TypeIDMVRegisterState DefaultLimits = Inr (mv_state r) \<and> PeekFrameFormatVersion d DefaultLimits = Inr FormatVersion" for d
    unfolding unmarshalMVRegister_iff frame_payload_iff
    by (simp add: MVRegister_MarshalBinary_def marshalMVRegister_iff)
  have "NewMVRegisterFromSnapshot flate (mv_replicaID r) saved = Inr r" if snap: "MVRegister_Snapshot flate (Some r) = Inr saved"
  proof -
    obtain d where d: "MVRegister_MarshalBinary (Some r) = Inr d" "Snapshot_New flate d fmempty = Inr saved"
      using snap by (auto simp: MVRegister_Snapshot_def split: sum.splits)
    have dec: "unmarshalMVRegister flate d TypeIDMVRegisterState DefaultLimits = Inr (mv_state r)" using d(1) m by blast
    then have "\<exists>f. UnmarshalFrame flate d DefaultLimits = Inr f \<and> TypeID f = TypeIDMVRegisterState" unfolding unmarshalMVRegister_iff by blast
    then have "Snapshot_Bytes saved = d \<and> ss_TypeID saved = TypeIDMVRegisterState"
      using d(2) by (auto simp: Snapshot_New_def newSnapshot_def Snapshot_Bytes_def split: if_splits)
    then show ?thesis
      using dec assms(2)
      by (simp add: NewMVRegisterFromSnapshot_def NewMVRegister_def MVRegister_UnmarshalBinary_def MVRegister_UnmarshalBinaryWithLimits_def)
  qed
  moreover have "unmarshalMVRegister flate data t limits = Inr st \<Longrightarrow> mv_wf st"
    unfolding unmarshalMVRegister_iff by (auto simp: mv_wire_ok_def)
  ultimately show ?thesis unfolding u using m by blast
qed

definition mv_c :: MVRegister where
  "mv_c = \<lparr>mv_replicaID = [97], mv_context = fmupd [97] 1 fmempty, mv_values = fmupd (MvDot [97] 1) [7] fmempty\<rparr>"

theorem mv_codec_witness:
  "\<exists>data. MVRegister_MarshalBinary (Some mv_c) = Inr data \<and>
     MVRegister_UnmarshalBinary (\<lambda>c. (c, None)) (Some mv_a) data = (Some mv_c, Inr ())"
proof -
  have wf: "mv_wf (mv_state mv_c)" "valid_replica (mv_replicaID mv_c)"
    by (auto simp: mv_c_def mv_wf_def no_zeros_def valid_counts_def validMVDot_def mvContextCovers_def Tag_Valid_def eval split: if_splits)
  have "\<exists>data. MVRegister_MarshalBinary (Some mv_c) = Inr data"
    unfolding MVRegister_MarshalBinary_def option.case mv_clones marshalMVRegister_iff MarshalFrame_iff using wf(1)
    by (simp add: mv_c_def mv_wire_ok_def mv_enc_def section_enc_def mv_value_field.counted_enc_def entry_enc_def mv_value_enc_def bytes_enc_def
        bytes_ok_def fm_items_def fm_keys_def DefaultLimits_def uvarint_small eval)
  then show ?thesis using mv_codec[OF wf, of _ "\<lambda>c. (c, None)" mv_a] by (auto simp: mv_a_def mv_c_def)
qed

end
