(* ===== verification/TombstoneGC.thy ===== *)
theory TombstoneGC
  imports ORSets
begin

text \<open>
  The tombstone collectors of \<open>src/tombstonegc\<close>: the coordinator that collects exact acknowledgements
  (\<open>coordinator.go\<close>, \<open>membership_install.go\<close>) and the local collector (\<open>simple.go\<close>). A coordinator refines a
  relation of members and the tags they acknowledged. The element type of \<open>Coordinator[T]\<close> only fixes its
  OR-Set targets. Slices and maps have a Go length, at most \<open>max_int\<close>.
\<close>

abbreviation gc_ErrInvalidMembership :: go_error where
  "gc_ErrInvalidMembership \<equiv> errors_New ''tombstonegc: invalid membership''"

abbreviation gc_ErrInvalidGroup :: go_error where
  "gc_ErrInvalidGroup \<equiv> errors_New ''tombstonegc: invalid replication group''"

abbreviation gc_ErrGroupMismatch :: go_error where
  "gc_ErrGroupMismatch \<equiv> errors_New ''tombstonegc: acknowledgement replication group mismatch''"

abbreviation gc_ErrUnknownMember :: go_error where
  "gc_ErrUnknownMember \<equiv> errors_New ''tombstonegc: acknowledgement from unknown member''"

abbreviation gc_ErrStaleMembership :: go_error where
  "gc_ErrStaleMembership \<equiv> errors_New ''tombstonegc: acknowledgement membership epoch is stale''"

abbreviation gc_ErrInvalidTag :: go_error where
  "gc_ErrInvalidTag \<equiv> errors_New ''tombstonegc: invalid tombstone tag''"

abbreviation gc_ErrNilTarget :: go_error where
  "gc_ErrNilTarget \<equiv> errors_New ''tombstonegc: nil tombstone target''"

abbreviation gc_ErrInvalidSimplePolicy :: go_error where
  "gc_ErrInvalidSimplePolicy \<equiv> errors_New ''tombstonegc: invalid simple collection policy''"

abbreviation gc_ErrNilSimpleCollector :: go_error where
  "gc_ErrNilSimpleCollector \<equiv> errors_New ''tombstonegc: nil simple collector''"

abbreviation gc_ErrMembershipGroupMismatch :: go_error where
  "gc_ErrMembershipGroupMismatch \<equiv> errors_New ''tombstonegc: membership replication group mismatch''"

abbreviation gc_ErrMembershipRollback :: go_error where
  "gc_ErrMembershipRollback \<equiv> errors_New ''tombstonegc: membership epoch rollback''"

section \<open>The coordinator\<close>

record Membership =
  gm_GroupID :: gostring
  gm_Epoch :: u64
  gm_Members :: "gostring list"

record AcknowledgementStats =
  as_GroupID :: gostring
  as_Epoch :: u64
  as_Members :: nat
  as_Tags :: nat
  as_Entries :: int

text \<open>The interface of a target, with the optional capability of a structural one.\<close>

record 't TombstoneTarget =
  tt_TombstoneTags :: "'t \<Rightarrow> tag list"
  tt_CompactTombstones :: "'t \<Rightarrow> tag list \<Rightarrow> 't \<times> nat res"
  tt_CompactEligibleTombstones :: "('t \<Rightarrow> tag list \<Rightarrow> 't \<times> nat res) option"

record Coordinator =
  tc_groupID :: gostring
  tc_epoch :: u64
  tc_members :: "gostring fset"
  tc_acknowledgements :: "(gostring, tag fset) fmap"
  tc_acknowledgementCounts :: "(tag, u64) fmap"
  tc_acknowledgementEntries :: int

definition validateTombstones :: "tag list \<Rightarrow> unit res" where
  "validateTombstones tombstones = (if list_all Tag_Valid tombstones then Inr () else Inl gc_ErrInvalidTag)"

fun members_loop :: "gostring list \<Rightarrow> gostring fset \<Rightarrow> gostring fset res" where
  "members_loop [] memberSet = Inr memberSet"
| "members_loop (member # members) memberSet =
     (if blank member then Inl gc_ErrInvalidMembership
      else if member |\<in>| memberSet then Inl gc_ErrInvalidMembership
      else members_loop members (finsert member memberSet))"

definition validateMembers :: "gostring list \<Rightarrow> gostring fset res" where
  "validateMembers members = (if members = [] then Inl gc_ErrInvalidMembership else members_loop members {||})"

definition sortedMembers :: "gostring fset \<Rightarrow> gostring list" where
  "sortedMembers memberSet = sort (sorted_list_of_fset memberSet)"

definition NewCoordinator :: "gostring \<Rightarrow> gostring list \<Rightarrow> Coordinator res" where
  "NewCoordinator groupID members =
     (if blank groupID then Inl gc_ErrInvalidGroup
      else (case validateMembers members of
          Inl err \<Rightarrow> Inl err
        | Inr memberSet \<Rightarrow> Inr \<lparr>tc_groupID = groupID, tc_epoch = 1, tc_members = memberSet, tc_acknowledgements = fmempty,
                               tc_acknowledgementCounts = fmempty, tc_acknowledgementEntries = 0\<rparr>))"

definition Coordinator_Membership :: "Coordinator option \<Rightarrow> Membership" where
  "Coordinator_Membership c = (case c of
      None \<Rightarrow> \<lparr>gm_GroupID = [], gm_Epoch = 0, gm_Members = []\<rparr>
    | Some c \<Rightarrow> \<lparr>gm_GroupID = tc_groupID c, gm_Epoch = tc_epoch c, gm_Members = sortedMembers (tc_members c)\<rparr>)"

definition Coordinator_AcknowledgementStats :: "Coordinator option \<Rightarrow> AcknowledgementStats" where
  "Coordinator_AcknowledgementStats c = (case c of
      None \<Rightarrow> \<lparr>as_GroupID = [], as_Epoch = 0, as_Members = 0, as_Tags = 0, as_Entries = 0\<rparr>
    | Some c \<Rightarrow> \<lparr>as_GroupID = tc_groupID c, as_Epoch = tc_epoch c, as_Members = fcard (tc_members c),
                as_Tags = fm_size (tc_acknowledgementCounts c), as_Entries = tc_acknowledgementEntries c\<rparr>)"

definition ReplaceMembership :: "Coordinator option \<Rightarrow> gostring list \<Rightarrow> Coordinator option \<times> Membership res" where
  "ReplaceMembership c members = (case c of
      None \<Rightarrow> (None, Inl gc_ErrInvalidMembership)
    | Some c \<Rightarrow> (case validateMembers members of
          Inl err \<Rightarrow> (Some c, Inl err)
        | Inr memberSet \<Rightarrow>
            if tc_epoch c = max_u64 then (Some c, Inl gc_ErrInvalidMembership)
            else (Some (c\<lparr>tc_epoch := tc_epoch c + 1, tc_members := memberSet, tc_acknowledgements := fmempty,
                         tc_acknowledgementCounts := fmempty, tc_acknowledgementEntries := 0\<rparr>),
                  Inr \<lparr>gm_GroupID = tc_groupID c, gm_Epoch = tc_epoch c + 1, gm_Members = sortedMembers memberSet\<rparr>)))"

text \<open>Reading a missing member gives the nil map of tags, which is empty.\<close>

definition acks_of :: "(gostring, tag fset) fmap \<Rightarrow> gostring \<Rightarrow> tag fset" where
  "acks_of acks member = (case fmlookup acks member of None \<Rightarrow> {||} | Some tags \<Rightarrow> tags)"

definition ack_tag :: "gostring \<Rightarrow> tag \<Rightarrow> Coordinator \<Rightarrow> Coordinator" where
  "ack_tag member tag c =
     (if tag |\<in>| acks_of (tc_acknowledgements c) member then c
      else c\<lparr>tc_acknowledgements := fmupd member (finsert tag (acks_of (tc_acknowledgements c) member)) (tc_acknowledgements c),
             tc_acknowledgementCounts := fmupd tag (count_at (tc_acknowledgementCounts c) tag + 1) (tc_acknowledgementCounts c),
             tc_acknowledgementEntries := tc_acknowledgementEntries c + 1\<rparr>)"

definition acknowledgeLocked :: "Coordinator \<Rightarrow> gostring \<Rightarrow> gostring \<Rightarrow> u64 \<Rightarrow> tag list \<Rightarrow> Coordinator \<times> unit res" where
  "acknowledgeLocked c groupID member epoch tombstones =
     (if groupID \<noteq> tc_groupID c then (c, Inl gc_ErrGroupMismatch)
      else if epoch \<noteq> tc_epoch c then (c, Inl gc_ErrStaleMembership)
      else if member |\<notin>| tc_members c then (c, Inl gc_ErrUnknownMember)
      else
        (let c = (if fmlookup (tc_acknowledgements c) member = None
                  then c\<lparr>tc_acknowledgements := fmupd member {||} (tc_acknowledgements c)\<rparr> else c)
         in (fold (ack_tag member) tombstones c, Inr ())))"

definition Coordinator_Acknowledge ::
    "Coordinator option \<Rightarrow> gostring \<Rightarrow> gostring \<Rightarrow> u64 \<Rightarrow> tag list \<Rightarrow> Coordinator option \<times> unit res" where
  "Coordinator_Acknowledge c groupID member epoch tombstones = (case c of
      None \<Rightarrow> (None, Inl gc_ErrInvalidMembership)
    | Some c \<Rightarrow> (case validateTombstones tombstones of
          Inl err \<Rightarrow> (Some c, Inl err)
        | Inr _ \<Rightarrow> map_prod Some id (acknowledgeLocked c groupID member epoch tombstones)))"

definition prunesAllAcknowledgementTagsLocked :: "Coordinator \<Rightarrow> tag list \<Rightarrow> bool" where
  "prunesAllAcknowledgementTagsLocked c tags \<longleftrightarrow>
     \<not> length tags < fm_size (tc_acknowledgementCounts c) \<and>
     list_all (\<lambda>tag. tag |\<in>| fmdom (tc_acknowledgementCounts c)) tags \<and>
     fcard (fold finsert tags {||}) = fm_size (tc_acknowledgementCounts c)"

text \<open>The two loops of \<open>PruneAcknowledgements\<close>: deleting one tag from the table of one member, and from all of them.\<close>

definition prune_member :: "tag \<Rightarrow> gostring \<Rightarrow> tag fset \<Rightarrow> (gostring, tag fset) fmap \<times> int \<Rightarrow> (gostring, tag fset) fmap \<times> int" where
  "prune_member tag member acknowledged r =
     (if tag |\<notin>| acknowledged then r else (fmupd member (acknowledged |-| {|tag|}) (fst r), snd r + 1))"

definition prune_tag :: "tag \<Rightarrow> Coordinator \<times> int \<Rightarrow> Coordinator \<times> int" where
  "prune_tag tag r =
     (let (acks, removed) = fold (\<lambda>(member, acknowledged). prune_member tag member acknowledged)
            (fm_items (tc_acknowledgements (fst r))) (tc_acknowledgements (fst r), snd r)
      in ((fst r)\<lparr>tc_acknowledgements := acks, tc_acknowledgementCounts := fmdrop tag (tc_acknowledgementCounts (fst r))\<rparr>, removed))"

definition PruneAcknowledgements :: "Coordinator option \<Rightarrow> gostring \<Rightarrow> u64 \<Rightarrow> tag list \<Rightarrow> Coordinator option \<times> int res" where
  "PruneAcknowledgements c groupID epoch tags = (case c of
      None \<Rightarrow> (None, Inl gc_ErrInvalidMembership)
    | Some c \<Rightarrow> (case validateTombstones tags of
          Inl err \<Rightarrow> (Some c, Inl err)
        | Inr _ \<Rightarrow>
            if groupID \<noteq> tc_groupID c then (Some c, Inl gc_ErrGroupMismatch)
            else if epoch \<noteq> tc_epoch c then (Some c, Inl gc_ErrStaleMembership)
            else if prunesAllAcknowledgementTagsLocked c tags
            then (Some (c\<lparr>tc_acknowledgements := fmempty, tc_acknowledgementCounts := fmempty, tc_acknowledgementEntries := 0\<rparr>),
                  Inr (tc_acknowledgementEntries c))
            else
              (let (c, removed) = fold prune_tag tags (c, 0)
               in (Some (c\<lparr>tc_acknowledgementEntries := tc_acknowledgementEntries c - removed\<rparr>), Inr removed))))"

definition stableTombstonesLocked :: "Coordinator \<Rightarrow> tag list \<Rightarrow> tag list" where
  "stableTombstonesLocked c candidates =
     filter (\<lambda>tag. count_at (tc_acknowledgementCounts c) tag = of_nat (fcard (tc_members c))) candidates"

text \<open>
  \<open>AcknowledgeAndCompactTarget\<close> in its three parts: the candidates, the critical section that acknowledges and selects, and the
  compaction of the target. Other calls can run between them, but no change of membership.
\<close>

definition ack_select :: "Coordinator \<Rightarrow> gostring \<Rightarrow> gostring \<Rightarrow> u64 \<Rightarrow> tag list \<Rightarrow> tag list \<Rightarrow> Coordinator \<times> tag list res" where
  "ack_select c groupID member epoch tombstones candidates = (case acknowledgeLocked c groupID member epoch tombstones of
      (c, Inl err) \<Rightarrow> (c, Inl err)
    | (c, Inr _) \<Rightarrow> (c, Inr (stableTombstonesLocked c candidates)))"

definition compact_target :: "'t TombstoneTarget \<Rightarrow> 't \<Rightarrow> tag list \<Rightarrow> 't \<times> nat res" where
  "compact_target T target tags = (case tt_CompactEligibleTombstones T of
      Some eligible \<Rightarrow> eligible target tags
    | None \<Rightarrow> tt_CompactTombstones T target tags)"

definition AcknowledgeAndCompactTarget ::
    "Coordinator option \<Rightarrow> gostring \<Rightarrow> gostring \<Rightarrow> u64 \<Rightarrow> tag list \<Rightarrow> 't TombstoneTarget \<Rightarrow> 't option \<Rightarrow>
     Coordinator option \<times> 't option \<times> nat res" where
  "AcknowledgeAndCompactTarget c groupID member epoch tombstones T target = (case target of
      None \<Rightarrow> (c, None, Inl gc_ErrNilTarget)
    | Some t \<Rightarrow> (case c of
          None \<Rightarrow> (None, target, Inl gc_ErrInvalidMembership)
        | Some c \<Rightarrow> (case validateTombstones tombstones of
              Inl err \<Rightarrow> (Some c, target, Inl err)
            | Inr _ \<Rightarrow> (case ack_select c groupID member epoch tombstones (tt_TombstoneTags T t) of
                  (c, Inl err) \<Rightarrow> (Some c, target, Inl err)
                | (c, Inr stableTags) \<Rightarrow> (case compact_target T t stableTags of (t, removed) \<Rightarrow> (Some c, Some t, removed))))))"

definition orset_target :: "'e ORSet option TombstoneTarget" where
  "orset_target = \<lparr>tt_TombstoneTags = ORSet_TombstoneTags, tt_CompactTombstones = ORSet_CompactTombstones,
     tt_CompactEligibleTombstones = None\<rparr>"

definition AcknowledgeAndCompact ::
    "Coordinator option \<Rightarrow> gostring \<Rightarrow> gostring \<Rightarrow> u64 \<Rightarrow> tag list \<Rightarrow> 'e ORSet option \<Rightarrow>
     Coordinator option \<times> 'e ORSet option \<times> nat res" where
  "AcknowledgeAndCompact c groupID member epoch tombstones target = (case target of
      None \<Rightarrow> (c, None, Inl set_ErrNilORSet)
    | Some _ \<Rightarrow> (case AcknowledgeAndCompactTarget c groupID member epoch tombstones orset_target (Some target) of
          (c, t, removed) \<Rightarrow> (c, Option.bind t id, removed)))"

definition AcknowledgeSetAndCompact ::
    "Coordinator option \<Rightarrow> gostring \<Rightarrow> gostring \<Rightarrow> u64 \<Rightarrow> 'e ORSet option \<Rightarrow> 'e ORSet option \<Rightarrow>
     Coordinator option \<times> 'e ORSet option \<times> nat res" where
  "AcknowledgeSetAndCompact c groupID member epoch acknowledged target =
     (if acknowledged = None then (c, target, Inl set_ErrNilORSet)
      else AcknowledgeAndCompact c groupID member epoch (ORSet_TombstoneTags acknowledged) target)"

definition NewCoordinatorAtMembership :: "Membership \<Rightarrow> Coordinator res" where
  "NewCoordinatorAtMembership membership =
     (if gm_Epoch membership = 0 then Inl gc_ErrInvalidMembership
      else if gm_GroupID membership = [] then Inl gc_ErrInvalidGroup
      else (case validateMembers (gm_Members membership) of
          Inl err \<Rightarrow> Inl err
        | Inr members \<Rightarrow> Inr \<lparr>tc_groupID = gm_GroupID membership, tc_epoch = gm_Epoch membership, tc_members = members,
                             tc_acknowledgements = fmempty, tc_acknowledgementCounts = fmempty, tc_acknowledgementEntries = 0\<rparr>))"

definition sameMembers :: "gostring fset \<Rightarrow> gostring fset \<Rightarrow> bool" where
  "sameMembers left right \<longleftrightarrow> fcard left = fcard right \<and> list_all (\<lambda>member. member |\<in>| right) (sorted_list_of_fset left)"

definition InstallMembership :: "Coordinator option \<Rightarrow> Membership \<Rightarrow> Coordinator option \<times> unit res" where
  "InstallMembership c membership = (case c of
      None \<Rightarrow> (None, Inl gc_ErrInvalidMembership)
    | Some c \<Rightarrow>
        if gm_Epoch membership = 0 then (Some c, Inl gc_ErrInvalidMembership)
        else (case validateMembers (gm_Members membership) of
            Inl err \<Rightarrow> (Some c, Inl err)
          | Inr members \<Rightarrow>
              if gm_GroupID membership \<noteq> tc_groupID c then (Some c, Inl gc_ErrMembershipGroupMismatch)
              else if gm_Epoch membership < tc_epoch c then (Some c, Inl gc_ErrMembershipRollback)
              else if gm_Epoch membership = tc_epoch c
              then (Some c, if sameMembers (tc_members c) members then Inr () else Inl gc_ErrMembershipRollback)
              else (Some (c\<lparr>tc_epoch := gm_Epoch membership, tc_members := members, tc_acknowledgements := fmempty,
                           tc_acknowledgementCounts := fmempty, tc_acknowledgementEntries := 0\<rparr>), Inr ())))"

section \<open>The local collector\<close>

definition DefaultSimpleMinRetained :: int where
  "DefaultSimpleMinRetained = 256"

definition DefaultSimpleMaxBatch :: int where
  "DefaultSimpleMaxBatch = 64"

definition MaxSimpleBatch :: int where
  "MaxSimpleBatch = 8192"

record SimplePolicy =
  sp_MinRetained :: int
  sp_MaxBatch :: int

definition DefaultSimplePolicy :: SimplePolicy where
  "DefaultSimplePolicy = \<lparr>sp_MinRetained = DefaultSimpleMinRetained, sp_MaxBatch = DefaultSimpleMaxBatch\<rparr>"

record SimpleCollector =
  sc_policy :: SimplePolicy

definition NewSimpleCollector :: "SimplePolicy \<Rightarrow> SimpleCollector res" where
  "NewSimpleCollector policy =
     (if sp_MinRetained policy < 0 \<or> sp_MaxBatch policy \<le> 0 \<or> sp_MaxBatch policy > MaxSimpleBatch then Inl gc_ErrInvalidSimplePolicy
      else Inr \<lparr>sc_policy = policy\<rparr>)"

definition SimpleCollector_Policy :: "SimpleCollector option \<Rightarrow> SimplePolicy" where
  "SimpleCollector_Policy c = (case c of None \<Rightarrow> \<lparr>sp_MinRetained = 0, sp_MaxBatch = 0\<rparr> | Some c \<Rightarrow> sc_policy c)"

text \<open>The loops of \<open>canonicalSimpleTombstones\<close> look at neighbouring tags; the last one drops repetitions of a sorted slice.\<close>

fun neighbours :: "(tag \<Rightarrow> tag \<Rightarrow> bool) \<Rightarrow> tag list \<Rightarrow> bool" where
  "neighbours P (a # b # tags) \<longleftrightarrow> P a b \<or> neighbours P (b # tags)"
| "neighbours P _ \<longleftrightarrow> False"

definition canonicalSimpleTombstones :: "tag list \<Rightarrow> tag list" where
  "canonicalSimpleTombstones tags =
     (let tags = (if neighbours (\<lambda>a b. Tag_Compare a b \<ge> 0) tags then sort tags else tags) in
      if length tags < 2 then tags
      else if neighbours (=) tags
      then fold (\<lambda>tag unique. if last unique \<noteq> tag then unique @ [tag] else unique) (tl tags) [hd tags]
      else tags)"

definition SimpleCollector_Collect :: "SimpleCollector option \<Rightarrow> 't TombstoneTarget \<Rightarrow> 't option \<Rightarrow> 't option \<times> nat res" where
  "SimpleCollector_Collect c T target = (case c of
      None \<Rightarrow> (target, Inl gc_ErrNilSimpleCollector)
    | Some c \<Rightarrow> (case target of
          None \<Rightarrow> (None, Inl gc_ErrNilTarget)
        | Some t \<Rightarrow> (case validateTombstones (tt_TombstoneTags T t) of
              Inl err \<Rightarrow> (target, Inl err)
            | Inr _ \<Rightarrow>
                (let tags = canonicalSimpleTombstones (tt_TombstoneTags T t) in
                 if int (length tags) \<le> sp_MinRetained (sc_policy c) then (target, Inr 0)
                 else
                   (let count = int (length tags) - sp_MinRetained (sc_policy c);
                        count = (if count > sp_MaxBatch (sc_policy c) then sp_MaxBatch (sc_policy c) else count)
                    in map_prod Some id (compact_target T t (take (nat count) tags)))))))"

section \<open>The relation a coordinator keeps\<close>

definition acked :: "Coordinator \<Rightarrow> (gostring \<times> tag) set" where
  "acked c = {(member, tag). tag |\<in>| acks_of (tc_acknowledgements c) member}"

definition ackers :: "(gostring \<times> tag) set \<Rightarrow> tag \<Rightarrow> gostring set" where
  "ackers R tag = {member. (member, tag) \<in> R}"

text \<open>The counts and the number of entries are those of the relation, and only members acknowledge.\<close>

definition tc_table :: "Coordinator \<Rightarrow> bool" where
  "tc_table c \<longleftrightarrow> tc_members c \<noteq> {||} \<and> int (fcard (tc_members c)) \<le> max_int \<and>
     fmdom (tc_acknowledgements c) |\<subseteq>| tc_members c \<and>
     (\<forall>tag. fmlookup (tc_acknowledgementCounts c) tag =
        (if ackers (acked c) tag = {} then None else Some (of_nat (card (ackers (acked c) tag)))))"

definition tc_inv :: "Coordinator \<Rightarrow> bool" where
  "tc_inv c \<longleftrightarrow> tc_table c \<and> tc_acknowledgementEntries c = int (card (acked c))"

lemma acks_of_fmupd [simp]: "acks_of (fmupd m S A) x = (if x = m then S else acks_of A x)"
  by (simp add: acks_of_def)

lemma acks_of_fmempty [simp]: "acks_of fmempty x = {||}"
  by (simp add: acks_of_def)

lemma acked_members: "fmdom (tc_acknowledgements c) |\<subseteq>| M \<Longrightarrow> (m, t) \<in> acked c \<Longrightarrow> m |\<in>| M"
  by (auto simp: acked_def acks_of_def fmlookup_dom_iff split: option.splits)

lemma finite_acked: "finite (acked c)"
proof -
  have "acked c \<subseteq> (\<Union>m \<in> fset (fmdom (tc_acknowledgements c)). Pair m ` fset (acks_of (tc_acknowledgements c) m))"
    using acked_members[of c "fmdom (tc_acknowledgements c)"] by (auto simp: acked_def)
  then show ?thesis by (rule finite_subset) simp
qed

lemma finite_ackers: "finite R \<Longrightarrow> finite (ackers R t)"
  by (rule finite_subset[of _ "fst ` R"]) (force simp: ackers_def)+

lemma tc_table_fields:
  assumes "tc_table c"
  shows "tc_members c \<noteq> {||}" "int (fcard (tc_members c)) \<le> max_int" "fmdom (tc_acknowledgements c) |\<subseteq>| tc_members c"
    "fmlookup (tc_acknowledgementCounts c) tag = (if ackers (acked c) tag = {} then None else Some (of_nat (card (ackers (acked c) tag))))"
  using assms by (simp_all add: tc_table_def)

lemma tc_inv_table: "tc_inv c \<Longrightarrow> tc_table c" "tc_inv c \<Longrightarrow> tc_acknowledgementEntries c = int (card (acked c))"
  by (simp_all add: tc_inv_def)

lemmas tc_inv_fields = tc_table_fields[OF tc_inv_table(1)] tc_inv_table(2)

lemma ackers_subset: "tc_inv c \<Longrightarrow> ackers (acked c) t \<subseteq> fset (tc_members c)"
  using acked_members tc_inv_fields(3) by (fastforce simp: ackers_def)

text \<open>One acknowledgement adds one pair.\<close>

lemma ack_tag_spec:
  assumes "tc_inv c" and "m |\<in>| tc_members c"
  shows "tc_inv (ack_tag m t c) \<and> acked (ack_tag m t c) = insert (m, t) (acked c) \<and> tc_members (ack_tag m t c) = tc_members c \<and>
    tc_groupID (ack_tag m t c) = tc_groupID c \<and> tc_epoch (ack_tag m t c) = tc_epoch c"
proof (cases "(m, t) \<in> acked c")
  case True
  then have "ack_tag m t c = c" by (simp add: ack_tag_def acked_def)
  with True assms show ?thesis by (simp add: insert_absorb)
next
  case new: False
  let ?c = "ack_tag m t c"
  have eq: "?c = c\<lparr>tc_acknowledgements := fmupd m (finsert t (acks_of (tc_acknowledgements c) m)) (tc_acknowledgements c),
      tc_acknowledgementCounts := fmupd t (count_at (tc_acknowledgementCounts c) t + 1) (tc_acknowledgementCounts c),
      tc_acknowledgementEntries := tc_acknowledgementEntries c + 1\<rparr>"
    using new by (simp add: ack_tag_def acked_def)
  have rel: "acked ?c = insert (m, t) (acked c)" unfolding eq by (auto simp: acked_def split: if_splits)
  have ak: "ackers (acked ?c) u = (if u = t then insert m (ackers (acked c) u) else ackers (acked c) u)" for u
    unfolding rel by (auto simp: ackers_def)
  have "m \<notin> ackers (acked c) t" using new by (simp add: ackers_def)
  then have "card (insert m (ackers (acked c) t)) = Suc (card (ackers (acked c) t))"
    using finite_ackers[OF finite_acked] by simp
  moreover have "count_at (tc_acknowledgementCounts c) t = of_nat (card (ackers (acked c) t))"
    using tc_inv_fields(4)[OF assms(1), of t] by (simp add: count_at_def)
  ultimately have "fmlookup (tc_acknowledgementCounts ?c) u =
      (if ackers (acked ?c) u = {} then None else Some (of_nat (card (ackers (acked ?c) u))))" for u
    unfolding ak using tc_inv_fields(4)[OF assms(1), of u] by (cases "u = t") (simp_all add: eq)
  moreover have "card (acked ?c) = Suc (card (acked c))" unfolding rel using new finite_acked by simp
  moreover have "fmdom (tc_acknowledgements ?c) |\<subseteq>| tc_members c" using tc_inv_fields(3)[OF assms(1)] assms(2) by (simp add: eq)
  ultimately have "tc_inv ?c" unfolding tc_inv_def tc_table_def using tc_inv_fields[OF assms(1)] by (simp add: eq)
  with rel show ?thesis by (simp add: eq)
qed

lemma ack_tags_spec:
  "tc_inv c \<Longrightarrow> m |\<in>| tc_members c \<Longrightarrow> tc_inv (fold (ack_tag m) ts c) \<and> acked (fold (ack_tag m) ts c) = acked c \<union> Pair m ` set ts \<and>
   tc_members (fold (ack_tag m) ts c) = tc_members c \<and> tc_groupID (fold (ack_tag m) ts c) = tc_groupID c \<and>
   tc_epoch (fold (ack_tag m) ts c) = tc_epoch c"
proof (induction ts arbitrary: c)
  case (Cons t ts)
  show ?case using Cons.IH[of "ack_tag m t c"] ack_tag_spec[OF Cons.prems, of t] Cons.prems by auto
qed simp

lemma acknowledgeLocked_spec:
  assumes "tc_inv c"
  shows "if g = tc_groupID c \<and> e = tc_epoch c \<and> m |\<in>| tc_members c
    then \<exists>c'. acknowledgeLocked c g m e ts = (c', Inr ()) \<and> tc_inv c' \<and> acked c' = acked c \<union> Pair m ` set ts \<and>
      tc_members c' = tc_members c \<and> tc_groupID c' = tc_groupID c \<and> tc_epoch c' = tc_epoch c
    else \<exists>err. acknowledgeLocked c g m e ts = (c, Inl err)"
proof (cases "g = tc_groupID c \<and> e = tc_epoch c \<and> m |\<in>| tc_members c")
  case True
  define d where "d = (if fmlookup (tc_acknowledgements c) m = None
    then c\<lparr>tc_acknowledgements := fmupd m {||} (tc_acknowledgements c)\<rparr> else c)"
  have "acked d = acked c" by (auto simp: d_def acked_def acks_of_def split: if_splits)
  then have "tc_inv d" using assms True by (auto simp: tc_inv_def tc_table_def d_def)
  moreover have "tc_members d = tc_members c" "tc_groupID d = tc_groupID c" "tc_epoch d = tc_epoch c" by (simp_all add: d_def)
  moreover have "acknowledgeLocked c g m e ts = (fold (ack_tag m) ts d, Inr ())"
    using True by (simp add: acknowledgeLocked_def Let_def d_def)
  ultimately show ?thesis using True ack_tags_spec[of d m ts] \<open>acked d = acked c\<close> by simp
qed (auto simp: acknowledgeLocked_def)

text \<open>A candidate is selected exactly if every member acknowledged it.\<close>

lemma stable_iff:
  assumes "tc_inv c"
  shows "stableTombstonesLocked c cs = filter (\<lambda>t. \<forall>m. m |\<in>| tc_members c \<longrightarrow> (m, t) \<in> acked c) cs"
proof -
  have "count_at (tc_acknowledgementCounts c) t = of_nat (fcard (tc_members c)) \<longleftrightarrow> (\<forall>m. m |\<in>| tc_members c \<longrightarrow> (m, t) \<in> acked c)" for t
  proof -
    have sub: "ackers (acked c) t \<subseteq> fset (tc_members c)" by (rule ackers_subset[OF assms])
    then have le: "card (ackers (acked c) t) \<le> fcard (tc_members c)" by (simp add: fcard.rep_eq card_mono)
    have bound: "fcard (tc_members c) < 2 ^ 64" using tc_inv_fields(2)[OF assms] by simp
    have "count_at (tc_acknowledgementCounts c) t = of_nat (card (ackers (acked c) t))"
      using tc_inv_fields(4)[OF assms, of t] by (simp add: count_at_def)
    then have "count_at (tc_acknowledgementCounts c) t = of_nat (fcard (tc_members c)) \<longleftrightarrow> card (ackers (acked c) t) = fcard (tc_members c)"
      using le bound by (auto simp: of_nat_eq_iff word_of_nat_eq_iff take_bit_nat_eq_self)
    also have "\<dots> \<longleftrightarrow> ackers (acked c) t = fset (tc_members c)"
      using sub card_subset_eq[OF finite_fset sub] by (auto simp: fcard.rep_eq)
    also have "\<dots> \<longleftrightarrow> (\<forall>m. m |\<in>| tc_members c \<longrightarrow> (m, t) \<in> acked c)" using sub by (auto simp: ackers_def)
    finally show ?thesis .
  qed
  then show ?thesis by (simp add: stableTombstonesLocked_def)
qed

text \<open>Pruning removes the pairs of the tags, and counts them.\<close>

lemma prune_members_loop:
  assumes "distinct (map fst xs)" and "\<And>m S. (m, S) \<in> set xs \<Longrightarrow> acks_of A m = S"
  shows "acks_of (fst (fold (\<lambda>(m, S). prune_member t m S) xs (A, n))) x = (if x \<in> fst ` set xs then acks_of A x |-| {|t|} else acks_of A x) \<and>
    snd (fold (\<lambda>(m, S). prune_member t m S) xs (A, n)) = n + int (card {m \<in> fst ` set xs. t |\<in>| acks_of A m}) \<and>
    (fset (fmdom (fst (fold (\<lambda>(m, S). prune_member t m S) xs (A, n)))) \<subseteq> fset (fmdom A) \<union> fst ` set xs)"
  using assms
proof (induction xs arbitrary: A n)
  case (Cons p xs)
  obtain m S where p: "p = (m, S)" by fastforce
  have S: "S = acks_of A m" using Cons.prems(2)[of m S] p by simp
  have fresh: "m \<notin> fst ` set xs" "distinct (map fst xs)" using Cons.prems(1) p by auto
  have others: "(k, R) \<in> set xs \<Longrightarrow> acks_of A k = R \<and> k \<noteq> m" for k R using Cons.prems(2)[of k R] fresh(1) by force
  define A' where "A' = (if t |\<in>| S then fmupd m (S |-| {|t|}) A else A)"
  define n' where "n' = (if t |\<in>| S then n + 1 else n)"
  have step: "prune_member t m S (A, n) = (A', n')" by (simp add: prune_member_def A'_def n'_def)
  have A': "acks_of A' k = (if k = m then acks_of A k |-| {|t|} else acks_of A k)" for k by (auto simp: A'_def S)
  have "{k \<in> fst ` set xs. t |\<in>| acks_of A' k} = {k \<in> fst ` set xs. t |\<in>| acks_of A k}" using fresh(1) by (auto simp: A')
  moreover have "{k \<in> fst ` set (p # xs). t |\<in>| acks_of A k} =
      (if t |\<in>| S then insert m {k \<in> fst ` set xs. t |\<in>| acks_of A k} else {k \<in> fst ` set xs. t |\<in>| acks_of A k})"
    by (auto simp: p S)
  moreover have "m \<notin> {k \<in> fst ` set xs. t |\<in>| acks_of A k}" "finite {k \<in> fst ` set xs. t |\<in>| acks_of A k}" using fresh(1) by auto
  ultimately have "n' + int (card {k \<in> fst ` set xs. t |\<in>| acks_of A' k}) = n + int (card {k \<in> fst ` set (p # xs). t |\<in>| acks_of A k})"
    by (simp add: n'_def)
  moreover have "fset (fmdom A') \<subseteq> insert m (fset (fmdom A))" by (auto simp: A'_def)
  moreover have "acks_of A' k = R" if "(k, R) \<in> set xs" for k R using others[OF that] by (simp add: A')
  note Cons.IH[OF fresh(2) this, of n']
  ultimately show ?case using step fresh(1) by (auto simp: p A')
qed simp

lemma prune_tag_spec:
  assumes "tc_table c"
  obtains c' where "prune_tag t (c, n) = (c', n + int (card (ackers (acked c) t)))" "acked c' = {x \<in> acked c. snd x \<noteq> t}"
    "tc_table c'" "tc_members c' = tc_members c" "tc_groupID c' = tc_groupID c"
    "tc_epoch c' = tc_epoch c" "tc_acknowledgementEntries c' = tc_acknowledgementEntries c"
proof -
  let ?A = "tc_acknowledgements c"
  obtain A' n' where f: "fold (\<lambda>(m, S). prune_member t m S) (fm_items ?A) (?A, n) = (A', n')" by fastforce
  have items: "acks_of ?A m = S" if "(m, S) \<in> set (fm_items ?A)" for m S using that by (simp add: acks_of_def)
  have loop: "acks_of A' x = (if x |\<in>| fmdom ?A then acks_of ?A x |-| {|t|} else acks_of ?A x) \<and>
      n' = n + int (card {m. m |\<in>| fmdom ?A \<and> t |\<in>| acks_of ?A m}) \<and> fset (fmdom A') \<subseteq> fset (fmdom ?A)" for x
    using prune_members_loop[of "fm_items ?A" ?A t n x] items distinct_fst_items f by simp
  have none: "x |\<notin>| fmdom ?A \<Longrightarrow> acks_of ?A x = {||}" for x by (simp add: acks_of_def fmdom_notD)
  have A': "acks_of A' x = acks_of ?A x |-| {|t|}" for x using loop[of x] none[of x] by auto
  have "{m. m |\<in>| fmdom ?A \<and> t |\<in>| acks_of ?A m} = ackers (acked c) t" using none by (fastforce simp: ackers_def acked_def)
  then have n': "n' = n + int (card (ackers (acked c) t))" using loop by simp
  define c' where "c' = c\<lparr>tc_acknowledgements := A', tc_acknowledgementCounts := fmdrop t (tc_acknowledgementCounts c)\<rparr>"
  have run: "prune_tag t (c, n) = (c', n + int (card (ackers (acked c) t)))" by (simp add: prune_tag_def f c'_def n')
  have rel: "acked c' = {x \<in> acked c. snd x \<noteq> t}" by (auto simp: acked_def c'_def A')
  have "ackers (acked c') u = (if u = t then {} else ackers (acked c) u)" for u by (auto simp: rel ackers_def)
  then have "fmlookup (tc_acknowledgementCounts c') u = (if ackers (acked c') u = {} then None else Some (of_nat (card (ackers (acked c') u))))" for u
    using tc_table_fields(4)[OF assms, of u] by (simp add: c'_def)
  moreover have "fmdom A' |\<subseteq>| tc_members c" using loop tc_table_fields(3)[OF assms] by (fastforce simp: less_eq_fset.rep_eq)
  ultimately have "tc_table c'" unfolding tc_table_def using tc_table_fields[OF assms] by (simp add: c'_def)
  then show thesis by (intro that[OF run rel]) (simp_all add: c'_def)
qed

lemma card_ackers: "card (ackers R t) = card {x \<in> R. snd x = t}"
proof -
  have "{x \<in> R. snd x = t} = (\<lambda>m. (m, t)) ` ackers R t" by (auto simp: ackers_def)
  then show ?thesis by (simp add: card_image inj_on_def)
qed

lemma prune_tags_spec:
  assumes "tc_table c"
  shows "\<exists>c'. fold prune_tag ts (c, n) = (c', n + int (card {x \<in> acked c. snd x \<in> set ts})) \<and>
    acked c' = {x \<in> acked c. snd x \<notin> set ts} \<and> tc_table c' \<and> tc_members c' = tc_members c \<and> tc_groupID c' = tc_groupID c \<and>
    tc_epoch c' = tc_epoch c \<and> tc_acknowledgementEntries c' = tc_acknowledgementEntries c"
  using assms
proof (induction ts arbitrary: c n)
  case (Cons t ts)
  from Cons.prems obtain d where d: "prune_tag t (c, n) = (d, n + int (card (ackers (acked c) t)))" "acked d = {x \<in> acked c. snd x \<noteq> t}"
    "tc_table d" "tc_members d = tc_members c" "tc_groupID d = tc_groupID c" "tc_epoch d = tc_epoch c"
    "tc_acknowledgementEntries d = tc_acknowledgementEntries c"
    by (rule prune_tag_spec)
  have split: "{x \<in> acked c. snd x \<in> set (t # ts)} = {x \<in> acked c. snd x = t} \<union> {x \<in> acked d. snd x \<in> set ts}"
    by (auto simp: d(2))
  have "card ({x \<in> acked c. snd x = t} \<union> {x \<in> acked d. snd x \<in> set ts}) = card {x \<in> acked c. snd x = t} + card {x \<in> acked d. snd x \<in> set ts}"
    by (rule card_Un_disjoint) (auto simp: d(2) finite_acked)
  then have "card {x \<in> acked c. snd x \<in> set (t # ts)} = card (ackers (acked c) t) + card {x \<in> acked d. snd x \<in> set ts}"
    unfolding split by (simp add: card_ackers)
  moreover have "{x \<in> acked d. snd x \<notin> set ts} = {x \<in> acked c. snd x \<notin> set (t # ts)}" by (auto simp: d(2))
  ultimately show ?case using Cons.IH[OF d(3), of "n + int (card (ackers (acked c) t))"] d(1,4-7) by (simp add: add.assoc)
qed simp

text \<open>The fast path that discards the whole table is taken only when that is what the loops would do.\<close>

lemma counts_dom: "tc_table c \<Longrightarrow> t |\<in>| fmdom (tc_acknowledgementCounts c) \<longleftrightarrow> t \<in> snd ` acked c"
  using tc_table_fields(4)[of c t] by (force simp: fmlookup_dom_iff ackers_def split: if_splits)

lemma counts_size: "tc_table c \<Longrightarrow> fm_size (tc_acknowledgementCounts c) = card (snd ` acked c)"
proof -
  assume "tc_table c"
  then have "fset (fmdom (tc_acknowledgementCounts c)) = snd ` acked c" using counts_dom by blast
  then show ?thesis by (simp add: fm_size_def fcard.rep_eq)
qed

lemma prunes_all:
  assumes "tc_table c" and "prunesAllAcknowledgementTagsLocked c ts"
  shows "set ts = snd ` acked c"
proof (rule card_subset_eq)
  show "finite (snd ` acked c)" by (simp add: finite_acked)
  show "set ts \<subseteq> snd ` acked c"
    using assms by (auto simp: prunesAllAcknowledgementTagsLocked_def list_all_iff counts_dom)
  have "fold finsert ts {||} = fset_of_list ts" by (simp add: fold_finsert_list)
  then show "card (set ts) = card (snd ` acked c)"
    using assms by (simp add: prunesAllAcknowledgementTagsLocked_def counts_size fcard.rep_eq fset_of_list.rep_eq)
qed

section \<open>The abstract coordinator\<close>

record gc_spec =
  gs_group :: gostring
  gs_epoch :: u64
  gs_members :: "gostring set"
  gs_acked :: "(gostring \<times> tag) set"

definition gc_abs :: "Coordinator \<Rightarrow> gc_spec" where
  "gc_abs c = \<lparr>gs_group = tc_groupID c, gs_epoch = tc_epoch c, gs_members = fset (tc_members c), gs_acked = acked c\<rparr>"

definition spec_acknowledge :: "gc_spec \<Rightarrow> gostring \<Rightarrow> gostring \<Rightarrow> u64 \<Rightarrow> tag list \<Rightarrow> gc_spec \<times> unit res" where
  "spec_acknowledge s g m e ts =
     (if \<not> list_all Tag_Valid ts then (s, Inl gc_ErrInvalidTag)
      else if g \<noteq> gs_group s then (s, Inl gc_ErrGroupMismatch)
      else if e \<noteq> gs_epoch s then (s, Inl gc_ErrStaleMembership)
      else if m \<notin> gs_members s then (s, Inl gc_ErrUnknownMember)
      else (s\<lparr>gs_acked := gs_acked s \<union> Pair m ` set ts\<rparr>, Inr ()))"

definition spec_prune :: "gc_spec \<Rightarrow> gostring \<Rightarrow> u64 \<Rightarrow> tag list \<Rightarrow> gc_spec \<times> int res" where
  "spec_prune s g e ts =
     (if \<not> list_all Tag_Valid ts then (s, Inl gc_ErrInvalidTag)
      else if g \<noteq> gs_group s then (s, Inl gc_ErrGroupMismatch)
      else if e \<noteq> gs_epoch s then (s, Inl gc_ErrStaleMembership)
      else (s\<lparr>gs_acked := {x \<in> gs_acked s. snd x \<notin> set ts}\<rparr>, Inr (int (card {x \<in> gs_acked s. snd x \<in> set ts}))))"

text \<open>A new view forgets every acknowledgement.\<close>

definition valid_members :: "gostring list \<Rightarrow> bool" where
  "valid_members ms \<longleftrightarrow> ms \<noteq> [] \<and> distinct ms \<and> (\<forall>m \<in> set ms. \<not> blank m)"

definition spec_install :: "gc_spec \<Rightarrow> Membership \<Rightarrow> gc_spec \<times> unit res" where
  "spec_install s v =
     (if gm_Epoch v = 0 \<or> \<not> valid_members (gm_Members v) then (s, Inl gc_ErrInvalidMembership)
      else if gm_GroupID v \<noteq> gs_group s then (s, Inl gc_ErrMembershipGroupMismatch)
      else if gm_Epoch v < gs_epoch s \<or> gm_Epoch v = gs_epoch s \<and> set (gm_Members v) \<noteq> gs_members s
      then (s, Inl gc_ErrMembershipRollback)
      else if gm_Epoch v = gs_epoch s then (s, Inr ())
      else (s\<lparr>gs_epoch := gm_Epoch v, gs_members := set (gm_Members v), gs_acked := {}\<rparr>, Inr ()))"

definition spec_replace :: "gc_spec \<Rightarrow> gostring list \<Rightarrow> gc_spec \<times> Membership res" where
  "spec_replace s ms =
     (if \<not> valid_members ms \<or> gs_epoch s = max_u64 then (s, Inl gc_ErrInvalidMembership)
      else (s\<lparr>gs_epoch := gs_epoch s + 1, gs_members := set ms, gs_acked := {}\<rparr>,
            Inr \<lparr>gm_GroupID = gs_group s, gm_Epoch = gs_epoch s + 1, gm_Members = sort ms\<rparr>))"

definition refines :: "Coordinator \<Rightarrow> Coordinator option \<times> 'r res \<Rightarrow> gc_spec \<times> 'r res \<Rightarrow> bool" where
  "refines c out spec \<longleftrightarrow> safe_call tc_inv c out \<and> map_prod (map_option gc_abs) id out = map_prod Some id spec"

lemma Acknowledge_refines: "tc_inv c \<Longrightarrow> refines c (Coordinator_Acknowledge (Some c) g m e ts) (spec_acknowledge (gc_abs c) g m e ts)"
  using acknowledgeLocked_spec[of c g e m ts]
  by (auto simp: refines_def Coordinator_Acknowledge_def validateTombstones_def spec_acknowledge_def gc_abs_def split: if_splits)
     (auto simp: acknowledgeLocked_def)

lemma Prune_refines: 
  assumes "tc_inv c"
  shows "refines c (PruneAcknowledgements (Some c) g e ts) (spec_prune (gc_abs c) g e ts)"
proof (cases "list_all Tag_Valid ts \<and> g = tc_groupID c \<and> e = tc_epoch c")
  case ok: True
  have table: "tc_table c" using assms by (rule tc_inv_table)
  show ?thesis
  proof (cases "prunesAllAcknowledgementTagsLocked c ts")
    case True
    define c' where "c' = c\<lparr>tc_acknowledgements := fmempty, tc_acknowledgementCounts := fmempty, tc_acknowledgementEntries := 0\<rparr>"
    have all: "{x \<in> acked c. snd x \<notin> set ts} = {}" "{x \<in> acked c. snd x \<in> set ts} = acked c"
      using prunes_all[OF table True] by auto
    have e: "acked c' = {}" by (simp add: acked_def c'_def)
    have "tc_inv c'" using tc_inv_fields[OF assms] e by (simp add: tc_inv_def tc_table_def c'_def ackers_def)
    moreover have "PruneAcknowledgements (Some c) g e ts = (Some c', Inr (tc_acknowledgementEntries c))"
      using ok True by (simp add: PruneAcknowledgements_def validateTombstones_def c'_def)
    moreover have "gc_abs c' = (gc_abs c)\<lparr>gs_acked := {}\<rparr>" by (simp add: gc_abs_def e) (simp add: c'_def)
    ultimately show ?thesis
      using ok tc_inv_fields(5)[OF assms] all by (simp add: refines_def spec_prune_def) (simp add: gc_abs_def)
  next
    case False
    obtain d where d: "fold prune_tag ts (c, 0) = (d, int (card {x \<in> acked c. snd x \<in> set ts}))" "acked d = {x \<in> acked c. snd x \<notin> set ts}"
      "tc_table d" "tc_members d = tc_members c" "tc_groupID d = tc_groupID c" "tc_epoch d = tc_epoch c"
      "tc_acknowledgementEntries d = tc_acknowledgementEntries c"
      using prune_tags_spec[OF table, of ts 0] by auto
    have "acked c = {x \<in> acked c. snd x \<in> set ts} \<union> acked d" by (auto simp: d(2))
    then have "card (acked c) = card {x \<in> acked c. snd x \<in> set ts} + card (acked d)"
      using card_Un_disjoint[of "{x \<in> acked c. snd x \<in> set ts}" "acked d"] finite_acked by (simp add: d(2) disjoint_iff)
    then have n: "tc_acknowledgementEntries d - int (card {x \<in> acked c. snd x \<in> set ts}) = int (card (acked d))"
      using d(7) tc_inv_fields(5)[OF assms] by simp
    define c' where "c' = d\<lparr>tc_acknowledgementEntries := int (card (acked d))\<rparr>"
    have e: "acked c' = acked d" by (simp add: acked_def c'_def)
    have "tc_inv c'" using d(3) e by (simp add: tc_inv_def tc_table_def c'_def)
    moreover have "PruneAcknowledgements (Some c) g e ts = (Some c', Inr (int (card {x \<in> acked c. snd x \<in> set ts})))"
      using ok False d(1) n by (simp add: PruneAcknowledgements_def validateTombstones_def c'_def)
    moreover have "gc_abs c' = (gc_abs c)\<lparr>gs_acked := acked d\<rparr>" using d by (simp add: gc_abs_def e) (simp add: c'_def)
    ultimately show ?thesis using ok d(2) by (simp add: refines_def spec_prune_def) (simp add: gc_abs_def)
  qed
qed (use assms in \<open>auto simp: refines_def PruneAcknowledgements_def validateTombstones_def spec_prune_def gc_abs_def\<close>)

lemma members_loop_iff:
  "members_loop ms S = (if distinct ms \<and> (\<forall>m \<in> set ms. \<not> blank m \<and> m |\<notin>| S) then Inr (fset_of_list ms |\<union>| S) else Inl gc_ErrInvalidMembership)"
  by (induction ms arbitrary: S) auto

lemma validateMembers_iff: "validateMembers ms = (if valid_members ms then Inr (fset_of_list ms) else Inl gc_ErrInvalidMembership)"
  by (auto simp: validateMembers_def valid_members_def members_loop_iff)

lemma fresh_inv:
  assumes "valid_members ms" and "int (length ms) \<le> max_int" and "tc_members c = fset_of_list ms" and "tc_acknowledgements c = fmempty"
    and "tc_acknowledgementCounts c = fmempty" and "tc_acknowledgementEntries c = 0"
  shows "tc_inv c" "acked c = {}"
proof -
  show e: "acked c = {}" by (simp add: acked_def assms)
  have "fcard (fset_of_list ms) = length ms" using assms(1) by (simp add: fcard.rep_eq fset_of_list.rep_eq valid_members_def distinct_card)
  moreover have "fset_of_list ms \<noteq> {||}" using assms(1) by (cases ms) (auto simp: valid_members_def)
  ultimately show "tc_inv c" using assms by (simp add: tc_inv_def tc_table_def e ackers_def)
qed

lemma sameMembers_iff: "sameMembers A B \<longleftrightarrow> A = B"
proof
  assume s: "sameMembers A B"
  then have "fset A = fset B" by (intro card_subset_eq) (auto simp: sameMembers_def list_all_iff fcard.rep_eq)
  then show "A = B" by (simp add: fset_inject)
qed (simp add: sameMembers_def list_all_iff)

lemma sortedMembers_eq: "distinct ms \<Longrightarrow> sortedMembers (fset_of_list ms) = sort ms"
  by (simp add: sortedMembers_def sorted_list_of_fset.rep_eq fset_of_list.rep_eq sorted_list_of_set_sort_remdups distinct_remdups_id sorted_sort_id)

lemma Install_refines: 
  assumes "tc_inv c" and "int (length (gm_Members v)) \<le> max_int"
  shows "refines c (InstallMembership (Some c) v) (spec_install (gc_abs c) v)"
proof -
  have "fset_of_list (gm_Members v) = tc_members c \<longleftrightarrow> set (gm_Members v) = fset (tc_members c)"
    by (metis fset_inject fset_of_list.rep_eq)
  then show ?thesis
    using assms fresh_inv[OF _ assms(2), of "c\<lparr>tc_epoch := gm_Epoch v, tc_members := fset_of_list (gm_Members v), tc_acknowledgements := fmempty,
      tc_acknowledgementCounts := fmempty, tc_acknowledgementEntries := 0\<rparr>"]
    by (auto simp: refines_def InstallMembership_def spec_install_def validateMembers_iff sameMembers_iff gc_abs_def fset_of_list.rep_eq)
qed

lemma Replace_refines: 
  assumes "tc_inv c" and "int (length ms) \<le> max_int"
  shows "refines c (ReplaceMembership (Some c) ms) (spec_replace (gc_abs c) ms)"
  using assms fresh_inv[OF _ assms(2), of "c\<lparr>tc_epoch := tc_epoch c + 1, tc_members := fset_of_list ms, tc_acknowledgements := fmempty,
      tc_acknowledgementCounts := fmempty, tc_acknowledgementEntries := 0\<rparr>"]
  by (auto simp: refines_def ReplaceMembership_def spec_replace_def validateMembers_iff gc_abs_def fset_of_list.rep_eq sortedMembers_eq valid_members_def)

section \<open>Targets\<close>

text \<open>
  What a collector relies on: the tags are the sorted enumeration of the tombstones, and a compaction of tombstones removes only what it was
  given and keeps the rest of the target.
\<close>

locale tombstone_target =
  fixes T :: "'t TombstoneTarget" and inv :: "'t \<Rightarrow> bool" and tombs :: "'t \<Rightarrow> tag fset" and rest :: "'t \<Rightarrow> 'r"
  assumes tags: "inv t \<Longrightarrow> tt_TombstoneTags T t = sorted_list_of_fset (tombs t) \<and> list_all Tag_Valid (tt_TombstoneTags T t)"
    and compact: "inv t \<Longrightarrow> set ts \<subseteq> fset (tombs t) \<Longrightarrow> \<exists>t' gone. compact_target T t ts = (t', Inr (fcard gone)) \<and> inv t' \<and>
      gone |\<subseteq>| fset_of_list ts \<and> gone |\<subseteq>| tombs t \<and> tombs t' = tombs t |-| gone \<and> rest t' = rest t"
begin

lemma collect_cases:
  assumes "tc_inv c" and "inv t"
  obtains (error) err where "AcknowledgeAndCompactTarget (Some c) g m e ts T (Some t) = (Some c, Some t, Inl err)"
      "Coordinator_Acknowledge (Some c) g m e ts = (Some c, Inl err)"
  | (ok) c' t' gone where "AcknowledgeAndCompactTarget (Some c) g m e ts T (Some t) = (Some c', Some t', Inr (fcard gone))"
      "Coordinator_Acknowledge (Some c) g m e ts = (Some c', Inr ())" "tc_inv c'" "tc_members c' = tc_members c"
      "inv t'" "rest t' = rest t" "gone |\<subseteq>| tombs t" "tombs t' = tombs t |-| gone"
      "\<And>tag k. tag |\<in>| gone \<Longrightarrow> k |\<in>| tc_members c \<Longrightarrow> (k, tag) \<in> acked c'"
proof (cases "list_all Tag_Valid ts \<and> g = tc_groupID c \<and> e = tc_epoch c \<and> m |\<in>| tc_members c")
  case False
  then show thesis
    using acknowledgeLocked_spec[OF assms(1), of g e m ts] that(1)
    by (fastforce simp: AcknowledgeAndCompactTarget_def Coordinator_Acknowledge_def validateTombstones_def ack_select_def split: if_splits)
next
  case True
  obtain c' where c': "acknowledgeLocked c g m e ts = (c', Inr ())" "tc_inv c'" "tc_members c' = tc_members c"
    using True acknowledgeLocked_spec[OF assms(1), of g e m ts] by auto
  let ?S = "filter (\<lambda>tag. \<forall>k. k |\<in>| tc_members c \<longrightarrow> (k, tag) \<in> acked c') (tt_TombstoneTags T t)"
  have S: "stableTombstonesLocked c' (tt_TombstoneTags T t) = ?S" using stable_iff[OF c'(2)] c'(3) by simp
  have "set ?S \<subseteq> fset (tombs t)" using tags[OF assms(2)] by auto
  from compact[OF assms(2) this] obtain t' gone where g: "compact_target T t ?S = (t', Inr (fcard gone))" "inv t'"
    "gone |\<subseteq>| fset_of_list ?S" "gone |\<subseteq>| tombs t" "tombs t' = tombs t |-| gone" "rest t' = rest t" by blast
  from g(3) have "tag |\<in>| gone \<Longrightarrow> k |\<in>| tc_members c \<Longrightarrow> (k, tag) \<in> acked c'" for tag k
    by (auto simp: less_eq_fset.rep_eq fset_of_list.rep_eq)
  then show thesis
    using True c' S g by (intro that(2)[of c' t' gone])
      (simp_all add: AcknowledgeAndCompactTarget_def Coordinator_Acknowledge_def validateTombstones_def ack_select_def)
qed

end

lemma fold_unique:
  "acc \<noteq> [] \<Longrightarrow> fold (\<lambda>tag unique. if last unique \<noteq> tag then unique @ [tag] else unique) xs acc = butlast acc @ remdups_adj (last acc # xs)"
proof (induction xs arbitrary: acc)
  case (Cons x xs)
  show ?case
  proof (cases "last acc = x")
    case True
    with Cons show ?thesis by (simp add: Cons.IH)
  next
    case False
    have "acc @ remdups_adj (x # xs) = butlast acc @ last acc # remdups_adj (x # xs)" using Cons.prems by (metis append.assoc append_Cons append_butlast_last_id self_append_conv2)
    with False Cons.IH[of "acc @ [x]"] show ?thesis by simp
  qed
qed simp

lemma neighbours_less: "\<not> neighbours (\<lambda>a b. Tag_Compare a b \<ge> 0) tags \<longleftrightarrow> sorted_wrt (<) tags"
  by (induction "\<lambda>a b. Tag_Compare a b \<ge> 0" tags rule: neighbours.induct) (auto simp: not_le dest: less_trans)

lemma neighbours_eq: "sorted tags \<Longrightarrow> \<not> neighbours (=) tags \<Longrightarrow> sorted_wrt (<) tags"
  by (induction "(=) :: tag \<Rightarrow> tag \<Rightarrow> bool" tags rule: neighbours.induct) auto

lemma sorted_remdups_adj: "sorted tags \<Longrightarrow> sorted_wrt (<) (remdups_adj tags)"
  by (induction tags rule: remdups_adj.induct) (auto simp: less_le)

text \<open>Whatever order and repetitions a target returns, the collector works on the ascending enumeration of the tags.\<close>

lemma canonical_eq: "canonicalSimpleTombstones tags = sorted_list_of_fset (fset_of_list tags)"
proof -
  let ?t = "if neighbours (\<lambda>a b. Tag_Compare a b \<ge> 0) tags then sort tags else tags"
  have s: "sorted ?t" "set ?t = set tags" using neighbours_less[of tags] strict_sorted_iff by auto
  have "sorted_wrt (<) (canonicalSimpleTombstones tags) \<and> set (canonicalSimpleTombstones tags) = set tags"
  proof (cases "neighbours (=) ?t")
    case True
    then have "fold (\<lambda>tag unique. if last unique \<noteq> tag then unique @ [tag] else unique) (tl ?t) [hd ?t] = remdups_adj ?t" "\<not> length ?t < 2"
      using fold_unique[of "[hd ?t]" "tl ?t"] by (cases ?t rule: remdups_adj.cases; simp)+
    with True s sorted_remdups_adj[OF s(1)] show ?thesis by (simp add: canonicalSimpleTombstones_def Let_def)
  next
    case False
    with s neighbours_eq[OF s(1)] show ?thesis by (simp add: canonicalSimpleTombstones_def Let_def)
  qed
  then have "fset_of_list (canonicalSimpleTombstones tags) = fset_of_list tags" "sorted_wrt (<) (canonicalSimpleTombstones tags)"
    by (auto simp: fset_eq_iff fset_of_list_elem)
  then show ?thesis by (metis sorted_list_of_fset_unique)
qed

context tombstone_target
begin

lemma collect_bounded:
  assumes "NewSimpleCollector p = Inr c" and "inv t"
  obtains t' gone where "SimpleCollector_Collect (Some c) T (Some t) = (Some t', Inr (fcard gone))" "inv t'" "tombs t' = tombs t |-| gone" "gone |\<subseteq>| tombs t" "rest t' = rest t"
    "int (fcard gone) \<le> sp_MaxBatch p" "int (fcard (tombs t')) \<ge> min (sp_MinRetained p) (int (fcard (tombs t)))"
proof -
  have p: "0 \<le> sp_MinRetained p" "0 < sp_MaxBatch p" and c: "sc_policy c = p" using assms(1) by (auto simp: NewSimpleCollector_def split: if_splits)
  let ?tags = "sorted_list_of_fset (tombs t)"
  have tag: "tt_TombstoneTags T t = ?tags" "list_all Tag_Valid ?tags" using tags[OF assms(2)] by auto
  have can: "canonicalSimpleTombstones ?tags = ?tags" by (simp add: canonical_eq)
  show thesis
  proof (cases "int (fcard (tombs t)) \<le> sp_MinRetained p")
    case True
    then have "SimpleCollector_Collect (Some c) T (Some t) = (Some t, Inr (fcard {||}))"
      using tag can c by (simp add: SimpleCollector_Collect_def validateTombstones_def)
    then show thesis by (rule that) (use assms(2) p True in \<open>simp_all add: fcard.rep_eq\<close>)
  next
    case False
    define k where "k = nat (min (sp_MaxBatch p) (int (fcard (tombs t)) - sp_MinRetained p))"
    have k: "int k \<le> sp_MaxBatch p" "int k \<le> int (fcard (tombs t)) - sp_MinRetained p" using p False by (auto simp: k_def)
    have "set (take k ?tags) \<subseteq> fset (tombs t)" by (auto dest: in_set_takeD)
    from compact[OF assms(2) this] obtain t' gone where g: "compact_target T t (take k ?tags) = (t', Inr (fcard gone))" "inv t'"
      "gone |\<subseteq>| fset_of_list (take k ?tags)" "gone |\<subseteq>| tombs t" "tombs t' = tombs t |-| gone" "rest t' = rest t" by blast
    have "nat (if int (fcard (tombs t)) - sp_MinRetained p > sp_MaxBatch p then sp_MaxBatch p else int (fcard (tombs t)) - sp_MinRetained p) = k"
      by (simp add: k_def min_def)
    then have run: "SimpleCollector_Collect (Some c) T (Some t) = (Some t', Inr (fcard gone))"
      using False tag can c g(1) by (auto simp: SimpleCollector_Collect_def validateTombstones_def Let_def split: if_splits)
    have "fcard gone \<le> fcard (fset_of_list (take k ?tags))" using g(3) by (rule fcard_mono)
    also have "\<dots> \<le> k" using card_length[of "take k ?tags"] by (simp add: fcard.rep_eq fset_of_list.rep_eq)
    finally have n: "fcard gone \<le> k" .
    have "fcard (tombs t') = fcard (tombs t) - fcard gone" using g(4,5) by (simp add: fcard_funion_fsubset)
    then show thesis using n k p False g by (intro that[OF run g(2,5,4,6)]) auto
  qed
qed

end

lemma tagsToSortedSlice_eq: "tagsToSortedSlice S = sorted_list_of_fset S"
  by (simp add: tagsToSortedSlice_def sorted_sort_id)

interpretation orset_tombstones: tombstone_target orset_target "\<lambda>r. \<exists>s. r = Some s \<and> os_ok s" "\<lambda>r. os_tombstones (the r)" "\<lambda>r. (the r)\<lparr>os_tombstones := {||}\<rparr>"
proof
  fix r :: "'e ORSet option" and ts
  assume "\<exists>s. r = Some s \<and> os_ok s"
  then obtain s where s: "r = Some s" "os_ok s" by blast
  have valid: "t |\<in>| os_tombstones s \<Longrightarrow> Tag_Valid t" for t using s(2) by (simp add: os_ok_def os_inv_def or_inv_def)
  then show "tt_TombstoneTags orset_target r = sorted_list_of_fset (os_tombstones (the r)) \<and> list_all Tag_Valid (tt_TombstoneTags orset_target r)"
    by (simp add: orset_target_def ORSet_TombstoneTags_def s tagsToSortedSlice_eq list_all_iff)
  let ?gone = "os_tombstones s |\<inter>| fset_of_list ts"
  have "s\<lparr>os_tombstones := os_tombstones s |-| fset_of_list ts\<rparr> = s\<lparr>os_tombstones := os_tombstones s |-| ?gone\<rparr>"
    by (intro arg_cong[of _ _ "\<lambda>T. s\<lparr>os_tombstones := T\<rparr>"]) auto
  then show "\<exists>r' gone. compact_target orset_target r ts = (r', Inr (fcard gone)) \<and> (\<exists>s. r' = Some s \<and> os_ok s) \<and>
      gone |\<subseteq>| fset_of_list ts \<and> gone |\<subseteq>| os_tombstones (the r) \<and> os_tombstones (the r') = os_tombstones (the r) |-| gone \<and>
      (the r')\<lparr>os_tombstones := {||}\<rparr> = (the r)\<lparr>os_tombstones := {||}\<rparr>"
    if "set ts \<subseteq> fset (os_tombstones (the r))"
    using that valid s shrink_tombstones_ok[OF s(2), of "os_tombstones s |-| ?gone"]
    by (intro exI[of _ "Some (s\<lparr>os_tombstones := os_tombstones s |-| ?gone\<rparr>)"] exI[of _ ?gone])
       (auto simp: compact_target_def orset_target_def CompactTombstones_eq list_all_iff)
qed

text \<open>The two constructors disagree on a blank group.\<close>

lemma blank_group:
  "NewCoordinator [32] [[97]] = Inl gc_ErrInvalidGroup"
  "\<exists>c. NewCoordinatorAtMembership \<lparr>gm_GroupID = [32], gm_Epoch = 2, gm_Members = [[97]]\<rparr> = Inr c"
  by (simp_all add: NewCoordinator_def NewCoordinatorAtMembership_def validateMembers_def eval)

section \<open>Properties\<close>

text \<open>
  C35. A coordinator is the relation of members and the tags they acknowledged in the current view. \<open>Acknowledge\<close>, \<open>PruneAcknowledgements\<close>,
  \<open>ReplaceMembership\<close> and \<open>InstallMembership\<close> do on its tables, counters and fast path what their specifications do on the relation, errors
  included; the statistics count the relation; and a candidate is selected exactly if every member of the view acknowledged it, where
  an acknowledgement of another group, another epoch or a stranger counts for nothing.
\<close>

theorem coordinator_refines:
  assumes "tc_inv c" and "int (length ms) \<le> max_int" and "int (length (gm_Members v)) \<le> max_int"
  shows "refines c (Coordinator_Acknowledge (Some c) g m e ts) (spec_acknowledge (gc_abs c) g m e ts) \<and>
    refines c (PruneAcknowledgements (Some c) g e ts) (spec_prune (gc_abs c) g e ts) \<and>
    refines c (ReplaceMembership (Some c) ms) (spec_replace (gc_abs c) ms) \<and>
    refines c (InstallMembership (Some c) v) (spec_install (gc_abs c) v) \<and>
    Coordinator_AcknowledgementStats (Some c) = \<lparr>as_GroupID = tc_groupID c, as_Epoch = tc_epoch c, as_Members = card (gs_members (gc_abs c)),
      as_Tags = card (snd ` acked c), as_Entries = int (card (acked c))\<rparr> \<and>
    stableTombstonesLocked c candidates = filter (\<lambda>t. \<forall>k. k |\<in>| tc_members c \<longrightarrow> (k, t) \<in> acked c) candidates"
  using Acknowledge_refines[OF assms(1)] Prune_refines[OF assms(1)] Replace_refines[OF assms(1,2)] Install_refines[OF assms(1,3)]
    stable_iff[OF assms(1)] counts_size[OF tc_inv_table(1)[OF assms(1)]] tc_inv_fields(5)[OF assms(1)]
  by (simp add: Coordinator_AcknowledgementStats_def gc_abs_def fcard.rep_eq)

definition gc_c :: Coordinator where
  "gc_c = \<lparr>tc_groupID = [103], tc_epoch = 1, tc_members = {|[97], [98]|}, tc_acknowledgements = fmempty,
     tc_acknowledgementCounts = fmempty, tc_acknowledgementEntries = 0\<rparr>"

lemma gc_c_new: "NewCoordinator [103] [[97], [98]] = Inr gc_c"
  by (simp add: NewCoordinator_def validateMembers_def gc_c_def eval finsert_commute)

lemma gc_c_inv: "tc_inv gc_c"
  by (rule fresh_inv(1)[of "[[97], [98]]"]) (simp_all add: gc_c_def valid_members_def eval)

theorem coordinator_refines_witness:
  "\<exists>c. tc_inv c \<and> NewCoordinator [103] [[97], [98]] = Inr c \<and>
     stableTombstonesLocked c [Tag [97] 5 0] = filter (\<lambda>t. \<forall>k. k |\<in>| tc_members c \<longrightarrow> (k, t) \<in> acked c) [Tag [97] 5 0]"
  using coordinator_refines[OF gc_c_inv, of "[[97]]" "\<lparr>gm_GroupID = [103], gm_Epoch = 2, gm_Members = [[97]]\<rparr>" _ _ _ _ "[Tag [97] 5 0]"]
    gc_c_inv gc_c_new by auto

text \<open>
  C36. Collection is fail-closed: what \<open>AcknowledgeAndCompact\<close> removes from an OR-Set are tombstones that every current member has acknowledged,
  the report just recorded included, and the rest of the set stays. A report that \<open>Acknowledge\<close> refuses removes and records nothing.
\<close>

theorem collect_acknowledged_only:
  assumes "tc_inv c" and "os_ok s" and "AcknowledgeAndCompact (Some c) g m e ts (Some s) = (c', s', out)"
  shows "case out of
      Inl err \<Rightarrow> s' = Some s \<and> c' = Some c \<and> Coordinator_Acknowledge (Some c) g m e ts = (c', Inl err)
    | Inr n \<Rightarrow> Coordinator_Acknowledge (Some c) g m e ts = (c', Inr ()) \<and>
        (\<exists>gone. n = fcard gone \<and> gone |\<subseteq>| os_tombstones s \<and> s' = Some (s\<lparr>os_tombstones := os_tombstones s |-| gone\<rparr>) \<and> os_ok (the s') \<and>
           (\<forall>t k. t |\<in>| gone \<longrightarrow> k |\<in>| tc_members c \<longrightarrow> (k, t) \<in> acked (the c')))"
proof -
  have ok: "\<exists>r. Some s = Some r \<and> os_ok r" using assms(2) by simp
  from assms(1) ok show ?thesis
  proof (cases rule: orset_tombstones.collect_cases[where g = g and m = m and e = e and ts = ts])
    case (error err)
    with assms(3) show ?thesis by (auto simp: AcknowledgeAndCompact_def)
  next
    case (ok d t gone)
    then obtain r where r: "t = Some r" "os_ok r" by auto
    have "r = s\<lparr>os_tombstones := os_tombstones s |-| gone\<rparr>" using ok(6,8) r(1) by (cases r; cases s) simp
    with ok assms(3) r show ?thesis by (auto simp: AcknowledgeAndCompact_def intro!: exI[of _ gone])
  qed
qed

definition gc_d :: Coordinator where
  "gc_d = gc_c\<lparr>tc_acknowledgements := fmupd [98] {|Tag [98] 2 0|} fmempty, tc_acknowledgementCounts := fmupd (Tag [98] 2 0) 1 fmempty,
     tc_acknowledgementEntries := 1\<rparr>"

definition set_t :: "byte ORSet" where
  "set_t = set_a\<lparr>os_tombstones := {|Tag [98] 2 0|}\<rparr>"

lemma set_t_ok: "os_ok set_t"
  by (auto simp: set_t_def set_a_def os_ok_def os_inv_def or_inv_def adds_normal_def tags_unique_def clock_covers_def hlc_inv_def has_tag_def
      tag_stamp_def hlc_stamp_def stamp_def byte_bound_facts eval split: if_splits)

text \<open>One member has reported; the report of the other makes the tombstone collectable.\<close>

theorem collect_acknowledged_only_witness:
  "\<exists>c' s'. Coordinator_Acknowledge (Some gc_c) [103] [98] 1 [Tag [98] 2 0] = (Some gc_d, Inr ()) \<and>
     AcknowledgeAndCompact (Some gc_d) [103] [97] 1 [Tag [98] 2 0] (Some set_t) = (Some c', Some s', Inr 1) \<and>
     os_elements s' = os_elements set_a \<and> os_tombstones s' = {||}"
proof -
  have d: "Coordinator_Acknowledge (Some gc_c) [103] [98] 1 [Tag [98] 2 0] = (Some gc_d, Inr ())"
    by (simp add: Coordinator_Acknowledge_def validateTombstones_def acknowledgeLocked_def Let_def ack_tag_def count_at_def gc_c_def gc_d_def Tag_Valid_def eval)
  with Acknowledge_refines[OF gc_c_inv, of "[103]" "[98]" 1 "[Tag [98] 2 0]"] have inv: "tc_inv gc_d" by (simp add: refines_def)
  obtain c' s' where run: "AcknowledgeAndCompact (Some gc_d) [103] [97] 1 [Tag [98] 2 0] (Some set_t) = (Some c', Some s', Inr 1)"
    by (simp add: AcknowledgeAndCompact_def AcknowledgeAndCompactTarget_def validateTombstones_def ack_select_def acknowledgeLocked_def Let_def ack_tag_def
        count_at_def gc_c_def gc_d_def Tag_Valid_def stableTombstonesLocked_def compact_target_def orset_target_def CompactTombstones_eq
        ORSet_TombstoneTags_def tagsToSortedSlice_def set_t_def fcard.rep_eq eval)
  from collect_acknowledged_only[OF inv set_t_ok run] obtain gone where g: "1 = fcard gone" "gone |\<subseteq>| os_tombstones set_t"
    "s' = set_t\<lparr>os_tombstones := os_tombstones set_t |-| gone\<rparr>" by auto
  have "gone = {|Tag [98] 2 0|}" using g(1,2) by (cases "gone = {||}") (auto simp: set_t_def fcard.rep_eq)
  with g(3) d run show ?thesis by (simp add: set_t_def)
qed

text \<open>
  C37. The local collector is bounded: on an OR-Set \<open>Collect\<close> succeeds, removes at most \<open>MaxBatch\<close> tombstones, keeps at least \<open>MinRetained\<close> of them
  where there are so many, and changes nothing else; policies outside the bounds have no collector.
\<close>

theorem simple_collector_bounded:
  assumes "NewSimpleCollector p = Inr c" and "os_ok s"
  shows "\<exists>gone. SimpleCollector_Collect (Some c) orset_target (Some (Some s)) =
      (Some (Some (s\<lparr>os_tombstones := os_tombstones s |-| gone\<rparr>)), Inr (fcard gone)) \<and> gone |\<subseteq>| os_tombstones s \<and>
    int (fcard gone) \<le> sp_MaxBatch p \<and> sp_MaxBatch p \<le> MaxSimpleBatch \<and>
    int (fcard (os_tombstones s |-| gone)) \<ge> min (sp_MinRetained p) (int (fcard (os_tombstones s)))"
proof -
  have "\<exists>r. Some s = Some r \<and> os_ok r" using assms(2) by simp
  then obtain t gone where g: "SimpleCollector_Collect (Some c) orset_target (Some (Some s)) = (Some t, Inr (fcard gone))"
    "\<exists>r. t = Some r \<and> os_ok r" "os_tombstones (the t) = os_tombstones s |-| gone" "gone |\<subseteq>| os_tombstones s"
    "(the t)\<lparr>os_tombstones := {||}\<rparr> = s\<lparr>os_tombstones := {||}\<rparr>" "int (fcard gone) \<le> sp_MaxBatch p"
    "int (fcard (os_tombstones (the t))) \<ge> min (sp_MinRetained p) (int (fcard (os_tombstones s)))"
    by (rule orset_tombstones.collect_bounded[OF assms(1)]) auto
  then obtain r where r: "t = Some r" by auto
  have "r = s\<lparr>os_tombstones := os_tombstones s |-| gone\<rparr>" using g(3,5) r by (cases r; cases s) simp
  moreover have "sp_MaxBatch p \<le> MaxSimpleBatch" using assms(1) by (auto simp: NewSimpleCollector_def split: if_splits)
  ultimately show ?thesis using g r by (intro exI[of _ gone]) simp
qed

theorem simple_collector_bounded_witness:
  "\<exists>c s n. NewSimpleCollector \<lparr>sp_MinRetained = 1, sp_MaxBatch = 1\<rparr> = Inr c \<and>
     SimpleCollector_Collect (Some c) orset_target (Some (Some (set_a\<lparr>os_tombstones := {|Tag [98] 1 0, Tag [98] 2 0|}\<rparr>))) = (Some (Some s), Inr n) \<and>
     n \<le> 1 \<and> os_tombstones s \<noteq> {||}"
proof -
  let ?s = "set_a\<lparr>os_tombstones := {|Tag [98] 1 0, Tag [98] 2 0|}\<rparr>"
  have ok: "os_ok ?s"
    by (auto simp: set_a_def os_ok_def os_inv_def or_inv_def adds_normal_def tags_unique_def clock_covers_def hlc_inv_def has_tag_def
        tag_stamp_def hlc_stamp_def stamp_def byte_bound_facts eval split: if_splits)
  have new: "NewSimpleCollector \<lparr>sp_MinRetained = 1, sp_MaxBatch = 1\<rparr> = Inr \<lparr>sc_policy = \<lparr>sp_MinRetained = 1, sp_MaxBatch = 1\<rparr>\<rparr>"
    by (simp add: NewSimpleCollector_def MaxSimpleBatch_def)
  have two: "fcard (os_tombstones ?s) = 2" by (simp add: fcard.rep_eq)
  obtain gone where g: "SimpleCollector_Collect (Some \<lparr>sc_policy = \<lparr>sp_MinRetained = 1, sp_MaxBatch = 1\<rparr>\<rparr>) orset_target (Some (Some ?s)) =
      (Some (Some (?s\<lparr>os_tombstones := os_tombstones ?s |-| gone\<rparr>)), Inr (fcard gone))" "int (fcard gone) \<le> 1" "1 \<le> int (fcard (os_tombstones ?s |-| gone))"
    using simple_collector_bounded[OF new ok] two by auto
  from g(3) have "os_tombstones ?s |-| gone \<noteq> {||}" by (auto simp: fcard.rep_eq)
  with g(1,2) new show ?thesis
    by (intro exI[of _ "\<lparr>sc_policy = \<lparr>sp_MinRetained = 1, sp_MaxBatch = 1\<rparr>\<rparr>"] exI[of _ "?s\<lparr>os_tombstones := os_tombstones ?s |-| gone\<rparr>"]
        exI[of _ "fcard gone"]) simp
qed

end
