(* ===== verification/Collection.thy ===== *)
theory Collection
  imports TombstoneGC
begin

text \<open>
  Collection in a group of replicas. Every replica has an OR-Set and a coordinator; replicas add, remove and merge states, report
  their tombstones, and handle reports, late and repeated ones included, by \<open>Acknowledge\<close> or \<open>AcknowledgeAndCompact\<close>, whose three
  parts interleave with everything but a change of view. Deltas and saved states travel as parcels, which are delivered late, repeatedly, in
  any order or never. Two conditions that the code leaves to its callers are rules of the system: a removal runs only when no parcel carries a
  tag it removes (old deltas were retired, \<open>src/tombstonegc/coordinator.go\<close>), and a view changes at all members at once. A view can retire
  replicas and admit others, which start empty with a clock after every tag they issued before.
\<close>

section \<open>Clocks\<close>

definition clock_at :: "'e ORSet \<Rightarrow> nat" where
  "clock_at s = hlc_stamp (the (os_clock s))"

lemma Add_stamp:
  assumes "os_inv s" and "ORSet_Add (Some s) e now = (Some s', out)"
  obtains "s' = s" | t where "os_elements s' = fmupd e (finsert t (tags_at (os_elements s) e)) (os_elements s)"
    "os_tombstones s' = os_tombstones s" "os_replicaID s' = os_replicaID s" "ReplicaID t = os_replicaID s" "clock_at s < tag_stamp t" "tag_stamp t \<le> clock_at s'"
proof -
  obtain h where h: "os_clock s = Some h" "hlc_replicaID h = os_replicaID s" "\<And>t. has_tag (os_state s) t \<Longrightarrow> tag_stamp t \<le> hlc_stamp h"
    using assms(1) by (auto simp: os_inv_def clock_covers_def)
  obtain c r where n: "HLC_Now (Some h) now = (c, r)" by fastforce
  then show thesis
  proof (cases rule: Now_cases)
    case (error x)
    have "s\<lparr>os_clock := Some h\<rparr> = s" using h(1) by (cases s) simp
    with error n h(1) assms(2) that(1) show thesis by (simp add: ORSet_Add_def)
  next
    case (ok h')
    let ?t = "Tag (hlc_replicaID h') (hlc_wallTime h') (hlc_logical h')"
    have st: "tag_stamp ?t = hlc_stamp h'" by (simp add: tag_stamp_def hlc_stamp_def)
    have "?t |\<notin>| os_tombstones s" using h(3)[of ?t] ok(3) st by (auto simp: has_tag_def)
    then have "s' = s\<lparr>os_clock := c, os_elements := fmupd e (finsert ?t (tags_at (os_elements s) e)) (os_elements s)\<rparr>"
      using n h ok assms(2) by (simp add: ORSet_Add_def Let_def)
    then show thesis using that(2)[of ?t] h ok st by (simp add: clock_at_def)
  qed
qed

lemma witness_greatest_stamp:
  fixes st :: "'e::linorder orstate"
  assumes "witness_greatest (Some h) st now = (c, r)"
  shows "hlc_stamp h \<le> hlc_stamp (the c)"
proof (cases "greatestStateTag (fst st) (snd st)")
  case (Some g)
  with assms have "HLC_Witness (Some h) g now = (c, r)" by (simp add: witness_greatest_def)
  then show ?thesis by (cases rule: Witness_cases) auto
qed (use assms in \<open>auto simp: witness_greatest_def\<close>)

lemma Merge_stamp:
  assumes "os_inv s" and "ORSet_Merge (Some s) (Some q) now = (Some s', out)"
  shows "clock_at s \<le> clock_at s' \<and> os_replicaID s' = os_replicaID s"
proof -
  obtain h where h: "os_clock s = Some h" using assms(1) by (auto simp: os_inv_def clock_covers_def)
  have "hlc_stamp h \<le> hlc_stamp (the c)" if "witness_greatest (Some h) st now = (c, r)" for c r and st :: "'a orstate"
    by (rule witness_greatest_stamp[OF that])
  then show ?thesis
    using assms(2) h by (auto simp: ORSet_Merge_def witness_join_eq clock_at_def split: if_splits sum.splits prod.splits)
qed

lemma ApplyDelta_stamp:
  assumes "os_inv s" and "ORSet_ApplyDelta (Some s) d now = (Some s', out)"
  shows "clock_at s \<le> clock_at s' \<and> os_replicaID s' = os_replicaID s"
proof -
  obtain h where h: "os_clock s = Some h" using assms(1) by (auto simp: os_inv_def clock_covers_def)
  have "hlc_stamp h \<le> hlc_stamp (the c)" if "witness_greatest (Some h) st now = (c, r)" for c r and st :: "'a orstate"
    by (rule witness_greatest_stamp[OF that])
  then show ?thesis
    using assms(2) h by (auto simp: ORSet_ApplyDelta_def witness_join_eq clock_at_def split: if_splits sum.splits prod.splits)
qed

section \<open>The system\<close>

record 'e gc_node =
  gn_set :: "'e ORSet"
  gn_co :: Coordinator

datatype gc_call = Acking gostring gostring u64 "tag list" "tag list" | Compacting "tag list"

text \<open>What travels between replicas: the deltas of their operations, combined or not, and copies of their sets.\<close>

datatype 'e parcel = DeltaParcel "'e ORSetDelta" | StateParcel "'e ORSet"

fun parcel_state :: "'e parcel \<Rightarrow> 'e orstate" where
  "parcel_state (DeltaParcel d) = (od_adds d, od_tombstones d)"
| "parcel_state (StateParcel q) = (os_elements q, os_tombstones q)"

fun deliver_parcel :: "'e::linorder parcel \<Rightarrow> 'e ORSet \<Rightarrow> int option \<Rightarrow> 'e ORSet option \<times> unit res" where
  "deliver_parcel (DeltaParcel d) r now = ORSet_ApplyDelta (Some r) d now"
| "deliver_parcel (StateParcel q) r now = ORSet_Merge (Some r) (Some q) now"

definition carries :: "'e parcel \<Rightarrow> 'e \<Rightarrow> tag \<Rightarrow> bool" where
  "carries p e t \<longleftrightarrow> t |\<in>| tags_at (fst (parcel_state p)) e"

text \<open>Two ghost components: the tags each replica has had as tombstones since it was admitted, and all tags ever issued.\<close>

record 'e gc_sys =
  gy_nodes :: "(gostring, 'e gc_node) fmap"
  gy_mail :: "'e parcel list"
  gy_reports :: "(gostring \<times> gostring \<times> u64 \<times> tag list) list"
  gy_calls :: "(gostring \<times> gc_call) list"
  gy_buried :: "gostring \<Rightarrow> tag set"
  gy_issued :: "tag set"

definition live :: "'e gc_node \<Rightarrow> 'e \<Rightarrow> tag \<Rightarrow> bool" where
  "live n e t \<longleftrightarrow> t |\<in>| tags_at (os_elements (gn_set n)) e"

definition afloat :: "'e gc_sys \<Rightarrow> 'e \<Rightarrow> tag \<Rightarrow> bool" where
  "afloat s e t \<longleftrightarrow> (\<exists>m n. fmlookup (gy_nodes s) m = Some n \<and> live n e t) \<or> (\<exists>p \<in> set (gy_mail s). carries p e t)"

definition post :: "'e parcel \<Rightarrow> 'e gc_sys \<Rightarrow> 'e gc_sys" where
  "post p s = s\<lparr>gy_mail := p # gy_mail s\<rparr>"

definition post_delta :: "'e ORSetDelta res \<Rightarrow> 'e gc_sys \<Rightarrow> 'e gc_sys" where
  "post_delta out s = (case out of Inl _ \<Rightarrow> s | Inr d \<Rightarrow> post (DeltaParcel d) s)"

definition put_set :: "'e gc_sys \<Rightarrow> gostring \<Rightarrow> 'e gc_node \<Rightarrow> 'e ORSet \<Rightarrow> 'e gc_sys" where
  "put_set s i n r = s\<lparr>gy_nodes := fmupd i (n\<lparr>gn_set := r\<rparr>) (gy_nodes s),
     gy_buried := (gy_buried s)(i := gy_buried s i \<union> fset (os_tombstones r)),
     gy_issued := gy_issued s \<union> {t. \<exists>e. t |\<in>| tags_at (os_elements r) e}\<rparr>"

definition put_co :: "'e gc_sys \<Rightarrow> gostring \<Rightarrow> 'e gc_node \<Rightarrow> Coordinator \<Rightarrow> 'e gc_sys" where
  "put_co s i n c = s\<lparr>gy_nodes := fmupd i (n\<lparr>gn_co := c\<rparr>) (gy_nodes s)\<rparr>"

text \<open>A replica as it is admitted, with the state its clock resumes from.\<close>

definition admitted :: "'e gc_sys \<Rightarrow> Membership \<Rightarrow> gostring \<Rightarrow> 'e gc_node \<Rightarrow> bool" where
  "admitted s v m n \<longleftrightarrow> (\<exists>saved codec. st_ReplicaID saved = m \<and> NewORSetFromClock saved codec = Inr (gn_set n) \<and>
     NewCoordinatorAtMembership v = Inr (gn_co n) \<and> (\<forall>t \<in> gy_issued s. ReplicaID t = m \<longrightarrow> tag_stamp t \<le> clock_at (gn_set n)))"

inductive gc_step :: "'e::linorder gc_sys \<Rightarrow> 'e gc_sys \<Rightarrow> bool" where
  add: "fmlookup (gy_nodes s) i = Some n \<Longrightarrow> ORSet_Add (Some (gn_set n)) e now = (Some r, out) \<Longrightarrow> gc_step s (post_delta out (put_set s i n r))"
| remove: "fmlookup (gy_nodes s) i = Some n \<Longrightarrow> ORSet_Remove (Some (gn_set n)) e = (Some r, out) \<Longrightarrow>
    gc_step s (post_delta out (put_set s i n r))"
| save: "fmlookup (gy_nodes s) i = Some n \<Longrightarrow> gc_step s (post (StateParcel (gn_set n)) s)"
| combine: "DeltaParcel d \<in> set (gy_mail s) \<Longrightarrow> DeltaParcel d' \<in> set (gy_mail s) \<Longrightarrow> gc_step s (post_delta (ORSetDelta_Merge d d') s)"
| deliver: "fmlookup (gy_nodes s) i = Some n \<Longrightarrow> p \<in> set (gy_mail s) \<Longrightarrow> deliver_parcel p (gn_set n) now = (Some r, delivered) \<Longrightarrow>
    gc_step s (put_set s i n r)"
| retire: "gy_mail s = xs @ p # ys \<Longrightarrow> gc_step s (s\<lparr>gy_mail := xs @ ys\<rparr>)"
| merge: "fmlookup (gy_nodes s) i = Some n \<Longrightarrow> fmlookup (gy_nodes s) j = Some q \<Longrightarrow> i \<noteq> j \<Longrightarrow>
    ORSet_Merge (Some (gn_set n)) (Some (gn_set q)) now = (Some r, merged) \<Longrightarrow> gc_step s (put_set s i n r)"
| report: "fmlookup (gy_nodes s) i = Some n \<Longrightarrow>
    gc_step s (s\<lparr>gy_reports := (tc_groupID (gn_co n), i, tc_epoch (gn_co n), ORSet_TombstoneTags (Some (gn_set n))) # gy_reports s\<rparr>)"
| acknowledge: "fmlookup (gy_nodes s) i = Some n \<Longrightarrow> (g, m, e, ts) \<in> set (gy_reports s) \<Longrightarrow>
    Coordinator_Acknowledge (Some (gn_co n)) g m e ts = (Some c, acknowledged) \<Longrightarrow> gc_step s (put_co s i n c)"
| prune: "fmlookup (gy_nodes s) i = Some n \<Longrightarrow> PruneAcknowledgements (Some (gn_co n)) g e ts = (Some c, pruned) \<Longrightarrow>
    gc_step s (put_co s i n c)"
| call: "fmlookup (gy_nodes s) i = Some n \<Longrightarrow> (g, m, e, ts) \<in> set (gy_reports s) \<Longrightarrow> validateTombstones ts = Inr () \<Longrightarrow>
    gc_step s (s\<lparr>gy_calls := (i, Acking g m e ts (ORSet_TombstoneTags (Some (gn_set n)))) # gy_calls s\<rparr>)"
| refused: "fmlookup (gy_nodes s) i = Some n \<Longrightarrow> gy_calls s = xs @ (i, Acking g m e ts candidates) # ys \<Longrightarrow>
    ack_select (gn_co n) g m e ts candidates = (c, Inl err) \<Longrightarrow> gc_step s (put_co s i n c\<lparr>gy_calls := xs @ ys\<rparr>)"
| selected: "fmlookup (gy_nodes s) i = Some n \<Longrightarrow> gy_calls s = xs @ (i, Acking g m e ts candidates) # ys \<Longrightarrow>
    ack_select (gn_co n) g m e ts candidates = (c, Inr tags) \<Longrightarrow> gc_step s (put_co s i n c\<lparr>gy_calls := xs @ (i, Compacting tags) # ys\<rparr>)"
| compact: "fmlookup (gy_nodes s) i = Some n \<Longrightarrow> gy_calls s = xs @ (i, Compacting tags) # ys \<Longrightarrow>
    (\<forall>p \<in> set (gy_mail s). \<forall>t \<in> set tags. \<forall>e. \<not> carries p e t) \<Longrightarrow>
    compact_target orset_target (Some (gn_set n)) tags = (Some r, removed) \<Longrightarrow> gc_step s (put_set s i n r\<lparr>gy_calls := xs @ ys\<rparr>)"
| view: "gy_calls s = [] \<Longrightarrow> int (length ms) \<le> max_int \<Longrightarrow>
    (\<forall>m n. fmlookup (gy_nodes s) m = Some n \<longrightarrow> ReplaceMembership (Some (gn_co n)) ms = (Some (co m), Inr v)) \<Longrightarrow>
    fmdom nodes = fset_of_list ms \<Longrightarrow>
    (\<forall>m n'. fmlookup nodes m = Some n' \<longrightarrow> (case fmlookup (gy_nodes s) m of Some n \<Rightarrow> n' = n\<lparr>gn_co := co m\<rparr> | None \<Rightarrow> admitted s v m n')) \<Longrightarrow>
    gc_step s (s\<lparr>gy_nodes := nodes, gy_buried := \<lambda>m. if m |\<in>| fmdom (gy_nodes s) then gy_buried s m else {}\<rparr>)"

inductive gc_reach :: "'e::linorder gc_sys \<Rightarrow> bool" where
  start: "int (length ms) \<le> max_int \<Longrightarrow> fmdom nodes = fset_of_list ms \<Longrightarrow> nodes \<noteq> fmempty \<Longrightarrow>
    (\<forall>m n. fmlookup nodes m = Some n \<longrightarrow> (\<exists>codec. NewORSet m codec = Inr (gn_set n)) \<and> NewCoordinator g ms = Inr (gn_co n)) \<Longrightarrow>
    gc_reach \<lparr>gy_nodes = nodes, gy_mail = [], gy_reports = [], gy_calls = [], gy_buried = \<lambda>_. {}, gy_issued = {}\<rparr>"
| step: "gc_reach s \<Longrightarrow> gc_step s s' \<Longrightarrow> gc_reach s'"

section \<open>The invariant\<close>

text \<open>
  A dead tag was issued, and no replica has it live and no parcel carries it; it stays so, since a new tag is after the clock of its replica.
\<close>

definition dead :: "'e gc_sys \<Rightarrow> tag \<Rightarrow> bool" where
  "dead s t \<longleftrightarrow> t \<in> gy_issued s \<and> (\<forall>e. \<not> afloat s e t)"

definition parcel_ok :: "'e gc_sys \<Rightarrow> 'e parcel \<Rightarrow> bool" where
  "parcel_ok s p \<longleftrightarrow> or_inv (parcel_state p) \<and> (\<forall>q. p = StateParcel q \<longrightarrow> os_ok q) \<and> (\<forall>e t. carries p e t \<longrightarrow> t \<in> gy_issued s) \<and>
     fset (snd (parcel_state p)) \<subseteq> gy_issued s"

text \<open>The replicas are well formed, their tags were issued, and what a replica buried is live there no more: it holds the tombstone, or the tag is dead.\<close>

definition sets_inv :: "'e gc_sys \<Rightarrow> bool" where
  "sets_inv s \<longleftrightarrow> (\<forall>i n. fmlookup (gy_nodes s) i = Some n \<longrightarrow> os_ok (gn_set n) \<and> os_replicaID (gn_set n) = i \<and>
       fset (os_tombstones (gn_set n)) \<subseteq> gy_buried s i \<and> gy_buried s i \<subseteq> gy_issued s \<and>
       (\<forall>e t. live n e t \<longrightarrow> t \<in> gy_issued s \<and> t \<notin> gy_buried s i) \<and>
       (\<forall>t \<in> gy_buried s i. t |\<in>| os_tombstones (gn_set n) \<or> dead s t) \<and>
       (\<forall>t \<in> gy_issued s. ReplicaID t = i \<longrightarrow> tag_stamp t \<le> clock_at (gn_set n))) \<and>
     (\<forall>e e' t. afloat s e t \<longrightarrow> afloat s e' t \<longrightarrow> e = e') \<and> (\<forall>p \<in> set (gy_mail s). parcel_ok s p)"

text \<open>Coordinators are in one view; what counts as acknowledged was buried, and what is about to be removed was buried by all.\<close>

definition doomed :: "'e gc_sys \<Rightarrow> tag \<Rightarrow> bool" where
  "doomed s t \<longleftrightarrow> t \<in> gy_issued s \<and> (\<forall>k. k |\<in>| fmdom (gy_nodes s) \<longrightarrow> t \<in> gy_buried s k)"

definition views_inv :: "'e gc_sys \<Rightarrow> gostring \<Rightarrow> u64 \<Rightarrow> bool" where
  "views_inv s G E \<longleftrightarrow> gy_nodes s \<noteq> fmempty \<and>
     (\<forall>i n. fmlookup (gy_nodes s) i = Some n \<longrightarrow> tc_inv (gn_co n) \<and> tc_members (gn_co n) = fmdom (gy_nodes s) \<and> tc_groupID (gn_co n) = G \<and>
       tc_epoch (gn_co n) = E \<and> (\<forall>(m, t) \<in> acked (gn_co n). t \<in> gy_buried s m)) \<and>
     (\<forall>(g, m, e, ts) \<in> set (gy_reports s). g = G \<and> e \<le> E \<and> (e = E \<longrightarrow> set ts \<subseteq> gy_buried s m)) \<and>
     (\<forall>(i, call) \<in> set (gy_calls s). case call of
         Acking g m e ts candidates \<Rightarrow> (g, m, e, ts) \<in> set (gy_reports s)
       | Compacting tags \<Rightarrow> \<forall>t \<in> set tags. doomed s t)"

lemma sets_invD:
  assumes "sets_inv s" and "fmlookup (gy_nodes s) i = Some n"
  shows "os_ok (gn_set n)" "os_replicaID (gn_set n) = i" "fset (os_tombstones (gn_set n)) \<subseteq> gy_buried s i" "gy_buried s i \<subseteq> gy_issued s"
    "live n e t \<Longrightarrow> t \<in> gy_issued s \<and> t \<notin> gy_buried s i" "t \<in> gy_buried s i \<Longrightarrow> t |\<in>| os_tombstones (gn_set n) \<or> dead s t"
    "t \<in> gy_issued s \<Longrightarrow> ReplicaID t = i \<Longrightarrow> tag_stamp t \<le> clock_at (gn_set n)"
  using assms unfolding sets_inv_def by blast+

lemma sets_inv_mail:
  assumes "sets_inv s"
  shows "afloat s e t \<Longrightarrow> afloat s e' t \<Longrightarrow> e = e'" "p \<in> set (gy_mail s) \<Longrightarrow> parcel_ok s p"
  using assms unfolding sets_inv_def by blast+

lemma afloatI:
  "fmlookup (gy_nodes s) i = Some n \<Longrightarrow> live n e t \<Longrightarrow> afloat s e t" "p \<in> set (gy_mail s) \<Longrightarrow> carries p e t \<Longrightarrow> afloat s e t"
  unfolding afloat_def by blast+

lemma afloat_issued: "sets_inv s \<Longrightarrow> afloat s e t \<Longrightarrow> t \<in> gy_issued s"
  unfolding afloat_def using sets_invD(5) sets_inv_mail(2) by (metis parcel_ok_def)

text \<open>
  One replica replaces its set: what is live in the new one was afloat or is one fresh pair, and what it has buried stays buried.
\<close>

definition fresh_pair :: "gostring \<Rightarrow> 'e ORSet \<Rightarrow> 'e ORSet \<Rightarrow> tag \<Rightarrow> bool" where
  "fresh_pair i old new t \<longleftrightarrow> ReplicaID t = i \<and> clock_at old < tag_stamp t \<and> tag_stamp t \<le> clock_at new"

lemma fresh_not_issued: "sets_inv s \<Longrightarrow> fmlookup (gy_nodes s) i = Some n \<Longrightarrow> fresh_pair i (gn_set n) r t \<Longrightarrow> t \<notin> gy_issued s"
  using sets_invD(7)[of s i n t] by (auto simp: fresh_pair_def)

lemma put_set_afloat: "afloat (put_set s i n r) e t \<Longrightarrow> t |\<in>| tags_at (os_elements r) e \<or> afloat s e t"
  by (auto simp: afloat_def put_set_def live_def split: if_splits)

lemma put_set_dead:
  assumes inv: "sets_inv s" and i: "fmlookup (gy_nodes s) i = Some n"
    and live: "\<And>e t. t |\<in>| tags_at (os_elements r) e \<Longrightarrow> afloat s e t \<or> fresh_pair i (gn_set n) r t"
    and d: "dead s t"
  shows "dead (put_set s i n r) t"
proof -
  have "\<not> afloat (put_set s i n r) e t" for e
  proof
    assume "afloat (put_set s i n r) e t"
    from put_set_afloat[OF this] live have "afloat s e t \<or> fresh_pair i (gn_set n) r t" by auto
    with d fresh_not_issued[OF inv i, of r t] show False by (auto simp: dead_def)
  qed
  moreover have "t \<in> gy_issued (put_set s i n r)" using d by (simp add: dead_def put_set_def)
  ultimately show ?thesis by (simp add: dead_def)
qed

lemma put_set_inv:
  assumes inv: "sets_inv s" and i: "fmlookup (gy_nodes s) i = Some n"
    and r: "os_ok r" "os_replicaID r = i" "clock_at (gn_set n) \<le> clock_at r"
    and live: "\<And>e t. t |\<in>| tags_at (os_elements r) e \<Longrightarrow> afloat s e t \<or> fresh_pair i (gn_set n) r t"
    and one: "\<And>e t e' t'. t |\<in>| tags_at (os_elements r) e \<Longrightarrow> t' |\<in>| tags_at (os_elements r) e' \<Longrightarrow>
      fresh_pair i (gn_set n) r t \<Longrightarrow> fresh_pair i (gn_set n) r t' \<Longrightarrow> e = e'"
    and old: "\<And>t. t |\<in>| os_tombstones r \<Longrightarrow> t \<in> gy_issued s"
    and buried: "\<And>t. t \<in> gy_buried s i \<Longrightarrow> t |\<in>| os_tombstones r \<or> dead s t"
  shows "sets_inv (put_set s i n r)"
proof -
  let ?s = "put_set s i n r"
  have nodes: "fmlookup (gy_nodes ?s) j = (if j = i then Some (n\<lparr>gn_set := r\<rparr>) else fmlookup (gy_nodes s) j)" for j by (simp add: put_set_def)
  have fields: "gy_buried ?s j = (if j = i then gy_buried s i \<union> fset (os_tombstones r) else gy_buried s j)"
      "gy_issued ?s = gy_issued s \<union> {t. \<exists>e. t |\<in>| tags_at (os_elements r) e}" "gy_mail ?s = gy_mail s" for j
    by (simp_all add: put_set_def)
  have fresh: "t \<notin> gy_issued s" if "fresh_pair i (gn_set n) r t" for t using fresh_not_issued[OF inv i that] .
  have dead: "dead s t \<Longrightarrow> dead ?s t" for t by (rule put_set_dead[OF inv i live])
  have lr: "live (n\<lparr>gn_set := r\<rparr>) e t \<longleftrightarrow> t |\<in>| tags_at (os_elements r) e" for e t by (simp add: live_def)
  have gone: "t \<notin> gy_buried s i \<and> t |\<notin>| os_tombstones r" if t: "t |\<in>| tags_at (os_elements r) e" for e t
  proof -
    have no: "t |\<notin>| os_tombstones r" using r(1) t by (auto simp: os_ok_def os_inv_def or_inv_def)
    have "\<not> dead s t" using live[OF t] fresh by (auto simp: dead_def)
    with no buried show ?thesis by blast
  qed
  have "os_ok (gn_set q) \<and> os_replicaID (gn_set q) = j \<and> fset (os_tombstones (gn_set q)) \<subseteq> gy_buried ?s j \<and> gy_buried ?s j \<subseteq> gy_issued ?s \<and>
      (\<forall>e t. live q e t \<longrightarrow> t \<in> gy_issued ?s \<and> t \<notin> gy_buried ?s j) \<and> (\<forall>t \<in> gy_buried ?s j. t |\<in>| os_tombstones (gn_set q) \<or> dead ?s t) \<and>
      (\<forall>t \<in> gy_issued ?s. ReplicaID t = j \<longrightarrow> tag_stamp t \<le> clock_at (gn_set q))" if q: "fmlookup (gy_nodes ?s) j = Some q" for j q
  proof (cases "j = i")
    case True
    have stamps: "tag_stamp t \<le> clock_at r" if "t \<in> gy_issued ?s" "ReplicaID t = i" for t
      using that live[of t] sets_invD(7)[OF inv i, of t] afloat_issued[OF inv] r(3) by (fastforce simp: put_set_def fresh_pair_def)
    have q': "q = n\<lparr>gn_set := r\<rparr>" using q True by (simp add: nodes)
    have "fset (os_tombstones r) \<subseteq> gy_buried ?s i" "gy_buried ?s i \<subseteq> gy_issued ?s" using old sets_invD(4)[OF inv i] by (auto simp: fields)
    moreover have "live q e t \<longrightarrow> t \<in> gy_issued ?s \<and> t \<notin> gy_buried ?s i" for e t using gone by (auto simp: fields q' lr)
    moreover have "\<forall>t \<in> gy_buried ?s i. t |\<in>| os_tombstones r \<or> dead ?s t" using buried dead by (auto simp: fields)
    ultimately show ?thesis using stamps r(1,2) unfolding True by (simp add: q')
  next
    case False
    then have q': "fmlookup (gy_nodes s) j = Some q" using q by (simp add: nodes)
    have "tag_stamp t \<le> clock_at (gn_set q)" if "t \<in> gy_issued ?s" "ReplicaID t = j" for t
      using that live[of t] sets_invD(7)[OF inv q', of t] afloat_issued[OF inv] False by (fastforce simp: put_set_def fresh_pair_def)
    moreover have b: "gy_buried ?s j = gy_buried s j" using False by (simp add: fields)
    moreover have "\<forall>t \<in> gy_buried ?s j. t |\<in>| os_tombstones (gn_set q) \<or> dead ?s t"
      unfolding b using sets_invD(6)[OF inv q'] dead by blast
    ultimately show ?thesis using sets_invD(1-5)[OF inv q'] by (auto simp: fields(2))
  qed
  moreover have "e = e'" if "afloat ?s e t" "afloat ?s e' t" for e e' t
  proof -
    have "afloat s x t \<or> t |\<in>| tags_at (os_elements r) x \<and> fresh_pair i (gn_set n) r t" if "afloat ?s x t" for x
      using put_set_afloat[OF that] live by blast
    from this[OF that(1)] this[OF that(2)] show ?thesis
      using sets_inv_mail(1)[OF inv] one fresh afloat_issued[OF inv] by metis
  qed
  moreover have "parcel_ok ?s p" if "p \<in> set (gy_mail ?s)" for p
    using sets_inv_mail(2)[OF inv, of p] that by (auto simp: parcel_ok_def fields)
  ultimately show ?thesis unfolding sets_inv_def by blast
qed

text \<open>A parcel is posted that carries nothing new, or one is dropped.\<close>

lemma mail_inv:
  assumes inv: "sets_inv s" and p: "\<And>p. p \<in> set mail \<Longrightarrow> parcel_ok s p \<and> (\<forall>e t. carries p e t \<longrightarrow> afloat s e t)"
  shows "sets_inv (s\<lparr>gy_mail := mail\<rparr>)"
proof -
  let ?s = "s\<lparr>gy_mail := mail\<rparr>"
  have a: "afloat s e t" if "afloat ?s e t" for e t using that p afloatI(1)[of s] unfolding afloat_def[of ?s] by auto
  then have d: "dead ?s t" if "dead s t" for t using that by (auto simp: dead_def)
  have same: "gy_nodes ?s = gy_nodes s" "gy_buried ?s = gy_buried s" "gy_issued ?s = gy_issued s" "gy_mail ?s = mail" by simp_all
  have "\<forall>t \<in> gy_buried s i. t |\<in>| os_tombstones (gn_set n) \<or> dead ?s t" if "fmlookup (gy_nodes s) i = Some n" for i n
    using sets_invD(6)[OF inv that] d by blast
  moreover have "parcel_ok ?s p" if "p \<in> set mail" for p using p[OF that] by (simp add: parcel_ok_def)
  ultimately show ?thesis
    using sets_inv_mail(1)[OF inv a a] sets_invD(1-5,7)[OF inv] unfolding sets_inv_def same by auto
qed

lemma live_set: "live n e t \<longleftrightarrow> t |\<in>| tags_at (fst (os_state (gn_set n))) e"
  by (simp add: live_def)

lemma ok_parts: "os_ok r \<Longrightarrow> os_inv r \<and> or_inv (os_state r) \<and> tags_unique (os_elements r)"
  by (simp add: os_ok_def os_inv_def)

text \<open>The operations of a replica keep the invariant.\<close>

lemma add_inv:
  assumes inv: "sets_inv s" and i: "fmlookup (gy_nodes s) i = Some n" and a: "ORSet_Add (Some (gn_set n)) e now = (Some r, out)"
  shows "sets_inv (put_set s i n r)"
proof -
  note n = sets_invD[OF inv i]
  have ok: "os_ok r" using Add_ok[OF n(1), of e now] a n(1) by (cases out) auto
  obtain t0 where t0: "\<And>x t. t |\<in>| tags_at (os_elements r) x \<Longrightarrow> live n x t \<or> x = e \<and> t = t0 \<and> fresh_pair i (gn_set n) r t"
    "os_tombstones r = os_tombstones (gn_set n)" "os_replicaID r = i" "clock_at (gn_set n) \<le> clock_at r"
    using ok_parts[OF n(1), THEN conjunct1] a
  proof (cases rule: Add_stamp)
    case 1
    then show thesis using that n(2) by (auto simp: live_def)
  next
    case (2 t)
    have "u |\<in>| tags_at (os_elements r) x \<Longrightarrow> live n x u \<or> x = e \<and> u = t \<and> fresh_pair i (gn_set n) r u" for x u
      using 2 n(2) by (auto simp: live_def fresh_pair_def split: if_splits)
    then show thesis using that[of t] 2 n(2) by simp
  qed
  have live: "afloat s x t \<or> fresh_pair i (gn_set n) r t" if "t |\<in>| tags_at (os_elements r) x" for x t
    using t0(1)[OF that] afloatI(1)[OF i] by blast
  show ?thesis
  proof (rule put_set_inv[OF inv i ok t0(3,4) live])
    show "x = y" if "t |\<in>| tags_at (os_elements r) x" "u |\<in>| tags_at (os_elements r) y" "fresh_pair i (gn_set n) r t" "fresh_pair i (gn_set n) r u" for x y t u
      using t0(1)[OF that(1)] t0(1)[OF that(2)] n(5) fresh_not_issued[OF inv i] that(3,4) by blast
    show "t \<in> gy_issued s" if "t |\<in>| os_tombstones r" for t using that n(3,4) by (auto simp: t0(2))
    show "t |\<in>| os_tombstones r \<or> dead s t" if "t \<in> gy_buried s i" for t using n(6)[OF that] by (simp add: t0(2))
  qed
qed

text \<open>For the other operations nothing is fresh.\<close>

lemma old_inv:
  assumes inv: "sets_inv s" and i: "fmlookup (gy_nodes s) i = Some n" and r: "os_ok r" "os_replicaID r = i" "clock_at (gn_set n) \<le> clock_at r"
    and live: "\<And>e t. t |\<in>| tags_at (os_elements r) e \<Longrightarrow> afloat s e t"
    and old: "\<And>t. t |\<in>| os_tombstones r \<Longrightarrow> t \<in> gy_issued s"
    and buried: "\<And>t. t \<in> gy_buried s i \<Longrightarrow> t |\<in>| os_tombstones r \<or> dead s t"
  shows "sets_inv (put_set s i n r)"
proof -
  have no: "\<not> fresh_pair i (gn_set n) r t" if "t |\<in>| tags_at (os_elements r) e" for e t
    using live[OF that] afloat_issued[OF inv] fresh_not_issued[OF inv i] by blast
  show ?thesis by (rule put_set_inv[OF inv i r]) (use live no old buried in blast)+
qed

lemma remove_inv:
  assumes inv: "sets_inv s" and i: "fmlookup (gy_nodes s) i = Some n" and a: "ORSet_Remove (Some (gn_set n)) e = (Some r, out)"
  shows "sets_inv (put_set s i n r)"
proof -
  note n = sets_invD[OF inv i]
  have r: "r = gn_set n\<lparr>os_tombstones := tags_at (os_elements (gn_set n)) e |\<union>| os_tombstones (gn_set n), os_elements := fmdrop e (os_elements (gn_set n))\<rparr>"
    using Remove_eq ok_parts[OF n(1)] a by fastforce
  have ok: "os_ok r" using Remove_ok[OF n(1), of e] a n(1) by (cases out) auto
  show ?thesis
  proof (rule old_inv[OF inv i ok])
    show "t \<in> gy_issued s" if "t |\<in>| os_tombstones r" for t
      using that n(3,4) n(5)[of e t] by (auto simp: r live_def)
    show "t |\<in>| os_tombstones r \<or> dead s t" if "t \<in> gy_buried s i" for t using n(6)[OF that] by (auto simp: r)
    show "afloat s x t" if "t |\<in>| tags_at (os_elements r) x" for x t
      using that by (intro afloatI(1)[OF i]) (auto simp: r live_def split: if_splits)
  qed (use n(2) in \<open>simp_all add: r clock_at_def\<close>)
qed

text \<open>Joining what another replica or a parcel has.\<close>

lemma join_inv:
  assumes inv: "sets_inv s" and i: "fmlookup (gy_nodes s) i = Some n"
    and ok: "os_ok r" "os_replicaID r = i" "clock_at (gn_set n) \<le> clock_at r"
    and r: "os_state r = os_state (gn_set n) \<or> os_state r = or_join (os_state (gn_set n)) st"
    and st: "\<And>e t. t |\<in>| tags_at (fst st) e \<Longrightarrow> afloat s e t" "fset (snd st) \<subseteq> gy_issued s"
  shows "sets_inv (put_set s i n r)"
proof -
  note n = sets_invD[OF inv i]
  have np: "or_inv (os_state (gn_set n))" using ok_parts[OF n(1)] by auto
  have lr: "(t |\<in>| tags_at (os_elements r) e \<longrightarrow> live n e t \<or> t |\<in>| tags_at (fst st) e) \<and> (t |\<in>| os_tombstones (gn_set n) \<longrightarrow> t |\<in>| os_tombstones r) \<and>
      (t |\<in>| os_tombstones r \<longrightarrow> t |\<in>| os_tombstones (gn_set n) \<or> t |\<in>| snd st)" for e t
    using r
  proof
    assume "os_state r = or_join (os_state (gn_set n)) st"
    then have j: "os_elements r = fst (or_join (os_state (gn_set n)) st)" "os_tombstones r = snd (or_join (os_state (gn_set n)) st)"
      by (metis fst_conv, metis snd_conv)
    show ?thesis unfolding j or_join_live[OF np] by (auto simp: live_def)
  qed (simp add: live_def)
  show ?thesis
  proof (rule old_inv[OF inv i ok])
    show "t \<in> gy_issued s" if "t |\<in>| os_tombstones r" for t
    proof -
      have "t |\<in>| os_tombstones (gn_set n) \<or> t |\<in>| snd st" using that lr by blast
      then show ?thesis using n(3,4) st(2) by auto
    qed
    show "t |\<in>| os_tombstones r \<or> dead s t" if "t \<in> gy_buried s i" for t using n(6)[OF that] lr[of t] by auto
    show "afloat s x t" if "t |\<in>| tags_at (os_elements r) x" for x t using that lr st(1) afloatI(1)[OF i] by blast
  qed
qed

lemma merge_inv:
  assumes inv: "sets_inv s" and i: "fmlookup (gy_nodes s) i = Some n" and q: "os_ok q"
    and st: "\<And>e t. t |\<in>| tags_at (os_elements q) e \<Longrightarrow> afloat s e t" "fset (os_tombstones q) \<subseteq> gy_issued s"
    and a: "ORSet_Merge (Some (gn_set n)) (Some q) now = (Some r, out)"
  shows "sets_inv (put_set s i n r)"
proof -
  note n = sets_invD[OF inv i]
  have np: "os_inv (gn_set n)" "os_inv q" using ok_parts[OF n(1)] ok_parts[OF q] by auto
  have agree: "tags_agree (os_elements (gn_set n)) (os_elements q)"
    unfolding tags_agree_def using sets_inv_mail(1)[OF inv] afloatI(1)[OF i] st(1) by (metis live_def)
  have ok: "os_ok r" using Merge_ok[OF n(1) q agree, of now] a n(1) by (cases out) auto
  have r: "os_state r = os_state (gn_set n) \<or> os_state r = or_join (os_state (gn_set n)) (os_state q)"
    using Merge_safe[OF np, of now] a by (cases out) auto
  show ?thesis using Merge_stamp[OF np(1) a] n(2) st by (intro join_inv[OF inv i ok _ _ r]) auto
qed

lemma deliver_parcel_inv:
  assumes inv: "sets_inv s" and i: "fmlookup (gy_nodes s) i = Some n" and p: "p \<in> set (gy_mail s)" and a: "deliver_parcel p (gn_set n) now = (Some r, out)"
  shows "sets_inv (put_set s i n r)"
proof -
  note n = sets_invD[OF inv i]
  have st: "afloat s e t" if "t |\<in>| tags_at (fst (parcel_state p)) e" for e t
    using afloatI(2)[OF p, of e t] that by (simp add: carries_def)
  have P: "parcel_ok s p" by (rule sets_inv_mail(2)[OF inv p])
  show ?thesis
  proof (cases p)
    case (StateParcel q)
    then show ?thesis using merge_inv[OF inv i, of q now r out] P st a by (auto simp: parcel_ok_def)
  next
    case (DeltaParcel d)
    then have d: "ORSet_ApplyDelta (Some (gn_set n)) d now = (Some r, out)" using a by simp
    have np: "os_inv (gn_set n)" using ok_parts[OF n(1)] by auto
    have agree: "tags_agree (os_elements (gn_set n)) (od_adds d)"
      unfolding tags_agree_def using sets_inv_mail(1)[OF inv] afloatI(1)[OF i] st DeltaParcel by (metis fst_conv live_def parcel_state.simps(1))
    have ok: "os_ok r" using ApplyDelta_ok[OF n(1) agree, of now] d n(1) by (cases out) auto
    have r: "os_state r = os_state (gn_set n) \<or> os_state r = or_join (os_state (gn_set n)) (od_state d)"
      using ApplyDelta_safe[OF np, of d now] d by (cases out) auto
    show ?thesis using ApplyDelta_stamp[OF np d] n(2) st P DeltaParcel by (intro join_inv[OF inv i ok _ _ r]) (auto simp: parcel_ok_def)
  qed
qed

lemma compact_inv:
  assumes inv: "sets_inv s" and i: "fmlookup (gy_nodes s) i = Some n" and a: "compact_target orset_target (Some (gn_set n)) tags = (Some r, out)"
    and d: "\<forall>t \<in> set tags. dead s t"
  shows "sets_inv (put_set s i n r)"
proof -
  note n = sets_invD[OF inv i]
  have "ORSet_CompactTombstones (Some (gn_set n)) tags = (Some r, out)" using a by (simp add: compact_target_def orset_target_def)
  then have "r = gn_set n \<or> r = gn_set n\<lparr>os_tombstones := os_tombstones (gn_set n) |-| fset_of_list tags\<rparr>"
    by (auto simp: CompactTombstones_eq split: if_splits)
  then obtain T where r: "r = gn_set n\<lparr>os_tombstones := T\<rparr>" "T |\<subseteq>| os_tombstones (gn_set n)" "\<And>t. t |\<in>| os_tombstones (gn_set n) \<Longrightarrow> t |\<in>| T \<or> t \<in> set tags"
  proof
    assume "r = gn_set n"
    then show thesis using that[of "os_tombstones (gn_set n)"] by simp
  next
    assume "r = gn_set n\<lparr>os_tombstones := os_tombstones (gn_set n) |-| fset_of_list tags\<rparr>"
    then show thesis using that[of "os_tombstones (gn_set n) |-| fset_of_list tags"] by (auto simp: fset_of_list_elem)
  qed
  have ok: "os_ok r" using shrink_tombstones_ok[OF n(1) r(2)] r(1) by simp
  show ?thesis
  proof (rule old_inv[OF inv i ok])
    show "t \<in> gy_issued s" if "t |\<in>| os_tombstones r" for t using that r n(3,4) by auto
    show "t |\<in>| os_tombstones r \<or> dead s t" if "t \<in> gy_buried s i" for t using n(6)[OF that] r(1,3) d by auto
    show "afloat s x t" if "t |\<in>| tags_at (os_elements r) x" for x t
      using that r(1) by (intro afloatI(1)[OF i]) (auto simp: live_def)
  qed (use n(2) r(1) in \<open>simp_all add: clock_at_def\<close>)
qed

section \<open>Coordinators and views\<close>

lemma views_invD:
  assumes "views_inv s G E"
  shows "fmlookup (gy_nodes s) i = Some n \<Longrightarrow> tc_inv (gn_co n) \<and> tc_members (gn_co n) = fmdom (gy_nodes s) \<and> tc_groupID (gn_co n) = G \<and> tc_epoch (gn_co n) = E"
    "fmlookup (gy_nodes s) i = Some n \<Longrightarrow> (m, t) \<in> acked (gn_co n) \<Longrightarrow> t \<in> gy_buried s m"
    "(g, m, e, ts) \<in> set (gy_reports s) \<Longrightarrow> g = G \<and> e \<le> E \<and> (e = E \<longrightarrow> set ts \<subseteq> gy_buried s m)"
    "(i, Acking g m e ts candidates) \<in> set (gy_calls s) \<Longrightarrow> (g, m, e, ts) \<in> set (gy_reports s)"
    "(i, Compacting tags) \<in> set (gy_calls s) \<Longrightarrow> t \<in> set tags \<Longrightarrow> doomed s t"
  using assms unfolding views_inv_def by (fastforce split: prod.splits)+

lemma views_invI:
  assumes "gy_nodes s \<noteq> fmempty"
    and "\<And>i n. fmlookup (gy_nodes s) i = Some n \<Longrightarrow> tc_inv (gn_co n) \<and> tc_members (gn_co n) = fmdom (gy_nodes s) \<and> tc_groupID (gn_co n) = G \<and> tc_epoch (gn_co n) = E"
    and "\<And>i n m t. fmlookup (gy_nodes s) i = Some n \<Longrightarrow> (m, t) \<in> acked (gn_co n) \<Longrightarrow> t \<in> gy_buried s m"
    and "\<And>g m e ts. (g, m, e, ts) \<in> set (gy_reports s) \<Longrightarrow> g = G \<and> e \<le> E \<and> (e = E \<longrightarrow> set ts \<subseteq> gy_buried s m)"
    and "\<And>i g m e ts candidates. (i, Acking g m e ts candidates) \<in> set (gy_calls s) \<Longrightarrow> (g, m, e, ts) \<in> set (gy_reports s)"
    and "\<And>i tags t. (i, Compacting tags) \<in> set (gy_calls s) \<Longrightarrow> t \<in> set tags \<Longrightarrow> doomed s t"
  shows "views_inv s G E"
proof -
  have "case call of Acking g m e ts candidates \<Rightarrow> (g, m, e, ts) \<in> set (gy_reports s) | Compacting tags \<Rightarrow> \<forall>t \<in> set tags. doomed s t"
    if "(i, call) \<in> set (gy_calls s)" for i call
    using that assms(5,6) by (cases call; simp; blast)
  then show ?thesis unfolding views_inv_def using assms(1-4) by blast
qed

text \<open>A set changes: what is buried grows, calls are at most dropped.\<close>

lemma put_set_views:
  assumes "views_inv s G E" and "fmlookup (gy_nodes s) i = Some n" and "set calls \<subseteq> set (gy_calls s)"
  shows "views_inv (put_set s i n r\<lparr>gy_calls := calls\<rparr>) G E"
proof -
  have dom: "finsert i (fmdom (gy_nodes s)) = fmdom (gy_nodes s)" using assms(2) by (simp add: finsert_absorb fmlookup_dom_iff)
  have same: "\<exists>l p. fmlookup (gy_nodes s) l = Some p \<and> gn_co q = gn_co p" if "fmlookup (gy_nodes (put_set s i n r)) k = Some q" for k q
    using that assms(2) by (fastforce simp: put_set_def split: if_splits)
  have sub: "gy_buried s m \<subseteq> gy_buried (put_set s i n r) m" for m by (auto simp: put_set_def)
  have fields: "gy_reports (put_set s i n r) = gy_reports s" "fmdom (gy_nodes (put_set s i n r)) = fmdom (gy_nodes s)" "gy_nodes (put_set s i n r) \<noteq> fmempty"
    using dom by (auto simp: put_set_def)
  have d: "doomed (put_set s i n r\<lparr>gy_calls := calls\<rparr>) t" if "doomed s t" for t
    using that sub fields(2) by (auto simp: doomed_def put_set_def)
  show ?thesis
  proof (rule views_invI)
    let ?s = "put_set s i n r\<lparr>gy_calls := calls\<rparr>"
    fix k q assume "fmlookup (gy_nodes ?s) k = Some q"
    then have "fmlookup (gy_nodes (put_set s i n r)) k = Some q" by simp
    from same[OF this] obtain l p where p: "fmlookup (gy_nodes s) l = Some p" "gn_co q = gn_co p" by blast
    show "tc_inv (gn_co q) \<and> tc_members (gn_co q) = fmdom (gy_nodes ?s) \<and> tc_groupID (gn_co q) = G \<and> tc_epoch (gn_co q) = E"
      using views_invD(1)[OF assms(1) p(1)] p(2) fields by simp
    show "t \<in> gy_buried ?s m" if "(m, t) \<in> acked (gn_co q)" for m t
      using views_invD(2)[OF assms(1) p(1)] p(2) that sub by auto
  next
    show "g = G \<and> e \<le> E \<and> (e = E \<longrightarrow> set ts \<subseteq> gy_buried (put_set s i n r\<lparr>gy_calls := calls\<rparr>) m)"
      if "(g, m, e, ts) \<in> set (gy_reports (put_set s i n r\<lparr>gy_calls := calls\<rparr>))" for g m e ts
      using views_invD(3)[OF assms(1), of g m e ts] that sub[of m] fields by auto
    show "doomed (put_set s i n r\<lparr>gy_calls := calls\<rparr>) t" if "(k, Compacting tags) \<in> set (gy_calls (put_set s i n r\<lparr>gy_calls := calls\<rparr>))" "t \<in> set tags" for k tags t
      using that assms(3) by (intro d views_invD(5)[OF assms(1)]) auto
  qed (use views_invD(4)[OF assms(1)] assms(3) fields in auto)
qed

text \<open>A coordinator changes: what it has acknowledged was buried.\<close>

lemma put_co_same:
  "gy_buried (put_co s i n c) = gy_buried s" "gy_issued (put_co s i n c) = gy_issued s" "gy_reports (put_co s i n c) = gy_reports s"
  "gy_calls (put_co s i n c) = gy_calls s" "gy_mail (put_co s i n c) = gy_mail s"
  "fmlookup (gy_nodes (put_co s i n c)) j = (if j = i then Some (n\<lparr>gn_co := c\<rparr>) else fmlookup (gy_nodes s) j)"
  by (simp_all add: put_co_def)

lemma put_co_doomed: "fmlookup (gy_nodes s) i = Some n \<Longrightarrow> doomed (put_co s i n c\<lparr>gy_calls := calls\<rparr>) t \<longleftrightarrow> doomed s t"
  by (auto simp: doomed_def put_co_def fmlookup_dom_iff)

text \<open>The replicas' sets and what travels do not grow.\<close>

lemma sets_inv_cong:
  assumes inv: "sets_inv s" and same: "\<And>k q. fmlookup (gy_nodes s') k = Some q \<Longrightarrow> \<exists>p. fmlookup (gy_nodes s) k = Some p \<and> gn_set q = gn_set p"
    and ghost: "gy_buried s' = gy_buried s" "gy_issued s' = gy_issued s" "gy_mail s' = gy_mail s"
  shows "sets_inv s'"
proof -
  have a: "afloat s e t" if "afloat s' e t" for e t
    using that same unfolding afloat_def ghost by (metis live_def)
  then have d: "dead s t \<Longrightarrow> dead s' t" for t by (auto simp: dead_def ghost)
  have "os_ok (gn_set q) \<and> os_replicaID (gn_set q) = k \<and> fset (os_tombstones (gn_set q)) \<subseteq> gy_buried s' k \<and> gy_buried s' k \<subseteq> gy_issued s' \<and>
      (\<forall>e t. live q e t \<longrightarrow> t \<in> gy_issued s' \<and> t \<notin> gy_buried s' k) \<and> (\<forall>t \<in> gy_buried s' k. t |\<in>| os_tombstones (gn_set q) \<or> dead s' t) \<and>
      (\<forall>t \<in> gy_issued s'. ReplicaID t = k \<longrightarrow> tag_stamp t \<le> clock_at (gn_set q))" if q: "fmlookup (gy_nodes s') k = Some q" for k q
  proof -
    obtain p where p: "fmlookup (gy_nodes s) k = Some p" "gn_set q = gn_set p" using same[OF q] by blast
    note P = sets_invD[OF inv p(1)]
    have "live q e t \<longleftrightarrow> live p e t" for e t by (simp add: live_def p(2))
    moreover have "\<forall>t \<in> gy_buried s k. t |\<in>| os_tombstones (gn_set p) \<or> dead s' t" using P(6) d by blast
    ultimately show ?thesis unfolding ghost p(2) using P(1-5,7) by auto
  qed
  moreover have "parcel_ok s' p" if "p \<in> set (gy_mail s')" for p using sets_inv_mail(2)[OF inv, of p] that by (simp add: parcel_ok_def ghost)
  ultimately show ?thesis using a sets_inv_mail(1)[OF inv] unfolding sets_inv_def by blast
qed

lemma put_co_sets: "sets_inv s \<Longrightarrow> fmlookup (gy_nodes s) i = Some n \<Longrightarrow> sets_inv (put_co s i n c\<lparr>gy_calls := calls\<rparr>)"
  by (erule sets_inv_cong) (auto simp: put_co_same split: if_splits)

lemma put_co_views:
  assumes inv: "views_inv s G E" and i: "fmlookup (gy_nodes s) i = Some n"
    and c: "tc_inv c" "tc_members c = tc_members (gn_co n)" "tc_groupID c = tc_groupID (gn_co n)" "tc_epoch c = tc_epoch (gn_co n)"
    and acked: "\<And>m t. (m, t) \<in> acked c \<Longrightarrow> t \<in> gy_buried s m"
    and calls: "\<And>k call. (k, call) \<in> set calls \<Longrightarrow> (k, call) \<in> set (gy_calls s) \<or> (\<exists>tags. call = Compacting tags \<and> (\<forall>t \<in> set tags. doomed s t))"
  shows "views_inv (put_co s i n c\<lparr>gy_calls := calls\<rparr>) G E"
proof -
  let ?s = "put_co s i n c\<lparr>gy_calls := calls\<rparr>"
  have dom: "finsert i (fmdom (gy_nodes s)) = fmdom (gy_nodes s)" using i by (simp add: finsert_absorb fmlookup_dom_iff)
  have fields: "fmdom (gy_nodes (put_co s i n c)) = fmdom (gy_nodes s)" "gy_nodes (put_co s i n c) \<noteq> fmempty" using dom by (auto simp: put_co_def)
  show ?thesis
  proof (rule views_invI)
    fix k q assume k: "fmlookup (gy_nodes ?s) k = Some q"
    have "gn_co q = c \<or> fmlookup (gy_nodes s) k = Some q" using k by (auto simp: put_co_same split: if_splits)
    then show "tc_inv (gn_co q) \<and> tc_members (gn_co q) = fmdom (gy_nodes ?s) \<and> tc_groupID (gn_co q) = G \<and> tc_epoch (gn_co q) = E"
      using views_invD(1)[OF inv i] views_invD(1)[OF inv, of k q] c fields by auto
    show "t \<in> gy_buried ?s m" if "(m, t) \<in> acked (gn_co q)" for m t
      using \<open>gn_co q = c \<or> fmlookup (gy_nodes s) k = Some q\<close> views_invD(2)[OF inv, of k q] acked that by (auto simp: put_co_same)
  next
    show "(g, m, e, ts) \<in> set (gy_reports ?s)" if "(k, Acking g m e ts candidates) \<in> set (gy_calls ?s)" for k g m e ts candidates
      using that calls[of k "Acking g m e ts candidates"] views_invD(4)[OF inv] by (auto simp: put_co_same)
    show "doomed ?s t" if "(k, Compacting tags) \<in> set (gy_calls ?s)" "t \<in> set tags" for k tags t
      using that calls[of k "Compacting tags"] views_invD(5)[OF inv] unfolding put_co_doomed[OF i] by auto
  qed (use views_invD(3)[OF inv] fields in \<open>auto simp: put_co_same\<close>)
qed

text \<open>A report of the current view is true: its tags were buried. So an acknowledgement records only what was buried.\<close>

lemma acknowledge_views:
  assumes inv: "views_inv s G E" and i: "fmlookup (gy_nodes s) i = Some n" and rep: "(g, m, e, ts) \<in> set (gy_reports s)"
    and a: "acknowledgeLocked (gn_co n) g m e ts = (c, out)"
  shows "tc_inv c \<and> tc_members c = tc_members (gn_co n) \<and> tc_groupID c = tc_groupID (gn_co n) \<and> tc_epoch c = tc_epoch (gn_co n) \<and>
    (\<forall>k t. (k, t) \<in> acked c \<longrightarrow> t \<in> gy_buried s k)"
proof -
  note n = views_invD(1)[OF inv i]
  from n have "tc_inv (gn_co n)" by blast
  from acknowledgeLocked_spec[OF this, of g e m ts] a show ?thesis
    using n views_invD(2)[OF inv i] views_invD(3)[OF inv rep] by (auto split: if_splits)
qed

text \<open>What is selected was buried by every member; a tag that all have buried and no parcel carries is dead.\<close>

lemma selected_doomed:
  assumes sets: "sets_inv s" and inv: "views_inv s G E" and i: "fmlookup (gy_nodes s) i = Some n"
    and c: "tc_inv c" "tc_members c = tc_members (gn_co n)" "\<And>k t. (k, t) \<in> acked c \<Longrightarrow> t \<in> gy_buried s k"
    and t: "t \<in> set (stableTombstonesLocked c candidates)"
  shows "doomed s t"
proof -
  have all: "t \<in> gy_buried s k" if "k |\<in>| fmdom (gy_nodes s)" for k
    using t that stable_iff[OF c(1)] c(2,3) views_invD(1)[OF inv i] by auto
  have "t \<in> gy_issued s" using all[of i] i sets_invD(4)[OF sets i] by (auto simp: fmlookup_dom_iff)
  with all show ?thesis by (simp add: doomed_def)
qed

lemma doomed_dead:
  assumes "sets_inv s" and "doomed s t" and "\<forall>p \<in> set (gy_mail s). \<forall>e. \<not> carries p e t"
  shows "dead s t"
proof -
  have "\<not> live q e t" if "fmlookup (gy_nodes s) k = Some q" for k q e
    using sets_invD(5)[OF assms(1) that] assms(2) that by (auto simp: doomed_def fmlookup_dom_iff)
  with assms(2,3) show ?thesis by (auto simp: dead_def doomed_def afloat_def)
qed

lemma new_set_ok:
  assumes "NewORSetFromClock saved codec = Inr r"
  shows "os_ok r" "os_replicaID r = st_ReplicaID saved" "os_tombstones r = {||}" "tags_at (os_elements r) e = {||}"
  using assms
  by (auto simp: NewORSetFromClock_def bindElementCodec_def NewHLCFromState_def os_ok_def os_inv_def or_inv_def adds_normal_def clock_covers_def hlc_inv_def
      has_tag_def tags_unique_def Tag_Valid_def split: option.splits sum.splits if_splits)

text \<open>A new view: coordinators start over, and an admitted replica has no tags.\<close>

lemma admitted_parts:
  assumes "admitted s v m n"
  shows "os_ok (gn_set n)" "os_replicaID (gn_set n) = m" "os_tombstones (gn_set n) = {||}" "\<not> live n e t"
    "t \<in> gy_issued s \<Longrightarrow> ReplicaID t = m \<Longrightarrow> tag_stamp t \<le> clock_at (gn_set n)"
    "NewCoordinatorAtMembership v = Inr (gn_co n)"
proof -
  obtain saved codec where a: "st_ReplicaID saved = m" "NewORSetFromClock saved codec = Inr (gn_set n)" "NewCoordinatorAtMembership v = Inr (gn_co n)"
    "\<forall>t \<in> gy_issued s. ReplicaID t = m \<longrightarrow> tag_stamp t \<le> clock_at (gn_set n)"
    using assms by (auto simp: admitted_def)
  then show "NewCoordinatorAtMembership v = Inr (gn_co n)" "t \<in> gy_issued s \<Longrightarrow> ReplicaID t = m \<Longrightarrow> tag_stamp t \<le> clock_at (gn_set n)" by auto
  show "os_ok (gn_set n)" "os_replicaID (gn_set n) = m" "os_tombstones (gn_set n) = {||}" "\<not> live n e t"
    using a(1) new_set_ok[OF a(2)] by (auto simp: live_def)
qed

lemma view_sets:
  assumes inv: "sets_inv s" and nodes: "\<And>m n'. fmlookup nodes m = Some n' \<Longrightarrow>
      (case fmlookup (gy_nodes s) m of Some n \<Rightarrow> n' = n\<lparr>gn_co := co m\<rparr> | None \<Rightarrow> admitted s v m n')"
  shows "sets_inv (s\<lparr>gy_nodes := nodes, gy_buried := \<lambda>m. if m |\<in>| fmdom (gy_nodes s) then gy_buried s m else {}\<rparr>)" (is "sets_inv ?s")
proof -
  have cases: "(\<exists>p. fmlookup (gy_nodes s) k = Some p \<and> gn_set q = gn_set p \<and> gy_buried ?s k = gy_buried s k) \<or>
      (admitted s v k q \<and> gy_buried ?s k = {})" if "fmlookup nodes k = Some q" for k q
    using nodes[OF that] by (auto simp: fmlookup_dom_iff split: option.splits)
  have live: "\<exists>p. fmlookup (gy_nodes s) k = Some p \<and> live p e t" if "fmlookup nodes k = Some q" "live q e t" for k q e t
    using cases[OF that(1)] that(2) admitted_parts(4)[of s v k q e t] by (auto simp: live_def)
  have a: "afloat s e t" if "afloat ?s e t" for e t using that live unfolding afloat_def by fastforce
  then have dead: "dead s t \<Longrightarrow> dead ?s t" for t by (auto simp: dead_def)
  have "os_ok (gn_set q) \<and> os_replicaID (gn_set q) = k \<and> fset (os_tombstones (gn_set q)) \<subseteq> gy_buried ?s k \<and> gy_buried ?s k \<subseteq> gy_issued ?s \<and>
      (\<forall>e t. live q e t \<longrightarrow> t \<in> gy_issued ?s \<and> t \<notin> gy_buried ?s k) \<and> (\<forall>t \<in> gy_buried ?s k. t |\<in>| os_tombstones (gn_set q) \<or> dead ?s t) \<and>
      (\<forall>t \<in> gy_issued ?s. ReplicaID t = k \<longrightarrow> tag_stamp t \<le> clock_at (gn_set q))" if q: "fmlookup (gy_nodes ?s) k = Some q" for k q
  proof -
    have "fmlookup nodes k = Some q" using q by simp
    from cases[OF this] show ?thesis
    proof
      assume "\<exists>p. fmlookup (gy_nodes s) k = Some p \<and> gn_set q = gn_set p \<and> gy_buried ?s k = gy_buried s k"
      then obtain p where p: "fmlookup (gy_nodes s) k = Some p" "gn_set q = gn_set p" and b: "gy_buried ?s k = gy_buried s k" by blast
      note P = sets_invD[OF inv p(1)]
      have "\<forall>t \<in> gy_buried s k. t |\<in>| os_tombstones (gn_set p) \<or> dead ?s t" using P(6) dead by blast
      moreover have "live q e t \<longleftrightarrow> live p e t" for e t by (simp add: live_def p(2))
      ultimately show ?thesis unfolding b p(2) using P(1-5,7) by auto
    next
      assume a: "admitted s v k q \<and> gy_buried ?s k = {}"
      then show ?thesis using admitted_parts[of s v k q] by auto
    qed
  qed
  moreover have "parcel_ok ?s p" if "p \<in> set (gy_mail ?s)" for p using sets_inv_mail(2)[OF inv, of p] that by (simp add: parcel_ok_def)
  ultimately show ?thesis using a sets_inv_mail(1)[OF inv] unfolding sets_inv_def by blast
qed

lemma replaced_parts:
  assumes "tc_inv c" and "int (length ms) \<le> max_int" and "ReplaceMembership (Some c) ms = (Some c', Inr v)"
  shows "tc_inv c'" "tc_members c' = fset_of_list ms" "tc_groupID c' = tc_groupID c" "tc_epoch c' = tc_epoch c + 1" "acked c' = {}"
    "tc_epoch c \<noteq> max_u64" "valid_members ms" "v = \<lparr>gm_GroupID = tc_groupID c, gm_Epoch = tc_epoch c + 1, gm_Members = sort ms\<rparr>"
proof -
  have "refines c (ReplaceMembership (Some c) ms) (spec_replace (gc_abs c) ms)" by (rule Replace_refines[OF assms(1,2)])
  then have *: "tc_inv c'" "spec_replace (gc_abs c) ms = (gc_abs c', Inr v)" by (cases "spec_replace (gc_abs c) ms"; simp add: refines_def assms(3))+
  then show "tc_inv c'" "tc_groupID c' = tc_groupID c" "tc_epoch c' = tc_epoch c + 1" "acked c' = {}" "tc_epoch c \<noteq> max_u64" "valid_members ms"
    "v = \<lparr>gm_GroupID = tc_groupID c, gm_Epoch = tc_epoch c + 1, gm_Members = sort ms\<rparr>"
    by (auto simp: spec_replace_def gc_abs_def split: if_splits)
  have "fset (tc_members c') = set ms" using *(2) by (auto simp: spec_replace_def gc_abs_def split: if_splits)
  then show "tc_members c' = fset_of_list ms" by (metis fset_inject fset_of_list.rep_eq)
qed

lemma joined_parts:
  assumes "NewCoordinatorAtMembership \<lparr>gm_GroupID = G, gm_Epoch = E, gm_Members = sort ms\<rparr> = Inr c" and "valid_members ms" and "int (length ms) \<le> max_int"
  shows "tc_inv c" "tc_members c = fset_of_list ms" "tc_groupID c = G" "tc_epoch c = E" "acked c = {}"
proof -
  have v: "valid_members (sort ms)" using assms(2) by (auto simp: valid_members_def) (metis length_0_conv length_sort)
  have f: "fset_of_list (sort ms) = fset_of_list ms" by (metis fset_inject fset_of_list.rep_eq set_sort)
  have c: "c = \<lparr>tc_groupID = G, tc_epoch = E, tc_members = fset_of_list ms, tc_acknowledgements = fmempty,
      tc_acknowledgementCounts = fmempty, tc_acknowledgementEntries = 0\<rparr>"
    using assms(1) v f by (auto simp: NewCoordinatorAtMembership_def validateMembers_iff split: if_splits)
  show "tc_inv c" "acked c = {}" by (rule fresh_inv[OF assms(2,3)]; simp add: c)+
  show "tc_members c = fset_of_list ms" "tc_groupID c = G" "tc_epoch c = E" by (simp_all add: c)
qed

lemma view_views:
  assumes inv: "views_inv s G E" and calls: "gy_calls s = []" and len: "int (length ms) \<le> max_int"
    and co: "\<And>m n. fmlookup (gy_nodes s) m = Some n \<Longrightarrow> ReplaceMembership (Some (gn_co n)) ms = (Some (co m), Inr v)"
    and dom: "fmdom nodes = fset_of_list ms" and nodes: "\<And>m n'. fmlookup nodes m = Some n' \<Longrightarrow>
      (case fmlookup (gy_nodes s) m of Some n \<Rightarrow> n' = n\<lparr>gn_co := co m\<rparr> | None \<Rightarrow> admitted s v m n')"
  shows "views_inv (s\<lparr>gy_nodes := nodes, gy_buried := \<lambda>m. if m |\<in>| fmdom (gy_nodes s) then gy_buried s m else {}\<rparr>) G (E + 1)" (is "views_inv ?s _ _")
proof -
  have "gy_nodes s \<noteq> fmempty" using inv by (simp add: views_inv_def)
  then obtain i n where i: "fmlookup (gy_nodes s) i = Some n" by (metis fmap_ext fmempty_lookup not_None_eq)
  note n = views_invD(1)[OF inv i]
  have R: "tc_inv (co m)" "tc_members (co m) = fset_of_list ms" "tc_groupID (co m) = G" "tc_epoch (co m) = E + 1" "acked (co m) = {}"
    if "fmlookup (gy_nodes s) m = Some p" for m p
    using replaced_parts[OF _ len co[OF that]] views_invD(1)[OF inv that] by auto
  have vw: "E \<noteq> max_u64" "valid_members ms" "v = \<lparr>gm_GroupID = G, gm_Epoch = E + 1, gm_Members = sort ms\<rparr>"
    using replaced_parts[OF _ len co[OF i]] n by auto
  have new: "tc_inv (gn_co q) \<and> tc_members (gn_co q) = fset_of_list ms \<and> tc_groupID (gn_co q) = G \<and> tc_epoch (gn_co q) = E + 1 \<and> acked (gn_co q) = {}"
    if "fmlookup nodes k = Some q" for k q
  proof (cases "fmlookup (gy_nodes s) k")
    case None
    with nodes[OF that] have "admitted s v k q" by simp
    from joined_parts[OF admitted_parts(6)[OF this, unfolded vw(3)] vw(2) len] show ?thesis by simp
  next
    case (Some p)
    with nodes[OF that] R[OF Some] show ?thesis by simp
  qed
  have "fset_of_list ms \<noteq> {||}" using vw(2) by (cases ms) (auto simp: valid_members_def)
  with dom have ne: "nodes \<noteq> fmempty" by auto
  have less: "E < E + 1" using unat_succ[OF vw(1)] by (simp add: word_less_nat_alt)
  show ?thesis
  proof (rule views_invI)
    show "g = G \<and> e \<le> E + 1 \<and> (e = E + 1 \<longrightarrow> set ts \<subseteq> gy_buried ?s m)" if "(g, m, e, ts) \<in> set (gy_reports ?s)" for g m e ts
      using views_invD(3)[OF inv, of g m e ts] that less by auto
  qed (use ne new dom calls in auto)
qed

section \<open>Reachable systems\<close>

definition gc_inv :: "'e gc_sys \<Rightarrow> bool" where
  "gc_inv s \<longleftrightarrow> sets_inv s \<and> (\<exists>G E. views_inv s G E)"

lemma keep_calls: "put_set s i n r = put_set s i n r\<lparr>gy_calls := gy_calls s\<rparr>" "put_co s i n c = put_co s i n c\<lparr>gy_calls := gy_calls s\<rparr>"
  by (simp_all add: put_set_def put_co_def)

lemma put_set_gc_inv:
  assumes "gc_inv s" and "fmlookup (gy_nodes s) i = Some n" and "sets_inv (put_set s i n r)" and "set calls \<subseteq> set (gy_calls s)"
  shows "gc_inv (put_set s i n r\<lparr>gy_calls := calls\<rparr>)"
proof -
  obtain G E where "views_inv s G E" using assms(1) by (auto simp: gc_inv_def)
  then have "views_inv (put_set s i n r\<lparr>gy_calls := calls\<rparr>) G E" using assms by (intro put_set_views) auto
  moreover have "sets_inv (put_set s i n r\<lparr>gy_calls := calls\<rparr>)"
    by (rule sets_inv_cong[OF assms(3)]) auto
  ultimately show ?thesis by (auto simp: gc_inv_def)
qed

lemma ghost_free:
  assumes "gc_inv s" and "gy_nodes s' = gy_nodes s" "gy_buried s' = gy_buried s" "gy_issued s' = gy_issued s" "gy_mail s' = gy_mail s"
    and "\<And>G E. views_inv s G E \<Longrightarrow> views_inv s' G E"
  shows "gc_inv s'"
proof -
  have "sets_inv s'" by (rule sets_inv_cong[of s]) (use assms in \<open>auto simp: gc_inv_def\<close>)
  moreover obtain G E where "views_inv s G E" using assms(1) by (auto simp: gc_inv_def)
  ultimately show ?thesis using assms(6) unfolding gc_inv_def by blast
qed

lemma put_co_gc_inv:
  assumes "gc_inv s" and "fmlookup (gy_nodes s) i = Some n" and "views_inv s G E" and "views_inv (put_co s i n c\<lparr>gy_calls := calls\<rparr>) G E"
  shows "gc_inv (put_co s i n c\<lparr>gy_calls := calls\<rparr>)"
  using assms put_co_sets unfolding gc_inv_def by blast

lemma ack_select_parts:
  "ack_select co g m e ts cs = (c, out) \<Longrightarrow> \<exists>r. acknowledgeLocked co g m e ts = (c, r) \<and> (\<forall>tags. out = Inr tags \<longrightarrow> tags = stableTombstonesLocked c cs)"
  by (auto simp: ack_select_def split: prod.splits sum.splits)

lemma report_inv:
  assumes inv: "gc_inv s" and i: "fmlookup (gy_nodes s) i = Some n"
  shows "gc_inv (s\<lparr>gy_reports := (tc_groupID (gn_co n), i, tc_epoch (gn_co n), ORSet_TombstoneTags (Some (gn_set n))) # gy_reports s\<rparr>)" (is "gc_inv ?s")
proof (rule ghost_free[OF inv])
  fix G E assume v: "views_inv s G E"
  have sets: "sets_inv s" using inv by (simp add: gc_inv_def)
  have new: "set (ORSet_TombstoneTags (Some (gn_set n))) \<subseteq> gy_buried s i"
    using sets_invD(3)[OF sets i] by (simp add: ORSet_TombstoneTags_def tagsToSortedSlice_eq)
  show "views_inv ?s G E"
  proof (rule views_invI)
    show "gy_nodes ?s \<noteq> fmempty" using v by (simp add: views_inv_def)
    show "g = G \<and> e \<le> E \<and> (e = E \<longrightarrow> set ts \<subseteq> gy_buried ?s m)" if "(g, m, e, ts) \<in> set (gy_reports ?s)" for g m e ts
      using that new views_invD(1)[OF v i] views_invD(3)[OF v, of g m e ts] by auto
  qed (use views_invD(1,2,4,5)[OF v] in \<open>auto simp: doomed_def\<close>)
qed simp_all

lemma call_inv:
  assumes inv: "gc_inv s" and rep: "(g, m, e, ts) \<in> set (gy_reports s)"
  shows "gc_inv (s\<lparr>gy_calls := (i, Acking g m e ts candidates) # gy_calls s\<rparr>)" (is "gc_inv ?s")
proof (rule ghost_free[OF inv])
  fix G E assume v: "views_inv s G E"
  show "views_inv ?s G E"
  proof (rule views_invI)
    show "gy_nodes ?s \<noteq> fmempty" using v by (simp add: views_inv_def)
  qed (use views_invD[OF v] rep in \<open>auto simp: doomed_def\<close>)
qed simp_all

text \<open>The coordinator's critical sections: an acknowledgement, with the selection or without, and a prune.\<close>

lemma acknowledge_inv:
  assumes inv: "gc_inv s" and i: "fmlookup (gy_nodes s) i = Some n" and rep: "(g, m, e, ts) \<in> set (gy_reports s)"
    and a: "acknowledgeLocked (gn_co n) g m e ts = (c, out)"
    and calls: "\<And>k call. (k, call) \<in> set calls \<Longrightarrow> (k, call) \<in> set (gy_calls s) \<or> (\<exists>candidates. call = Compacting (stableTombstonesLocked c candidates))"
  shows "gc_inv (put_co s i n c\<lparr>gy_calls := calls\<rparr>)"
proof -
  obtain G E where views: "views_inv s G E" and sets: "sets_inv s" using inv by (auto simp: gc_inv_def)
  note c = acknowledge_views[OF views i rep a]
  have "doomed s t" if "t \<in> set (stableTombstonesLocked c candidates)" for t candidates
    by (rule selected_doomed[OF sets views i _ _ _ that]) (use c in auto)
  with c calls show ?thesis
    by (intro put_co_gc_inv[OF inv i views] put_co_views[OF views i]) blast+
qed

lemma Acknowledge_inv:
  assumes inv: "gc_inv s" and i: "fmlookup (gy_nodes s) i = Some n" and rep: "(g, m, e, ts) \<in> set (gy_reports s)"
    and a: "Coordinator_Acknowledge (Some (gn_co n)) g m e ts = (Some c, out)"
  shows "gc_inv (put_co s i n c)"
proof (cases "validateTombstones ts = Inr ()")
  case True
  then have "acknowledgeLocked (gn_co n) g m e ts = (c, out)"
    using a by (cases "acknowledgeLocked (gn_co n) g m e ts") (auto simp: Coordinator_Acknowledge_def)
  then show ?thesis by (subst keep_calls, intro acknowledge_inv[OF inv i rep]) auto
next
  case False
  then have "c = gn_co n" using a by (auto simp: Coordinator_Acknowledge_def split: sum.splits)
  then have "fmupd i (n\<lparr>gn_co := c\<rparr>) (gy_nodes s) = gy_nodes s" using i by (intro fmap_ext) auto
  then have "put_co s i n c = s" by (simp add: put_co_def)
  with inv show ?thesis by simp
qed

lemma prune_inv:
  assumes inv: "gc_inv s" and i: "fmlookup (gy_nodes s) i = Some n" and a: "PruneAcknowledgements (Some (gn_co n)) g e ts = (Some c, out)"
  shows "gc_inv (put_co s i n c)"
proof -
  obtain G E where views: "views_inv s G E" using inv by (auto simp: gc_inv_def)
  then have "tc_inv (gn_co n)" using views_invD(1)[OF _ i] by blast
  from Prune_refines[OF this, of g e ts] a have "tc_inv c" "gc_abs c = fst (spec_prune (gc_abs (gn_co n)) g e ts)"
    by (cases "spec_prune (gc_abs (gn_co n)) g e ts"; cases out; simp add: refines_def)+
  then have "tc_inv c" "tc_members c = tc_members (gn_co n)" "tc_groupID c = tc_groupID (gn_co n)" "tc_epoch c = tc_epoch (gn_co n)" "acked c \<subseteq> acked (gn_co n)"
    by (auto simp: spec_prune_def gc_abs_def fset_inject split: if_splits)
  then show ?thesis
    using views_invD(2)[OF views i] by (subst keep_calls, intro put_co_gc_inv[OF inv i views] put_co_views[OF views i]) auto
qed

text \<open>What travels: a delta says what its replica now has, a combined one what its parts said.\<close>

lemma mail_gc_inv:
  assumes "gc_inv s" and "\<And>p. p \<in> set mail \<Longrightarrow> p \<notin> set (gy_mail s) \<Longrightarrow> parcel_ok s p \<and> (\<forall>e t. carries p e t \<longrightarrow> afloat s e t)"
  shows "gc_inv (s\<lparr>gy_mail := mail\<rparr>)"
proof -
  obtain G E where views: "views_inv s G E" and sets: "sets_inv s" using assms(1) by (auto simp: gc_inv_def)
  have "sets_inv (s\<lparr>gy_mail := mail\<rparr>)" using mail_inv[OF sets] assms(2) sets_inv_mail(2)[OF sets] afloatI(2)[of _ s] by blast
  moreover have "doomed (s\<lparr>gy_mail := mail\<rparr>) = doomed s" by (simp add: doomed_def fun_eq_iff)
  then have "views_inv (s\<lparr>gy_mail := mail\<rparr>) G E" using views by (simp add: views_inv_def cong: gc_call.case_cong)
  ultimately show ?thesis by (auto simp: gc_inv_def)
qed

lemma post_delta_inv:
  assumes "gc_inv s" and "\<And>d. out = Inr d \<Longrightarrow> parcel_ok s (DeltaParcel d) \<and> (\<forall>e t. carries (DeltaParcel d) e t \<longrightarrow> afloat s e t)"
  shows "gc_inv (post_delta out s)"
proof (cases out)
  case (Inr d)
  show ?thesis unfolding post_delta_def post_def Inr sum.case by (rule mail_gc_inv[OF assms(1)]) (use assms(2)[OF Inr] in auto)
qed (use assms(1) in \<open>simp add: post_delta_def\<close>)

lemma add_delta:
  assumes n: "os_inv (gn_set n)" and a: "ORSet_Add (Some (gn_set n)) e now = (Some r, Inr d)"
  shows "parcel_ok (put_set s i n r) (DeltaParcel d) \<and> (\<forall>x t. carries (DeltaParcel d) x t \<longrightarrow> afloat (put_set s i n r) x t)"
  using n
proof (cases rule: Add_cases[of _ e now])
  case (ok t c)
  then have d: "d = \<lparr>od_adds = fmupd e {|t|} fmempty, od_tombstones = {||}\<rparr>" and r: "t |\<in>| tags_at (os_elements r) e" using a by auto
  have "afloat (put_set s i n r) e t" by (rule afloatI(1)[of _ i "n\<lparr>gn_set := r\<rparr>"]) (use r in \<open>simp_all add: put_set_def live_def\<close>)
  moreover have "t \<in> gy_issued (put_set s i n r)" using r by (auto simp: put_set_def)
  ultimately show ?thesis using ok(1) by (auto simp: d parcel_ok_def carries_def or_inv_def adds_normal_def split: if_splits)
qed (use a in simp)

lemma remove_delta:
  assumes inv: "sets_inv s" and i: "fmlookup (gy_nodes s) i = Some n" and a: "ORSet_Remove (Some (gn_set n)) e = (Some r, Inr d)"
  shows "parcel_ok (put_set s i n r) (DeltaParcel d) \<and> (\<forall>x t. carries (DeltaParcel d) x t \<longrightarrow> afloat (put_set s i n r) x t)"
proof -
  note n = sets_invD[OF inv i]
  have or: "or_inv (os_state (gn_set n))" using ok_parts[OF n(1)] by blast
  then have d: "d = \<lparr>od_adds = fmempty, od_tombstones = tags_at (os_elements (gn_set n)) e\<rparr>" using Remove_eq[OF or, of e] a by simp
  have "Tag_Valid t \<and> t \<in> gy_issued s" if "t |\<in>| tags_at (os_elements (gn_set n)) e" for t
    using or_inv_live[OF or, of t e] n(5)[of e t] that by (simp add: live_def)
  then show ?thesis by (auto simp: d parcel_ok_def carries_def or_inv_def adds_normal_def put_set_def)
qed

lemma combine_delta:
  assumes inv: "sets_inv s" and mail: "DeltaParcel d \<in> set (gy_mail s)" "DeltaParcel d' \<in> set (gy_mail s)" and m: "ORSetDelta_Merge d d' = Inr c"
  shows "parcel_ok s (DeltaParcel c) \<and> (\<forall>x t. carries (DeltaParcel c) x t \<longrightarrow> afloat s x t)"
proof -
  note p = sets_inv_mail(2)[OF inv mail(1)] sets_inv_mail(2)[OF inv mail(2)]
  have or: "or_inv (od_state d)" "or_inv (od_state d')" using p by (simp_all add: parcel_ok_def)
  have c: "od_state c = or_join (od_state d) (od_state d')"
    using m by (auto simp: ORSetDelta_Merge_def or_join_def split: sum.splits prod.splits)
  have "or_inv (od_state c)" unfolding c using or by (intro or_join_inv) (auto simp: or_inv_def)
  moreover have "carries (DeltaParcel d) x t \<or> carries (DeltaParcel d') x t" if "carries (DeltaParcel c) x t" for x t
    using that or_join_live(2)[OF or(1), of t "od_state d'" x] c by (metis carries_def fst_conv parcel_state.simps(1))
  moreover have "od_tombstones c = od_tombstones d |\<union>| od_tombstones d'" using or_join_live(1)[OF or(1), of "od_state d'"] c by (metis snd_conv)
  ultimately show ?thesis using p afloatI(2)[OF mail(1)] afloatI(2)[OF mail(2)] unfolding parcel_ok_def by simp blast
qed

lemma save_parcel:
  assumes inv: "sets_inv s" and i: "fmlookup (gy_nodes s) i = Some n"
  shows "parcel_ok s (StateParcel (gn_set n)) \<and> (\<forall>x t. carries (StateParcel (gn_set n)) x t \<longrightarrow> afloat s x t)"
proof -
  note n = sets_invD[OF inv i]
  have "carries (StateParcel (gn_set n)) x t \<longleftrightarrow> live n x t" for x t by (simp add: carries_def live_def)
  then show ?thesis using n(1,3-5) ok_parts[OF n(1)] afloatI(1)[OF i] by (auto simp: parcel_ok_def)
qed

lemma gc_step_inv:
  assumes "gc_step s s'" and inv: "gc_inv s"
  shows "gc_inv s'"
proof -
  obtain G E where views: "views_inv s G E" and sets: "sets_inv s" using inv by (auto simp: gc_inv_def)
  note set_inv = put_set_gc_inv[OF inv, where calls = "gy_calls s", folded keep_calls]
  from assms(1) show ?thesis
  proof cases
    case (add i n e now r out)
    have "gc_inv (put_set s i n r)" by (rule set_inv[OF add(2) add_inv[OF sets add(2,3)]]) simp
    moreover have "os_inv (gn_set n)" using ok_parts sets_invD(1)[OF sets add(2)] by blast
    ultimately show ?thesis unfolding add(1) using add_delta[of n e now r _ s i] add(3) by (intro post_delta_inv) auto
  next
    case (remove i n e r out)
    have "gc_inv (put_set s i n r)" by (rule set_inv[OF remove(2) remove_inv[OF sets remove(2,3)]]) simp
    then show ?thesis unfolding remove(1) using remove_delta[OF sets remove(2)] remove(3) by (intro post_delta_inv) auto
  next
    case (save i n)
    show ?thesis unfolding save(1) post_def by (rule mail_gc_inv[OF inv]) (use save_parcel[OF sets save(2)] in auto)
  next
    case (combine d d')
    show ?thesis unfolding combine(1) by (rule post_delta_inv[OF inv]) (rule combine_delta[OF sets combine(2,3)])
  next
    case (deliver i n p now r out)
    show ?thesis unfolding deliver(1) by (rule set_inv[OF deliver(2) deliver_parcel_inv[OF sets deliver(2-4)]]) simp
  next
    case (retire xs p ys)
    show ?thesis unfolding retire(1) by (rule mail_gc_inv[OF inv]) (auto simp: retire(2))
  next
    case (merge i n j q now r out)
    note q = save_parcel[OF sets merge(3)]
    have "sets_inv (put_set s i n r)"
      by (rule merge_inv[OF sets merge(2) _ _ _ merge(5)]) (use q in \<open>auto simp: parcel_ok_def carries_def\<close>)
    then show ?thesis unfolding merge(1) by (rule set_inv[OF merge(2)]) simp
  next
    case (report i n)
    then show ?thesis using report_inv[OF inv] by simp
  next
    case (acknowledge i n g m e ts c out)
    then show ?thesis using Acknowledge_inv[OF inv] by simp
  next
    case (prune i n g e ts c out)
    then show ?thesis using prune_inv[OF inv] by simp
  next
    case (call i n g m e ts)
    then show ?thesis using call_inv[OF inv] by simp
  next
    case (refused i n xs g m e ts candidates ys c err)
    have rep: "(g, m, e, ts) \<in> set (gy_reports s)" using views_invD(4)[OF views, of i g m e ts candidates] refused(3) by simp
    obtain a where "acknowledgeLocked (gn_co n) g m e ts = (c, a)" using ack_select_parts[OF refused(4)] by blast
    then show ?thesis unfolding refused(1) by (rule acknowledge_inv[OF inv refused(2) rep]) (auto simp: refused(3))
  next
    case (selected i n xs g m e ts candidates ys c tags)
    have rep: "(g, m, e, ts) \<in> set (gy_reports s)" using views_invD(4)[OF views, of i g m e ts candidates] selected(3) by simp
    obtain a where "acknowledgeLocked (gn_co n) g m e ts = (c, a)" "tags = stableTombstonesLocked c candidates" using ack_select_parts[OF selected(4)] by blast
    then show ?thesis unfolding selected(1) by (intro acknowledge_inv[OF inv selected(2) rep]) (auto simp: selected(3))
  next
    case (compact i n xs tags ys r out)
    have "doomed s t" if "t \<in> set tags" for t using views_invD(5)[OF views _ that, of i] compact(3) by simp
    then have "\<forall>t \<in> set tags. dead s t" using doomed_dead[OF sets] compact(4) by blast
    from compact_inv[OF sets compact(2,5) this] show ?thesis unfolding compact(1)
      by (rule put_set_gc_inv[OF inv compact(2)]) (auto simp: compact(3))
  next
    case (view ms co v nodes)
    show ?thesis unfolding view(1) gc_inv_def
      using view_sets[OF sets] view_views[OF views view(2,3)] view(4-6) by blast
  qed
qed

lemma gc_reach_inv: "gc_reach s \<Longrightarrow> gc_inv s"
proof (induction rule: gc_reach.induct)
  case (start ms nodes g)
  let ?s = "\<lparr>gy_nodes = nodes, gy_mail = [], gy_reports = [], gy_calls = [], gy_buried = \<lambda>_. {}, gy_issued = {}\<rparr> :: 'a gc_sys"
  have node: "os_ok (gn_set n) \<and> os_replicaID (gn_set n) = m \<and> os_tombstones (gn_set n) = {||} \<and> (\<forall>e t. \<not> live n e t) \<and>
      tc_inv (gn_co n) \<and> tc_members (gn_co n) = fmdom nodes \<and> tc_groupID (gn_co n) = g \<and> tc_epoch (gn_co n) = 1 \<and> acked (gn_co n) = {}"
    if "fmlookup nodes m = Some n" for m n
  proof -
    from start(4) that have "\<exists>codec. NewORSet m codec = Inr (gn_set n)" and co: "NewCoordinator g ms = Inr (gn_co n)" by blast+
    then obtain codec where new: "NewORSet m codec = Inr (gn_set n)" by blast
    note n = new co
    have v: "valid_members ms" and c: "gn_co n = \<lparr>tc_groupID = g, tc_epoch = 1, tc_members = fset_of_list ms, tc_acknowledgements = fmempty,
        tc_acknowledgementCounts = fmempty, tc_acknowledgementEntries = 0\<rparr>"
      using n(2) by (auto simp: NewCoordinator_def validateMembers_iff split: if_splits)
    have "tc_inv (gn_co n)" "acked (gn_co n) = {}" by (rule fresh_inv[OF v start(1)]; simp add: c)+
    with new_set_ok[OF n(1)[unfolded NewORSet_def]] c start(2) show ?thesis by (auto simp: live_def)
  qed
  then have "sets_inv ?s" by (auto simp: sets_inv_def afloat_def)
  moreover have "views_inv ?s g 1" by (rule views_invI) (use node start(3) in auto)
  ultimately show ?case unfolding gc_inv_def by blast
next
  case (step s s')
  then show ?case using gc_step_inv by blast
qed

lemma joined_live:
  assumes inv: "sets_inv s" and i: "fmlookup (gy_nodes s) i = Some n" and r: "os_state r = or_join (os_state (gn_set n)) st"
    and st: "t |\<in>| tags_at (fst st) e \<Longrightarrow> afloat s e t"
  shows "t |\<in>| tags_at (os_elements r) e \<longleftrightarrow> (live n e t \<or> t |\<in>| tags_at (fst st) e) \<and> t \<notin> gy_buried s i \<and> t |\<notin>| snd st"
proof -
  note n = sets_invD[OF inv i]
  have or: "or_inv (os_state (gn_set n))" using ok_parts[OF n(1)] by blast
  have "os_elements r = fst (or_join (os_state (gn_set n)) st)" using r by (metis fst_conv)
  then have *: "t |\<in>| tags_at (os_elements r) e \<longleftrightarrow> (live n e t \<or> t |\<in>| tags_at (fst st) e) \<and> t |\<notin>| os_tombstones (gn_set n) \<and> t |\<notin>| snd st"
    using or_join_live(2)[OF or, of t st e] by (simp add: live_def)
  have "\<not> dead s t" if "live n e t \<or> t |\<in>| tags_at (fst st) e" using that st afloatI(1)[OF i] by (auto simp: dead_def)
  then show ?thesis unfolding * using n(3) n(6)[of t] by auto
qed

lemma delivered_state:
  assumes "os_inv (gn_set n)" and "parcel_ok s p" and "deliver_parcel p (gn_set n) now = (Some r, Inr ())"
  shows "os_state r = or_join (os_state (gn_set n)) (parcel_state p)"
proof (cases p)
  case (DeltaParcel d)
  then show ?thesis using ApplyDelta_safe(2)[OF assms(1)] assms(3) by simp
next
  case (StateParcel q)
  then have "os_inv q" using assms(2) ok_parts by (auto simp: parcel_ok_def)
  with StateParcel show ?thesis using Merge_safe(2)[OF assms(1)] assms(3) by simp
qed

text \<open>
  C2. Collection does not bring removed elements back and does not show. However additions, removals, merges, deliveries of deltas and saved
  states (late, repeated, combined or never), reports (late, repeated or from an earlier view), acknowledgements, prunes, compactions and
  changes of view interleave, a tag that a replica ever had as a tombstone is not live there again; a merge of two replicas has exactly the
  live tags that it would have if both still held every tombstone; and so has the delivery of a parcel. Three conditions on the callers are
  part of the system: no parcel still carries a tag when its tombstone is removed, a view changes at all members at once while no
  collection is in progress, and a replica is admitted empty, with a clock after its earlier tags.
\<close>

theorem collection_safe:
  assumes "gc_reach s" and "fmlookup (gy_nodes s) i = Some n" and "fmlookup (gy_nodes s) j = Some q"
  shows "(\<forall>t e. t \<in> gy_buried s i \<longrightarrow> \<not> live n e t) \<and>
    (ORSet_Merge (Some (gn_set n)) (Some (gn_set q)) now = (Some r, Inr ()) \<longrightarrow>
      (\<forall>t e. t |\<in>| tags_at (os_elements r) e \<longleftrightarrow> (live n e t \<or> live q e t) \<and> t \<notin> gy_buried s i \<and> t \<notin> gy_buried s j)) \<and>
    (\<forall>p \<in> set (gy_mail s). deliver_parcel p (gn_set n) now = (Some r, Inr ()) \<longrightarrow>
      (\<forall>t e. t |\<in>| tags_at (os_elements r) e \<longleftrightarrow> (live n e t \<or> carries p e t) \<and> t \<notin> gy_buried s i \<and> t |\<notin>| snd (parcel_state p)))"
proof -
  have sets: "sets_inv s" using gc_reach_inv[OF assms(1)] by (simp add: gc_inv_def)
  note N = sets_invD[OF sets assms(2)] and Q = sets_invD[OF sets assms(3)]
  have inv: "os_inv (gn_set n)" "os_inv (gn_set q)" using ok_parts[OF N(1)] ok_parts[OF Q(1)] by auto
  have "t |\<in>| tags_at (os_elements r) e \<longleftrightarrow> (live n e t \<or> live q e t) \<and> t \<notin> gy_buried s i \<and> t \<notin> gy_buried s j"
    if m: "ORSet_Merge (Some (gn_set n)) (Some (gn_set q)) now = (Some r, Inr ())" for t e
  proof -
    have "os_state r = or_join (os_state (gn_set n)) (os_state (gn_set q))" using Merge_safe(2)[OF inv m] by blast
    from joined_live[OF sets assms(2) this, of t e] have "t |\<in>| tags_at (os_elements r) e \<longleftrightarrow>
        (live n e t \<or> live q e t) \<and> t \<notin> gy_buried s i \<and> t |\<notin>| os_tombstones (gn_set q)"
      using afloatI(1)[OF assms(3)] by (simp add: live_def)
    then show ?thesis using Q(3,6) afloatI(1)[OF assms(2)] afloatI(1)[OF assms(3)] unfolding dead_def by blast
  qed
  moreover have "t |\<in>| tags_at (os_elements r) e \<longleftrightarrow> (live n e t \<or> carries p e t) \<and> t \<notin> gy_buried s i \<and> t |\<notin>| snd (parcel_state p)"
    if p: "p \<in> set (gy_mail s)" and m: "deliver_parcel p (gn_set n) now = (Some r, Inr ())" for p t e
  proof -
    have "os_state r = or_join (os_state (gn_set n)) (parcel_state p)" by (rule delivered_state[OF inv(1) sets_inv_mail(2)[OF sets p] m])
    from joined_live[OF sets assms(2) this, of t e] show ?thesis using afloatI(2)[OF p] by (simp add: carries_def)
  qed
  ultimately show ?thesis using N(5) by blast
qed

text \<open>
  A group of one: the replica adds an element, removes it, reports the tombstone, and collects it on its own report once the delta of the
  addition is retired; the delta of the removal is still travelling.
\<close>

definition one_set :: "byte ORSet" where
  "one_set = \<lparr>os_replicaID = [97], os_clock = Some \<lparr>hlc_replicaID = [97], hlc_wallTime = 0, hlc_logical = 0\<rparr>, os_codec = byte_bound,
     os_elements = fmempty, os_tombstones = {||}\<rparr>"

definition one_co :: Coordinator where
  "one_co = \<lparr>tc_groupID = [103], tc_epoch = 1, tc_members = {|[97]|}, tc_acknowledgements = fmempty,
     tc_acknowledgementCounts = fmempty, tc_acknowledgementEntries = 0\<rparr>"

definition one_acked :: Coordinator where
  "one_acked = one_co\<lparr>tc_acknowledgements := fmupd [97] {|Tag [97] 5 0|} fmempty, tc_acknowledgementCounts := fmupd (Tag [97] 5 0) 1 fmempty,
     tc_acknowledgementEntries := 1\<rparr>"

abbreviation one_added :: "byte ORSet" where
  "one_added \<equiv> one_set\<lparr>os_clock := Some \<lparr>hlc_replicaID = [97], hlc_wallTime = 5, hlc_logical = 0\<rparr>, os_elements := fmupd 7 {|Tag [97] 5 0|} fmempty\<rparr>"

abbreviation one_removed :: "byte ORSet" where
  "one_removed \<equiv> one_added\<lparr>os_tombstones := {|Tag [97] 5 0|}, os_elements := fmempty\<rparr>"

lemma fmdrop_single: "fmdrop k (fmupd k v fmempty) = fmempty"
  by (rule fmap_ext) simp

lemma one_calls:
  "NewORSet [97] (Some byte_codec) = Inr one_set" "NewCoordinator [103] [[97]] = Inr one_co"
  "ORSet_Add (Some one_set) 7 (Some 5) = (Some one_added, Inr \<lparr>od_adds = fmupd 7 {|Tag [97] 5 0|} fmempty, od_tombstones = {||}\<rparr>)"
  "ORSet_Remove (Some one_added) 7 = (Some one_removed, Inr \<lparr>od_adds = fmempty, od_tombstones = {|Tag [97] 5 0|}\<rparr>)"
  "ORSet_TombstoneTags (Some one_removed) = [Tag [97] 5 0]"
  "ack_select one_co [103] [97] 1 [Tag [97] 5 0] [Tag [97] 5 0] = (one_acked, Inr [Tag [97] 5 0])"
  "compact_target orset_target (Some one_removed) [Tag [97] 5 0] = (Some (one_removed\<lparr>os_tombstones := {||}\<rparr>), Inr 1)"
  by (simp_all add: NewORSet_def NewORSetFromClock_def NewHLCFromState_def byte_bound_facts one_set_def one_co_def one_acked_def NewCoordinator_def
      validateMembers_def ORSet_Add_def ORSet_Remove_def HLC_Now_def physicalMillis_def advanceLocal_def Let_def ORSet_TombstoneTags_def
      tagsToSortedSlice_def ack_select_def acknowledgeLocked_def ack_tag_def count_at_def stableTombstonesLocked_def compact_target_def orset_target_def
      CompactTombstones_eq fcard.rep_eq Tag_Valid_def fmdrop_single eval)

theorem collection_safe_witness:
  "\<exists>s n. gc_reach s \<and> gy_mail s \<noteq> [] \<and> fmlookup (gy_nodes s) [97] = Some n \<and> os_tombstones (gn_set n) = {||} \<and> Tag [97] 5 0 \<in> gy_buried s [97] \<and>
     \<not> live n (7 :: byte) (Tag [97] 5 0)"
proof -
  define a :: "byte parcel" where "a = DeltaParcel \<lparr>od_adds = fmupd 7 {|Tag [97] 5 0|} fmempty, od_tombstones = {||}\<rparr>"
  define d :: "byte parcel" where "d = DeltaParcel \<lparr>od_adds = fmempty, od_tombstones = {|Tag [97] 5 0|}\<rparr>"
  define nd where "nd = (\<lambda>r. \<lparr>gn_set = r, gn_co = one_co\<rparr> :: byte gc_node)"
  define nds where "nds = (\<lambda>r. fmupd ([97] :: gostring) (nd r) fmempty)"
  define s0 where "s0 = (\<lparr>gy_nodes = nds one_set, gy_mail = [], gy_reports = [], gy_calls = [], gy_buried = \<lambda>_. {}, gy_issued = {}\<rparr> :: byte gc_sys)"
  have r0: "gc_reach s0" unfolding s0_def by (rule gc_reach.start[of "[[97]]" _ "[103]"]) (use one_calls(1,2) in \<open>auto simp: nds_def nd_def\<close>)
  define s1 where "s1 = post a (put_set s0 [97] (nd one_set) one_added)"
  have n0: "fmlookup (gy_nodes s0) [97] = Some (nd one_set)" by (simp add: s0_def nds_def)
  have "gc_step s0 s1" using gc_step.add[OF n0, of 7 "Some 5"] one_calls(3) by (simp add: s1_def a_def nd_def post_delta_def)
  with r0 have r1: "gc_reach s1" by (rule gc_reach.step)
  have n1: "fmlookup (gy_nodes s1) [97] = Some (nd one_added)" by (simp add: s1_def put_set_def post_def nd_def)
  define s1' where "s1' = post d (put_set s1 [97] (nd one_added) one_removed)"
  have "gc_step s1 s1'" using gc_step.remove[OF n1, of 7] one_calls(4) by (simp add: s1'_def d_def nd_def post_delta_def)
  with r1 have r1': "gc_reach s1'" by (rule gc_reach.step)
  define s2 where "s2 = s1'\<lparr>gy_mail := [d]\<rparr>"
  have "gy_mail s1' = [d] @ a # []" by (simp add: s1'_def s1_def s0_def put_set_def post_def)
  from gc_reach.step[OF r1' gc_step.retire[OF this]] have r2: "gc_reach s2" by (simp add: s2_def)
  have n2: "fmlookup (gy_nodes s2) [97] = Some (nd one_removed)" by (simp add: s2_def s1'_def put_set_def post_def nd_def)
  define s3 where "s3 = s2\<lparr>gy_reports := ([103], [97], 1, [Tag [97] 5 0]) # gy_reports s2\<rparr>"
  have r3: "gc_reach s3" unfolding s3_def
    using gc_reach.step[OF r2 gc_step.report[OF n2]] one_calls(5) by (simp add: nd_def one_co_def)
  have n3: "fmlookup (gy_nodes s3) [97] = Some (nd one_removed)" using n2 by (simp add: s3_def)
  define s4 where "s4 = s3\<lparr>gy_calls := ([97], Acking [103] [97] 1 [Tag [97] 5 0] [Tag [97] 5 0]) # gy_calls s3\<rparr>"
  have r4: "gc_reach s4" unfolding s4_def
    using gc_reach.step[OF r3 gc_step.call[OF n3, of "[103]" "[97]" 1 "[Tag [97] 5 0]"]] one_calls(5)
    by (simp add: nd_def s3_def validateTombstones_def Tag_Valid_def eval)
  define s5 where "s5 = put_co s4 [97] (nd one_removed) one_acked\<lparr>gy_calls := [([97], Compacting [Tag [97] 5 0])]\<rparr>"
  have "gy_calls s4 = [] @ ([97], Acking [103] [97] 1 [Tag [97] 5 0] [Tag [97] 5 0]) # []"
    by (simp add: s4_def s3_def s2_def s1'_def s1_def s0_def put_set_def post_def)
  from gc_step.selected[OF _ this, of "nd one_removed" one_acked "[Tag [97] 5 0]"] have "gc_step s4 s5"
    using one_calls(6) n3 by (simp add: s5_def nd_def s4_def)
  with r4 have r5: "gc_reach s5" by (rule gc_reach.step)
  define n5 where "n5 = (nd one_removed)\<lparr>gn_co := one_acked\<rparr>"
  have n5: "fmlookup (gy_nodes s5) [97] = Some n5" by (simp add: s5_def put_co_def n5_def)
  have c5: "gy_calls s5 = [] @ ([97], Compacting [Tag [97] 5 0]) # []" by (simp add: s5_def)
  define s6 where "s6 = put_set s5 [97] n5 (one_removed\<lparr>os_tombstones := {||}\<rparr>)\<lparr>gy_calls := []\<rparr>"
  have m5: "gy_mail s5 = [d]" by (simp add: s5_def s4_def s3_def s2_def put_co_def)
  then have "\<forall>p \<in> set (gy_mail s5). \<forall>t \<in> set [Tag [97] 5 0]. \<forall>e. \<not> carries p e t" by (simp add: carries_def d_def)
  from gc_step.compact[OF n5 c5 this] have "gc_step s5 s6" unfolding s6_def using one_calls(7) by (simp add: n5_def nd_def)
  with r5 have r6: "gc_reach s6" by (rule gc_reach.step)
  have n6: "fmlookup (gy_nodes s6) [97] = Some (n5\<lparr>gn_set := one_removed\<lparr>os_tombstones := {||}\<rparr>\<rparr>)" by (simp add: s6_def put_set_def)
  have b6: "Tag [97] 5 0 \<in> gy_buried s6 [97]" by (simp add: s6_def s5_def s4_def s3_def s2_def s1'_def put_set_def put_co_def post_def)
  have m6: "gy_mail s6 \<noteq> []" using m5 by (simp add: s6_def put_set_def)
  show ?thesis using collection_safe[OF r6 n6 n6] r6 n6 b6 m6 by (intro exI[of _ s6] exI) auto
qed

end
