(* ===== verification/LWWEntries.thy ===== *)
theory LWWEntries
  imports TombstoneGC
begin

text \<open>
  What the last-write-wins map and set of \<open>src/lww\<close> share. Both keep one entry per key, a tag with the state written under it, and an
  index from tags to keys; the set's values are \<open>unit\<close>. The source has the functions once for maps and once for sets; the theories of the
  two give each its source's name. Where the source ranges over a Go map the model visits it in ascending order: only the choice
  among several errors depends on the order.
\<close>

abbreviation lww_ErrInvalidCodec :: go_error where
  "lww_ErrInvalidCodec \<equiv> errors_New ''lww: invalid element codec''"

abbreviation lww_ErrInvalidReplicaID :: go_error where
  "lww_ErrInvalidReplicaID \<equiv> errors_New ''lww: invalid replica ID''"

abbreviation lww_ErrNilSet :: go_error where
  "lww_ErrNilSet \<equiv> errors_New ''lww: nil set''"

abbreviation lww_ErrNilMap :: go_error where
  "lww_ErrNilMap \<equiv> errors_New ''lww: nil map''"

abbreviation lww_ErrCodecMismatch :: go_error where
  "lww_ErrCodecMismatch \<equiv> errors_New ''lww: codec ID mismatch''"

abbreviation lww_ErrInvalidSetDelta :: go_error where
  "lww_ErrInvalidSetDelta \<equiv> errors_New ''lww: invalid LWW-Set delta''"

abbreviation lww_ErrInvalidSetSnap :: go_error where
  "lww_ErrInvalidSetSnap \<equiv> errors_New ''lww: invalid LWW-Set snapshot''"

abbreviation lww_ErrInvalidKey :: go_error where
  "lww_ErrInvalidKey \<equiv> errors_New ''lww: invalid key''"

abbreviation lww_ErrInvalidDelta :: go_error where
  "lww_ErrInvalidDelta \<equiv> errors_New ''lww: invalid map delta''"

abbreviation lww_ErrInvalidSnapshot :: go_error where
  "lww_ErrInvalidSnapshot \<equiv> errors_New ''lww: invalid map snapshot''"

abbreviation lww_ErrTagConflict :: go_error where
  "lww_ErrTagConflict \<equiv> errors_New ''lww: conflicting values for one tag''"

abbreviation lww_ErrResourceLimit :: go_error where
  "lww_ErrResourceLimit \<equiv> errors_New ''lww: resource limit exceeded''"

abbreviation lww_ErrUnsafeCompaction :: go_error where
  "lww_ErrUnsafeCompaction \<equiv> errors_New ''lww: unsafe tombstone compaction''"

abbreviation (input) "TypeIDLWWSetState \<equiv> (7 :: u64)"
abbreviation (input) "TypeIDLWWSetDelta \<equiv> (8 :: u64)"
abbreviation (input) "TypeIDLWWMapState \<equiv> (9 :: u64)"
abbreviation (input) "TypeIDLWWMapDelta \<equiv> (10 :: u64)"

record 'v lwwEntry =
  le_tag :: tag
  le_present :: bool
  le_value :: 'v

type_synonym ('k, 'v) entries = "('k, 'v lwwEntry) fmap"

record ('k, 'v) lwwColl =
  lc_replicaID :: gostring
  lc_clock :: "HLC option"
  lc_entries :: "('k, 'v) entries"
  lc_tags :: "(tag, 'k) fmap"

section \<open>Functions on entries\<close>

definition entries_conflict :: "'v lwwEntry \<Rightarrow> 'v lwwEntry \<Rightarrow> bool" where
  "entries_conflict left right \<longleftrightarrow> le_tag left = le_tag right \<and> (le_present left \<noteq> le_present right \<or> le_value left \<noteq> le_value right)"

text \<open>The validation loop, with what else is wrong with an entry and its error.\<close>

fun validate_loop :: "('k \<Rightarrow> 'v lwwEntry \<Rightarrow> bool) \<Rightarrow> go_error \<Rightarrow> ('k \<times> 'v lwwEntry) list \<Rightarrow> (tag, 'k) fmap \<Rightarrow> unit res" where
  "validate_loop bad err [] owners = Inr ()"
| "validate_loop bad err ((key, entry) # rest) owners =
     (if bad key entry then Inl err
      else if (case fmlookup owners (le_tag entry) of None \<Rightarrow> False | Some owner \<Rightarrow> owner \<noteq> key) then Inl lww_ErrTagConflict
      else validate_loop bad err rest (fmupd (le_tag entry) key owners))"

definition ensure_tags_compatible :: "(tag, 'k) fmap \<Rightarrow> ('k::linorder, 'v) entries \<Rightarrow> unit res" where
  "ensure_tags_compatible tags entries =
     (if list_ex (\<lambda>(key, entry). case fmlookup tags (le_tag entry) of None \<Rightarrow> False | Some owner \<Rightarrow> owner \<noteq> key) (fm_items entries)
      then Inl lww_ErrTagConflict else Inr ())"

definition entries_subsumed :: "('k, 'v) entries \<Rightarrow> ('k::linorder, 'v) entries \<Rightarrow> bool" where
  "entries_subsumed existing incoming \<longleftrightarrow> list_all (\<lambda>(key, entry). case fmlookup existing key of
      None \<Rightarrow> False
    | Some current \<Rightarrow> \<not> (Tag_Compare (le_tag current) (le_tag entry) < 0 \<or> entries_conflict current entry)) (fm_items incoming)"

definition new_entries :: "('k::linorder, 'v) entries \<Rightarrow> ('k, 'v) entries \<Rightarrow> nat" where
  "new_entries incoming existing = length (filter (\<lambda>key. key |\<notin>| fmdom existing) (map fst (fm_items incoming)))"

definition tag_index :: "('k::linorder, 'v) entries \<Rightarrow> (tag, 'k) fmap" where
  "tag_index entries = fold (\<lambda>(key, entry). fmupd (le_tag entry) key) (fm_items entries) fmempty"

definition entries_frontier :: "('k::linorder, 'v) entries \<Rightarrow> (gostring, tag) fmap" where
  "entries_frontier entries = fold (\<lambda>(key, entry). note_frontier (le_tag entry)) (fm_items entries) fmempty"

definition greatest_entry_tag :: "('k::linorder, 'v) entries \<Rightarrow> tag option" where
  "greatest_entry_tag entries = fold (\<lambda>(key, entry). note_greatest (le_tag entry)) (fm_items entries) None"

definition tombstone_tags :: "('k::linorder, 'v) entries \<Rightarrow> tag list" where
  "tombstone_tags entries = sort (map (\<lambda>(key, entry). le_tag entry) (filter (\<lambda>(key, entry). \<not> le_present entry) (fm_items entries)))"

section \<open>The critical sections\<close>

text \<open>One local write, up to the delta it returns: the entry written.\<close>

definition write_locked ::
    "int \<Rightarrow> 'k \<Rightarrow> (tag \<Rightarrow> 'v lwwEntry) \<Rightarrow> int option \<Rightarrow> ('k, 'v, 'z) lwwColl_scheme \<Rightarrow> ('k, 'v, 'z) lwwColl_scheme \<times> 'v lwwEntry res" where
  "write_locked maxEntries key mk now c =
     (if key |\<notin>| fmdom (lc_entries c) \<and> int (fm_size (lc_entries c)) \<ge> maxEntries then (c, Inl lww_ErrResourceLimit)
      else (case HLC_Now (lc_clock c) now of
          (clock, Inl err) \<Rightarrow> (c\<lparr>lc_clock := clock\<rparr>, Inl err)
        | (clock, Inr tag) \<Rightarrow>
            (let c = c\<lparr>lc_clock := clock\<rparr>; incoming = mk tag in
             if (case fmlookup (lc_tags c) tag of None \<Rightarrow> False | Some owner \<Rightarrow> owner \<noteq> key) then (c, Inl lww_ErrTagConflict)
             else
               (case fmlookup (lc_entries c) key of
                  None \<Rightarrow> (c\<lparr>lc_entries := fmupd key incoming (lc_entries c), lc_tags := fmupd tag key (fmdrop (Tag [] 0 0) (lc_tags c))\<rparr>, Inr incoming)
                | Some current \<Rightarrow>
                    if Tag_Compare (le_tag current) tag < 0
                    then (c\<lparr>lc_entries := fmupd key incoming (lc_entries c), lc_tags := fmupd tag key (fmdrop (le_tag current) (lc_tags c))\<rparr>, Inr incoming)
                    else (c, Inr incoming)))))"

text \<open>The join of validated entries: the loop body and the critical section.\<close>

definition put_entry :: "'k \<Rightarrow> 'v lwwEntry \<Rightarrow> ('k, 'v) entries \<times> (tag, 'k) fmap \<Rightarrow> ('k, 'v) entries \<times> (tag, 'k) fmap" where
  "put_entry key incoming r = (case fmlookup (fst r) key of
      None \<Rightarrow> (fmupd key incoming (fst r), fmupd (le_tag incoming) key (snd r))
    | Some current \<Rightarrow>
        if Tag_Compare (le_tag current) (le_tag incoming) < 0
        then (fmupd key incoming (fst r), fmupd (le_tag incoming) key (fmdrop (le_tag current) (snd r)))
        else r)"

definition join_locked ::
    "int \<Rightarrow> ('k::linorder, 'v) entries \<Rightarrow> int option \<Rightarrow> ('k, 'v, 'z) lwwColl_scheme \<Rightarrow> ('k, 'v, 'z) lwwColl_scheme \<times> unit res" where
  "join_locked maxEntries entries now c = (case ensure_tags_compatible (lc_tags c) entries of
      Inl err \<Rightarrow> (c, Inl err)
    | Inr _ \<Rightarrow>
        if list_ex (\<lambda>(key, incoming). case fmlookup (lc_entries c) key of None \<Rightarrow> False | Some current \<Rightarrow> entries_conflict current incoming) (fm_items entries)
        then (c, Inl lww_ErrTagConflict)
        else if entries_subsumed (lc_entries c) entries then (c, Inr ())
        else if int (fm_size (lc_entries c) + new_entries entries (lc_entries c)) > maxEntries then (c, Inl lww_ErrResourceLimit)
        else
          (case (case greatest_entry_tag entries of None \<Rightarrow> (lc_clock c, Inr ()) | Some tag \<Rightarrow> HLC_Witness (lc_clock c) tag now) of
             (clock, Inl err) \<Rightarrow> (c\<lparr>lc_clock := clock\<rparr>, Inl err)
           | (clock, Inr _) \<Rightarrow>
               (let (entries, tags) = fold (\<lambda>(key, incoming). put_entry key incoming) (fm_items entries) (lc_entries c, lc_tags c)
                in (c\<lparr>lc_clock := clock, lc_entries := entries, lc_tags := tags\<rparr>, Inr ()))))"

text \<open>Replacing all entries by decoded ones.\<close>

definition replace_locked ::
    "('k::linorder, 'v) entries \<Rightarrow> (tag, 'k) fmap \<Rightarrow> int option \<Rightarrow> ('k, 'v, 'z) lwwColl_scheme \<Rightarrow> ('k, 'v, 'z) lwwColl_scheme \<times> unit res" where
  "replace_locked entries tags now c =
     (case (case greatest_entry_tag entries of None \<Rightarrow> (lc_clock c, Inr ()) | Some tag \<Rightarrow> HLC_Witness (lc_clock c) tag now) of
        (clock, Inl err) \<Rightarrow> (c\<lparr>lc_clock := clock\<rparr>, Inl err)
      | (clock, Inr _) \<Rightarrow> (c\<lparr>lc_clock := clock, lc_entries := entries, lc_tags := tags\<rparr>, Inr ()))"

text \<open>The loops of \<open>CompactTombstones\<close>: the index, with an error for a tag of two keys; the selection; the removal.\<close>

fun by_tag_loop :: "('k \<times> 'v lwwEntry) list \<Rightarrow> (tag, 'k) fmap \<Rightarrow> (tag, 'k) fmap res" where
  "by_tag_loop [] byTag = Inr byTag"
| "by_tag_loop ((key, entry) # rest) byTag =
     (if (case fmlookup byTag (le_tag entry) of None \<Rightarrow> False | Some owner \<Rightarrow> owner \<noteq> key) then Inl lww_ErrUnsafeCompaction
      else by_tag_loop rest (fmupd (le_tag entry) key byTag))"

fun compact_loop :: "('k, 'v) entries \<Rightarrow> (tag, 'k) fmap \<Rightarrow> tag list \<Rightarrow> tag fset \<Rightarrow> 'k list \<Rightarrow> 'k list res" where
  "compact_loop entries byTag [] seen compact = Inr compact"
| "compact_loop entries byTag (tag # tags) seen compact =
     (if tag |\<in>| seen then compact_loop entries byTag tags seen compact
      else (case fmlookup byTag tag of
          None \<Rightarrow> compact_loop entries byTag tags (finsert tag seen) compact
        | Some key \<Rightarrow>
            if (case fmlookup entries key of None \<Rightarrow> False | Some entry \<Rightarrow> le_present entry) then Inl lww_ErrUnsafeCompaction
            else compact_loop entries byTag tags (finsert tag seen) (compact @ [key])))"

definition drop_key :: "'k \<Rightarrow> ('k, 'v) entries \<times> (tag, 'k) fmap \<Rightarrow> ('k, 'v) entries \<times> (tag, 'k) fmap" where
  "drop_key key r = (fmdrop key (fst r),
     fmdrop (case fmlookup (fst r) key of None \<Rightarrow> Tag [] 0 0 | Some entry \<Rightarrow> le_tag entry) (snd r))"

definition compact_coll :: "tag list \<Rightarrow> ('k::linorder, 'v, 'z) lwwColl_scheme \<Rightarrow> ('k, 'v, 'z) lwwColl_scheme \<times> nat res" where
  "compact_coll tags c =
     (if \<not> list_all Tag_Valid tags then (c, Inl lww_ErrUnsafeCompaction)
      else (case by_tag_loop (fm_items (lc_entries c)) fmempty of
          Inl err \<Rightarrow> (c, Inl err)
        | Inr byTag \<Rightarrow> (case compact_loop (lc_entries c) byTag tags {||} [] of
              Inl err \<Rightarrow> (c, Inl err)
            | Inr compact \<Rightarrow>
                (let (entries, index) = fold drop_key compact (lc_entries c, lc_tags c)
                 in (c\<lparr>lc_entries := entries, lc_tags := index\<rparr>, Inr (length compact))))))"

text \<open>The join of two deltas, before its result is validated.\<close>

fun delta_loop :: "('k \<times> 'v lwwEntry) list \<Rightarrow> ('k, 'v) entries \<Rightarrow> ('k, 'v) entries res" where
  "delta_loop [] merged = Inr merged"
| "delta_loop ((key, incoming) # rest) merged = (case fmlookup merged key of
      None \<Rightarrow> delta_loop rest (fmupd key incoming merged)
    | Some current \<Rightarrow>
        if entries_conflict current incoming then Inl lww_ErrTagConflict
        else delta_loop rest (if Tag_Compare (le_tag current) (le_tag incoming) < 0 then fmupd key incoming merged else merged))"

section \<open>Joining entries\<close>

text \<open>The greater of two optional entries, and the entries of a join.\<close>

fun greater_entry :: "'v lwwEntry option \<Rightarrow> 'v lwwEntry option \<Rightarrow> 'v lwwEntry option" where
  "greater_entry a None = a"
| "greater_entry None b = b"
| "greater_entry (Some a) (Some b) = (if le_tag a < le_tag b then Some b else Some a)"

definition entries_join :: "('k, 'v) entries \<Rightarrow> ('k::linorder, 'v) entries \<Rightarrow> ('k, 'v) entries" where
  "entries_join a b = fst (fold (\<lambda>(key, incoming). put_entry key incoming) (fm_items b) (a, fmempty))"

lemma greater_entry_simps [simp]: "greater_entry None b = b" "greater_entry a a = a"
  by (cases b; simp) (cases a; simp)

lemma greater_entry_assoc: "greater_entry (greater_entry a b) c = greater_entry a (greater_entry b c)"
  by (cases a; cases b; cases c) auto

lemma greater_entry_None [simp]: "greater_entry a b = None \<longleftrightarrow> a = None \<and> b = None"
  by (cases a; cases b) auto

lemma fm_items_fmempty [simp]: "fm_items fmempty = []"
  by (simp add: fm_items_def fm_keys_def)

lemma greater_entry_cases: "greater_entry a b = a \<or> greater_entry a b = b"
  by (cases a; cases b) auto

lemma put_entry_lookup: "fmlookup (fst (put_entry k e r)) x = (if x = k then greater_entry (fmlookup (fst r) x) (Some e) else fmlookup (fst r) x)"
  by (auto simp: put_entry_def split: option.splits)

lemma put_entries_lookup:
  "distinct (map fst xs) \<Longrightarrow> fmlookup (fst (fold (\<lambda>(k, e). put_entry k e) xs r)) x = greater_entry (fmlookup (fst r) x) (map_of xs x)"
proof (induction xs arbitrary: r)
  case (Cons y xs)
  then have "fst y \<notin> set (map fst xs)" by simp
  then have "map_of xs (fst y) = None" by (simp add: map_of_eq_None_iff)
  with Cons show ?case by (auto simp: put_entry_lookup split: prod.splits)
qed simp

lemma entries_join_lookup [simp]: "fmlookup (entries_join a b) k = greater_entry (fmlookup a k) (fmlookup b k)"
  by (simp add: entries_join_def put_entries_lookup)

lemma put_entries_join: "fst (fold (\<lambda>(k, e). put_entry k e) (fm_items b) r) = entries_join (fst r) b"
  by (rule fmap_ext) (simp add: put_entries_lookup)

text \<open>Each tag is issued for one write: \<open>val\<close> gives its key and its entry.\<close>

definition issued_by :: "(tag \<Rightarrow> 'k \<times> 'v lwwEntry) \<Rightarrow> ('k, 'v) entries \<Rightarrow> bool" where
  "issued_by val E \<longleftrightarrow> (\<forall>k e. fmlookup E k = Some e \<longrightarrow> val (le_tag e) = (k, e))"

lemma issued_same: "issued_by val A \<Longrightarrow> issued_by val B \<Longrightarrow> fmlookup A k = Some e \<Longrightarrow> fmlookup B k' = Some e' \<Longrightarrow> le_tag e = le_tag e' \<Longrightarrow> k = k' \<and> e = e'"
  by (metis issued_by_def prod.inject)

lemma issued_join: "issued_by val A \<Longrightarrow> issued_by val B \<Longrightarrow> issued_by val (entries_join A B)"
  using greater_entry_cases unfolding issued_by_def entries_join_lookup by metis

interpretation entries_crdt: state_crdt "issued_by val" entries_join for val
proof
  fix a b c :: "('a, 'b) entries"
  show "issued_by val (entries_join a b)" if "issued_by val a" "issued_by val b" using that by (rule issued_join)
  show "entries_join a b = entries_join b a" if "issued_by val a" "issued_by val b"
  proof (rule fmap_ext)
    fix k
    show "fmlookup (entries_join a b) k = fmlookup (entries_join b a) k"
      using issued_same[OF that, of k _ k] by (cases "fmlookup a k"; cases "fmlookup b k") (auto simp: not_less antisym)
  qed
  show "entries_join (entries_join a b) c = entries_join a (entries_join b c)"
    by (rule fmap_ext) (simp add: greater_entry_assoc)
  show "entries_join a a = a" by (rule fmap_ext) simp
qed

section \<open>The index and the invariant\<close>

definition distinct_tags :: "('k, 'v) entries \<Rightarrow> bool" where
  "distinct_tags E \<longleftrightarrow> (\<forall>k e k' e'. fmlookup E k = Some e \<longrightarrow> fmlookup E k' = Some e' \<longrightarrow> le_tag e = le_tag e' \<longrightarrow> k = k')"

definition indexed :: "('k, 'v) entries \<Rightarrow> (tag, 'k) fmap \<Rightarrow> bool" where
  "indexed E T \<longleftrightarrow> (\<forall>t k. fmlookup T t = Some k \<longleftrightarrow> (\<exists>e. fmlookup E k = Some e \<and> le_tag e = t))"

lemma indexedD: "indexed E T \<Longrightarrow> fmlookup E k = Some e \<Longrightarrow> fmlookup T (le_tag e) = Some k"
  by (auto simp: indexed_def)

lemma indexedE: "indexed E T \<Longrightarrow> fmlookup T t = Some k \<Longrightarrow> \<exists>e. fmlookup E k = Some e \<and> le_tag e = t"
  by (auto simp: indexed_def)

lemma indexed_distinct: "indexed E T \<Longrightarrow> distinct_tags E"
  unfolding distinct_tags_def using indexedD by (metis option.inject)

lemma indexed_update:
  assumes "indexed E T" and "fmlookup T (le_tag e) = None" and "\<And>old. fmlookup E k = Some old \<Longrightarrow> T' = fmdrop (le_tag old) T"
    and "fmlookup E k = None \<Longrightarrow> T' = T"
  shows "indexed (fmupd k e E) (fmupd (le_tag e) k T')"
proof (cases "fmlookup E k")
  case None
  then show ?thesis using assms unfolding indexed_def by (auto; metis option.distinct(1))
next
  case (Some old)
  have other: "fmlookup T (le_tag old) = Some k" using assms(1) Some by (rule indexedD)
  then show ?thesis using assms Some unfolding indexed_def by (auto; metis option.inject option.distinct(1))
qed

lemma put_entry_indexed:
  assumes "indexed (fst r) (snd r)" and "fmlookup (snd r) (le_tag e) \<in> {None, Some k}"
  shows "indexed (fst (put_entry k e r)) (snd (put_entry k e r))"
proof (cases "fmlookup (snd r) (le_tag e)")
  case None
  with assms(1) show ?thesis by (auto simp: put_entry_def split: option.splits intro!: indexed_update)
next
  case (Some k')
  then have "\<exists>e'. fmlookup (fst r) k = Some e' \<and> le_tag e' = le_tag e" using assms by (auto dest: indexedE)
  then show ?thesis using assms(1) by (auto simp: put_entry_def)
qed

lemma put_entry_tags: "fmlookup (snd (put_entry k e r)) t \<in> {None, fmlookup (snd r) t, if t = le_tag e then Some k else None}"
  by (auto simp: put_entry_def split: option.splits)

lemma put_entries_indexed:
  assumes "indexed (fst r) (snd r)" and "\<forall>(k, e) \<in> set xs. fmlookup (snd r) (le_tag e) \<in> {None, Some k}"
    and "distinct (map (le_tag \<circ> snd) xs)"
  shows "indexed (fst (fold (\<lambda>(k, e). put_entry k e) xs r)) (snd (fold (\<lambda>(k, e). put_entry k e) xs r))"
  using assms
proof (induction xs arbitrary: r)
  case (Cons y xs)
  obtain k e where y: "y = (k, e)" by fastforce
  have "fmlookup (snd (put_entry k e r)) (le_tag e') \<in> {None, Some k'}" if "(k', e') \<in> set xs" for k' e'
  proof -
    have "le_tag e' \<noteq> le_tag e" using Cons.prems(3) that y by (force simp: image_iff)
    then show ?thesis using put_entry_tags[of k e r "le_tag e'"] Cons.prems(2) that y by auto
  qed
  with Cons.IH[of "put_entry k e r"] Cons.prems y show ?case by (auto intro: put_entry_indexed)
qed simp

text \<open>The owners of a validation loop or an index loop, and when a tag has two.\<close>

lemma distinct_tags_items: "distinct_tags E \<longleftrightarrow> distinct (map (le_tag \<circ> snd) (fm_items E))"
proof -
  have "distinct (fm_items E)" using distinct_fst_items[of E] by (simp add: distinct_map del: map_fst_fm_items)
  then have "distinct (map (le_tag \<circ> snd) (fm_items E)) \<longleftrightarrow> inj_on (le_tag \<circ> snd) (set (fm_items E))" by (simp add: distinct_map)
  also have "\<dots> \<longleftrightarrow> distinct_tags E"
    unfolding distinct_tags_def inj_on_def Ball_def split_paired_All by (simp; metis option.inject)
  finally show ?thesis ..
qed

lemma owners_step:
  assumes "distinct (map fst ((k, e) # xs))" and "\<forall>t k'. fmlookup owners t = Some k' \<longrightarrow> k' \<notin> set (map fst ((k, e) # xs))"
  shows "distinct (map fst xs)" and "\<forall>t k'. fmlookup (fmupd (le_tag e) k owners) t = Some k' \<longrightarrow> k' \<notin> set (map fst xs)"
  using assms by (auto split: if_splits)

lemma validate_loop_iff:
  assumes "distinct (map fst xs)" and "\<forall>t k. fmlookup owners t = Some k \<longrightarrow> k \<notin> set (map fst xs)"
  shows "validate_loop bad err xs owners = Inr () \<longleftrightarrow>
    (\<forall>(k, e) \<in> set xs. \<not> bad k e \<and> fmlookup owners (le_tag e) = None) \<and> distinct (map (le_tag \<circ> snd) xs)"
  using assms
proof (induction xs arbitrary: owners)
  case (Cons y xs)
  obtain k e where y: "y = (k, e)" by fastforce
  note step = owners_step[OF Cons.prems[unfolded y]]
  have "(case fmlookup owners (le_tag e) of None \<Rightarrow> False | Some owner \<Rightarrow> owner \<noteq> k) \<longleftrightarrow> fmlookup owners (le_tag e) \<noteq> None"
    using Cons.prems(2) y by (fastforce split: option.splits)
  moreover note Cons.IH[OF step]
  ultimately show ?case unfolding y by (auto simp: image_iff split: if_splits)
qed simp

lemma validate_loop_error: "validate_loop bad err xs owners = Inl e \<Longrightarrow> e = err \<or> e = lww_ErrTagConflict"
  by (induction bad err xs owners rule: validate_loop.induct) (auto split: if_splits)

lemma validate_entries_iff:
  "validate_loop bad err (fm_items E) fmempty = Inr () \<longleftrightarrow> (\<forall>k e. fmlookup E k = Some e \<longrightarrow> \<not> bad k e) \<and> distinct_tags E"
  using validate_loop_iff[OF distinct_fst_items[of E], where owners = fmempty and bad = bad and err = err] by (auto simp: distinct_tags_items)

lemma by_tag_loop_index:
  assumes "distinct (map (le_tag \<circ> snd) xs)" and "\<forall>(k, e) \<in> set xs. fmlookup B (le_tag e) = None"
  shows "by_tag_loop xs B = Inr (fold (\<lambda>(k, e). fmupd (le_tag e) k) xs B)"
  using assms
proof (induction xs arbitrary: B)
  case (Cons y xs)
  obtain k e where y: "y = (k, e)" by fastforce
  with Cons.prems have "\<forall>(k', e') \<in> set xs. fmlookup (fmupd (le_tag e) k B) (le_tag e') = None" by (force simp: image_iff)
  with Cons y show ?case by simp
qed simp

lemma index_loop_lookup:
  assumes "distinct (map (le_tag \<circ> snd) xs)"
  shows "fmlookup (fold (\<lambda>(k, e). fmupd (le_tag e) k) xs B) t =
    (case map_of (map (\<lambda>(k, e). (le_tag e, k)) xs) t of None \<Rightarrow> fmlookup B t | Some k \<Rightarrow> Some k)"
  using assms
proof (induction xs arbitrary: B)
  case (Cons y xs)
  obtain k e where y: "y = (k, e)" by fastforce
  have "map_of (map (\<lambda>(k, e). (le_tag e, k)) xs) (le_tag e) = None"
    using Cons.prems y by (force simp: map_of_eq_None_iff image_iff)
  with Cons y show ?case by (auto split: option.splits)
qed simp

lemma tag_index_indexed:
  assumes "distinct_tags E"
  shows "indexed E (tag_index E)"
proof -
  let ?xs = "map (\<lambda>(k, e). (le_tag e, k)) (fm_items E)"
  have d: "distinct (map (le_tag \<circ> snd) (fm_items E))" using assms by (simp add: distinct_tags_items)
  then have "distinct (map fst ?xs)" by (simp add: comp_def case_prod_beta)
  then have "map_of ?xs t = Some k \<longleftrightarrow> (t, k) \<in> set ?xs" for t k by (rule map_of_eq_Some_iff)
  moreover have "(t, k) \<in> set ?xs \<longleftrightarrow> (\<exists>e. fmlookup E k = Some e \<and> le_tag e = t)" for t k by (auto simp: image_iff Bex_def split_paired_Ex)
  moreover have "fmlookup (tag_index E) t = map_of ?xs t" for t
    unfolding tag_index_def index_loop_lookup[OF d] by (simp split: option.splits)
  ultimately show ?thesis unfolding indexed_def by simp
qed

lemma indexed_unique: "indexed E T \<Longrightarrow> indexed E T' \<Longrightarrow> T = T'"
proof (rule fmap_ext)
  fix t
  assume "indexed E T" "indexed E T'"
  then have same: "fmlookup T t = Some k \<longleftrightarrow> fmlookup T' t = Some k" for k by (simp add: indexed_def)
  show "fmlookup T t = fmlookup T' t"
    using same[of "the (fmlookup T t)"] same[of "the (fmlookup T' t)"] by (cases "fmlookup T t"; cases "fmlookup T' t") simp_all
qed

lemma by_tag_loop_indexed: "indexed E T \<Longrightarrow> by_tag_loop (fm_items E) fmempty = Inr T"
proof -
  assume T: "indexed E T"
  note d = indexed_distinct[OF T]
  have "by_tag_loop (fm_items E) fmempty = Inr (tag_index E)"
    unfolding tag_index_def using d by (intro by_tag_loop_index) (auto simp: distinct_tags_items)
  with indexed_unique[OF T tag_index_indexed[OF d]] show ?thesis by simp
qed

text \<open>
  The invariant: the clock runs for the replica and is at or after every tag, the index is the inverse of the entries, which
  satisfy \<open>ok\<close> and are within the limit.
\<close>

definition coll_inv :: "('k \<Rightarrow> 'v lwwEntry \<Rightarrow> bool) \<Rightarrow> int \<Rightarrow> ('k, 'v, 'z) lwwColl_scheme \<Rightarrow> bool" where
  "coll_inv ok mx c \<longleftrightarrow> (\<exists>h. lc_clock c = Some h \<and> hlc_inv h \<and> hlc_replicaID h = lc_replicaID c \<and>
     (\<forall>k e. fmlookup (lc_entries c) k = Some e \<longrightarrow> Tag_Valid (le_tag e) \<and> tag_stamp (le_tag e) \<le> hlc_stamp h \<and> ok k e)) \<and>
     indexed (lc_entries c) (lc_tags c) \<and> int (fm_size (lc_entries c)) \<le> mx"

definition valid_entries :: "('k \<Rightarrow> 'v lwwEntry \<Rightarrow> bool) \<Rightarrow> ('k, 'v) entries \<Rightarrow> bool" where
  "valid_entries ok E \<longleftrightarrow> (\<forall>k e. fmlookup E k = Some e \<longrightarrow> Tag_Valid (le_tag e) \<and> ok k e) \<and> distinct_tags E"

definition same_coll :: "('k, 'v, 'z) lwwColl_scheme \<Rightarrow> ('k, 'v, 'z) lwwColl_scheme \<Rightarrow> bool" where
  "same_coll c c' \<longleftrightarrow> lc_replicaID c' = lc_replicaID c \<and> lwwColl.more c' = lwwColl.more c"

lemma coll_inv_valid: "coll_inv ok mx c \<Longrightarrow> valid_entries ok (lc_entries c)"
  using indexed_distinct by (auto simp: coll_inv_def valid_entries_def)

lemma write_cases:
  assumes inv: "coll_inv ok mx c" and mk: "\<forall>t. le_tag (mk t) = t \<and> ok key (mk t)"
  obtains (limit) "write_locked mx key mk now c = (c, Inl lww_ErrResourceLimit)" "key |\<notin>| fmdom (lc_entries c)" "int (fm_size (lc_entries c)) = mx"
  | (clock) "write_locked mx key mk now c = (c, Inl clock_ErrClockExhausted)" "key |\<in>| fmdom (lc_entries c) \<or> int (fm_size (lc_entries c)) < mx"
  | (ok) c' t where "write_locked mx key mk now c = (c', Inr (mk t))" "coll_inv ok mx c'" "same_coll c c'"
      "lc_entries c' = fmupd key (mk t) (lc_entries c)" "Tag_Valid t" "ReplicaID t = lc_replicaID c" "hlc_stamp (the (lc_clock c)) < tag_stamp t"
      "\<And>k e. fmlookup (lc_entries c) k = Some e \<Longrightarrow> le_tag e < t"
      "key |\<in>| fmdom (lc_entries c) \<or> int (fm_size (lc_entries c)) < mx"
proof -
  let ?E = "lc_entries c" and ?T = "lc_tags c"
  obtain h where h: "lc_clock c = Some h" "hlc_inv h" "hlc_replicaID h = lc_replicaID c"
    "\<And>k e. fmlookup ?E k = Some e \<Longrightarrow> Tag_Valid (le_tag e) \<and> tag_stamp (le_tag e) \<le> hlc_stamp h \<and> ok k e"
    and ix: "indexed ?E ?T" and size: "int (fm_size ?E) \<le> mx"
    using inv by (auto simp: coll_inv_def)
  show thesis
  proof (cases "key |\<notin>| fmdom ?E \<and> int (fm_size ?E) \<ge> mx")
    case True
    with that(1) size show thesis by (simp add: write_locked_def)
  next
    case room: False
    obtain s n where n: "HLC_Now (Some h) now = (s, n)" by fastforce
    then show thesis
    proof (cases rule: Now_cases)
      case (error e)
      with n h(1) room have "write_locked mx key mk now c = (c, Inl clock_ErrClockExhausted)" by (simp add: write_locked_def del: fmlookup_dom_iff)
      with that(2) room show thesis by (meson not_le)
    next
      case (ok h')
      let ?t = "Tag (hlc_replicaID h') (hlc_wallTime h') (hlc_logical h')"
      have st: "tag_stamp ?t = hlc_stamp h'" by (simp add: tag_stamp_def hlc_stamp_def)
      have less: "le_tag e < ?t" if "fmlookup ?E k = Some e" for k e
        using h(4)[OF that] ok(3) st by (intro tag_stamp_less) simp
      have fresh: "fmlookup ?T ?t = None" using less indexedE[OF ix, of ?t] by (cases "fmlookup ?T ?t") fastforce+
      have "\<not> Tag_Valid (Tag [] 0 0)" by (simp add: Tag_Valid_def eval)
      then have zero: "fmlookup ?T (Tag [] 0 0) = None" using h(4) indexedE[OF ix, of "Tag [] 0 0"] by (cases "fmlookup ?T (Tag [] 0 0)") fastforce+
      then have drop: "fmdrop (Tag [] 0 0) ?T = ?T" by (intro fmap_ext) auto
      define T' where "T' = (case fmlookup ?E key of None \<Rightarrow> ?T | Some current \<Rightarrow> fmdrop (le_tag current) ?T)"
      define c' where "c' = c\<lparr>lc_clock := s, lc_entries := fmupd key (mk ?t) ?E, lc_tags := fmupd ?t key T'\<rparr>"
      have run: "write_locked mx key mk now c = (c', Inr (mk ?t))"
        using room n h(1) ok fresh less drop
        by (auto simp: write_locked_def Let_def c'_def T'_def split: option.splits simp del: fmlookup_dom_iff)
      have "indexed (fmupd key (mk ?t) ?E) (fmupd (le_tag (mk ?t)) key T')"
        by (rule indexed_update[OF ix]) (use fresh mk in \<open>simp_all add: T'_def\<close>)
      moreover have "int (fm_size (fmupd key (mk ?t) ?E)) \<le> mx" using room size by (auto simp: fm_size_fmupd simp del: fmlookup_dom_iff)
      moreover have "Tag_Valid (le_tag e) \<and> tag_stamp (le_tag e) \<le> hlc_stamp h' \<and> ok k e" if "fmlookup (fmupd key (mk ?t) ?E) k = Some e" for k e
        using that h(2,4) ok mk st by (fastforce simp: Tag_Valid_def hlc_inv_def split: if_splits)
      ultimately have "coll_inv ok mx c'" using h(2,3) ok mk by (auto simp: coll_inv_def c'_def hlc_inv_def)
      then show thesis
        by (rule that(3)[OF run]) (use h ok less room st in \<open>auto simp: c'_def same_coll_def Tag_Valid_def hlc_inv_def simp del: fmlookup_dom_iff\<close>)
    qed
  qed
qed

lemma greatest_entry_tag_spec:
  "case greatest_entry_tag E of
     None \<Rightarrow> E = fmempty
   | Some g \<Rightarrow> (\<exists>k e. fmlookup E k = Some e \<and> le_tag e = g) \<and> (\<forall>k e. fmlookup E k = Some e \<longrightarrow> le_tag e \<le> g)"
proof -
  let ?ts = "map (\<lambda>(k, e). le_tag e) (fm_items E)"
  have eq: "greatest_entry_tag E = fold note_greatest ?ts None"
    unfolding greatest_entry_tag_def fold_map by (simp add: comp_def case_prod_beta')
  have mem: "t \<in> set ?ts \<longleftrightarrow> (\<exists>k e. fmlookup E k = Some e \<and> le_tag e = t)" for t by (auto simp: image_iff Bex_def split_paired_Ex)
  show ?thesis
  proof (cases ?ts)
    case Nil
    then have "length (fm_items E) = 0" by simp
    then have "E = fmempty" by (simp only: length_fm_items fm_size_eq_0)
    with eq Nil show ?thesis by simp
  next
    case (Cons x xs)
    then have "greatest_entry_tag E = Some (Max (set ?ts))" using eq by (simp add: fold_note_greatest)
    moreover have "Max (set ?ts) \<in> set ?ts" using Cons by (intro Max_in) simp_all
    moreover have "\<And>t. t \<in> set ?ts \<Longrightarrow> t \<le> Max (set ?ts)" by simp
    ultimately show ?thesis unfolding mem by (auto simp del: set_map)
  qed
qed

section \<open>The join, the replacement and the compaction\<close>

lemma new_entries_size: "fm_size A + new_entries B A = fm_size (entries_join A B)"
proof -
  have "fmdom (entries_join A B) = fmdom A |\<union>| (fmdom B |-| fmdom A)"
    by (intro fset_eqI) (auto simp: fmlookup_dom_iff simp flip: not_None_eq)
  moreover have "fcard (fmdom A |\<union>| (fmdom B |-| fmdom A)) = fcard (fmdom A) + fcard (fmdom B |-| fmdom A)"
    by (intro fcard_funion_disjoint) auto
  moreover have "new_entries B A = fcard (fmdom B |-| fmdom A)"
  proof -
    have "new_entries B A = length (filter (\<lambda>k. k |\<notin>| fmdom A) (fm_keys B))" by (simp add: new_entries_def)
    also have "\<dots> = card (set (filter (\<lambda>k. k |\<notin>| fmdom A) (fm_keys B)))" by (rule distinct_card[symmetric]) simp
    also have "set (filter (\<lambda>k. k |\<notin>| fmdom A) (fm_keys B)) = fset (fmdom B |-| fmdom A)" by auto
    finally show ?thesis by (simp add: fcard.rep_eq)
  qed
  ultimately show ?thesis by (simp add: fm_size_def)
qed

text \<open>When the entries of a join are in conflict with those of the receiver.\<close>

definition clash :: "('k, 'v) entries \<Rightarrow> ('k, 'v) entries \<Rightarrow> bool" where
  "clash A B \<longleftrightarrow> (\<exists>k e k' e'. fmlookup A k = Some e \<and> fmlookup B k' = Some e' \<and> le_tag e = le_tag e' \<and> (k, e) \<noteq> (k', e'))"

lemma entries_conflict_iff: "entries_conflict a b \<longleftrightarrow> le_tag a = le_tag b \<and> a \<noteq> b"
  by (cases a; cases b) (auto simp: entries_conflict_def)

lemma issued_no_clash: "issued_by val A \<Longrightarrow> issued_by val B \<Longrightarrow> \<not> clash A B"
  by (auto simp: clash_def dest: issued_same)

lemma join_guard:
  assumes "indexed A T"
  shows "(ensure_tags_compatible T B = Inr () \<and>
    \<not> list_ex (\<lambda>(k, e). case fmlookup A k of None \<Rightarrow> False | Some current \<Rightarrow> entries_conflict current e) (fm_items B)) \<longleftrightarrow> \<not> clash A B"
proof -
  have "ensure_tags_compatible T B = Inr () \<longleftrightarrow> (\<forall>k e k'. fmlookup B k = Some e \<longrightarrow> fmlookup T (le_tag e) = Some k' \<longrightarrow> k' = k)"
    unfolding ensure_tags_compatible_def list_ex_iff by (simp add: Bex_def split_paired_Ex split: option.splits) (metis option.inject option.distinct(1))
  also have "\<dots> \<longleftrightarrow> (\<forall>k e k' e'. fmlookup B k = Some e \<longrightarrow> fmlookup A k' = Some e' \<longrightarrow> le_tag e' = le_tag e \<longrightarrow> k' = k)"
    using assms unfolding indexed_def by blast
  finally have compat: "ensure_tags_compatible T B = Inr () \<longleftrightarrow> \<dots>" .
  have "list_ex (\<lambda>(k, e). case fmlookup A k of None \<Rightarrow> False | Some current \<Rightarrow> entries_conflict current e) (fm_items B) \<longleftrightarrow>
    (\<exists>k e e'. fmlookup B k = Some e \<and> fmlookup A k = Some e' \<and> le_tag e' = le_tag e \<and> e' \<noteq> e)"
    unfolding list_ex_iff Bex_def split_paired_Ex by (simp add: entries_conflict_iff split: option.splits) (metis option.inject option.distinct(1))
  moreover have "clash A B \<longleftrightarrow> (\<exists>k e k' e'. fmlookup B k = Some e \<and> fmlookup A k' = Some e' \<and> le_tag e' = le_tag e \<and> k' \<noteq> k) \<or>
    (\<exists>k e e'. fmlookup B k = Some e \<and> fmlookup A k = Some e' \<and> le_tag e' = le_tag e \<and> e' \<noteq> e)"
  proof
    assume "clash A B"
    then obtain k e k' e' where x: "fmlookup A k = Some e" "fmlookup B k' = Some e'" "le_tag e = le_tag e'" "k = k' \<Longrightarrow> e \<noteq> e'" by (auto simp: clash_def)
    then show "(\<exists>k e k' e'. fmlookup B k = Some e \<and> fmlookup A k' = Some e' \<and> le_tag e' = le_tag e \<and> k' \<noteq> k) \<or>
      (\<exists>k e e'. fmlookup B k = Some e \<and> fmlookup A k = Some e' \<and> le_tag e' = le_tag e \<and> e' \<noteq> e)" by (cases "k = k'") blast+
  qed (unfold clash_def prod.inject, blast)
  ultimately show ?thesis using compat by blast
qed

lemma entries_subsumed_join:
  assumes "entries_subsumed A B"
  shows "entries_join A B = A"
proof (rule fmap_ext)
  fix k
  have "(case fmlookup A k of None \<Rightarrow> False | Some a \<Rightarrow> \<not> le_tag a < le_tag b)" if "fmlookup B k = Some b" for b
    using assms that unfolding entries_subsumed_def list_all_iff by (force split: option.splits)
  then show "fmlookup (entries_join A B) k = fmlookup A k"
    by (cases "fmlookup B k"; cases "fmlookup A k") auto
qed

lemma join_cases:
  assumes inv: "coll_inv ok mx c" and E: "valid_entries ok E"
  obtains (conflict) "join_locked mx E now c = (c, Inl lww_ErrTagConflict)" "clash (lc_entries c) E"
  | (limit) "join_locked mx E now c = (c, Inl lww_ErrResourceLimit)" "mx < int (fm_size (entries_join (lc_entries c) E))" "\<not> clash (lc_entries c) E"
  | (clock) "join_locked mx E now c = (c, Inl clock_ErrClockExhausted)" "\<not> clash (lc_entries c) E"
  | (ok) c' where "join_locked mx E now c = (c', Inr ())" "coll_inv ok mx c'" "same_coll c c'"
      "lc_entries c' = entries_join (lc_entries c) E" "\<not> clash (lc_entries c) E"
proof -
  let ?A = "lc_entries c" and ?T = "lc_tags c"
  obtain h where h: "lc_clock c = Some h" "hlc_inv h" "hlc_replicaID h = lc_replicaID c"
    "\<And>k e. fmlookup ?A k = Some e \<Longrightarrow> Tag_Valid (le_tag e) \<and> tag_stamp (le_tag e) \<le> hlc_stamp h \<and> ok k e"
    and ix: "indexed ?A ?T" and size: "int (fm_size ?A) \<le> mx"
    using inv by (auto simp: coll_inv_def)
  note guard = join_guard[OF ix, of E]
  have err: "ensure_tags_compatible ?T E = Inl e \<Longrightarrow> e = lww_ErrTagConflict" for e by (auto simp: ensure_tags_compatible_def split: if_splits)
  show thesis
  proof (cases "clash ?A E")
    case True
    with guard err have "join_locked mx E now c = (c, Inl lww_ErrTagConflict)"
      by (cases "ensure_tags_compatible ?T E") (auto simp: join_locked_def)
    with that(1) True show thesis by blast
  next
    case False
    then have start: "join_locked mx E now c =
      (if entries_subsumed ?A E then (c, Inr ())
       else if int (fm_size (entries_join ?A E)) > mx then (c, Inl lww_ErrResourceLimit)
       else (case (case greatest_entry_tag E of None \<Rightarrow> (lc_clock c, Inr ()) | Some tag \<Rightarrow> HLC_Witness (lc_clock c) tag now) of
           (clock, Inl err) \<Rightarrow> (c\<lparr>lc_clock := clock\<rparr>, Inl err)
         | (clock, Inr _) \<Rightarrow> (let (entries, tags) = fold (\<lambda>(key, incoming). put_entry key incoming) (fm_items E) (?A, ?T)
            in (c\<lparr>lc_clock := clock, lc_entries := entries, lc_tags := tags\<rparr>, Inr ()))))"
      using guard by (simp add: join_locked_def new_entries_size)
    have joined: "\<exists>T'. fold (\<lambda>(key, incoming). put_entry key incoming) (fm_items E) (?A, ?T) = (entries_join ?A E, T') \<and> indexed (entries_join ?A E) T'"
    proof -
      let ?r = "fold (\<lambda>(key, incoming). put_entry key incoming) (fm_items E) (?A, ?T)"
      have "\<forall>(k, e) \<in> set (fm_items E). fmlookup ?T (le_tag e) \<in> {None, Some k}"
        using False ix by (fastforce simp: clash_def dest: indexedE)
      then have "indexed (fst ?r) (snd ?r)"
        using ix E by (intro put_entries_indexed) (auto simp: valid_entries_def distinct_tags_items)
      then show ?thesis using put_entries_join[of E "(?A, ?T)"] by (metis fst_conv prod.collapse)
    qed
    then obtain T' where T': "fold (\<lambda>(key, incoming). put_entry key incoming) (fm_items E) (?A, ?T) = (entries_join ?A E, T')" "indexed (entries_join ?A E) T'"
      by blast
    consider "entries_subsumed ?A E" | "\<not> entries_subsumed ?A E" "mx < int (fm_size (entries_join ?A E))"
      | "\<not> entries_subsumed ?A E" "int (fm_size (entries_join ?A E)) \<le> mx" by linarith
    then show thesis
    proof cases
      case 1
      with start that(4)[of c] inv entries_subsumed_join[OF 1] False show thesis by (simp add: same_coll_def)
    next
      case 2
      with start that(2) False show thesis by simp
    next
      case 3
      then have "E \<noteq> fmempty" by (auto simp: entries_subsumed_def)
      then obtain g where g: "greatest_entry_tag E = Some g" "\<exists>k e. fmlookup E k = Some e \<and> le_tag e = g" "\<And>k e. fmlookup E k = Some e \<Longrightarrow> le_tag e \<le> g"
        using greatest_entry_tag_spec[of E] by (auto split: option.splits)
      have gv: "Tag_Valid g" using g(2) E by (auto simp: valid_entries_def)
      obtain s n where n: "HLC_Witness (Some h) g now = (s, n)" by fastforce
      then show thesis
      proof (cases rule: Witness_cases)
        case (error e)
        with start 3 g(1) n h(1) gv that(3) False show thesis by simp
      next
        case (ok h')
        define c' where "c' = c\<lparr>lc_clock := s, lc_entries := entries_join ?A E, lc_tags := T'\<rparr>"
        have run: "join_locked mx E now c = (c', Inr ())" using start 3 g(1) n h(1) ok T'(1) by (simp add: c'_def)
        have "Tag_Valid (le_tag e) \<and> tag_stamp (le_tag e) \<le> hlc_stamp h' \<and> ok k e" if "fmlookup (entries_join ?A E) k = Some e" for k e
        proof -
          from that have "fmlookup ?A k = Some e \<or> fmlookup E k = Some e" using greater_entry_cases by (metis entries_join_lookup)
          then show ?thesis
            using h(4)[of k e] ok(4,5) E tag_le_stamp[OF g(3)[of k e]] by (auto simp: valid_entries_def)
        qed
        then have "coll_inv ok mx c'" using h(2,3) ok T'(2) 3 by (auto simp: coll_inv_def c'_def hlc_inv_def)
        then show thesis by (rule that(4)[OF run]) (use False in \<open>simp_all add: c'_def same_coll_def\<close>)
      qed
    qed
  qed
qed

lemma replace_cases:
  assumes inv: "coll_inv ok mx c" and E: "valid_entries ok E" and size: "int (fm_size E) \<le> mx"
  obtains (clock) "replace_locked E (tag_index E) now c = (c, Inl clock_ErrClockExhausted)" "E \<noteq> fmempty"
  | (ok) c' where "replace_locked E (tag_index E) now c = (c', Inr ())" "coll_inv ok mx c'" "same_coll c c'" "lc_entries c' = E"
      "hlc_stamp (the (lc_clock c)) \<le> hlc_stamp (the (lc_clock c'))"
proof -
  obtain h where h: "lc_clock c = Some h" "hlc_inv h" "hlc_replicaID h = lc_replicaID c" using inv by (auto simp: coll_inv_def)
  have ix: "indexed E (tag_index E)" using E by (auto simp: valid_entries_def intro: tag_index_indexed)
  show thesis
  proof (cases "greatest_entry_tag E")
    case None
    then have "E = fmempty" using greatest_entry_tag_spec[of E] by simp
    with None h ix size show thesis
      by (intro that(2)[of "c\<lparr>lc_entries := E, lc_tags := tag_index E\<rparr>"]) (auto simp: replace_locked_def coll_inv_def same_coll_def)
  next
    case (Some g)
    with greatest_entry_tag_spec[of E] have g: "\<exists>k e. fmlookup E k = Some e \<and> le_tag e = g" "\<And>k e. fmlookup E k = Some e \<Longrightarrow> le_tag e \<le> g" by auto
    have gv: "Tag_Valid g" and ne: "E \<noteq> fmempty" using g(1) E by (auto simp: valid_entries_def)
    obtain s n where n: "HLC_Witness (Some h) g now = (s, n)" by fastforce
    then show thesis
    proof (cases rule: Witness_cases)
      case (error e)
      with that(1) Some n h(1) gv ne show thesis by (simp add: replace_locked_def)
    next
      case (ok h')
      have "tag_stamp (le_tag e) \<le> hlc_stamp h'" if "fmlookup E k = Some e" for k e
        using tag_le_stamp[OF g(2)[OF that]] ok(5) by simp
      then have "coll_inv ok mx (c\<lparr>lc_clock := s, lc_entries := E, lc_tags := tag_index E\<rparr>)"
        using h ok E ix size by (auto simp: coll_inv_def valid_entries_def hlc_inv_def)
      with Some n h ok show thesis
        by (intro that(2)[of "c\<lparr>lc_clock := s, lc_entries := E, lc_tags := tag_index E\<rparr>"]) (auto simp: replace_locked_def same_coll_def)
    qed
  qed
qed

lemma compact_loop_spec:
  assumes inj: "\<forall>s t k. fmlookup T s = Some k \<longrightarrow> fmlookup T t = Some k \<longrightarrow> s = t"
  shows "if \<exists>t \<in> set ts - fset seen. \<exists>k e. fmlookup T t = Some k \<and> fmlookup E k = Some e \<and> le_present e
    then compact_loop E T ts seen acc = Inl lww_ErrUnsafeCompaction
    else \<exists>ks. compact_loop E T ts seen acc = Inr (acc @ ks) \<and> distinct ks \<and> set ks = {k. \<exists>t \<in> set ts - fset seen. fmlookup T t = Some k}"
proof (induction ts arbitrary: seen acc)
  case (Cons t ts)
  show ?case
  proof (cases "t |\<in>| seen")
    case True
    then have "set (t # ts) - fset seen = set ts - fset seen" by auto
    with Cons.IH[of seen acc] True show ?thesis by simp
  next
    case new: False
    have split: "set (t # ts) - fset seen = insert t (set ts - fset (finsert t seen))" using new by auto
    show ?thesis
    proof (cases "fmlookup T t")
      case None
      then have "compact_loop E T (t # ts) seen acc = compact_loop E T ts (finsert t seen) acc" using new by simp
      moreover have "{k. \<exists>s \<in> insert t (set ts - fset (finsert t seen)). fmlookup T s = Some k} =
          {k. \<exists>s \<in> set ts - fset (finsert t seen). fmlookup T s = Some k}" using None by auto
      moreover have "(\<exists>s \<in> insert t (set ts - fset (finsert t seen)). \<exists>k e. fmlookup T s = Some k \<and> fmlookup E k = Some e \<and> le_present e) \<longleftrightarrow>
          (\<exists>s \<in> set ts - fset (finsert t seen). \<exists>k e. fmlookup T s = Some k \<and> fmlookup E k = Some e \<and> le_present e)" using None by auto
      ultimately show ?thesis unfolding split using Cons.IH[of "finsert t seen" acc] by presburger
    next
      case (Some k)
      show ?thesis
      proof (cases "\<exists>e. fmlookup E k = Some e \<and> le_present e")
        case True
        with new Some show ?thesis unfolding split by auto
      next
        case False
        then have dead: "\<not> (case fmlookup E k of None \<Rightarrow> False | Some entry \<Rightarrow> le_present entry)" by (auto split: option.splits)
        have other: "k \<notin> {k. \<exists>s \<in> set ts - fset (finsert t seen). fmlookup T s = Some k}" using inj Some by fastforce
        have run: "compact_loop E T (t # ts) seen acc = compact_loop E T ts (finsert t seen) (acc @ [k])" using new Some dead by simp
        have keys: "{k. \<exists>s \<in> insert t (set ts - fset (finsert t seen)). fmlookup T s = Some k} =
          insert k {k. \<exists>s \<in> set ts - fset (finsert t seen). fmlookup T s = Some k}" using Some by auto
        have live: "(\<exists>s \<in> insert t (set ts - fset (finsert t seen)). \<exists>k e. fmlookup T s = Some k \<and> fmlookup E k = Some e \<and> le_present e) \<longleftrightarrow>
          (\<exists>s \<in> set ts - fset (finsert t seen). \<exists>k e. fmlookup T s = Some k \<and> fmlookup E k = Some e \<and> le_present e)" using Some False by auto
        show ?thesis unfolding split run keys live
        proof (split if_split, intro conjI impI)
          assume "\<not> (\<exists>s \<in> set ts - fset (finsert t seen). \<exists>k e. fmlookup T s = Some k \<and> fmlookup E k = Some e \<and> le_present e)"
          with Cons.IH[of "finsert t seen" "acc @ [k]"] have "\<exists>ks. compact_loop E T ts (finsert t seen) (acc @ [k]) = Inr ((acc @ [k]) @ ks) \<and>
            distinct ks \<and> set ks = {k. \<exists>s \<in> set ts - fset (finsert t seen). fmlookup T s = Some k}" by presburger
          then obtain ks where "compact_loop E T ts (finsert t seen) (acc @ [k]) = Inr ((acc @ [k]) @ ks)" "distinct ks"
            "set ks = {k. \<exists>s \<in> set ts - fset (finsert t seen). fmlookup T s = Some k}" by blast
          with other show "\<exists>ks. compact_loop E T ts (finsert t seen) (acc @ [k]) = Inr (acc @ ks) \<and> distinct ks \<and>
            set ks = insert k {k. \<exists>s \<in> set ts - fset (finsert t seen). fmlookup T s = Some k}"
            by (intro exI[of _ "k # ks"]) simp
        qed (use Cons.IH[of "finsert t seen" "acc @ [k]"] in simp)
      qed
    qed
  qed
qed simp

lemma drop_key_indexed:
  assumes "indexed E T" and "fmlookup E k = Some e"
  shows "indexed (fst (drop_key k (E, T))) (snd (drop_key k (E, T)))"
proof -
  have own: "fmlookup T t = Some k \<longleftrightarrow> t = le_tag e" for t using assms by (auto simp: indexed_def)
  have "fmlookup (fmdrop (le_tag e) T) t = Some k' \<longleftrightarrow> (\<exists>e'. fmlookup (fmdrop k E) k' = Some e' \<and> le_tag e' = t)" for t k'
  proof (cases "k' = k")
    case True
    then show ?thesis using own[of t] by simp
  next
    case False
    then have "fmlookup T t = Some k' \<Longrightarrow> t \<noteq> le_tag e" using own[of t] by auto
    with False assms(1) show ?thesis unfolding indexed_def by (cases "t = le_tag e") auto
  qed
  with assms(2) show ?thesis by (simp add: indexed_def drop_key_def)
qed

lemma drop_keys:
  "indexed E T \<Longrightarrow> distinct ks \<Longrightarrow> set ks \<subseteq> fset (fmdom E) \<Longrightarrow>
   fst (fold drop_key ks (E, T)) = fmfilter (\<lambda>k. k \<notin> set ks) E \<and> indexed (fmfilter (\<lambda>k. k \<notin> set ks) E) (snd (fold drop_key ks (E, T)))"
proof (induction ks arbitrary: E T)
  case Nil
  have "fmfilter (\<lambda>k. True) E = E" by (rule fmap_ext) simp
  with Nil show ?case by simp
next
  case (Cons k ks)
  then obtain e where e: "fmlookup E k = Some e" by (auto simp: fmlookup_dom_iff)
  let ?E = "fmdrop k E" and ?T = "snd (drop_key k (E, T))"
  have "drop_key k (E, T) = (?E, ?T)" by (simp add: drop_key_def)
  moreover have "indexed ?E ?T" using drop_key_indexed[OF Cons.prems(1) e] by (simp add: drop_key_def)
  moreover have "fmfilter (\<lambda>k. k \<notin> set ks) ?E = fmfilter (\<lambda>x. x \<notin> set (k # ks)) E" by (rule fmap_ext) simp
  ultimately show ?case using Cons.IH[of ?E ?T] Cons.prems by auto
qed

definition tagged_keys :: "('k, 'v) entries \<Rightarrow> tag list \<Rightarrow> 'k set" where
  "tagged_keys E ts = {k. \<exists>e. fmlookup E k = Some e \<and> le_tag e \<in> set ts}"

definition live_tags :: "('k, 'v) entries \<Rightarrow> tag set" where
  "live_tags E = {t. \<exists>k e. fmlookup E k = Some e \<and> le_present e \<and> le_tag e = t}"

lemma fm_size_fmfilter: "fm_size (fmfilter P E) \<le> fm_size E"
  by (auto simp: fm_size_def intro!: fcard_mono)

lemma compact_cases:
  assumes inv: "coll_inv ok mx c"
  obtains (invalid) "compact_coll ts c = (c, Inl lww_ErrUnsafeCompaction)" "\<not> list_all Tag_Valid ts"
  | (live) "compact_coll ts c = (c, Inl lww_ErrUnsafeCompaction)" "list_all Tag_Valid ts" "set ts \<inter> live_tags (lc_entries c) \<noteq> {}"
  | (ok) c' where "compact_coll ts c = (c', Inr (card (tagged_keys (lc_entries c) ts)))" "coll_inv ok mx c'" "same_coll c c'" "lc_clock c' = lc_clock c"
      "lc_entries c' = fmfilter (\<lambda>k. k \<notin> tagged_keys (lc_entries c) ts) (lc_entries c)" "list_all Tag_Valid ts" "set ts \<inter> live_tags (lc_entries c) = {}"
proof (cases "list_all Tag_Valid ts")
  case False
  with that(1) show thesis by (simp add: compact_coll_def)
next
  case valid: True
  let ?E = "lc_entries c" and ?T = "lc_tags c"
  have ix: "indexed ?E ?T" using inv by (auto simp: coll_inv_def)
  have inj: "s = t" if "fmlookup ?T s = Some k" "fmlookup ?T t = Some k" for s t k
    using indexedE[OF ix that(1)] indexedE[OF ix that(2)] by auto
  note by_tag = by_tag_loop_indexed[OF ix]
  have "\<forall>s t k. fmlookup ?T s = Some k \<longrightarrow> fmlookup ?T t = Some k \<longrightarrow> s = t" using inj by blast
  note spec = compact_loop_spec[OF this, of ts "{||}" ?E "[]"]
  have live: "(\<exists>t \<in> set ts - fset {||}. \<exists>k e. fmlookup ?T t = Some k \<and> fmlookup ?E k = Some e \<and> le_present e) \<longleftrightarrow> set ts \<inter> live_tags ?E \<noteq> {}"
    using ix by (fastforce simp: live_tags_def indexed_def)
  have keys: "{k. \<exists>t \<in> set ts - fset {||}. fmlookup ?T t = Some k} = tagged_keys ?E ts"
    using ix by (auto simp: tagged_keys_def indexed_def)
  show thesis
  proof (cases "set ts \<inter> live_tags ?E \<noteq> {}")
    case True
    with spec[unfolded live keys] that(2) valid by_tag show thesis by (simp add: compact_coll_def)
  next
    case False
    with spec[unfolded live keys] obtain ks where ks: "compact_loop ?E ?T ts {||} [] = Inr ks" "distinct ks" "set ks = tagged_keys ?E ts" by auto
    have "set ks \<subseteq> fset (fmdom ?E)" by (auto simp: ks(3) tagged_keys_def intro: fmdomI)
    from drop_keys[OF ix ks(2) this] obtain T' where T': "fold drop_key ks (?E, ?T) = (fmfilter (\<lambda>k. k \<notin> set ks) ?E, T')" "indexed (fmfilter (\<lambda>k. k \<notin> set ks) ?E) T'"
      by (metis prod.collapse)
    define c' where "c' = c\<lparr>lc_entries := fmfilter (\<lambda>k. k \<notin> set ks) ?E, lc_tags := T'\<rparr>"
    have run: "compact_coll ts c = (c', Inr (card (tagged_keys ?E ts)))"
      using valid by_tag ks T' distinct_card[OF ks(2)] by (simp add: compact_coll_def c'_def)
    have "coll_inv ok mx c'"
      using inv T'(2) fm_size_fmfilter[of "\<lambda>k. k \<notin> set ks" ?E] by (fastforce simp: coll_inv_def c'_def split: if_splits)
    then show thesis by (rule that(3)[OF run]) (use False valid ks(3) in \<open>simp_all add: c'_def same_coll_def\<close>)
  qed
qed

lemma delta_loop_spec:
  assumes "distinct (map fst xs)"
  shows "delta_loop xs A = (if \<exists>(k, e) \<in> set xs. \<exists>a. fmlookup A k = Some a \<and> entries_conflict a e then Inl lww_ErrTagConflict
    else Inr (fst (fold (\<lambda>(k, e). put_entry k e) xs (A, T))))"
  using assms
proof (induction xs arbitrary: A T)
  case (Cons y xs)
  obtain k e where y: "y = (k, e)" by fastforce
  define B where "B = fst (put_entry k e (A, T))"
  have same: "fmlookup B k' = fmlookup A k'" if "(k', e') \<in> set xs" for k' e'
    using that Cons.prems y by (force simp: B_def put_entry_lookup)
  have rest: "(\<exists>(k, e) \<in> set xs. \<exists>a. fmlookup B k = Some a \<and> entries_conflict a e) \<longleftrightarrow> (\<exists>(k, e) \<in> set xs. \<exists>a. fmlookup A k = Some a \<and> entries_conflict a e)"
    by (rule bex_cong) (auto simp: same)
  have step: "delta_loop (y # xs) A = (if \<exists>a. fmlookup A k = Some a \<and> entries_conflict a e then Inl lww_ErrTagConflict else delta_loop xs B)"
    by (auto simp: y B_def put_entry_def split: option.splits)
  have "delta_loop xs B = (if \<exists>(k, e) \<in> set xs. \<exists>a. fmlookup B k = Some a \<and> entries_conflict a e then Inl lww_ErrTagConflict
    else Inr (fst (fold (\<lambda>(k, e). put_entry k e) xs (B, snd (put_entry k e (A, T))))))" using Cons by simp
  then show ?case unfolding step rest by (auto simp: y B_def)
qed simp

lemma delta_loop_join:
  "delta_loop (fm_items B) A = (if \<exists>k b a. fmlookup B k = Some b \<and> fmlookup A k = Some a \<and> le_tag a = le_tag b \<and> a \<noteq> b
     then Inl lww_ErrTagConflict else Inr (entries_join A B))"
proof -
  have "(\<exists>(k, e) \<in> set (fm_items B). \<exists>a. fmlookup A k = Some a \<and> entries_conflict a e) \<longleftrightarrow>
    (\<exists>k b a. fmlookup B k = Some b \<and> fmlookup A k = Some a \<and> le_tag a = le_tag b \<and> a \<noteq> b)"
    by (auto simp: Bex_def split_paired_Ex entries_conflict_iff)
  then show ?thesis by (simp only: delta_loop_spec[OF distinct_fst_items, where T = fmempty] entries_join_def[symmetric])
qed

section \<open>Tombstones\<close>

definition dead_tags :: "('k::linorder, 'v) entries \<Rightarrow> tag fset" where
  "dead_tags E = fset_of_list (map (\<lambda>(key, entry). le_tag entry) (filter (\<lambda>(key, entry). \<not> le_present entry) (fm_items E)))"

definition live_entries :: "('k, 'v) entries \<Rightarrow> ('k, 'v) entries" where
  "live_entries E = fmfilter (\<lambda>k. case fmlookup E k of None \<Rightarrow> False | Some e \<Rightarrow> le_present e) E"

lemma dead_tags_iff: "t |\<in>| dead_tags E \<longleftrightarrow> (\<exists>k e. fmlookup E k = Some e \<and> \<not> le_present e \<and> le_tag e = t)"
  by (auto simp: dead_tags_def fset_of_list_elem image_iff Bex_def split_paired_Ex)

lemma tombstone_tags_eq:
  assumes "distinct_tags E"
  shows "tombstone_tags E = sorted_list_of_fset (dead_tags E)"
proof -
  let ?xs = "map (\<lambda>(key, entry). le_tag entry) (filter (\<lambda>(key, entry). \<not> le_present entry) (fm_items E))"
  have "distinct (map (le_tag \<circ> snd) (filter (\<lambda>(key, entry). \<not> le_present entry) (fm_items E)))"
    using assms unfolding distinct_tags_items by (rule distinct_map_filter)
  then have "distinct ?xs" by (simp add: comp_def case_prod_beta')
  then have "sorted_wrt (<) (sort ?xs)" by (simp add: strict_sorted_iff)
  from sorted_list_of_fset_unique[OF this] have "sorted_list_of_fset (fset_of_list (sort ?xs)) = sort ?xs" .
  moreover have "fset_of_list (sort ?xs) = dead_tags E" unfolding dead_tags_def fset_inject[symmetric] fset_of_list.rep_eq set_sort ..
  ultimately show ?thesis by (simp add: tombstone_tags_def)
qed

lemma live_entries_filter:
  assumes "\<And>k e. fmlookup E k = Some e \<Longrightarrow> k \<in> K \<Longrightarrow> \<not> le_present e"
  shows "live_entries (fmfilter (\<lambda>k. k \<notin> K) E) = live_entries E"
  using assms by (intro fmap_ext) (auto simp: live_entries_def split: option.splits)

text \<open>Compacting tombstones removes exactly them.\<close>

lemma compact_dead:
  assumes inv: "coll_inv ok mx c" and ts: "set ts \<subseteq> fset (dead_tags (lc_entries c))"
  obtains c' where "compact_coll ts c = (c', Inr (fcard (fset_of_list ts)))" "coll_inv ok mx c'" "same_coll c c'" "lc_clock c' = lc_clock c"
    "dead_tags (lc_entries c') = dead_tags (lc_entries c) |-| fset_of_list ts" "live_entries (lc_entries c') = live_entries (lc_entries c)"
proof -
  let ?E = "lc_entries c"
  note v = coll_inv_valid[OF inv]
  have d: "k = k'" if "fmlookup ?E k = Some e" "fmlookup ?E k' = Some e'" "le_tag e = le_tag e'" for k e k' e'
    using v that unfolding valid_entries_def distinct_tags_def by blast
  have dead: "\<exists>k e. fmlookup ?E k = Some e \<and> \<not> le_present e \<and> le_tag e = t" if "t \<in> set ts" for t using that ts by (auto simp: dead_tags_iff)
  have valid: "list_all Tag_Valid ts" using dead v by (fastforce simp: list_all_iff valid_entries_def)
  have dead_only: "\<not> le_present e" if "fmlookup ?E k = Some e" "le_tag e \<in> set ts" for k e
    using dead[OF that(2)] d that(1) by fastforce
  then have nolive: "set ts \<inter> live_tags ?E = {}" by (auto simp: live_tags_def)
  from inv show thesis
  proof (cases rule: compact_cases[where ts = ts])
    case (ok c')
    have "inj_on (\<lambda>k. le_tag (the (fmlookup ?E k))) (tagged_keys ?E ts)" using d by (fastforce simp: inj_on_def tagged_keys_def)
    moreover have "(\<lambda>k. le_tag (the (fmlookup ?E k))) ` tagged_keys ?E ts = set ts"
      using dead by (auto simp: tagged_keys_def image_iff) (metis option.sel)
    ultimately have "card (tagged_keys ?E ts) = fcard (fset_of_list ts)" by (metis card_image fcard.rep_eq fset_of_list.rep_eq)
    moreover have "live_entries (lc_entries c') = live_entries ?E"
      unfolding ok(5) by (rule live_entries_filter) (use dead_only in \<open>auto simp: tagged_keys_def\<close>)
    moreover have "dead_tags (lc_entries c') = dead_tags ?E |-| fset_of_list ts"
    proof (rule fset_eqI)
      fix t
      show "t |\<in>| dead_tags (lc_entries c') \<longleftrightarrow> t |\<in>| dead_tags ?E |-| fset_of_list ts"
        unfolding ok(5) by (auto simp: dead_tags_iff tagged_keys_def fset_of_list_elem split: if_splits)
    qed
    ultimately show thesis using ok by (intro that[of c']) simp_all
  qed (use valid nolive in auto)
qed

section \<open>The contract of a last-write-wins replica\<close>

text \<open>
  What a map and a set promise of applying entries: a successful call joins them. Entries of a replica are
  the greatest of all it was given.
\<close>

definition greatest_of :: "('k, 'v) entries \<Rightarrow> ('k, 'v) entries set \<Rightarrow> bool" where
  "greatest_of E S \<longleftrightarrow> (\<forall>F \<in> S. \<forall>k e. fmlookup F k = Some e \<longrightarrow> (\<exists>e'. fmlookup E k = Some e' \<and> le_tag e \<le> le_tag e')) \<and>
     (\<forall>k e. fmlookup E k = Some e \<longrightarrow> (\<exists>F \<in> S. fmlookup F k = Some e))"

lemma greatest_of_join:
  assumes "greatest_of E S"
  shows "greatest_of (entries_join E F) (insert F S)"
  unfolding greatest_of_def
proof (intro conjI ballI allI impI)
  fix G k e assume G: "G \<in> insert F S" "fmlookup G k = Some e"
  have "\<exists>e'. fmlookup E k = Some e' \<and> le_tag e \<le> le_tag e'" if "G \<noteq> F" using that G assms by (auto simp: greatest_of_def)
  then show "\<exists>e'. fmlookup (entries_join E F) k = Some e' \<and> le_tag e \<le> le_tag e'"
    using G(2) by (cases "fmlookup E k"; cases "fmlookup F k"; cases "G = F") auto
next
  fix k e assume "fmlookup (entries_join E F) k = Some e"
  then have "fmlookup E k = Some e \<or> fmlookup F k = Some e" using greater_entry_cases by (metis entries_join_lookup)
  then show "\<exists>G \<in> insert F S. fmlookup G k = Some e" using assms by (auto simp: greatest_of_def)
qed

lemma greatest_of_deliver: "greatest_of E S \<Longrightarrow> greatest_of (foldl entries_join E Fs) (S \<union> set Fs)"
proof (induction Fs arbitrary: E S)
  case (Cons F Fs)
  from Cons.IH[OF greatest_of_join[OF Cons.prems, of F]] show ?case by simp
qed simp

text \<open>Applying a list of deltas, each at a reading of the physical clock, stopping at the first error.\<close>

fun apply_all :: "('s \<Rightarrow> 'd \<Rightarrow> int option \<Rightarrow> 's option \<times> unit res) \<Rightarrow> 's \<Rightarrow> ('d \<times> int option) list \<Rightarrow> 's option" where
  "apply_all f s [] = Some s"
| "apply_all f s ((d, now) # ds) = (case f s d now of (Some s', Inr _) \<Rightarrow> apply_all f s' ds | _ \<Rightarrow> None)"

locale lww_replica =
  fixes inv :: "'s \<Rightarrow> bool" and view :: "'s \<Rightarrow> ('k::linorder, 'v) entries" and apply_delta :: "'s \<Rightarrow> 'd \<Rightarrow> int option \<Rightarrow> 's option \<times> unit res"
    and content :: "'d \<Rightarrow> ('k, 'v) entries"
  assumes apply_ok: "inv s \<Longrightarrow> apply_delta s d now = (s', Inr u) \<Longrightarrow> \<exists>t. s' = Some t \<and> inv t \<and> view t = entries_join (view s) (content d)"
begin

lemma apply_all_view:
  "inv s \<Longrightarrow> apply_all apply_delta s ds = Some t \<Longrightarrow> inv t \<and> view t = foldl entries_join (view s) (map (content \<circ> fst) ds)"
proof (induction ds arbitrary: s)
  case (Cons x ds)
  obtain d now where x: "x = (d, now)" by fastforce
  obtain s' u where r: "apply_delta s d now = (Some s', Inr u)" "apply_all apply_delta s' ds = Some t"
    using Cons.prems(2) x by (auto split: prod.splits option.splits sum.splits)
  with apply_ok[OF Cons.prems(1) r(1)] Cons.IH[of s'] x show ?case by auto
qed simp

lemma converges:
  assumes "inv s" and "issued_by val (view s)" and "\<forall>d \<in> set ds. issued_by val (content (fst d))"
    and "fst ` set ds = fst ` set es" and "apply_all apply_delta s ds = Some a" and "apply_all apply_delta s es = Some b"
  shows "view a = view b \<and> greatest_of (view a) (insert (view s) (content ` fst ` set ds)) \<and> inv a"
proof -
  note a = apply_all_view[OF assms(1,5)] and b = apply_all_view[OF assms(1,6)]
  have "set (map (content \<circ> fst) ds) = set (map (content \<circ> fst) es)" unfolding set_map image_comp[symmetric] assms(4) ..
  moreover have "\<forall>x \<in> set (map (content \<circ> fst) ds). issued_by val x" using assms(3) by auto
  ultimately have "view a = view b"
    using entries_crdt.deliver_converges[of val "view s"] assms(2) a b by (metis entries_crdt.deliver_def)
  moreover have "greatest_of (view s) {view s}" by (auto simp: greatest_of_def)
  from greatest_of_deliver[OF this, of "map (content \<circ> fst) ds"] have "greatest_of (view a) (insert (view s) (content ` fst ` set ds))"
    using a by (simp add: image_comp)
  ultimately show ?thesis using a by blast
qed

end

end
