(* ===== verification/LWWMaps.thy ===== *)
theory LWWMaps
  imports LWWEntries
begin

text \<open>
  The last-write-wins map of \<open>src/lww/lww.go\<close> and \<open>src/lww/wire.go\<close>: operations, framed codec, snapshots and compaction.
  \<open>now\<close> is the physical clock reading of a call. \<open>Merge\<close> is the call with two different maps; with itself a map returns at once.
\<close>

type_synonym mapEntry = "byte list lwwEntry"

record MapDelta =
  md_entries :: "(gostring, byte list) entries"

record MapOptions =
  mo_MaxEntries :: int
  mo_MaxKeyBytes :: int
  mo_MaxValueBytes :: int

definition DefaultMapOptions :: MapOptions where
  "DefaultMapOptions = \<lparr>mo_MaxEntries = 1048576, mo_MaxKeyBytes = 1048576, mo_MaxValueBytes = 1048576\<rparr>"

definition MapOptions_valid :: "MapOptions \<Rightarrow> bool" where
  "MapOptions_valid o' \<longleftrightarrow> mo_MaxEntries o' > 0 \<and> mo_MaxKeyBytes o' > 0 \<and> mo_MaxValueBytes o' > 0"

record lwwMap = "(gostring, byte list) lwwColl" +
  lm_options :: MapOptions

definition NewMapFromClockWithOptions :: "clock_State \<Rightarrow> MapOptions \<Rightarrow> lwwMap res" where
  "NewMapFromClockWithOptions state options =
     (if \<not> Tag_Valid (Tag (st_ReplicaID state) 0 0) then Inl lww_ErrInvalidReplicaID
      else if \<not> MapOptions_valid options then Inl lww_ErrResourceLimit
      else (case NewHLCFromState state of
          Inl err \<Rightarrow> Inl err
        | Inr hlc \<Rightarrow> Inr \<lparr>lc_replicaID = st_ReplicaID state, lc_clock = Some hlc, lc_entries = fmempty, lc_tags = fmempty, lm_options = options\<rparr>))"

definition NewMapWithOptions :: "gostring \<Rightarrow> MapOptions \<Rightarrow> lwwMap res" where
  "NewMapWithOptions replicaID options = NewMapFromClockWithOptions \<lparr>st_ReplicaID = replicaID, st_WallTime = 0, st_Logical = 0\<rparr> options"

definition NewMap :: "gostring \<Rightarrow> lwwMap res" where
  "NewMap replicaID = NewMapWithOptions replicaID DefaultMapOptions"

definition NewMapFromClock :: "clock_State \<Rightarrow> lwwMap res" where
  "NewMapFromClock state = NewMapFromClockWithOptions state DefaultMapOptions"

definition Map_ClockState :: "lwwMap option \<Rightarrow> clock_State" where
  "Map_ClockState m = (case m of
      None \<Rightarrow> \<lparr>st_ReplicaID = [], st_WallTime = 0, st_Logical = 0\<rparr>
    | Some m \<Rightarrow> if lc_clock m = None then \<lparr>st_ReplicaID = [], st_WallTime = 0, st_Logical = 0\<rparr> else HLC_Snapshot (lc_clock m))"

section \<open>Validation\<close>

definition cloneMapEntries :: "(gostring, byte list) entries \<Rightarrow> (gostring, byte list) entries" where
  "cloneMapEntries source = fold (\<lambda>(key, entry). fmupd key entry) (fm_items source) fmempty"

definition validateMapEntries :: "(gostring, byte list) entries \<Rightarrow> unit res" where
  "validateMapEntries entries =
     validate_loop (\<lambda>key entry. blank key \<or> \<not> Tag_Valid (le_tag entry) \<or> \<not> le_present entry \<and> length (le_value entry) \<noteq> 0)
       lww_ErrInvalidDelta (fm_items entries) fmempty"

definition validateMapWrite :: "gostring \<Rightarrow> byte list \<Rightarrow> bool \<Rightarrow> MapOptions \<Rightarrow> unit res" where
  "validateMapWrite key value present options =
     (if blank key \<or> int (length key) > mo_MaxKeyBytes options then Inl lww_ErrInvalidKey
      else if present \<and> int (length value) > mo_MaxValueBytes options then Inl lww_ErrResourceLimit
      else Inr ())"

fun validate_options :: "MapOptions \<Rightarrow> (gostring \<times> mapEntry) list \<Rightarrow> unit res" where
  "validate_options options [] = Inr ()"
| "validate_options options ((key, entry) # rest) = (case validateMapWrite key (le_value entry) (le_present entry) options of
      Inl err \<Rightarrow> Inl err | Inr _ \<Rightarrow> validate_options options rest)"

definition validateMapEntriesWithOptions :: "(gostring, byte list) entries \<Rightarrow> MapOptions \<Rightarrow> unit res" where
  "validateMapEntriesWithOptions entries options = validate_options options (fm_items entries)"

definition mapTagIndex :: "(gostring, byte list) entries \<Rightarrow> (tag, gostring) fmap res" where
  "mapTagIndex entries = (case validateMapEntries entries of Inl err \<Rightarrow> Inl err | Inr _ \<Rightarrow> Inr (tag_index entries))"

section \<open>Operations\<close>

definition Map_writeDelta :: "lwwMap option \<Rightarrow> gostring \<Rightarrow> byte list \<Rightarrow> bool \<Rightarrow> int option \<Rightarrow> lwwMap option \<times> MapDelta res" where
  "Map_writeDelta m key value present now = (case m of
      None \<Rightarrow> (None, Inl lww_ErrNilMap)
    | Some m \<Rightarrow>
        if lc_clock m = None then (Some m, Inl lww_ErrNilMap)
        else (case validateMapWrite key value present (lm_options m) of
            Inl err \<Rightarrow> (Some m, Inl err)
          | Inr _ \<Rightarrow>
              (case write_locked (mo_MaxEntries (lm_options m)) key
                      (\<lambda>tag. \<lparr>le_tag = tag, le_present = present, le_value = (if present then value else [])\<rparr>) now m of
                 (m, Inl err) \<Rightarrow> (Some m, Inl err)
               | (m, Inr incoming) \<Rightarrow> (Some m, Inr \<lparr>md_entries = fmupd key incoming fmempty\<rparr>))))"

definition Map_SetWithDelta :: "lwwMap option \<Rightarrow> gostring \<Rightarrow> byte list \<Rightarrow> int option \<Rightarrow> lwwMap option \<times> MapDelta res" where
  "Map_SetWithDelta m key value now = Map_writeDelta m key value True now"

definition Map_DeleteWithDelta :: "lwwMap option \<Rightarrow> gostring \<Rightarrow> int option \<Rightarrow> lwwMap option \<times> MapDelta res" where
  "Map_DeleteWithDelta m key now = Map_writeDelta m key [] False now"

definition Map_Set :: "lwwMap option \<Rightarrow> gostring \<Rightarrow> byte list \<Rightarrow> int option \<Rightarrow> lwwMap option \<times> unit res" where
  "Map_Set m key value now = apsnd (map_sum id (\<lambda>_. ())) (Map_SetWithDelta m key value now)"

definition Map_Delete :: "lwwMap option \<Rightarrow> gostring \<Rightarrow> int option \<Rightarrow> lwwMap option \<times> unit res" where
  "Map_Delete m key now = apsnd (map_sum id (\<lambda>_. ())) (Map_DeleteWithDelta m key now)"

definition Map_Get :: "lwwMap option \<Rightarrow> gostring \<Rightarrow> byte list option" where
  "Map_Get m key = (case m of
      None \<Rightarrow> None
    | Some m \<Rightarrow> (case fmlookup (lc_entries m) key of
          None \<Rightarrow> None
        | Some entry \<Rightarrow> if \<not> le_present entry then None else Some (le_value entry)))"

definition Map_HasEntry :: "lwwMap option \<Rightarrow> gostring \<Rightarrow> bool" where
  "Map_HasEntry m key = (case m of None \<Rightarrow> False | Some m \<Rightarrow> key |\<in>| fmdom (lc_entries m))"

definition Map_EntryCount :: "lwwMap option \<Rightarrow> nat" where
  "Map_EntryCount m = (case m of None \<Rightarrow> 0 | Some m \<Rightarrow> fm_size (lc_entries m))"

definition Map_EntryKeys :: "lwwMap option \<Rightarrow> gostring list" where
  "Map_EntryKeys m = (case m of None \<Rightarrow> [] | Some m \<Rightarrow> sort (map fst (fm_items (lc_entries m))))"

definition Map_Keys :: "lwwMap option \<Rightarrow> gostring list" where
  "Map_Keys m = (case m of None \<Rightarrow> [] | Some m \<Rightarrow> sort (map fst (filter (\<lambda>(key, entry). le_present entry) (fm_items (lc_entries m)))))"

definition applyOwnedMapEntries :: "lwwMap \<Rightarrow> (gostring, byte list) entries \<Rightarrow> int option \<Rightarrow> lwwMap option \<times> unit res" where
  "applyOwnedMapEntries m entries now = (case validateMapEntries entries of
      Inl err \<Rightarrow> (Some m, Inl err)
    | Inr _ \<Rightarrow> (case validateMapEntriesWithOptions entries (lm_options m) of
          Inl err \<Rightarrow> (Some m, Inl err)
        | Inr _ \<Rightarrow> apfst Some (join_locked (mo_MaxEntries (lm_options m)) entries now m)))"

definition Map_ApplyDelta :: "lwwMap option \<Rightarrow> MapDelta \<Rightarrow> int option \<Rightarrow> lwwMap option \<times> unit res" where
  "Map_ApplyDelta m delta now = (case m of
      None \<Rightarrow> (None, Inl lww_ErrNilMap)
    | Some m \<Rightarrow> if lc_clock m = None then (Some m, Inl lww_ErrNilMap) else applyOwnedMapEntries m (cloneMapEntries (md_entries delta)) now)"

definition Map_Merge :: "lwwMap option \<Rightarrow> lwwMap option \<Rightarrow> int option \<Rightarrow> lwwMap option \<times> unit res" where
  "Map_Merge m other now = (case (m, other) of
      (Some m, Some other) \<Rightarrow>
        (let entries = cloneMapEntries (lc_entries other) in
         case validateMapEntries entries of
           Inl err \<Rightarrow> (Some m, Inl err)
         | Inr _ \<Rightarrow> applyOwnedMapEntries m entries now)
    | _ \<Rightarrow> (m, Inl lww_ErrNilMap))"

definition Map_State :: "lwwMap option \<Rightarrow> StateSnapshot" where
  "Map_State m = (case m of
      None \<Rightarrow> \<lparr>snap_Type = ''lww-map'', snap_ReplicaID = [], snap_ElementCount = 0, snap_TombstoneCount = 0\<rparr>
    | Some m \<Rightarrow>
        (let present = length (filter (\<lambda>(key, entry). le_present entry) (fm_items (lc_entries m))) in
         \<lparr>snap_Type = ''lww-map'', snap_ReplicaID = lc_replicaID m, snap_ElementCount = present,
          snap_TombstoneCount = fm_size (lc_entries m) - present\<rparr>))"

definition Map_Frontier :: "lwwMap option \<Rightarrow> frontier option" where
  "Map_Frontier m = map_option (\<lambda>m. entries_frontier (lc_entries m)) m"

definition Map_TombstoneTags :: "lwwMap option \<Rightarrow> tag list" where
  "Map_TombstoneTags m = (case m of None \<Rightarrow> [] | Some m \<Rightarrow> tombstone_tags (lc_entries m))"

definition Map_CompactTombstones :: "lwwMap option \<Rightarrow> tag list \<Rightarrow> lwwMap option \<times> nat res" where
  "Map_CompactTombstones m tags = (case m of None \<Rightarrow> (None, Inl lww_ErrNilMap) | Some m \<Rightarrow> apfst Some (compact_coll tags m))"

definition MapDelta_Merge :: "MapDelta \<Rightarrow> MapDelta \<Rightarrow> MapDelta res" where
  "MapDelta_Merge d other = (case validateMapEntries (md_entries d) of
      Inl err \<Rightarrow> Inl err
    | Inr _ \<Rightarrow> (case validateMapEntries (md_entries other) of
          Inl err \<Rightarrow> Inl err
        | Inr _ \<Rightarrow> (case delta_loop (fm_items (md_entries other)) (cloneMapEntries (md_entries d)) of
              Inl err \<Rightarrow> Inl err
            | Inr merged \<Rightarrow> (case validateMapEntries merged of Inl err \<Rightarrow> Inl err | Inr _ \<Rightarrow> Inr \<lparr>md_entries = merged\<rparr>))))"

definition MapDelta_Keys :: "MapDelta \<Rightarrow> gostring list" where
  "MapDelta_Keys d = sort (map fst (fm_items (md_entries d)))"

text \<open>The callback of \<open>ValidateValues\<close> is application code; a nil callback is \<open>None\<close>.\<close>

fun validate_values :: "(gostring \<Rightarrow> byte list \<Rightarrow> unit res) \<Rightarrow> (gostring \<times> mapEntry) list \<Rightarrow> unit res" where
  "validate_values validate [] = Inr ()"
| "validate_values validate ((key, entry) # rest) =
     (if le_present entry then (case validate key (le_value entry) of Inl err \<Rightarrow> Inl err | Inr _ \<Rightarrow> validate_values validate rest)
      else validate_values validate rest)"

definition MapDelta_ValidateValues :: "MapDelta \<Rightarrow> (gostring \<Rightarrow> byte list \<Rightarrow> unit res) option \<Rightarrow> unit res" where
  "MapDelta_ValidateValues d validate = (case validate of
      None \<Rightarrow> Inl lww_ErrInvalidDelta
    | Some validate \<Rightarrow> (case validateMapEntries (md_entries d) of
          Inl err \<Rightarrow> Inl err | Inr _ \<Rightarrow> validate_values validate (fm_items (md_entries d))))"

definition Map_ValidateValues :: "lwwMap option \<Rightarrow> (gostring \<Rightarrow> byte list \<Rightarrow> unit res) option \<Rightarrow> unit res" where
  "Map_ValidateValues m validate = (case (m, validate) of
      (Some m, Some validate) \<Rightarrow> validate_values validate (fm_items (lc_entries m))
    | _ \<Rightarrow> Inl lww_ErrNilMap)"

section \<open>The codec\<close>

definition addMapRawSize :: "int \<Rightarrow> int \<Rightarrow> DecoderLimits \<Rightarrow> int res" where
  "addMapRawSize payloadSize additional limits =
     (if additional < 0 \<or> additional > MaxPayload limits - payloadSize then Inl encoding_ErrFrameLimit else Inr (payloadSize + additional))"

definition addMapBytesSize :: "int \<Rightarrow> nat \<Rightarrow> DecoderLimits \<Rightarrow> int res" where
  "addMapBytesSize payloadSize valueLength limits =
     (if int valueLength > MaxStringBytes limits then Inl encoding_ErrFrameLimit
      else addMapRawSize payloadSize (int (UvarintSize (of_nat valueLength) + valueLength)) limits)"

fun map_size :: "DecoderLimits \<Rightarrow> (gostring \<times> mapEntry) list \<Rightarrow> int \<Rightarrow> int res" where
  "map_size limits [] payloadSize = Inr payloadSize"
| "map_size limits ((key, entry) # rest) payloadSize = (case addMapBytesSize payloadSize (length key) limits of
      Inl err \<Rightarrow> Inl err
    | Inr payloadSize \<Rightarrow>
        if int (length (ReplicaID (le_tag entry))) > MaxStringBytes limits then Inl encoding_ErrFrameLimit
        else (case addMapRawSize payloadSize (int (TagSize (le_tag entry) + UvarintSize 0)) limits of
            Inl err \<Rightarrow> Inl err
          | Inr payloadSize \<Rightarrow>
              if le_present entry
              then (case addMapBytesSize payloadSize (length (le_value entry)) limits of
                  Inl err \<Rightarrow> Inl err | Inr payloadSize \<Rightarrow> map_size limits rest payloadSize)
              else map_size limits rest payloadSize))"

definition append_map_entry :: "gostring \<times> mapEntry \<Rightarrow> byte list \<Rightarrow> byte list" where
  "append_map_entry x output =
     (let (key, entry) = x;
          output = AppendUvarint output (of_nat (length key));
          output = output @ key;
          output = AppendTag output (le_tag entry)
      in if le_present entry then AppendUvarint (AppendUvarint output 1) (of_nat (length (le_value entry))) @ le_value entry
         else AppendUvarint output 0)"

definition marshalMapWithLimits :: "u64 \<Rightarrow> (gostring, byte list) entries \<Rightarrow> DecoderLimits \<Rightarrow> byte list res" where
  "marshalMapWithLimits typeID entries limits =
     (if typeID \<noteq> TypeIDLWWMapState \<and> typeID \<noteq> TypeIDLWWMapDelta then Inl encoding_ErrInvalidFrame
      else (case validateMapEntries entries of
          Inl err \<Rightarrow> Inl err
        | Inr _ \<Rightarrow>
            if int (fm_size entries) > MaxElements limits \<or> int (fm_size entries) > MaxTags limits then Inl encoding_ErrFrameLimit
            else
              (let keys = fm_items entries in
               case map_size limits keys (int (UvarintSize (of_nat (length keys)))) of
                 Inl err \<Rightarrow> Inl err
               | Inr payloadSize \<Rightarrow>
                   (let output = fold append_map_entry keys (AppendUvarint [] (of_nat (length keys))) in
                    MarshalFrameWithPayload typeID [] payloadSize
                      (Some (if int (length output) \<noteq> payloadSize then Inl encoding_ErrInvalidFrame else Inr output))))))"

definition marshalMap :: "u64 \<Rightarrow> (gostring, byte list) entries \<Rightarrow> byte list res" where
  "marshalMap typeID entries = marshalMapWithLimits typeID entries DefaultLimits"

definition Map_MarshalBinary :: "lwwMap option \<Rightarrow> byte list res" where
  "Map_MarshalBinary m = (case m of
      None \<Rightarrow> Inl lww_ErrNilMap | Some m \<Rightarrow> marshalMap TypeIDLWWMapState (cloneMapEntries (lc_entries m)))"

definition MapDelta_MarshalBinary :: "MapDelta \<Rightarrow> byte list res" where
  "MapDelta_MarshalBinary d = marshalMap TypeIDLWWMapDelta (md_entries d)"

definition readMapBytes :: "byte list \<Rightarrow> nat \<Rightarrow> int \<Rightarrow> int \<Rightarrow> (byte list \<times> nat) res" where
  "readMapBytes data position frameLimit optionLimit = (case ReadUvarint data position of
      None \<Rightarrow> Inl encoding_ErrInvalidFrame
    | Some (len, next) \<Rightarrow>
        if next > length data \<or> frameLimit < 0 \<or> unat len > length data - next \<or> uint len > frameLimit then Inl encoding_ErrInvalidFrame
        else if optionLimit > 0 \<and> uint len > optionLimit then Inl lww_ErrResourceLimit
        else Inr (take (unat len) (drop next data), next + unat len))"

text \<open>The loop of the decoder; \<open>previous\<close> is \<open>None\<close> at index 0.\<close>

fun map_loop :: "byte list \<Rightarrow> int \<Rightarrow> int \<Rightarrow> int \<Rightarrow> nat \<Rightarrow> gostring option \<Rightarrow> nat \<Rightarrow> (gostring, byte list) entries \<Rightarrow>
    ((gostring, byte list) entries \<times> nat) res" where
  "map_loop payload maxStringBytes keyLimit valueLimit 0 previous pos entries = Inr (entries, pos)"
| "map_loop payload maxStringBytes keyLimit valueLimit (Suc n) previous pos entries =
     (case readMapBytes payload pos maxStringBytes keyLimit of
        Inl err \<Rightarrow> Inl err
      | Inr (key, pos) \<Rightarrow>
          if key = [] \<or> (case previous of None \<Rightarrow> False | Some p \<Rightarrow> p \<ge> key) then Inl encoding_ErrInvalidFrame
          else (case ReadTag payload pos maxStringBytes of
              None \<Rightarrow> Inl encoding_ErrInvalidFrame
            | Some (tag, pos) \<Rightarrow> (case ReadUvarint payload pos of
                  None \<Rightarrow> Inl encoding_ErrInvalidFrame
                | Some (present, pos) \<Rightarrow>
                    if present > 1 then Inl encoding_ErrInvalidFrame
                    else (case (if present = 1 then readMapBytes payload pos maxStringBytes valueLimit else Inr ([], pos)) of
                        Inl err \<Rightarrow> Inl err
                      | Inr (value, pos) \<Rightarrow>
                          (let entry = \<lparr>le_tag = tag, le_present = (present = 1), le_value = value\<rparr> in
                           if isl (validateMapEntries (fmupd key entry fmempty)) then Inl encoding_ErrInvalidFrame
                           else map_loop payload maxStringBytes keyLimit valueLimit n (Some key) pos (fmupd key entry entries))))))"

definition unmarshalMapWithOptions ::
    "inflater \<Rightarrow> byte list \<Rightarrow> u64 \<Rightarrow> DecoderLimits \<Rightarrow> MapOptions option \<Rightarrow> (gostring, byte list) entries res" where
  "unmarshalMapWithOptions flate data expectedType limits options =
     (if (case options of None \<Rightarrow> False | Some options \<Rightarrow> \<not> MapOptions_valid options) then Inl lww_ErrResourceLimit
      else (case UnmarshalFrame flate data limits of
          Inl err \<Rightarrow> Inl err
        | Inr decoded \<Rightarrow>
            if TypeID decoded \<noteq> expectedType \<or> CodecID decoded \<noteq> [] then Inl encoding_ErrInvalidFrame
            else (case ReadUvarint (Payload decoded) 0 of
                None \<Rightarrow> Inl encoding_ErrInvalidFrame
              | Some (cnt, pos) \<Rightarrow>
                  if uint cnt > MaxElements limits \<or> uint cnt > MaxTags limits then Inl encoding_ErrInvalidFrame
                  else if (case options of None \<Rightarrow> False | Some options \<Rightarrow> uint cnt > mo_MaxEntries options) then Inl lww_ErrResourceLimit
                  else if unat cnt > (length (Payload decoded) - pos) div 7 then Inl encoding_ErrInvalidFrame
                  else
                    (let keyLimit = (case options of None \<Rightarrow> 0 | Some options \<Rightarrow> mo_MaxKeyBytes options);
                         valueLimit = (case options of None \<Rightarrow> 0 | Some options \<Rightarrow> mo_MaxValueBytes options) in
                     case map_loop (Payload decoded) (MaxStringBytes limits) keyLimit valueLimit (unat cnt) None pos fmempty of
                       Inl err \<Rightarrow> Inl err
                     | Inr (entries, pos) \<Rightarrow>
                         if pos \<noteq> length (Payload decoded) then Inl encoding_ErrInvalidFrame
                         else if isl (validateMapEntries entries) then Inl encoding_ErrInvalidFrame
                         else Inr entries))))"

definition unmarshalMap :: "inflater \<Rightarrow> byte list \<Rightarrow> u64 \<Rightarrow> DecoderLimits \<Rightarrow> (gostring, byte list) entries res" where
  "unmarshalMap flate data expectedType limits = unmarshalMapWithOptions flate data expectedType limits None"

definition UnmarshalMapDeltaWithLimits :: "inflater \<Rightarrow> byte list \<Rightarrow> DecoderLimits \<Rightarrow> MapDelta res" where
  "UnmarshalMapDeltaWithLimits flate data limits = (case unmarshalMap flate data TypeIDLWWMapDelta limits of
      Inl err \<Rightarrow> Inl err | Inr entries \<Rightarrow> Inr \<lparr>md_entries = entries\<rparr>)"

definition UnmarshalMapDelta :: "inflater \<Rightarrow> byte list \<Rightarrow> MapDelta res" where
  "UnmarshalMapDelta flate data = UnmarshalMapDeltaWithLimits flate data DefaultLimits"

definition UnmarshalMapDeltaWithOptions :: "inflater \<Rightarrow> byte list \<Rightarrow> DecoderLimits \<Rightarrow> MapOptions \<Rightarrow> MapDelta res" where
  "UnmarshalMapDeltaWithOptions flate data limits options =
     (if \<not> MapOptions_valid options then Inl lww_ErrResourceLimit
      else (case unmarshalMapWithOptions flate data TypeIDLWWMapDelta limits (Some options) of
          Inl err \<Rightarrow> Inl err | Inr entries \<Rightarrow> Inr \<lparr>md_entries = entries\<rparr>))"

definition Map_UnmarshalBinaryWithLimits ::
    "inflater \<Rightarrow> lwwMap option \<Rightarrow> byte list \<Rightarrow> DecoderLimits \<Rightarrow> int option \<Rightarrow> lwwMap option \<times> unit res" where
  "Map_UnmarshalBinaryWithLimits flate m data limits now = (case m of
      None \<Rightarrow> (None, Inl lww_ErrNilMap)
    | Some m \<Rightarrow>
        if lc_clock m = None then (Some m, Inl lww_ErrNilMap)
        else (case unmarshalMapWithOptions flate data TypeIDLWWMapState limits (Some (lm_options m)) of
            Inl err \<Rightarrow> (Some m, Inl err)
          | Inr entries \<Rightarrow>
              if int (fm_size entries) > mo_MaxEntries (lm_options m) then (Some m, Inl lww_ErrResourceLimit)
              else (case validateMapEntriesWithOptions entries (lm_options m) of
                  Inl err \<Rightarrow> (Some m, Inl err)
                | Inr _ \<Rightarrow> (case mapTagIndex entries of
                      Inl err \<Rightarrow> (Some m, Inl err)
                    | Inr tags \<Rightarrow> apfst Some (replace_locked entries tags now m)))))"

definition Map_UnmarshalBinary :: "inflater \<Rightarrow> lwwMap option \<Rightarrow> byte list \<Rightarrow> int option \<Rightarrow> lwwMap option \<times> unit res" where
  "Map_UnmarshalBinary flate m data now = Map_UnmarshalBinaryWithLimits flate m data DefaultLimits now"

definition Map_MarshalBinaryWithClockState :: "lwwMap option \<Rightarrow> (byte list \<times> clock_State) res" where
  "Map_MarshalBinaryWithClockState m = (case m of
      None \<Rightarrow> Inl lww_ErrNilMap
    | Some m \<Rightarrow>
        if lc_clock m = None then Inl lww_ErrNilMap
        else (case marshalMap TypeIDLWWMapState (cloneMapEntries (lc_entries m)) of
            Inl err \<Rightarrow> Inl err | Inr encoded \<Rightarrow> Inr (encoded, HLC_Snapshot (lc_clock m))))"

definition Map_Snapshot :: "inflater \<Rightarrow> lwwMap option \<Rightarrow> frontier \<Rightarrow> Snapshot res" where
  "Map_Snapshot flate m frontier = (case Map_MarshalBinaryWithClockState m of
      Inl err \<Rightarrow> Inl err | Inr (state, clockState) \<Rightarrow> NewWithClockState flate state frontier clockState)"

definition Map_SnapshotCurrentState :: "inflater \<Rightarrow> lwwMap option \<Rightarrow> Snapshot res" where
  "Map_SnapshotCurrentState flate m = (case m of
      None \<Rightarrow> Inl lww_ErrNilMap
    | Some m \<Rightarrow>
        if lc_clock m = None then Inl lww_ErrNilMap
        else
          (let entries = cloneMapEntries (lc_entries m) in
           case marshalMap TypeIDLWWMapState entries of
             Inl err \<Rightarrow> Inl err
           | Inr state \<Rightarrow> NewWithClockState flate state (entries_frontier entries) (HLC_Snapshot (lc_clock m))))"

definition greatestMapFrontierTag :: "frontier \<Rightarrow> tag option" where
  "greatestMapFrontierTag frontier = fold (\<lambda>(replica, tag). note_greatest tag) (fm_items frontier) None"

text \<open>Restoring reads the physical clock twice: for the state and for the frontier.\<close>

definition NewMapFromSnapshotWithOptions :: "inflater \<Rightarrow> Snapshot \<Rightarrow> MapOptions \<Rightarrow> int option \<Rightarrow> int option \<Rightarrow> lwwMap res" where
  "NewMapFromSnapshotWithOptions flate saved options now now' =
     (if ss_TypeID saved \<noteq> TypeIDLWWMapState then Inl lww_ErrInvalidSnapshot
      else if \<not> MapOptions_valid options then Inl lww_ErrResourceLimit
      else (case Snapshot_ClockState saved of
          None \<Rightarrow> Inl lww_ErrInvalidSnapshot
        | Some clockState \<Rightarrow> (case NewMapFromClockWithOptions clockState options of
              Inl err \<Rightarrow> Inl err
            | Inr m \<Rightarrow> (case Map_UnmarshalBinary flate (Some m) (Snapshot_Bytes saved) now of
                  (_, Inl err) \<Rightarrow> Inl err
                | (None, Inr _) \<Rightarrow> Inl lww_ErrNilMap
                | (Some m, Inr _) \<Rightarrow> (case greatestMapFrontierTag (Snapshot_Frontier saved) of
                      None \<Rightarrow> Inr m
                    | Some tag \<Rightarrow> (case HLC_Witness (lc_clock m) tag now' of
                          (_, Inl err) \<Rightarrow> Inl err
                        | (clock, Inr _) \<Rightarrow> Inr (m\<lparr>lc_clock := clock\<rparr>)))))))"

definition NewMapFromSnapshot :: "inflater \<Rightarrow> Snapshot \<Rightarrow> int option \<Rightarrow> int option \<Rightarrow> lwwMap res" where
  "NewMapFromSnapshot flate saved now now' = NewMapFromSnapshotWithOptions flate saved DefaultMapOptions now now'"

section \<open>The invariant\<close>

definition map_ok :: "MapOptions \<Rightarrow> gostring \<Rightarrow> mapEntry \<Rightarrow> bool" where
  "map_ok options key entry \<longleftrightarrow> \<not> blank key \<and> int (length key) \<le> mo_MaxKeyBytes options \<and>
     (if le_present entry then int (length (le_value entry)) \<le> mo_MaxValueBytes options else le_value entry = [])"

definition lm_inv :: "lwwMap \<Rightarrow> bool" where
  "lm_inv m \<longleftrightarrow> MapOptions_valid (lm_options m) \<and> coll_inv (map_ok (lm_options m)) (mo_MaxEntries (lm_options m)) m"

lemma cloneMapEntries_id [simp]: "cloneMapEntries m = m"
  by (simp add: cloneMapEntries_def fold_fmupd_of_list del: map_fst_fm_items add: distinct_fst_items)

lemma same_coll_map: "same_coll m m' \<longleftrightarrow> lc_replicaID m' = lc_replicaID m \<and> lm_options m' = lm_options m" for m m' :: lwwMap
  by (cases m; cases m') (auto simp: same_coll_def)

lemma validate_options_iff: "validate_options options xs = Inr () \<longleftrightarrow> (\<forall>(k, e) \<in> set xs. validateMapWrite k (le_value e) (le_present e) options = Inr ())"
  by (induction options xs rule: validate_options.induct) (auto split: sum.splits)

lemma ball_items: "(\<forall>(k, e) \<in> set (fm_items E). P k e) \<longleftrightarrow> (\<forall>k e. fmlookup E k = Some e \<longrightarrow> P k e)"
  by (auto simp: set_fm_items)

lemma validateMapWrite_iff:
  "validateMapWrite key value present options = Inr () \<longleftrightarrow> \<not> blank key \<and> int (length key) \<le> mo_MaxKeyBytes options \<and>
     (present \<longrightarrow> int (length value) \<le> mo_MaxValueBytes options)"
  by (auto simp: validateMapWrite_def)

lemma validateMapEntries_iff:
  "validateMapEntries E = Inr () \<longleftrightarrow> (\<forall>k e. fmlookup E k = Some e \<longrightarrow> \<not> blank k \<and> Tag_Valid (le_tag e) \<and> (\<not> le_present e \<longrightarrow> le_value e = [])) \<and> distinct_tags E"
  unfolding validateMapEntries_def validate_entries_iff by auto

lemma validated_iff:
  "validateMapEntries E = Inr () \<and> validateMapEntriesWithOptions E options = Inr () \<longleftrightarrow> valid_entries (map_ok options) E"
  unfolding validateMapEntries_iff validateMapEntriesWithOptions_def validate_options_iff valid_entries_def ball_items validateMapWrite_iff map_ok_def
  by auto

lemma lm_clock: "lm_inv m \<Longrightarrow> lc_clock m \<noteq> None"
  by (auto simp: lm_inv_def coll_inv_def)

lemma map_apply_cases:
  assumes "lm_inv m"
  obtains (invalid) e where "applyOwnedMapEntries m E now = (Some m, Inl e)" "\<not> valid_entries (map_ok (lm_options m)) E"
  | (conflict) "applyOwnedMapEntries m E now = (Some m, Inl lww_ErrTagConflict)" "clash (lc_entries m) E"
  | (limit) "applyOwnedMapEntries m E now = (Some m, Inl lww_ErrResourceLimit)"
      "mo_MaxEntries (lm_options m) < int (fm_size (entries_join (lc_entries m) E))" "\<not> clash (lc_entries m) E"
  | (clock) "applyOwnedMapEntries m E now = (Some m, Inl clock_ErrClockExhausted)" "\<not> clash (lc_entries m) E"
  | (ok) m' where "applyOwnedMapEntries m E now = (Some m', Inr ())" "lm_inv m'" "lc_replicaID m' = lc_replicaID m" "lm_options m' = lm_options m"
      "lc_entries m' = entries_join (lc_entries m) E" "valid_entries (map_ok (lm_options m)) E" "\<not> clash (lc_entries m) E"
proof (cases "valid_entries (map_ok (lm_options m)) E")
  case False
  then have "\<not> (validateMapEntries E = Inr () \<and> validateMapEntriesWithOptions E (lm_options m) = Inr ())" by (simp add: validated_iff)
  then obtain e where "applyOwnedMapEntries m E now = (Some m, Inl e)"
    by (cases "validateMapEntries E"; cases "validateMapEntriesWithOptions E (lm_options m)") (auto simp: applyOwnedMapEntries_def)
  with that(1) False show thesis by blast
next
  case True
  then have run: "applyOwnedMapEntries m E now = apfst Some (join_locked (mo_MaxEntries (lm_options m)) E now m)"
    using validated_iff[of E "lm_options m"] by (simp add: applyOwnedMapEntries_def)
  have inv: "coll_inv (map_ok (lm_options m)) (mo_MaxEntries (lm_options m)) m" "MapOptions_valid (lm_options m)" using assms by (auto simp: lm_inv_def)
  from inv(1) True show thesis
  proof (cases rule: join_cases[where now = now])
    case conflict
    with run that(2) show thesis by simp
  next
    case limit
    with run that(3) show thesis by simp
  next
    case clock
    with run that(4) show thesis by simp
  next
    case (ok c')
    with run True inv(2) show thesis by (intro that(5)[of c']) (simp_all add: lm_inv_def same_coll_map)
  qed
qed

lemma map_write_cases:
  assumes "lm_inv m"
  obtains (key) "Map_writeDelta (Some m) key bs present now = (Some m, Inl lww_ErrInvalidKey)" "blank key \<or> int (length key) > mo_MaxKeyBytes (lm_options m)"
  | (large) "Map_writeDelta (Some m) key bs present now = (Some m, Inl lww_ErrResourceLimit)" "present" "int (length bs) > mo_MaxValueBytes (lm_options m)"
  | (limit) "Map_writeDelta (Some m) key bs present now = (Some m, Inl lww_ErrResourceLimit)"
      "key |\<notin>| fmdom (lc_entries m)" "int (fm_size (lc_entries m)) = mo_MaxEntries (lm_options m)"
  | (clock) "Map_writeDelta (Some m) key bs present now = (Some m, Inl clock_ErrClockExhausted)"
  | (ok) m' t where "Map_writeDelta (Some m) key bs present now =
        (Some m', Inr \<lparr>md_entries = fmupd key \<lparr>le_tag = t, le_present = present, le_value = (if present then bs else [])\<rparr> fmempty\<rparr>)"
      "lm_inv m'" "lc_replicaID m' = lc_replicaID m" "lm_options m' = lm_options m"
      "lc_entries m' = fmupd key \<lparr>le_tag = t, le_present = present, le_value = (if present then bs else [])\<rparr> (lc_entries m)"
      "Tag_Valid t" "ReplicaID t = lc_replicaID m" "hlc_stamp (the (lc_clock m)) < tag_stamp t" "\<And>k e. fmlookup (lc_entries m) k = Some e \<Longrightarrow> le_tag e < t"
      "valid_entries (map_ok (lm_options m)) (fmupd key \<lparr>le_tag = t, le_present = present, le_value = (if present then bs else [])\<rparr> fmempty)"
proof -
  note clk = lm_clock[OF assms]
  have inv: "coll_inv (map_ok (lm_options m)) (mo_MaxEntries (lm_options m)) m" "MapOptions_valid (lm_options m)" using assms by (auto simp: lm_inv_def)
  let ?mk = "\<lambda>tag. \<lparr>le_tag = tag, le_present = present, le_value = (if present then bs else [])\<rparr>"
  show thesis
  proof (cases "validateMapWrite key bs present (lm_options m)")
    case (Inl e)
    then consider "e = lww_ErrInvalidKey" "blank key \<or> int (length key) > mo_MaxKeyBytes (lm_options m)"
      | "e = lww_ErrResourceLimit" "present" "int (length bs) > mo_MaxValueBytes (lm_options m)"
      by (auto simp: validateMapWrite_def split: if_splits)
    then show thesis using that(1,2) clk Inl by cases (simp_all add: Map_writeDelta_def)
  next
    case (Inr u)
    then have ok: "\<forall>t. le_tag (?mk t) = t \<and> map_ok (lm_options m) key (?mk t)" by (auto simp: map_ok_def validateMapWrite_def split: if_splits)
    from inv(1) ok show thesis
    proof (cases rule: write_cases[where now = now])
      case limit
      with that(3) clk Inr show thesis by (simp add: Map_writeDelta_def)
    next
      case clock
      with that(4) clk Inr show thesis by (simp add: Map_writeDelta_def)
    next
      case w: (ok c' t)
      have "valid_entries (map_ok (lm_options m)) (fmupd key (?mk t) fmempty)"
        using ok w(5) by (auto simp: valid_entries_def distinct_tags_def split: if_splits)
      with w clk Inr inv(2) show thesis
        by (intro that(5)[of c' t]) (simp_all add: Map_writeDelta_def lm_inv_def same_coll_map)
    qed
  qed
qed

section \<open>The wire format\<close>

definition within :: "int \<Rightarrow> byte list \<Rightarrow> bool" where
  "within limit bs \<longleftrightarrow> (limit > 0 \<longrightarrow> int (length bs) \<le> limit)"

lemma readMapBytes_iff:
  assumes "fl \<le> max_int"
  shows "readMapBytes data p fl ol = Inr (bs, q) \<longleftrightarrow> bytes_ok fl bs \<and> within ol bs \<and> at_pos data p (bytes_enc bs) \<and> q = p + length (bytes_enc bs)"
proof
  assume "readMapBytes data p fl ol = Inr (bs, q)"
  then obtain v r where r: "ReadUvarint data p = Some (v, r)" "r \<le> length data" "unat v \<le> length data - r" "uint v \<le> fl" "ol > 0 \<longrightarrow> uint v \<le> ol"
    "bs = take (unat v) (drop r data)" "q = r + unat v"
    by (auto simp: readMapBytes_def not_less split: option.splits if_splits)
  have len: "length bs = unat v" using r by simp
  then have v: "v = of_nat (length bs)" by simp
  have "int (length bs) = uint v" using len by simp
  with r assms have "bytes_ok fl bs \<and> within ol bs" by (simp add: bytes_ok_def within_def)
  moreover have "at_pos data p (bytes_enc bs)" "q = p + length (bytes_enc bs)"
    using r len unfolding ReadUvarint_iff bytes_enc_def v[symmetric] by (auto simp: at_pos_append) (auto simp: at_pos_def)
  ultimately show "bytes_ok fl bs \<and> within ol bs \<and> at_pos data p (bytes_enc bs) \<and> q = p + length (bytes_enc bs)" by simp
next
  assume r: "bytes_ok fl bs \<and> within ol bs \<and> at_pos data p (bytes_enc bs) \<and> q = p + length (bytes_enc bs)"
  let ?v = "of_nat (length bs) :: u64"
  have u: "unat ?v = length bs" "uint ?v = int (length bs)" using r by (auto simp: bytes_ok_def unat_of_nat_len uint_of_nat_len)
  have "ReadUvarint data p = Some (?v, p + length (uvarint ?v))" and "at_pos data (p + length (uvarint ?v)) bs"
    using r by (auto simp: ReadUvarint_iff bytes_enc_def at_pos_append)
  then show "readMapBytes data p fl ol = Inr (bs, q)"
    using r u by (auto simp: readMapBytes_def bytes_ok_def within_def bytes_enc_def at_pos_def)
qed

definition map_entry_enc :: "gostring \<times> mapEntry \<Rightarrow> byte list" where
  "map_entry_enc x = bytes_enc (fst x) @ tag_enc (le_tag (snd x)) @
     (if le_present (snd x) then uvarint 1 @ bytes_enc (le_value (snd x)) else uvarint 0)"

definition map_entry_ok :: "int \<Rightarrow> int \<Rightarrow> int \<Rightarrow> gostring \<times> mapEntry \<Rightarrow> bool" where
  "map_entry_ok ms kl vl x \<longleftrightarrow> \<not> blank (fst x) \<and> bytes_ok ms (fst x) \<and> within kl (fst x) \<and> tag_ok ms (le_tag (snd x)) \<and>
     (if le_present (snd x) then bytes_ok ms (le_value (snd x)) \<and> within vl (le_value (snd x)) else le_value (snd x) = [])"

definition read_map_entry :: "int \<Rightarrow> int \<Rightarrow> int \<Rightarrow> byte list \<Rightarrow> nat \<Rightarrow> ((gostring \<times> mapEntry) \<times> nat) option" where
  "read_map_entry ms kl vl data p = (case readMapBytes data p ms kl of
      Inl _ \<Rightarrow> None
    | Inr (key, p) \<Rightarrow> (case ReadTag data p ms of
          None \<Rightarrow> None
        | Some (tag, p) \<Rightarrow> (case ReadUvarint data p of
              None \<Rightarrow> None
            | Some (present, p) \<Rightarrow>
                if present > 1 \<or> blank key then None
                else (case (if present = 1 then readMapBytes data p ms vl else Inr ([], p)) of
                    Inl _ \<Rightarrow> None
                  | Inr (value, p) \<Rightarrow> Some ((key, \<lparr>le_tag = tag, le_present = (present = 1), le_value = value\<rparr>), p)))))"

lemma present_bit: "\<not> (1 < (w :: u64)) \<longleftrightarrow> w = 0 \<or> w = 1"
proof -
  have "\<not> 1 < w \<longleftrightarrow> unat w = 0 \<or> unat w = 1" by (auto simp: word_less_nat_alt)
  also have "\<dots> \<longleftrightarrow> w = 0 \<or> w = 1" by (metis unsigned_0 unsigned_1 word_unat_eq_iff)
  finally show ?thesis .
qed

lemma read_map_entry_iff:
  assumes "ms \<le> max_int"
  shows "read_map_entry ms kl vl data p = Some (x, q) \<longleftrightarrow>
    map_entry_ok ms kl vl x \<and> at_pos data p (map_entry_enc x) \<and> q = p + length (map_entry_enc x)"
proof -
  obtain k t b v where x: "x = (k, \<lparr>le_tag = t, le_present = b, le_value = v\<rparr>)" by (metis (full_types) lwwEntry.cases old.unit.exhaust surj_pair)
  have "read_map_entry ms kl vl data p = Some (x, q) \<longleftrightarrow> (\<exists>p1 p2 p3. readMapBytes data p ms kl = Inr (k, p1) \<and> ReadTag data p1 ms = Some (t, p2) \<and>
      ReadUvarint data p2 = Some (if b then 1 else 0, p3) \<and> \<not> blank k \<and> (if b then readMapBytes data p3 ms vl = Inr (v, q) else v = [] \<and> q = p3))"
  proof (cases "readMapBytes data p ms kl")
    case (Inr y)
    obtain k' p1 where y: "y = (k', p1)" by fastforce
    show ?thesis
    proof (cases "ReadTag data p1 ms")
      case (Some z)
      obtain t' p2 where z: "z = (t', p2)" by fastforce
      show ?thesis
      proof (cases "ReadUvarint data p2")
        case (Some w)
        obtain n p3 where w: "w = (n, p3)" by fastforce
        note run = Inr \<open>ReadTag data p1 ms = Some z\<close> Some
        consider "\<not> n \<le> 1" | "n = 0" | "n = 1" using present_bit[of n] by force
        then show ?thesis
        proof cases
          case 3
          then show ?thesis using run by (cases "readMapBytes data p3 ms vl"; cases b) (auto simp: read_map_entry_def x y z w)
        qed (use run present_bit[of n] in \<open>auto simp: read_map_entry_def x y z w\<close>)
      qed (use Inr Some in \<open>simp add: read_map_entry_def y z\<close>)
    qed (use Inr in \<open>simp add: read_map_entry_def y\<close>)
  qed (simp add: read_map_entry_def)
  also have "\<dots> \<longleftrightarrow> map_entry_ok ms kl vl x \<and> at_pos data p (map_entry_enc x) \<and> q = p + length (map_entry_enc x)"
    by (cases b) (auto simp: readMapBytes_iff[OF assms] ReadTag_iff ReadUvarint_iff x map_entry_ok_def map_entry_enc_def at_pos_append add.assoc)
  finally show ?thesis .
qed

text \<open>The locale's reader refuses limits that are not Go integers.\<close>

definition go_read_entry :: "int \<Rightarrow> int \<Rightarrow> int \<Rightarrow> byte list \<Rightarrow> nat \<Rightarrow> ((gostring \<times> mapEntry) \<times> nat) option" where
  "go_read_entry ms kl vl data p = (if ms \<le> max_int then read_map_entry ms kl vl data p else None)"

interpretation map_entry_field: wire_map map_entry_enc "\<lambda>x. ms \<le> max_int \<and> map_entry_ok ms kl vl x" "go_read_entry ms kl vl" for ms kl vl
  by unfold_locales (auto simp: go_read_entry_def read_map_entry_iff)

lemma singleton_valid:
  "validateMapEntries (fmupd key entry fmempty) = Inr () \<longleftrightarrow> \<not> blank key \<and> Tag_Valid (le_tag entry) \<and> (\<not> le_present entry \<longrightarrow> le_value entry = [])"
  unfolding validateMapEntries_iff distinct_tags_def by (auto split: if_splits)

lemma isl_unit: "isl (r :: 'a + unit) \<longleftrightarrow> r \<noteq> Inr ()"
  by (cases r) auto

lemma map_loop_eq:
  assumes "ms \<le> max_int"
  shows "map_loop payload ms kl vl n previous pos E = Inr (E', q) \<longleftrightarrow>
     (\<exists>xs. map_entry_field.read_ascending ms kl vl fst payload n previous pos = Some (xs, q) \<and> E' = fold (\<lambda>(k, v). fmupd k v) xs E)"
proof (induction n arbitrary: previous pos E)
  case (Suc n)
  show ?case
  proof (cases "read_map_entry ms kl vl payload pos")
    case None
    then have "\<forall>z. map_loop payload ms kl vl (Suc n) previous pos E \<noteq> Inr z"
      by (auto simp: read_map_entry_def Let_def isl_unit singleton_valid split: option.splits if_splits sum.splits)
    moreover have "go_read_entry ms kl vl payload pos = None" using None by (simp add: go_read_entry_def)
    ultimately show ?thesis by simp
  next
    case (Some r)
    obtain k e nxt where r: "r = ((k, e), nxt)" by (metis surj_pair)
    have step: "go_read_entry ms kl vl payload pos = Some ((k, e), nxt)" using Some r assms by (simp add: go_read_entry_def)
    have ok: "map_entry_ok ms kl vl (k, e)" using Some r read_map_entry_iff[OF assms, of kl vl payload pos "(k, e)" nxt] by simp
    then have key: "k \<noteq> []" "\<not> blank k" by (auto simp: map_entry_ok_def eval)
    have valid: "\<not> isl (validateMapEntries (fmupd k e fmempty))"
      using ok by (auto simp: isl_unit singleton_valid map_entry_ok_def tag_ok_def split: if_splits)
    have "map_loop payload ms kl vl (Suc n) previous pos E = Inr (E', q) \<longleftrightarrow>
        \<not> (case previous of None \<Rightarrow> False | Some p \<Rightarrow> p \<ge> k) \<and> map_loop payload ms kl vl n (Some k) nxt (fmupd k e E) = Inr (E', q)"
      using Some r key valid
      by (auto simp: read_map_entry_def Let_def present_bit split: option.splits if_splits sum.splits)
    then show ?thesis unfolding Suc using step by (auto simp: not_less split: option.splits)
  qed
qed auto

definition map_enc :: "(gostring, byte list) entries \<Rightarrow> byte list" where
  "map_enc E = map_entry_field.counted_enc (fm_items E)"

definition option_limits :: "MapOptions option \<Rightarrow> int \<times> int" where
  "option_limits options = (case options of None \<Rightarrow> (0, 0) | Some options \<Rightarrow> (mo_MaxKeyBytes options, mo_MaxValueBytes options))"

definition map_wire_ok :: "DecoderLimits \<Rightarrow> MapOptions option \<Rightarrow> (gostring, byte list) entries \<Rightarrow> bool" where
  "map_wire_ok limits options E \<longleftrightarrow> int (fm_size E) \<le> MaxElements limits \<and> int (fm_size E) \<le> MaxTags limits \<and> fm_size E < 2 ^ 64 \<and>
     (\<forall>o'. options = Some o' \<longrightarrow> MapOptions_valid o' \<and> int (fm_size E) \<le> mo_MaxEntries o') \<and> distinct_tags E \<and>
     (\<forall>k e. fmlookup E k = Some e \<longrightarrow> map_entry_ok (MaxStringBytes limits) (fst (option_limits options)) (snd (option_limits options)) (k, e))"

lemma map_wire_valid: "map_wire_ok limits options E \<Longrightarrow> validateMapEntries E = Inr ()"
  by (auto simp: map_wire_ok_def validateMapEntries_iff map_entry_ok_def tag_ok_def split: if_splits)

lemma bytes_enc_length: "bs \<noteq> [] \<Longrightarrow> 2 \<le> length (bytes_enc bs)"
proof -
  assume "bs \<noteq> []"
  then have "1 \<le> length bs" by (cases bs) simp_all
  then show ?thesis using length_uvarint_pos[of "of_nat (length bs)"] unfolding bytes_enc_def length_append by linarith
qed

lemma map_entry_min:
  assumes "map_entry_ok ms kl vl x"
  shows "7 \<le> length (map_entry_enc x)"
proof -
  have "fst x \<noteq> []" "ReplicaID (le_tag (snd x)) \<noteq> []" using assms by (auto simp: map_entry_ok_def tag_ok_def Tag_Valid_def eval)
  from this[THEN bytes_enc_length] show ?thesis
    using length_uvarint_pos[of "WallTime (le_tag (snd x))"] length_uvarint_pos[of "Logical (le_tag (snd x))"]
      length_uvarint_pos[of 0] length_uvarint_pos[of 1]
    unfolding map_entry_enc_def tag_enc_def length_append if_distrib[of length] by (cases "le_present (snd x)") (simp_all only: if_True if_False length_append)
qed

lemma concat_min: "\<forall>x \<in> set xs. n \<le> length (f x) \<Longrightarrow> length xs * n \<le> length (concat (map f xs))"
  by (induction xs) auto

lemma unmarshalMap_iff:
  assumes "go_limits limits"
  shows "unmarshalMapWithOptions flate data t limits options = Inr E \<longleftrightarrow>
     (\<exists>f. UnmarshalFrame flate data limits = Inr f \<and> TypeID f = t \<and> CodecID f = [] \<and> Payload f = map_enc E \<and> map_wire_ok limits options E)"
proof (cases "UnmarshalFrame flate data limits")
  case (Inl e)
  then show ?thesis by (simp add: unmarshalMapWithOptions_def)
next
  case (Inr f)
  let ?p = "Payload f" and ?ms = "MaxStringBytes limits" and ?me = "min (MaxElements limits) (MaxTags limits)"
  let ?kl = "fst (option_limits options)" and ?vl = "snd (option_limits options)"
  have ms: "?ms \<le> max_int" using assms by (simp add: go_limits_def)
  let ?O = "\<lambda>n. \<forall>o'. options = Some o' \<longrightarrow> MapOptions_valid o' \<and> int n \<le> mo_MaxEntries o'"
  define R where "R n \<longleftrightarrow> ?O n \<and> n \<le> (length ?p - length (uvarint (of_nat n))) div 7 \<and> validateMapEntries E = Inr ()" for n
  have o: "(case options of None \<Rightarrow> 0 | Some o' \<Rightarrow> mo_MaxKeyBytes o') = ?kl" "(case options of None \<Rightarrow> 0 | Some o' \<Rightarrow> mo_MaxValueBytes o') = ?vl"
    by (auto simp: option_limits_def split: option.splits)
  have guard: "\<not> (case options of None \<Rightarrow> False | Some o' \<Rightarrow> \<not> MapOptions_valid o') \<and> \<not> (case options of None \<Rightarrow> False | Some o' \<Rightarrow> uint cnt > mo_MaxEntries o') \<longleftrightarrow>
    ?O (unat cnt)" for cnt :: u64 by (auto split: option.splits)
  have cnt: "of_nat (unat cnt) = cnt" for cnt :: u64 by simp
  have "unmarshalMapWithOptions flate data t limits options = Inr E \<longleftrightarrow> TypeID f = t \<and> CodecID f = [] \<and>
      (\<exists>cnt. at_pos ?p 0 (uvarint cnt) \<and> uint cnt \<le> ?me \<and>
         map_loop ?p ?ms ?kl ?vl (unat cnt) None (0 + length (uvarint cnt)) fmempty = Inr (E, length ?p) \<and> R (unat cnt))"
    unfolding R_def guard[symmetric] cnt
    by (simp add: unmarshalMapWithOptions_def Inr if_Inl_Inr uvarint_field.case_read case_sum_pair not_less Let_def o isl_unit) blast
  also have "\<dots> \<longleftrightarrow> TypeID f = t \<and> CodecID f = [] \<and> int (fm_size E) \<le> ?me \<and> fm_size E < 2 ^ 64 \<and>
      (\<forall>k e. fmlookup E k = Some e \<longrightarrow> ?ms \<le> max_int \<and> map_entry_ok ?ms ?kl ?vl (k, e)) \<and> at_pos ?p 0 (map_enc E) \<and> length ?p = 0 + length (map_enc E) \<and> R (fm_size E)"
    unfolding map_loop_eq[OF ms] map_enc_def
    using map_entry_field.read_counted_map[of ?p 0 ?me ?ms ?kl ?vl "length ?p" E R] by (simp add: conj_ac)
  also have "\<dots> \<longleftrightarrow> TypeID f = t \<and> CodecID f = [] \<and> ?p = map_enc E \<and> map_wire_ok limits options E" (is "?l \<longleftrightarrow> ?r")
  proof
    assume ?l
    then show ?r using at_pos_0_whole[of ?p "map_enc E"] by (auto simp: map_wire_ok_def R_def validateMapEntries_iff)
  next
    assume r: ?r
    then have "map_entry_ok ?ms ?kl ?vl x" if "x \<in> set (fm_items E)" for x using that by (cases x) (simp add: map_wire_ok_def)
    then have ok: "\<forall>x \<in> set (fm_items E). 7 \<le> length (map_entry_enc x)" using map_entry_min by blast
    have "fm_size E * 7 \<le> length (concat (map map_entry_enc (fm_items E)))" using concat_min[OF ok] by simp
    then have "fm_size E \<le> length (concat (map map_entry_enc (fm_items E))) div 7" by simp
    then have "R (fm_size E)" using r map_wire_valid[of limits options E] by (auto simp: R_def map_wire_ok_def map_enc_def map_entry_field.counted_enc_def)
    with r ms at_pos_0_whole[of ?p "map_enc E"] show ?l by (auto simp: map_wire_ok_def)
  qed
  finally show ?thesis using Inr by auto
qed

lemma addMapRawSize_iff: "0 \<le> a \<Longrightarrow> addMapRawSize s a limits = Inr s' \<longleftrightarrow> s' = s + a \<and> s' \<le> MaxPayload limits"
  by (auto simp: addMapRawSize_def)

lemma addMapBytesSize_iff:
  "addMapBytesSize s (length bs) limits = Inr s' \<longleftrightarrow> int (length bs) \<le> MaxStringBytes limits \<and> s' = s + int (length (bytes_enc bs)) \<and> s' \<le> MaxPayload limits"
  by (auto simp: addMapBytesSize_def addMapRawSize_iff bytes_enc_def UvarintSize_def)

definition small_entry :: "DecoderLimits \<Rightarrow> gostring \<times> mapEntry \<Rightarrow> bool" where
  "small_entry limits x \<longleftrightarrow> int (length (fst x)) \<le> MaxStringBytes limits \<and> int (length (ReplicaID (le_tag (snd x)))) \<le> MaxStringBytes limits \<and>
     (le_present (snd x) \<longrightarrow> int (length (le_value (snd x))) \<le> MaxStringBytes limits)"

lemma uvarint_bit: "length (uvarint 0) = 1" "length (uvarint 1) = 1"
  by (simp_all add: uvarint.simps)

lemma map_size_iff:
  "map_size limits xs sz = Inr s \<longleftrightarrow> s = sz + int (length (concat (map map_entry_enc xs))) \<and> (\<forall>x \<in> set xs. small_entry limits x) \<and>
     (xs = [] \<or> s \<le> MaxPayload limits)"
proof (induction xs arbitrary: sz)
  case (Cons x xs)
  obtain k e where x: "x = (k, e)" by fastforce
  have len: "length (map_entry_enc (k, e)) = length (bytes_enc k) + (TagSize (le_tag e) + UvarintSize 0) + (if le_present e then length (bytes_enc (le_value e)) else 0)"
    using uvarint_bit by (auto simp: map_entry_enc_def TagSize_eq UvarintSize_def)
  have "map_size limits (x # xs) sz = Inr s \<longleftrightarrow> small_entry limits x \<and> sz + int (length (map_entry_enc x)) \<le> MaxPayload limits \<and>
      map_size limits xs (sz + int (length (map_entry_enc x))) = Inr s"
  proof (cases "addMapBytesSize sz (length k) limits")
    case (Inl err)
    then have "\<not> (int (length k) \<le> MaxStringBytes limits \<and> sz + int (length (bytes_enc k)) \<le> MaxPayload limits)"
      using addMapBytesSize_iff[of sz k limits] by auto
    then show ?thesis using Inl by (auto simp: x len small_entry_def)
  next
    case (Inr s1)
    note s1 = Inr[unfolded addMapBytesSize_iff]
    show ?thesis
    proof (cases "int (length (ReplicaID (le_tag e))) \<le> MaxStringBytes limits \<and> s1 + int (TagSize (le_tag e) + UvarintSize 0) \<le> MaxPayload limits")
      case False
      then have "\<forall>s. map_size limits (x # xs) sz \<noteq> Inr s"
        using Inr by (auto simp: x addMapRawSize_def)
      then show ?thesis using False s1 by (auto simp: len small_entry_def x)
    next
      case True
      then have s2: "addMapRawSize s1 (int (TagSize (le_tag e) + UvarintSize 0)) limits = Inr (s1 + int (TagSize (le_tag e) + UvarintSize 0))"
        by (simp add: addMapRawSize_def)
      show ?thesis
      proof (cases "le_present e")
        case False
        then show ?thesis using Inr s1 s2 True by (auto simp: x len small_entry_def add.assoc)
      next
        case present: True
        show ?thesis
        proof (cases "addMapBytesSize (s1 + int (TagSize (le_tag e) + UvarintSize 0)) (length (le_value e)) limits")
          case (Inl err)
          then have "\<not> (int (length (le_value e)) \<le> MaxStringBytes limits \<and>
              s1 + int (TagSize (le_tag e) + UvarintSize 0) + int (length (bytes_enc (le_value e))) \<le> MaxPayload limits)"
            using addMapBytesSize_iff[of "s1 + int (TagSize (le_tag e) + UvarintSize 0)" "le_value e" limits] by auto
          then show ?thesis using Inl Inr s1 s2 True present by (auto simp: x len small_entry_def)
        next
          case last: (Inr s3)
          note s3 = last[unfolded addMapBytesSize_iff]
          then have eq: "s3 = sz + int (length (map_entry_enc x))" using s1 present by (simp add: len x)
          have run: "map_size limits (x # xs) sz = map_size limits xs s3" using last Inr s2 True present by (simp add: x)
          have "small_entry limits x" "s3 \<le> MaxPayload limits" using s1 s3 True present by (simp_all add: x small_entry_def)
          then show ?thesis unfolding run eq[symmetric] by simp
        qed
      qed
    qed
  qed
  then show ?case unfolding Cons by auto
qed auto

lemma append_map_entries: "fold append_map_entry xs out = out @ concat (map map_entry_enc xs)"
  by (induction xs arbitrary: out)
    (simp_all add: append_map_entry_def AppendUvarint_def AppendTag_eq map_entry_enc_def bytes_enc_def case_prod_beta)

lemma case_unit_Inr: "(case s of Inl e \<Rightarrow> Inl (h e) | Inr (u :: unit) \<Rightarrow> X) = Inr r \<longleftrightarrow> s = Inr () \<and> X = Inr r"
  by (cases s) auto

lemma marshalMap_iff:
  "marshalMap t E = Inr data \<longleftrightarrow> (t = TypeIDLWWMapState \<or> t = TypeIDLWWMapDelta) \<and> map_wire_ok DefaultLimits None E \<and>
     MarshalFrame (frame_of t [] (map_enc E)) = Inr data"
proof -
  let ?D = DefaultLimits
  let ?c = "concat (map map_entry_enc (fm_items E))" and ?u = "uvarint (of_nat (fm_size E))"
  have enc: "map_enc E = ?u @ ?c" by (simp add: map_enc_def map_entry_field.counted_enc_def)
  have out: "fold append_map_entry (fm_items E) (AppendUvarint [] (of_nat (length (fm_items E)))) = map_enc E"
    by (simp add: append_map_entries AppendUvarint_def enc)
  have F: "MarshalFrameWithPayload t [] (int (length (map_enc E))) (Some (if int (length (map_enc E)) \<noteq> int (length (map_enc E)) then Inl encoding_ErrInvalidFrame
      else Inr (map_enc E))) = MarshalFrame (frame_of t [] (map_enc E))" by (simp add: MarshalFrameWithPayload_exact)
  have sz: "int (UvarintSize (of_nat (length (fm_items E)))) + int (length ?c) = int (length (map_enc E))" by (simp add: enc UvarintSize_def)
  have size: "map_size ?D (fm_items E) (int (UvarintSize (of_nat (length (fm_items E))))) = Inr s \<longleftrightarrow>
      s = int (length (map_enc E)) \<and> (\<forall>x \<in> set (fm_items E). small_entry ?D x) \<and> (fm_items E = [] \<or> int (length (map_enc E)) \<le> MaxPayload ?D)" for s
    unfolding map_size_iff sz by auto
  have "marshalMap t E = Inr data \<longleftrightarrow> (t = TypeIDLWWMapState \<or> t = TypeIDLWWMapDelta) \<and> validateMapEntries E = Inr () \<and>
      int (fm_size E) \<le> MaxElements ?D \<and> int (fm_size E) \<le> MaxTags ?D \<and> (\<forall>x \<in> set (fm_items E). small_entry ?D x) \<and>
      (fm_items E = [] \<or> int (length (map_enc E)) \<le> MaxPayload ?D) \<and> MarshalFrame (frame_of t [] (map_enc E)) = Inr data"
    unfolding marshalMap_def marshalMapWithLimits_def Let_def out if_Inl_Inr case_sum_Inr[OF size] ex_simps simp_thms F case_unit_Inr
    by (simp add: not_less de_Morgan_disj MarshalFrameWithPayload_exact)
  also have "\<dots> \<longleftrightarrow> (t = TypeIDLWWMapState \<or> t = TypeIDLWWMapDelta) \<and> map_wire_ok ?D None E \<and> MarshalFrame (frame_of t [] (map_enc E)) = Inr data"
  proof -
    have bytes: "bytes_ok (MaxStringBytes ?D) bs \<longleftrightarrow> int (length bs) \<le> MaxStringBytes ?D" for bs by (auto simp: bytes_ok_def DefaultLimits_def)
    have entry: "map_entry_ok (MaxStringBytes ?D) 0 0 (k, e) \<longleftrightarrow>
        (\<not> blank k \<and> Tag_Valid (le_tag e) \<and> (\<not> le_present e \<longrightarrow> le_value e = [])) \<and> small_entry ?D (k, e)" for k e
      by (auto simp: map_entry_ok_def small_entry_def tag_ok_def within_def bytes)
    have "map_wire_ok ?D None E \<longleftrightarrow> validateMapEntries E = Inr () \<and> int (fm_size E) \<le> MaxElements ?D \<and> int (fm_size E) \<le> MaxTags ?D \<and>
        (\<forall>k e. fmlookup E k = Some e \<longrightarrow> small_entry ?D (k, e))"
      unfolding map_wire_ok_def validateMapEntries_iff option_limits_def by (simp add: entry) (auto simp: DefaultLimits_def)
    moreover have "(\<forall>x \<in> set (fm_items E). small_entry ?D x) \<longleftrightarrow> (\<forall>k e. fmlookup E k = Some e \<longrightarrow> small_entry ?D (k, e))" by (auto simp: set_fm_items)
    moreover have "MarshalFrame (frame_of t [] (map_enc E)) = Inr data \<Longrightarrow> int (length (map_enc E)) \<le> MaxPayload ?D"
      by (simp add: MarshalFrame_iff DefaultLimits_def)
    ultimately show ?thesis by blast
  qed
  finally show ?thesis .
qed

section \<open>Decoding, restoring and compacting\<close>

lemma map_wire_options:
  "map_wire_ok limits (Some options) E \<Longrightarrow> valid_entries (map_ok options) E \<and> int (fm_size E) \<le> mo_MaxEntries options"
  by (auto simp: map_wire_ok_def valid_entries_def map_entry_ok_def map_ok_def within_def option_limits_def MapOptions_valid_def tag_ok_def split: if_splits)

lemma map_wire_admit:
  "map_wire_ok limits None E \<Longrightarrow> MapOptions_valid options \<Longrightarrow> valid_entries (map_ok options) E \<Longrightarrow> int (fm_size E) \<le> mo_MaxEntries options \<Longrightarrow>
   map_wire_ok limits (Some options) E"
  by (auto simp: map_wire_ok_def valid_entries_def map_entry_ok_def map_ok_def within_def option_limits_def split: if_splits)

lemma map_unmarshal_cases:
  assumes "lm_inv m" and "go_limits limits"
  obtains (error) e where "Map_UnmarshalBinaryWithLimits flate (Some m) data limits now = (Some m, Inl e)"
      "e = clock_ErrClockExhausted \<or> unmarshalMapWithOptions flate data TypeIDLWWMapState limits (Some (lm_options m)) = Inl e"
  | (ok) m' E where "Map_UnmarshalBinaryWithLimits flate (Some m) data limits now = (Some m', Inr ())" "lm_inv m'"
      "lc_replicaID m' = lc_replicaID m" "lm_options m' = lm_options m" "lc_entries m' = E"
      "unmarshalMapWithOptions flate data TypeIDLWWMapState limits (Some (lm_options m)) = Inr E"
      "hlc_stamp (the (lc_clock m)) \<le> hlc_stamp (the (lc_clock m'))"
proof (cases "unmarshalMapWithOptions flate data TypeIDLWWMapState limits (Some (lm_options m))")
  case (Inl e)
  with that(1)[of e] lm_clock[OF assms(1)] show thesis by (simp add: Map_UnmarshalBinaryWithLimits_def)
next
  case (Inr E)
  then have wire: "map_wire_ok limits (Some (lm_options m)) E" using unmarshalMap_iff[OF assms(2)] by blast
  note E = map_wire_options[OF wire, THEN conjunct1] map_wire_options[OF wire, THEN conjunct2]
  have inv: "coll_inv (map_ok (lm_options m)) (mo_MaxEntries (lm_options m)) m" "MapOptions_valid (lm_options m)" using assms by (auto simp: lm_inv_def)
  have run: "Map_UnmarshalBinaryWithLimits flate (Some m) data limits now = apfst Some (replace_locked E (tag_index E) now m)"
    using Inr E lm_clock[OF assms(1)] validated_iff[of E "lm_options m"] by (auto simp: Map_UnmarshalBinaryWithLimits_def mapTagIndex_def)
  from inv(1) E show thesis
  proof (cases rule: replace_cases[where now = now])
    case clock
    with run that(1) show thesis by simp
  next
    case (ok c')
    with run Inr inv(2) show thesis by (intro that(2)[of c' E]) (simp_all add: lm_inv_def same_coll_map)
  qed
qed

lemma map_marshal_iff:
  "Map_MarshalBinary (Some m) = Inr data \<longleftrightarrow>
     unmarshalMap flate data TypeIDLWWMapState DefaultLimits = Inr (lc_entries m) \<and> PeekFrameFormatVersion data DefaultLimits = Inr FormatVersion"
  unfolding unmarshalMap_def unmarshalMap_iff[OF DefaultLimits_go] frame_payload_iff
  by (simp add: Map_MarshalBinary_def marshalMap_iff)

lemma map_admits:
  assumes "lm_inv m" and "lm_options q = lm_options m" and "unmarshalMap flate data TypeIDLWWMapState DefaultLimits = Inr (lc_entries m)"
  shows "unmarshalMapWithOptions flate data TypeIDLWWMapState DefaultLimits (Some (lm_options q)) = Inr (lc_entries m)"
proof -
  have "MapOptions_valid (lm_options m)" "valid_entries (map_ok (lm_options m)) (lc_entries m)" "int (fm_size (lc_entries m)) \<le> mo_MaxEntries (lm_options m)"
    using assms(1) coll_inv_valid by (auto simp: lm_inv_def coll_inv_def)
  then show ?thesis using assms(2,3) map_wire_admit unfolding unmarshalMap_def unmarshalMap_iff[OF DefaultLimits_go] by metis
qed

definition lwwmap_target :: "lwwMap option TombstoneTarget" where
  "lwwmap_target = \<lparr>tt_TombstoneTags = Map_TombstoneTags, tt_CompactTombstones = Map_CompactTombstones, tt_CompactEligibleTombstones = None\<rparr>"

lemma map_tombstones_eq: "lm_inv m \<Longrightarrow> Map_TombstoneTags (Some m) = sorted_list_of_fset (dead_tags (lc_entries m))"
  unfolding Map_TombstoneTags_def option.case by (rule tombstone_tags_eq) (auto simp: lm_inv_def dest!: coll_inv_valid simp: valid_entries_def)

interpretation lwwmap_tombstones: tombstone_target lwwmap_target "\<lambda>r. \<exists>m. r = Some m \<and> lm_inv m" "\<lambda>r. dead_tags (lc_entries (the r))"
  "\<lambda>r. (lc_replicaID (the r), lc_clock (the r), lm_options (the r), live_entries (lc_entries (the r)))"
proof
  fix r :: "lwwMap option" and ts
  assume "\<exists>m. r = Some m \<and> lm_inv m"
  then obtain m where m: "r = Some m" "lm_inv m" by blast
  then have inv: "coll_inv (map_ok (lm_options m)) (mo_MaxEntries (lm_options m)) m" "MapOptions_valid (lm_options m)" by (auto simp: lm_inv_def)
  show "tt_TombstoneTags lwwmap_target r = sorted_list_of_fset (dead_tags (lc_entries (the r))) \<and> list_all Tag_Valid (tt_TombstoneTags lwwmap_target r)"
    using m map_tombstones_eq[OF m(2)] coll_inv_valid[OF inv(1)] by (auto simp: lwwmap_target_def list_all_iff dead_tags_iff valid_entries_def)
  assume ts: "set ts \<subseteq> fset (dead_tags (lc_entries (the r)))"
  then have "set ts \<subseteq> fset (dead_tags (lc_entries m))" using m by simp
  from inv(1) this obtain c' where c: "compact_coll ts m = (c', Inr (fcard (fset_of_list ts)))" "coll_inv (map_ok (lm_options m)) (mo_MaxEntries (lm_options m)) c'"
    "same_coll m c'" "lc_clock c' = lc_clock m" "dead_tags (lc_entries c') = dead_tags (lc_entries m) |-| fset_of_list ts"
    "live_entries (lc_entries c') = live_entries (lc_entries m)" by (rule compact_dead)
  have "fset_of_list ts |\<subseteq>| dead_tags (lc_entries m)" using ts m by (auto simp: less_eq_fset.rep_eq fset_of_list.rep_eq)
  with c m inv(2) show "\<exists>r' gone. compact_target lwwmap_target r ts = (r', Inr (fcard gone)) \<and> (\<exists>m. r' = Some m \<and> lm_inv m) \<and>
      gone |\<subseteq>| fset_of_list ts \<and> gone |\<subseteq>| dead_tags (lc_entries (the r)) \<and> dead_tags (lc_entries (the r')) = dead_tags (lc_entries (the r)) |-| gone \<and>
      (lc_replicaID (the r'), lc_clock (the r'), lm_options (the r'), live_entries (lc_entries (the r'))) =
      (lc_replicaID (the r), lc_clock (the r), lm_options (the r), live_entries (lc_entries (the r)))"
    by (intro exI[of _ "Some c'"] exI[of _ "fset_of_list ts"])
      (auto simp: compact_target_def lwwmap_target_def Map_CompactTombstones_def lm_inv_def same_coll_map)
qed

interpretation lwwmap_replica: lww_replica lm_inv lc_entries "\<lambda>m. Map_ApplyDelta (Some m)" md_entries
proof
  fix m d now s' u
  assume m: "lm_inv m" and run: "Map_ApplyDelta (Some m) d now = (s', Inr u)"
  have "applyOwnedMapEntries m (md_entries d) now = (s', Inr u)" using run lm_clock[OF m] by (simp add: Map_ApplyDelta_def)
  with m show "\<exists>t. s' = Some t \<and> lm_inv t \<and> lc_entries t = entries_join (lc_entries m) (md_entries d)"
    by (cases rule: map_apply_cases[where E = "md_entries d" and now = now]) auto
qed

text \<open>What a restored map has of the saved one.\<close>

lemma map_saved:
  assumes "Map_SnapshotCurrentState flate (Some m) = Inr saved \<or> Map_Snapshot flate (Some m) frontier = Inr saved"
  obtains data where "Map_MarshalBinary (Some m) = Inr data" "Snapshot_Bytes saved = data" "Snapshot_ClockState saved = Some (HLC_Snapshot (lc_clock m))"
proof -
  have "\<exists>data frontier. Map_MarshalBinary (Some m) = Inr data \<and> NewWithClockState flate data frontier (HLC_Snapshot (lc_clock m)) = Inr saved"
    using assms
  proof
    assume "Map_SnapshotCurrentState flate (Some m) = Inr saved"
    then show ?thesis by (auto simp: Map_SnapshotCurrentState_def Map_MarshalBinary_def Let_def split: if_splits sum.splits)
  next
    assume "Map_Snapshot flate (Some m) frontier = Inr saved"
    then show ?thesis by (auto simp: Map_Snapshot_def Map_MarshalBinaryWithClockState_def Map_MarshalBinary_def split: sum.splits if_splits)
  qed
  then obtain data f where "Map_MarshalBinary (Some m) = Inr data" "NewWithClockState flate data f (HLC_Snapshot (lc_clock m)) = Inr saved" by blast
  then show thesis by (intro that[of data]) (auto simp: NewWithClockState_def split: sum.splits if_splits)
qed

lemma map_restored:
  assumes "NewMapFromSnapshotWithOptions flate saved options now now' = Inr r"
  obtains c fresh mid where "Snapshot_ClockState saved = Some c" "NewMapFromClockWithOptions c options = Inr fresh" "MapOptions_valid options"
    "Map_UnmarshalBinary flate (Some fresh) (Snapshot_Bytes saved) now = (Some mid, Inr ())"
    "r = mid \<or> (\<exists>g clock. r = mid\<lparr>lc_clock := clock\<rparr> \<and> HLC_Witness (lc_clock mid) g now' = (clock, Inr ()))"
proof -
  have "\<exists>c fresh mid. Snapshot_ClockState saved = Some c \<and> NewMapFromClockWithOptions c options = Inr fresh \<and> MapOptions_valid options \<and>
    Map_UnmarshalBinary flate (Some fresh) (Snapshot_Bytes saved) now = (Some mid, Inr ()) \<and>
    (r = mid \<or> (\<exists>g clock. r = mid\<lparr>lc_clock := clock\<rparr> \<and> HLC_Witness (lc_clock mid) g now' = (clock, Inr ())))"
    using assms by (simp add: NewMapFromSnapshotWithOptions_def split: if_splits option.splits sum.splits prod.splits) blast+
  then show thesis using that by blast
qed

lemma coll_inv_clock:
  assumes "coll_inv ok mx c" and "lc_clock c = Some h" and "hlc_replicaID h' = hlc_replicaID h" and "hlc_stamp h \<le> hlc_stamp h'"
  shows "coll_inv ok mx (c\<lparr>lc_clock := Some h'\<rparr>)"
  using assms by (fastforce simp: coll_inv_def hlc_inv_def)

lemma lwwmap_restart_parts:
  assumes m: "lm_inv m" and h: "lc_clock m = Some h"
    and saved: "Map_SnapshotCurrentState flate (Some m) = Inr saved \<or> Map_Snapshot flate (Some m) frontier = Inr saved"
    and r: "NewMapFromSnapshotWithOptions flate saved (lm_options m) now now' = Inr r"
  shows "lm_inv r \<and> lc_entries r = lc_entries m \<and> lc_replicaID r = lc_replicaID m \<and> lm_options r = lm_options m \<and> hlc_stamp h \<le> hlc_stamp (the (lc_clock r))"
proof -
  obtain data where data: "Map_MarshalBinary (Some m) = Inr data" "Snapshot_Bytes saved = data" "Snapshot_ClockState saved = Some (HLC_Snapshot (lc_clock m))"
    using saved by (rule map_saved)
  obtain c fresh mid where p: "Snapshot_ClockState saved = Some c" "NewMapFromClockWithOptions c (lm_options m) = Inr fresh" "MapOptions_valid (lm_options m)"
    "Map_UnmarshalBinary flate (Some fresh) (Snapshot_Bytes saved) now = (Some mid, Inr ())"
    "r = mid \<or> (\<exists>g clock. r = mid\<lparr>lc_clock := clock\<rparr> \<and> HLC_Witness (lc_clock mid) g now' = (clock, Inr ()))"
    using r by (rule map_restored)
  have inv: "hlc_inv h" "hlc_replicaID h = lc_replicaID m" using m h by (auto simp: lm_inv_def coll_inv_def)
  have fresh: "fresh = \<lparr>lc_replicaID = lc_replicaID m, lc_clock = Some h, lc_entries = fmempty, lc_tags = fmempty, lm_options = lm_options m\<rparr>"
    using p(1-3) data(3) h inv restart_same[OF inv(1)] by (auto simp: NewMapFromClockWithOptions_def HLC_Snapshot_def split: if_splits)
  have fi: "lm_inv fresh" using inv p(3) by (simp add: fresh lm_inv_def coll_inv_def indexed_def MapOptions_valid_def)
  have dec: "unmarshalMapWithOptions flate data TypeIDLWWMapState DefaultLimits (Some (lm_options fresh)) = Inr (lc_entries m)"
    using data(1) by (intro map_admits[OF m]) (simp_all add: fresh map_marshal_iff[of _ _ flate])
  note run = p(4)[unfolded data(2) Map_UnmarshalBinary_def]
  have mid: "lm_inv mid" "lc_entries mid = lc_entries m" "lc_replicaID mid = lc_replicaID m" "lm_options mid = lm_options m" "hlc_stamp h \<le> hlc_stamp (the (lc_clock mid))"
    using fi DefaultLimits_go
    by (cases rule: map_unmarshal_cases[where flate = flate and data = data and now = now]; use run dec in \<open>auto simp: fresh\<close>)+
  obtain h1 where h1: "lc_clock mid = Some h1" using lm_clock[OF mid(1)] by blast
  from p(5) show ?thesis
  proof
    assume "r = mid"
    with mid show ?thesis by simp
  next
    assume "\<exists>g clock. r = mid\<lparr>lc_clock := clock\<rparr> \<and> HLC_Witness (lc_clock mid) g now' = (clock, Inr ())"
    then obtain g clock where g: "r = mid\<lparr>lc_clock := clock\<rparr>" "HLC_Witness (Some h1) g now' = (clock, Inr ())" using h1 by auto
    from g(2) show ?thesis
    proof (cases rule: Witness_cases)
      case (ok h2)
      have "coll_inv (map_ok (lm_options mid)) (mo_MaxEntries (lm_options mid)) (mid\<lparr>lc_clock := Some h2\<rparr>)"
        using mid(1) h1 ok by (intro coll_inv_clock[of _ _ _ h1]) (auto simp: lm_inv_def)
      with mid ok g(1) h1 show ?thesis by (auto simp: lm_inv_def)
    qed simp
  qed
qed

section \<open>Properties\<close>

text \<open>
  C7. Replicas of a map converge to the greatest write of every key. After successful \<open>ApplyDelta\<close> calls a map holds for every key one of the
  entries it held or was given, and none of these has a greater tag; replicas that start alike and apply the same deltas, in any order
  and any number of times, hold the same entries, where each tag stands for one write. \<open>Merge\<close> applies the entries of the other map.
  With such tags \<open>ApplyDelta\<close> refuses a valid delta only if the entries would not fit or the clock is exhausted.
\<close>

theorem lwwmap_converges:
  assumes "lm_inv m" and "issued_by val (lc_entries m)" and "\<forall>d \<in> set ds. issued_by val (md_entries (fst d))" and "fst ` set ds = fst ` set es"
    and "apply_all (\<lambda>m. Map_ApplyDelta (Some m)) m ds = Some a" and "apply_all (\<lambda>m. Map_ApplyDelta (Some m)) m es = Some b"
  shows "lc_entries a = lc_entries b \<and> greatest_of (lc_entries a) (insert (lc_entries m) (md_entries ` fst ` set ds)) \<and> lm_inv a \<and>
    (\<forall>q now. lm_inv q \<longrightarrow> Map_Merge (Some m) (Some q) now = Map_ApplyDelta (Some m) \<lparr>md_entries = lc_entries q\<rparr> now) \<and>
    (\<forall>d now e. valid_entries (map_ok (lm_options m)) (md_entries d) \<longrightarrow> issued_by val (md_entries d) \<longrightarrow>
       snd (Map_ApplyDelta (Some m) d now) = Inl e \<longrightarrow> e = clock_ErrClockExhausted \<or>
       e = lww_ErrResourceLimit \<and> int (fm_size (entries_join (lc_entries m) (md_entries d))) > mo_MaxEntries (lm_options m))"
proof -
  note conv = lwwmap_replica.converges[OF assms]
  have merge: "Map_Merge (Some m) (Some q) now = Map_ApplyDelta (Some m) \<lparr>md_entries = lc_entries q\<rparr> now" for q now
    using lm_clock[OF assms(1)] by (auto simp: Map_Merge_def Map_ApplyDelta_def Let_def applyOwnedMapEntries_def split: sum.splits)
  have refuse: "e = clock_ErrClockExhausted \<or> e = lww_ErrResourceLimit \<and> int (fm_size (entries_join (lc_entries m) (md_entries d))) > mo_MaxEntries (lm_options m)"
    if d: "valid_entries (map_ok (lm_options m)) (md_entries d)" "issued_by val (md_entries d)" "snd (Map_ApplyDelta (Some m) d now) = Inl e" for d now e
  proof -
    have "\<not> clash (lc_entries m) (md_entries d)" using assms(2) d(2) by (rule issued_no_clash)
    with assms(1) d lm_clock[OF assms(1)] show ?thesis
      by (cases rule: map_apply_cases[where E = "md_entries d" and now = now]) (auto simp: Map_ApplyDelta_def)
  qed
  from conv merge refuse show ?thesis by blast
qed

definition map_a :: lwwMap where
  "map_a = \<lparr>lc_replicaID = [97], lc_clock = Some \<lparr>hlc_replicaID = [97], hlc_wallTime = 5, hlc_logical = 0\<rparr>,
     lc_entries = fmupd [107] \<lparr>le_tag = Tag [97] 5 0, le_present = True, le_value = [1]\<rparr> fmempty,
     lc_tags = fmupd (Tag [97] 5 0) [107] fmempty, lm_options = DefaultMapOptions\<rparr>"

definition map_delta_b :: MapDelta where
  "map_delta_b = \<lparr>md_entries = fmupd [107] \<lparr>le_tag = Tag [98] 6 0, le_present = False, le_value = []\<rparr> fmempty\<rparr>"

lemma map_a_inv: "lm_inv map_a"
  by (auto simp: lm_inv_def map_a_def DefaultMapOptions_def MapOptions_valid_def coll_inv_def hlc_inv_def indexed_def map_ok_def Tag_Valid_def
      tag_stamp_def hlc_stamp_def eval split: if_splits)

lemma map_apply_b:
  "\<exists>a. apply_all (\<lambda>m. Map_ApplyDelta (Some m)) map_a [(map_delta_b, Some now)] = Some a" if "now \<in> {8, 9}"
  using that by (auto simp: Map_ApplyDelta_def map_a_def map_delta_b_def applyOwnedMapEntries_def validateMapEntries_def validateMapEntriesWithOptions_def
      validateMapWrite_def DefaultMapOptions_def fm_items_def fm_keys_def join_locked_def ensure_tags_compatible_def entries_conflict_def entries_subsumed_def
      new_entries_def greatest_entry_tag_def put_entry_def Tag_Compare_def HLC_Witness_def physicalMillis_def Tag_Valid_def max_def Let_def eval)

theorem lwwmap_converges_witness:
  "\<exists>a b. apply_all (\<lambda>m. Map_ApplyDelta (Some m)) map_a [(map_delta_b, Some 8)] = Some a \<and>
     apply_all (\<lambda>m. Map_ApplyDelta (Some m)) map_a [(map_delta_b, Some 9)] = Some b \<and> lc_entries a = lc_entries b"
proof -
  obtain a b where run: "apply_all (\<lambda>m. Map_ApplyDelta (Some m)) map_a [(map_delta_b, Some 8)] = Some a"
    "apply_all (\<lambda>m. Map_ApplyDelta (Some m)) map_a [(map_delta_b, Some 9)] = Some b" using map_apply_b by fastforce
  let ?val = "\<lambda>t. ([107], if t = Tag [97] 5 0 then \<lparr>le_tag = t, le_present = True, le_value = [1]\<rparr> else \<lparr>le_tag = t, le_present = False, le_value = []\<rparr>)"
  have "issued_by ?val (lc_entries map_a)" "issued_by ?val (md_entries map_delta_b)"
    by (auto simp: issued_by_def map_a_def map_delta_b_def split: if_splits)
  with lwwmap_converges[OF map_a_inv, of ?val "[(map_delta_b, Some 8)]" "[(map_delta_b, Some 9)]"] run show ?thesis by auto
qed

lemma join_newest:
  assumes "\<And>k e. fmlookup E k = Some e \<Longrightarrow> le_tag e < le_tag new"
  shows "entries_join E (fmupd key new fmempty) = fmupd key new E"
proof (rule fmap_ext)
  fix k
  show "fmlookup (entries_join E (fmupd key new fmempty)) k = fmlookup (fmupd key new E) k" using assms[of k] by (cases "fmlookup E k") auto
qed

text \<open>
  What a write at a map promises: the one error it returns, decided by its arguments, the limits and the clock, and otherwise the value read
  afterwards and the effect of the delta.
\<close>

definition map_write_error :: "lwwMap \<Rightarrow> gostring \<Rightarrow> byte list option \<Rightarrow> int option \<Rightarrow> go_error option" where
  "map_write_error m key v now =
     (if blank key \<or> int (length key) > mo_MaxKeyBytes (lm_options m) then Some lww_ErrInvalidKey
      else if (case v of None \<Rightarrow> False | Some bs \<Rightarrow> int (length bs) > mo_MaxValueBytes (lm_options m)) then Some lww_ErrResourceLimit
      else if \<not> Map_HasEntry (Some m) key \<and> int (Map_EntryCount (Some m)) \<ge> mo_MaxEntries (lm_options m) then Some lww_ErrResourceLimit
      else if isl (snd (HLC_Now (lc_clock m) now)) then Some clock_ErrClockExhausted
      else None)"

definition map_write_spec :: "lwwMap \<Rightarrow> gostring \<Rightarrow> byte list option \<Rightarrow> int option \<Rightarrow> lwwMap option \<times> MapDelta res \<Rightarrow> bool" where
  "map_write_spec m key v now out = (case map_write_error m key v now of
      Some e \<Rightarrow> out = (Some m, Inl e)
    | None \<Rightarrow> \<exists>m' d. out = (Some m', Inr d) \<and> (\<forall>k. Map_Get (Some m') k = (if k = key then v else Map_Get (Some m) k)) \<and>
        lc_entries m' = entries_join (lc_entries m) (md_entries d) \<and> MapDelta_Keys d = [key] \<and>
        (\<forall>q now q'. lm_inv q \<longrightarrow> lm_options q = lm_options m \<longrightarrow> Map_ApplyDelta (Some q) d now = (q', Inr ()) \<longrightarrow>
           (\<forall>e e'. fmlookup (lc_entries q) key = Some e \<longrightarrow> fmlookup (md_entries d) key = Some e' \<longrightarrow> le_tag e < le_tag e') \<longrightarrow> Map_Get q' key = v))"

lemma map_write_refused:
  assumes "lm_inv m" and "map_write_error m key (if present then Some bs else None) now = Some e"
  shows "Map_writeDelta (Some m) key bs present now = (Some m, Inl e)"
proof -
  obtain h where h: "lc_clock m = Some h" using lm_clock[OF assms(1)] by blast
  obtain c r where n: "HLC_Now (Some h) now = (c, r)" by fastforce
  have keep: "m\<lparr>lc_clock := Some h\<rparr> = m" using h by (cases m) simp
  have "c = Some h \<and> r = Inl clock_ErrClockExhausted" if "isl r" using n that by (cases rule: Now_cases) auto
  with assms(2) n keep show ?thesis
    by (auto simp: map_write_error_def Map_writeDelta_def validateMapWrite_def write_locked_def h Map_HasEntry_def Map_EntryCount_def
        split: if_splits sum.split)
qed

lemma map_write_accepted:
  assumes "lm_inv m" and "map_write_error m key (if present then Some bs else None) now = None"
  shows "Map_writeDelta (Some m) key bs present now \<noteq> (Some m, Inl clock_ErrClockExhausted)"
proof -
  obtain h where h: "lc_clock m = Some h" using lm_clock[OF assms(1)] by blast
  obtain c t where n: "HLC_Now (Some h) now = (c, Inr t)"
    using assms(2) h by (cases "HLC_Now (Some h) now"; cases "snd (HLC_Now (Some h) now)") (auto simp: map_write_error_def split: if_splits)
  show ?thesis using assms(2) n
    by (auto simp: map_write_error_def Map_writeDelta_def validateMapWrite_def write_locked_def h Map_HasEntry_def Map_EntryCount_def Let_def
        split: if_splits sum.splits option.splits prod.splits)
qed

lemma map_write_ok:
  assumes inv: "lm_inv m"
  shows "map_write_spec m key (if present then Some bs else None) now (Map_writeDelta (Some m) key bs present now)"
proof (cases "map_write_error m key (if present then Some bs else None) now")
  case (Some e)
  then show ?thesis using map_write_refused[OF inv Some] by (simp add: map_write_spec_def)
next
  case None
  from inv show ?thesis
  proof (cases rule: map_write_cases[where key = key and bs = bs and present = present and now = now])
    case (ok m' t)
    let ?e = "\<lparr>le_tag = t, le_present = present, le_value = (if present then bs else [])\<rparr>"
    have join: "lc_entries m' = entries_join (lc_entries m) (fmupd key ?e fmempty)"
      unfolding ok(5) by (rule join_newest[symmetric]) (use ok in simp)
    have keys: "MapDelta_Keys \<lparr>md_entries = fmupd key ?e fmempty\<rparr> = [key]" by (simp add: MapDelta_Keys_def fm_items_def fm_keys_def eval)
    have get: "Map_Get (Some m') k = (if k = key then if present then Some bs else None else Map_Get (Some m) k)" for k
      by (simp add: Map_Get_def ok(5))
    have other: "Map_Get q' key = (if present then Some bs else None)"
      if q: "lm_inv q" "Map_ApplyDelta (Some q) \<lparr>md_entries = fmupd key ?e fmempty\<rparr> now' = (q', Inr ())"
        "\<forall>e. fmlookup (lc_entries q) key = Some e \<longrightarrow> le_tag e < t" for q now' q'
    proof -
      obtain r where r: "q' = Some r" "lc_entries r = entries_join (lc_entries q) (fmupd key ?e fmempty)"
        using lwwmap_replica.apply_ok[OF q(1,2)] by auto
      have "fmlookup (lc_entries r) key = Some ?e" using q(3) r(2) by (cases "fmlookup (lc_entries q) key") auto
      then show ?thesis by (simp add: Map_Get_def r(1))
    qed
    show ?thesis unfolding map_write_spec_def ok(1) None using join keys get other by (auto simp del: fmlookup_dom_iff)
  next
    case clock
    with map_write_accepted[OF inv None] show ?thesis by blast
  qed (use None in \<open>auto simp: map_write_error_def Map_HasEntry_def Map_EntryCount_def split: if_splits\<close>)
qed

text \<open>
  C17. A write to the map is read back, its delta carries it, and it fails exactly when it must. A blank or long key, a value over the limit, a
  new key in a full map and an exhausted clock are each refused, in this order and with their errors, and then nothing changes. Otherwise the
  write succeeds: \<open>SetWithDelta\<close> makes \<open>Get\<close> return the value, \<open>DeleteWithDelta\<close> makes it return nothing, and other keys keep theirs; the new
  state is the join of the old one and the delta, which has the one key, and a replica that applies the delta and holds no later write of
  the key reads the same.
\<close>

theorem lwwmap_write:
  assumes "lm_inv m"
  shows "map_write_spec m key (Some bs) now (Map_SetWithDelta (Some m) key bs now) \<and> map_write_spec m key None now (Map_DeleteWithDelta (Some m) key now)"
  using map_write_ok[OF assms, of key True bs now] map_write_ok[OF assms, of key False "[]" now]
  by (simp add: Map_SetWithDelta_def Map_DeleteWithDelta_def)

theorem lwwmap_write_witness:
  "(\<exists>m' d. Map_SetWithDelta (Some map_a) [108] [7] (Some 9) = (Some m', Inr d) \<and> Map_Get (Some m') [108] = Some [7] \<and> Map_Get (Some m') [107] = Some [1]) \<and>
   Map_SetWithDelta (Some map_a) [] [7] (Some 9) = (Some map_a, Inl lww_ErrInvalidKey)"
proof
  have ok: "map_write_error map_a [108] (Some [7]) (Some 9) = None" and bad: "map_write_error map_a [] (Some [7]) (Some 9) = Some lww_ErrInvalidKey"
    by (simp_all add: map_write_error_def map_a_def DefaultMapOptions_def HLC_Now_def physicalMillis_def advanceLocal_def Let_def Map_HasEntry_def
        Map_EntryCount_def eval)
  have "Map_Get (Some map_a) [107] = Some [1]" by (simp add: Map_Get_def map_a_def)
  with lwwmap_write[OF map_a_inv, of "[108]" "[7]" "Some 9"] ok
  show "\<exists>m' d. Map_SetWithDelta (Some map_a) [108] [7] (Some 9) = (Some m', Inr d) \<and> Map_Get (Some m') [108] = Some [7] \<and> Map_Get (Some m') [107] = Some [1]"
    by (auto simp: map_write_spec_def)
  show "Map_SetWithDelta (Some map_a) [] [7] (Some 9) = (Some map_a, Inl lww_ErrInvalidKey)"
    using lwwmap_write[OF map_a_inv, of "[]" "[7]" "Some 9"] bad by (simp add: map_write_spec_def)
qed

text \<open>
  C38. Every operation keeps the map well formed, and a call that fails changes nothing. The index stays the inverse of the entries, the clock
  at or after every tag, keys and values within the limits; this holds after writes, deltas, merges, compactions and replacing the state by
  arbitrary bytes, and for a new map.
\<close>

theorem lwwmap_invariant:
  assumes "lm_inv m" and "go_limits limits"
  shows "safe_call lm_inv m (Map_writeDelta (Some m) key bs present now) \<and> safe_call lm_inv m (Map_ApplyDelta (Some m) d now) \<and>
    safe_call lm_inv m (Map_Merge (Some m) (Some q) now) \<and> safe_call lm_inv m (Map_CompactTombstones (Some m) ts) \<and>
    safe_call lm_inv m (Map_UnmarshalBinaryWithLimits flate (Some m) data limits now) \<and>
    (\<forall>st options new. NewMapFromClockWithOptions st options = Inr new \<longrightarrow> lm_inv new)"
proof (intro conjI allI impI)
  show "safe_call lm_inv m (Map_writeDelta (Some m) key bs present now)"
    using assms(1) by (cases rule: map_write_cases[where key = key and bs = bs and present = present and now = now]) (use assms(1) in simp_all)
  have app: "safe_call lm_inv m (applyOwnedMapEntries m E now)" for E
    using assms(1) by (cases rule: map_apply_cases[where E = E and now = now]) (use assms(1) in simp_all)
  then show "safe_call lm_inv m (Map_ApplyDelta (Some m) d now)" using lm_clock[OF assms(1)] by (auto simp: Map_ApplyDelta_def)
  show "safe_call lm_inv m (Map_Merge (Some m) (Some q) now)" using app assms(1) by (auto simp: Map_Merge_def Let_def split: sum.splits)
  have inv: "coll_inv (map_ok (lm_options m)) (mo_MaxEntries (lm_options m)) m" "MapOptions_valid (lm_options m)" using assms by (auto simp: lm_inv_def)
  from inv(1) show "safe_call lm_inv m (Map_CompactTombstones (Some m) ts)"
    by (cases rule: compact_cases[where ts = ts]) (use assms(1) inv(2) in \<open>simp_all add: Map_CompactTombstones_def lm_inv_def same_coll_map\<close>)
  show "safe_call lm_inv m (Map_UnmarshalBinaryWithLimits flate (Some m) data limits now)"
    using assms by (cases rule: map_unmarshal_cases[where flate = flate and data = data and now = now]) (use assms(1) in simp_all)
  show "lm_inv new" if "NewMapFromClockWithOptions st options = Inr new" for st options new
    using that by (auto simp: NewMapFromClockWithOptions_def NewHLCFromState_def lm_inv_def coll_inv_def indexed_def hlc_inv_def MapOptions_valid_def
        split: if_splits sum.splits)
qed

theorem lwwmap_invariant_witness:
  "safe_call lm_inv map_a (Map_ApplyDelta (Some map_a) map_delta_b (Some 8)) \<and> safe_call lm_inv map_a (Map_UnmarshalBinaryWithLimits (\<lambda>c. (c, None)) (Some map_a) [1, 2] DefaultLimits (Some 8))"
  using lwwmap_invariant[OF map_a_inv DefaultLimits_go] by blast

text \<open>
  C39. The framed state is canonical: \<open>MarshalBinary\<close> returns exactly the version 1 bytes that decode to the entries of the map. A replica with the
  same limits that reads these bytes holds these entries, and fails only on an exhausted clock. A map restored from a snapshot of either kind
  holds the entries of the saved map and keeps its replica, and tags of its later writes are greater than every tag up to the saved clock.
\<close>

theorem lwwmap_codec:
  assumes "lm_inv m" and "lm_inv q" and "lm_options q = lm_options m" and "lc_clock m = Some h"
  shows "(Map_MarshalBinary (Some m) = Inr data \<longleftrightarrow> unmarshalMap flate data TypeIDLWWMapState DefaultLimits = Inr (lc_entries m) \<and>
      PeekFrameFormatVersion data DefaultLimits = Inr FormatVersion) \<and>
    (Map_MarshalBinary (Some m) = Inr data \<longrightarrow> (case Map_UnmarshalBinary flate (Some q) data now of
        (q', Inr _) \<Rightarrow> lc_entries (the q') = lc_entries m | (q', Inl e) \<Rightarrow> q' = Some q \<and> e = clock_ErrClockExhausted)) \<and>
    (Map_SnapshotCurrentState flate (Some m) = Inr saved \<or> Map_Snapshot flate (Some m) frontier = Inr saved \<longrightarrow>
     NewMapFromSnapshotWithOptions flate saved (lm_options m) now now' = Inr r \<longrightarrow>
       lm_inv r \<and> lc_entries r = lc_entries m \<and> lc_replicaID r = lc_replicaID m \<and>
       (\<forall>r' d key bs present now''. Map_writeDelta (Some r) key bs present now'' = (r', Inr d) \<longrightarrow>
          (\<exists>e. md_entries d = fmupd key e fmempty \<and> ReplicaID (le_tag e) = lc_replicaID m \<and> (\<forall>u. tag_stamp u \<le> hlc_stamp h \<longrightarrow> u < le_tag e))))"
proof (intro conjI impI)
  show iff: "Map_MarshalBinary (Some m) = Inr data \<longleftrightarrow> unmarshalMap flate data TypeIDLWWMapState DefaultLimits = Inr (lc_entries m) \<and>
      PeekFrameFormatVersion data DefaultLimits = Inr FormatVersion" by (rule map_marshal_iff)
  assume "Map_MarshalBinary (Some m) = Inr data"
  with iff map_admits[OF assms(1,3)] have dec: "unmarshalMapWithOptions flate data TypeIDLWWMapState DefaultLimits (Some (lm_options q)) = Inr (lc_entries m)" by blast
  show "case Map_UnmarshalBinary flate (Some q) data now of
      (q', Inr _) \<Rightarrow> lc_entries (the q') = lc_entries m | (q', Inl e) \<Rightarrow> q' = Some q \<and> e = clock_ErrClockExhausted"
    unfolding Map_UnmarshalBinary_def using assms(2) DefaultLimits_go
    by (cases rule: map_unmarshal_cases[where flate = flate and data = data and now = now]) (use dec in auto)
next
  assume "Map_SnapshotCurrentState flate (Some m) = Inr saved \<or> Map_Snapshot flate (Some m) frontier = Inr saved"
    and "NewMapFromSnapshotWithOptions flate saved (lm_options m) now now' = Inr r"
  from lwwmap_restart_parts[OF assms(1,4) this]
  have r: "lm_inv r" "lc_entries r = lc_entries m" "lc_replicaID r = lc_replicaID m" "hlc_stamp h \<le> hlc_stamp (the (lc_clock r))" by auto
  then show "lm_inv r" "lc_entries r = lc_entries m" "lc_replicaID r = lc_replicaID m" by simp_all
  have "\<exists>e. md_entries d = fmupd key e fmempty \<and> ReplicaID (le_tag e) = lc_replicaID m \<and> (\<forall>u. tag_stamp u \<le> hlc_stamp h \<longrightarrow> u < le_tag e)"
    if "Map_writeDelta (Some r) key bs present now'' = (r', Inr d)" for r' d key bs present now''
    using r(1)
  proof (cases rule: map_write_cases[where key = key and bs = bs and present = present and now = now''])
    case (ok m' t)
    have "u < t" if "tag_stamp u \<le> hlc_stamp h" for u using that ok(8) r(4) by (intro tag_stamp_less) simp
    with ok that r(3) show ?thesis by auto
  qed (use that in auto)
  then show "\<forall>r' d key bs present now''. Map_writeDelta (Some r) key bs present now'' = (r', Inr d) \<longrightarrow>
      (\<exists>e. md_entries d = fmupd key e fmempty \<and> ReplicaID (le_tag e) = lc_replicaID m \<and> (\<forall>u. tag_stamp u \<le> hlc_stamp h \<longrightarrow> u < le_tag e))" by blast
qed

lemma map_a_bytes: "\<exists>data. Map_MarshalBinary (Some map_a) = Inr data"
proof -
  have "map_wire_ok DefaultLimits None (lc_entries map_a)"
    by (auto simp: map_wire_ok_def map_a_def DefaultLimits_def option_limits_def map_entry_ok_def within_def bytes_ok_def tag_ok_def Tag_Valid_def distinct_tags_def
        eval split: if_splits)
  then show ?thesis
    unfolding Map_MarshalBinary_def option.case cloneMapEntries_id marshalMap_iff MarshalFrame_iff
    by (simp add: map_a_def map_enc_def map_entry_field.counted_enc_def map_entry_enc_def tag_enc_def bytes_enc_def fm_items_def fm_keys_def DefaultLimits_def eval uvarint.simps)
qed

theorem lwwmap_codec_witness:
  "\<exists>data q'. Map_MarshalBinary (Some map_a) = Inr data \<and> Map_UnmarshalBinary (\<lambda>c. (c, None)) (Some map_a) data (Some 9) = (Some q', Inr ()) \<and> lc_entries q' = lc_entries map_a"
proof -
  obtain data where data: "Map_MarshalBinary (Some map_a) = Inr data" using map_a_bytes by blast
  let ?f = "\<lambda>c :: byte list. (c, None :: go_error option)"
  have "unmarshalMapWithOptions ?f data TypeIDLWWMapState DefaultLimits (Some (lm_options map_a)) = Inr (lc_entries map_a)"
    using map_admits[OF map_a_inv refl, of ?f data] map_marshal_iff[of map_a data ?f] data by blast
  then obtain q' where run: "Map_UnmarshalBinary ?f (Some map_a) data (Some 9) = (Some q', Inr ())"
    using map_a_inv by (auto simp: Map_UnmarshalBinary_def Map_UnmarshalBinaryWithLimits_def map_a_def DefaultMapOptions_def validateMapEntriesWithOptions_def
        validateMapWrite_def mapTagIndex_def validateMapEntries_def replace_locked_def greatest_entry_tag_def fm_items_def fm_keys_def HLC_Witness_def
        physicalMillis_def Tag_Valid_def max_def Let_def eval)
  have "lc_clock map_a = Some \<lparr>hlc_replicaID = [97], hlc_wallTime = 5, hlc_logical = 0\<rparr>" by (simp add: map_a_def)
  from lwwmap_codec[OF map_a_inv map_a_inv refl this, of data ?f "Some 9"] data run show ?thesis by auto
qed

text \<open>
  C18. Collection of a map's tombstones is fail-closed: what \<open>AcknowledgeAndCompactTarget\<close> removes are tombstones that every current member has
  acknowledged, and \<open>Get\<close> returns what it returned. On its own \<open>CompactTombstones\<close> refuses the tag of a visible entry and an invalid tag, and otherwise
  removes the entries of the given tags and no other.
\<close>

theorem lwwmap_collect:
  assumes "tc_inv c" and "lm_inv m" and "AcknowledgeAndCompactTarget (Some c) g member e ts lwwmap_target (Some (Some m)) = (c', Some m', out)"
  shows "(case out of
      Inl err \<Rightarrow> m' = Some m \<and> c' = Some c
    | Inr n \<Rightarrow> (\<forall>k. Map_Get m' k = Map_Get (Some m) k) \<and> (\<exists>gone. n = fcard gone \<and> gone |\<subseteq>| dead_tags (lc_entries m) \<and>
        fset_of_list (Map_TombstoneTags m') = dead_tags (lc_entries m) |-| gone \<and> (\<forall>t k. t |\<in>| gone \<longrightarrow> k |\<in>| tc_members c \<longrightarrow> (k, t) \<in> acked (the c')))) \<and>
    (\<forall>tags. case Map_CompactTombstones (Some m) tags of
        (q, Inl err) \<Rightarrow> q = Some m \<and> err = lww_ErrUnsafeCompaction \<and> (\<not> list_all Tag_Valid tags \<or> set tags \<inter> live_tags (lc_entries m) \<noteq> {})
      | (q, Inr n) \<Rightarrow> lc_entries (the q) = fmfilter (\<lambda>k. k \<notin> tagged_keys (lc_entries m) tags) (lc_entries m) \<and> n = card (tagged_keys (lc_entries m) tags) \<and>
          set tags \<inter> live_tags (lc_entries m) = {})"
proof (intro conjI allI)
  have get: "Map_Get (Some q) k = map_option le_value (fmlookup (live_entries (lc_entries q)) k)" for q k
    by (auto simp: Map_Get_def live_entries_def split: option.splits)
  have ok: "\<exists>q. Some m = Some q \<and> lm_inv q" using assms(2) by simp
  from assms(1) ok show "case out of
      Inl err \<Rightarrow> m' = Some m \<and> c' = Some c
    | Inr n \<Rightarrow> (\<forall>k. Map_Get m' k = Map_Get (Some m) k) \<and> (\<exists>gone. n = fcard gone \<and> gone |\<subseteq>| dead_tags (lc_entries m) \<and>
        fset_of_list (Map_TombstoneTags m') = dead_tags (lc_entries m) |-| gone \<and> (\<forall>t k. t |\<in>| gone \<longrightarrow> k |\<in>| tc_members c \<longrightarrow> (k, t) \<in> acked (the c')))"
  proof (cases rule: lwwmap_tombstones.collect_cases[where g = g and m = member and e = e and ts = ts])
    case (error err)
    with assms(3) show ?thesis by auto
  next
    case (ok d t gone)
    then obtain q where q: "t = Some q" "lm_inv q" by auto
    with ok assms(3) have "m' = Some q" "c' = Some d" "out = Inr (fcard gone)" "live_entries (lc_entries q) = live_entries (lc_entries m)"
      "dead_tags (lc_entries q) = dead_tags (lc_entries m) |-| gone" by auto
    with ok get map_tombstones_eq[OF q(2)] show ?thesis by (auto intro!: exI[of _ gone])
  qed
  fix tags
  have "coll_inv (map_ok (lm_options m)) (mo_MaxEntries (lm_options m)) m" using assms(2) by (simp add: lm_inv_def)
  then show "case Map_CompactTombstones (Some m) tags of
        (q, Inl err) \<Rightarrow> q = Some m \<and> err = lww_ErrUnsafeCompaction \<and> (\<not> list_all Tag_Valid tags \<or> set tags \<inter> live_tags (lc_entries m) \<noteq> {})
      | (q, Inr n) \<Rightarrow> lc_entries (the q) = fmfilter (\<lambda>k. k \<notin> tagged_keys (lc_entries m) tags) (lc_entries m) \<and> n = card (tagged_keys (lc_entries m) tags) \<and>
          set tags \<inter> live_tags (lc_entries m) = {}"
    by (cases rule: compact_cases[where ts = tags]) (simp_all add: Map_CompactTombstones_def)
qed

definition map_t :: lwwMap where
  "map_t = map_a\<lparr>lc_entries := fmupd [108] \<lparr>le_tag = Tag [98] 2 0, le_present = False, le_value = []\<rparr> (lc_entries map_a), lc_tags := fmupd (Tag [98] 2 0) [108] (lc_tags map_a)\<rparr>"

lemma map_t_inv: "lm_inv map_t"
  by (auto simp: lm_inv_def map_t_def map_a_def DefaultMapOptions_def MapOptions_valid_def coll_inv_def hlc_inv_def indexed_def map_ok_def Tag_Valid_def
      tag_stamp_def hlc_stamp_def stamp_def eval split: if_splits)

theorem lwwmap_collect_witness:
  "\<exists>c' m'. AcknowledgeAndCompactTarget (Some gc_d) [103] [97] 1 [Tag [98] 2 0] lwwmap_target (Some (Some map_t)) = (Some c', Some (Some m'), Inr 1) \<and>
     Map_Get (Some m') [107] = Some [1]"
proof -
  have "Coordinator_Acknowledge (Some gc_c) [103] [98] 1 [Tag [98] 2 0] = (Some gc_d, Inr ())"
    by (simp add: Coordinator_Acknowledge_def validateTombstones_def acknowledgeLocked_def Let_def ack_tag_def count_at_def gc_c_def gc_d_def Tag_Valid_def eval)
  with Acknowledge_refines[OF gc_c_inv, of "[103]" "[98]" 1 "[Tag [98] 2 0]"] have inv: "tc_inv gc_d" by (simp add: refines_def)
  obtain c' m' where run: "AcknowledgeAndCompactTarget (Some gc_d) [103] [97] 1 [Tag [98] 2 0] lwwmap_target (Some (Some map_t)) = (Some c', Some (Some m'), Inr 1)"
    by (simp add: AcknowledgeAndCompactTarget_def validateTombstones_def ack_select_def acknowledgeLocked_def Let_def ack_tag_def count_at_def gc_c_def gc_d_def
        Tag_Valid_def stableTombstonesLocked_def compact_target_def lwwmap_target_def Map_CompactTombstones_def Map_TombstoneTags_def tombstone_tags_def
        map_t_def map_a_def compact_coll_def drop_key_def fm_items_def fm_keys_def fcard.rep_eq eval)
  have "Map_Get (Some map_t) [107] = Some [1]" by (simp add: Map_Get_def map_t_def map_a_def)
  with lwwmap_collect[OF inv map_t_inv run] run show ?thesis by auto
qed

end
