(* ===== verification/LWWSets.thy ===== *)
theory LWWSets
  imports LWWMaps
begin

text \<open>
  The last-write-wins set of \<open>src/lww/set.go\<close>, \<open>src/lww/wire_set.go\<close> and \<open>src/lww/codec.go\<close>, and the functions for sets of
  \<open>src/lww/lww.go\<close>. Elements are of a linearly ordered type, which fixes the enumeration of a map of elements; the encoder sorts
  the elements by their bytes. \<open>Merge\<close> is the call with two different sets; with itself a set returns at once.
\<close>

type_synonym setEntry = "unit lwwEntry"

record 'e SetDelta =
  sd_entries :: "('e, unit) entries"

record SetOptions =
  so_MaxEntries :: int

definition DefaultSetOptions :: SetOptions where
  "DefaultSetOptions = \<lparr>so_MaxEntries = 1048576\<rparr>"

definition SetOptions_valid :: "SetOptions \<Rightarrow> bool" where
  "SetOptions_valid o' \<longleftrightarrow> so_MaxEntries o' > 0"

record 'e lwwSet = "('e, unit) lwwColl" +
  lset_options :: SetOptions

definition NewSetFromClockWithOptions :: "clock_State \<Rightarrow> SetOptions \<Rightarrow> 'e lwwSet res" where
  "NewSetFromClockWithOptions state options =
     (if \<not> Tag_Valid (Tag (st_ReplicaID state) 0 0) then Inl lww_ErrInvalidReplicaID
      else if \<not> SetOptions_valid options then Inl lww_ErrResourceLimit
      else (case NewHLCFromState state of
          Inl err \<Rightarrow> Inl err
        | Inr hlc \<Rightarrow> Inr \<lparr>lc_replicaID = st_ReplicaID state, lc_clock = Some hlc, lc_entries = fmempty, lc_tags = fmempty, lset_options = options\<rparr>))"

definition NewSetWithOptions :: "gostring \<Rightarrow> SetOptions \<Rightarrow> 'e lwwSet res" where
  "NewSetWithOptions replicaID options = NewSetFromClockWithOptions \<lparr>st_ReplicaID = replicaID, st_WallTime = 0, st_Logical = 0\<rparr> options"

definition NewSet :: "gostring \<Rightarrow> 'e lwwSet res" where
  "NewSet replicaID = NewSetWithOptions replicaID DefaultSetOptions"

definition NewSetFromClock :: "clock_State \<Rightarrow> 'e lwwSet res" where
  "NewSetFromClock state = NewSetFromClockWithOptions state DefaultSetOptions"

definition Set_ClockState :: "'e lwwSet option \<Rightarrow> clock_State" where
  "Set_ClockState s = (case s of
      None \<Rightarrow> \<lparr>st_ReplicaID = [], st_WallTime = 0, st_Logical = 0\<rparr>
    | Some s \<Rightarrow> if lc_clock s = None then \<lparr>st_ReplicaID = [], st_WallTime = 0, st_Logical = 0\<rparr> else HLC_Snapshot (lc_clock s))"

definition cloneSetEntries :: "('e::linorder, unit) entries \<Rightarrow> ('e, unit) entries" where
  "cloneSetEntries source = fold (\<lambda>(value, entry). fmupd value entry) (fm_items source) fmempty"

definition validateSetEntries :: "('e::linorder, unit) entries \<Rightarrow> unit res" where
  "validateSetEntries entries = validate_loop (\<lambda>value entry. \<not> Tag_Valid (le_tag entry)) lww_ErrInvalidSetDelta (fm_items entries) fmempty"

definition setTagIndex :: "('e::linorder, unit) entries \<Rightarrow> (tag, 'e) fmap res" where
  "setTagIndex entries = (case validateSetEntries entries of Inl err \<Rightarrow> Inl err | Inr _ \<Rightarrow> Inr (tag_index entries))"

section \<open>Operations\<close>

definition Set_writeDelta :: "'e lwwSet option \<Rightarrow> 'e \<Rightarrow> bool \<Rightarrow> int option \<Rightarrow> 'e lwwSet option \<times> 'e SetDelta res" where
  "Set_writeDelta s value present now = (case s of
      None \<Rightarrow> (None, Inl lww_ErrNilSet)
    | Some s \<Rightarrow>
        if lc_clock s = None then (Some s, Inl lww_ErrNilSet)
        else (case write_locked (so_MaxEntries (lset_options s)) value (\<lambda>tag. \<lparr>le_tag = tag, le_present = present, le_value = ()\<rparr>) now s of
            (s, Inl err) \<Rightarrow> (Some s, Inl err)
          | (s, Inr incoming) \<Rightarrow> (Some s, Inr \<lparr>sd_entries = fmupd value incoming fmempty\<rparr>)))"

definition Set_AddWithDelta :: "'e lwwSet option \<Rightarrow> 'e \<Rightarrow> int option \<Rightarrow> 'e lwwSet option \<times> 'e SetDelta res" where
  "Set_AddWithDelta s value now = Set_writeDelta s value True now"

definition Set_RemoveWithDelta :: "'e lwwSet option \<Rightarrow> 'e \<Rightarrow> int option \<Rightarrow> 'e lwwSet option \<times> 'e SetDelta res" where
  "Set_RemoveWithDelta s value now = Set_writeDelta s value False now"

definition Set_Add :: "'e lwwSet option \<Rightarrow> 'e \<Rightarrow> int option \<Rightarrow> 'e lwwSet option \<times> unit res" where
  "Set_Add s value now = apsnd (map_sum id (\<lambda>_. ())) (Set_AddWithDelta s value now)"

definition Set_Remove :: "'e lwwSet option \<Rightarrow> 'e \<Rightarrow> int option \<Rightarrow> 'e lwwSet option \<times> unit res" where
  "Set_Remove s value now = apsnd (map_sum id (\<lambda>_. ())) (Set_RemoveWithDelta s value now)"

text \<open>The zero entry of a missing element is not present.\<close>

definition Set_Contains :: "'e lwwSet option \<Rightarrow> 'e \<Rightarrow> bool" where
  "Set_Contains s value = (case s of
      None \<Rightarrow> False | Some s \<Rightarrow> (case fmlookup (lc_entries s) value of None \<Rightarrow> False | Some entry \<Rightarrow> le_present entry))"

definition Set_Elements :: "'e::linorder lwwSet option \<Rightarrow> 'e list" where
  "Set_Elements s = (case s of None \<Rightarrow> [] | Some s \<Rightarrow> map fst (filter (\<lambda>(value, entry). le_present entry) (fm_items (lc_entries s))))"

definition applyOwnedSetEntries :: "'e::linorder lwwSet \<Rightarrow> ('e, unit) entries \<Rightarrow> int option \<Rightarrow> 'e lwwSet option \<times> unit res" where
  "applyOwnedSetEntries s entries now = (case validateSetEntries entries of
      Inl err \<Rightarrow> (Some s, Inl err)
    | Inr _ \<Rightarrow> apfst Some (join_locked (so_MaxEntries (lset_options s)) entries now s))"

definition Set_Merge :: "'e::linorder lwwSet option \<Rightarrow> 'e lwwSet option \<Rightarrow> int option \<Rightarrow> 'e lwwSet option \<times> unit res" where
  "Set_Merge s other now = (case (s, other) of
      (Some s, Some other) \<Rightarrow> applyOwnedSetEntries s (cloneSetEntries (lc_entries other)) now
    | _ \<Rightarrow> (s, Inl lww_ErrNilSet))"

definition Set_ApplyDelta :: "'e::linorder lwwSet option \<Rightarrow> 'e SetDelta \<Rightarrow> int option \<Rightarrow> 'e lwwSet option \<times> unit res" where
  "Set_ApplyDelta s delta now = (case s of
      None \<Rightarrow> (None, Inl lww_ErrNilSet)
    | Some s \<Rightarrow> if lc_clock s = None then (Some s, Inl lww_ErrNilSet) else applyOwnedSetEntries s (cloneSetEntries (sd_entries delta)) now)"

definition SetDelta_Merge :: "'e::linorder SetDelta \<Rightarrow> 'e SetDelta \<Rightarrow> 'e SetDelta res" where
  "SetDelta_Merge d other = (case validateSetEntries (sd_entries d) of
      Inl err \<Rightarrow> Inl err
    | Inr _ \<Rightarrow> (case validateSetEntries (sd_entries other) of
          Inl err \<Rightarrow> Inl err
        | Inr _ \<Rightarrow> (case delta_loop (fm_items (sd_entries other)) (cloneSetEntries (sd_entries d)) of
              Inl err \<Rightarrow> Inl err
            | Inr merged \<Rightarrow> (case validateSetEntries merged of Inl err \<Rightarrow> Inl err | Inr _ \<Rightarrow> Inr \<lparr>sd_entries = merged\<rparr>))))"

definition Set_State :: "'e::linorder lwwSet option \<Rightarrow> StateSnapshot" where
  "Set_State s = (case s of
      None \<Rightarrow> \<lparr>snap_Type = ''lww-set'', snap_ReplicaID = [], snap_ElementCount = 0, snap_TombstoneCount = 0\<rparr>
    | Some s \<Rightarrow>
        (let present = length (filter (\<lambda>(value, entry). le_present entry) (fm_items (lc_entries s))) in
         \<lparr>snap_Type = ''lww-set'', snap_ReplicaID = lc_replicaID s, snap_ElementCount = present,
          snap_TombstoneCount = fm_size (lc_entries s) - present\<rparr>))"

definition Set_Frontier :: "'e::linorder lwwSet option \<Rightarrow> frontier option" where
  "Set_Frontier s = map_option (\<lambda>s. entries_frontier (lc_entries s)) s"

definition Set_TombstoneTags :: "'e::linorder lwwSet option \<Rightarrow> tag list" where
  "Set_TombstoneTags s = (case s of None \<Rightarrow> [] | Some s \<Rightarrow> tombstone_tags (lc_entries s))"

definition Set_CompactTombstones :: "'e::linorder lwwSet option \<Rightarrow> tag list \<Rightarrow> 'e lwwSet option \<times> nat res" where
  "Set_CompactTombstones s tags = (case s of None \<Rightarrow> (None, Inl lww_ErrNilSet) | Some s \<Rightarrow> apfst Some (compact_coll tags s))"

section \<open>The codec\<close>

definition lww_bindElementCodec :: "'e ElementCodec option \<Rightarrow> 'e boundElementCodec res" where
  "lww_bindElementCodec codec = (case codec of
      None \<Rightarrow> Inl lww_ErrInvalidCodec
    | Some codec \<Rightarrow> (case codecguard_ID (codec_ID codec) of
          Inl err \<Rightarrow> Inl lww_ErrInvalidCodec
        | Inr i \<Rightarrow> if blank i then Inl lww_ErrInvalidCodec else Inr \<lparr>bec_value = codec, bec_id = i\<rparr>))"

fun set_items :: "'e boundElementCodec \<Rightarrow> DecoderLimits \<Rightarrow> ('e \<times> setEntry) list \<Rightarrow> (byte list \<times> setEntry) list \<Rightarrow> (byte list \<times> setEntry) list res" where
  "set_items codec limits [] items = Inr items"
| "set_items codec limits ((value, entry) # rest) items = (case bec_marshal codec value of
      Inl err \<Rightarrow> Inl (fmt_Errorf ''marshal element'' [lww_ErrInvalidCodec])
    | Inr encoded \<Rightarrow>
        if int (length encoded) > MaxStringBytes limits \<or> int (length (ReplicaID (le_tag entry))) > MaxStringBytes limits then Inl encoding_ErrFrameLimit
        else set_items codec limits rest (items @ [(encoded, entry)]))"

fun set_size :: "DecoderLimits \<Rightarrow> (byte list \<times> setEntry) list \<Rightarrow> int \<Rightarrow> int res" where
  "set_size limits [] payloadSize = Inr payloadSize"
| "set_size limits ((encoded, entry) # rest) payloadSize =
     (let additional = int (UvarintSize (of_nat (length encoded)) + length encoded + TagSize (le_tag entry) + UvarintSize 1) in
      if additional > MaxPayload limits - payloadSize then Inl encoding_ErrFrameLimit
      else set_size limits rest (payloadSize + additional))"

definition append_set_item :: "byte list \<times> setEntry \<Rightarrow> byte list \<Rightarrow> byte list" where
  "append_set_item x output =
     (let (encoded, entry) = x;
          output = AppendUvarint output (of_nat (length encoded));
          output = output @ encoded;
          output = AppendTag output (le_tag entry)
      in if le_present entry then AppendUvarint output 1 else AppendUvarint output 0)"

definition marshalSetWithCodec :: "u64 \<Rightarrow> 'e::linorder boundElementCodec \<Rightarrow> ('e, unit) entries \<Rightarrow> DecoderLimits \<Rightarrow> byte list res" where
  "marshalSetWithCodec typeID codec entries limits =
     (if typeID \<noteq> TypeIDLWWSetState \<and> typeID \<noteq> TypeIDLWWSetDelta then Inl encoding_ErrInvalidFrame
      else (case validateSetEntries entries of
          Inl err \<Rightarrow> Inl err
        | Inr _ \<Rightarrow>
            if int (fm_size entries) > MaxElements limits \<or> int (fm_size entries) > MaxTags limits then Inl encoding_ErrFrameLimit
            else (case set_items codec limits (fm_items entries) [] of
                Inl err \<Rightarrow> Inl err
              | Inr items \<Rightarrow>
                  (let items = sort_key fst items in
                   if \<not> distinct_adj (map fst items) then Inl (fmt_Errorf ''codec produced duplicate element bytes'' [lww_ErrInvalidCodec])
                   else (case set_size limits items (int (UvarintSize (of_nat (length items)))) of
                       Inl err \<Rightarrow> Inl err
                     | Inr payloadSize \<Rightarrow>
                         (let output = fold append_set_item items (AppendUvarint [] (of_nat (length items))) in
                          MarshalFrameWithPayload typeID (bec_id codec) payloadSize
                            (Some (if int (length output) \<noteq> payloadSize then Inl encoding_ErrInvalidFrame else Inr output))))))))"

definition marshalSet :: "u64 \<Rightarrow> 'e::linorder ElementCodec option \<Rightarrow> ('e, unit) entries \<Rightarrow> DecoderLimits \<Rightarrow> byte list res" where
  "marshalSet typeID codec entries limits = (case lww_bindElementCodec codec of
      Inl err \<Rightarrow> Inl err | Inr bound \<Rightarrow> marshalSetWithCodec typeID bound entries limits)"

definition Set_MarshalBinary :: "'e::linorder lwwSet option \<Rightarrow> 'e ElementCodec option \<Rightarrow> byte list res" where
  "Set_MarshalBinary s codec = (case s of
      None \<Rightarrow> Inl lww_ErrNilSet | Some s \<Rightarrow> marshalSet TypeIDLWWSetState codec (cloneSetEntries (lc_entries s)) DefaultLimits)"

definition Set_MarshalBinaryWithClockState :: "'e::linorder lwwSet option \<Rightarrow> 'e ElementCodec option \<Rightarrow> (byte list \<times> clock_State) res" where
  "Set_MarshalBinaryWithClockState s codec = (case s of
      None \<Rightarrow> Inl lww_ErrNilSet
    | Some s \<Rightarrow>
        if lc_clock s = None then Inl lww_ErrNilSet
        else (case marshalSet TypeIDLWWSetState codec (cloneSetEntries (lc_entries s)) DefaultLimits of
            Inl err \<Rightarrow> Inl err | Inr encoded \<Rightarrow> Inr (encoded, HLC_Snapshot (lc_clock s))))"

definition SetDelta_MarshalBinary :: "'e::linorder SetDelta \<Rightarrow> 'e ElementCodec option \<Rightarrow> byte list res" where
  "SetDelta_MarshalBinary d codec = marshalSet TypeIDLWWSetDelta codec (sd_entries d) DefaultLimits"

text \<open>The loop of the decoder; \<open>previous\<close> is \<open>None\<close> at index 0.\<close>

fun set_loop :: "'e boundElementCodec \<Rightarrow> byte list \<Rightarrow> int \<Rightarrow> nat \<Rightarrow> byte list option \<Rightarrow> nat \<Rightarrow> ('e, unit) entries \<Rightarrow> (('e, unit) entries \<times> nat) res" where
  "set_loop codec payload maxStringBytes 0 previous pos entries = Inr (entries, pos)"
| "set_loop codec payload maxStringBytes (Suc n) previous pos entries = (case ReadBytes payload pos maxStringBytes of
      None \<Rightarrow> Inl encoding_ErrInvalidFrame
    | Some (encoded, pos) \<Rightarrow>
        if (case previous of None \<Rightarrow> False | Some p \<Rightarrow> p \<ge> encoded) then Inl encoding_ErrInvalidFrame
        else (case bec_unmarshal codec encoded of
            Inl err \<Rightarrow> Inl (fmt_Errorf ''unmarshal element'' [lww_ErrInvalidCodec])
          | Inr value \<Rightarrow>
              if bec_marshal codec value \<noteq> Inr encoded then Inl lww_ErrInvalidCodec
              else if value |\<in>| fmdom entries then Inl encoding_ErrInvalidFrame
              else (case ReadTag payload pos maxStringBytes of
                  None \<Rightarrow> Inl encoding_ErrInvalidFrame
                | Some (tag, pos) \<Rightarrow> (case ReadUvarint payload pos of
                      None \<Rightarrow> Inl encoding_ErrInvalidFrame
                    | Some (present, pos) \<Rightarrow>
                        if present > 1 then Inl encoding_ErrInvalidFrame
                        else set_loop codec payload maxStringBytes n (Some encoded) pos
                               (fmupd value \<lparr>le_tag = tag, le_present = (present = 1), le_value = ()\<rparr> entries)))))"

definition unmarshalSetWithCodec :: "inflater \<Rightarrow> byte list \<Rightarrow> u64 \<Rightarrow> 'e::linorder boundElementCodec \<Rightarrow> DecoderLimits \<Rightarrow> ('e, unit) entries res" where
  "unmarshalSetWithCodec flate data expectedTypeID codec limits = (case UnmarshalFrame flate data limits of
      Inl err \<Rightarrow> Inl err
    | Inr decoded \<Rightarrow>
        if TypeID decoded \<noteq> expectedTypeID \<or> CodecID decoded \<noteq> bec_id codec then Inl lww_ErrCodecMismatch
        else (case ReadUvarint (Payload decoded) 0 of
            None \<Rightarrow> Inl encoding_ErrInvalidFrame
          | Some (cnt, pos) \<Rightarrow>
              if uint cnt > MaxElements limits \<or> uint cnt > MaxTags limits then Inl encoding_ErrInvalidFrame
              else (case set_loop codec (Payload decoded) (MaxStringBytes limits) (unat cnt) None pos fmempty of
                  Inl err \<Rightarrow> Inl err
                | Inr (entries, pos) \<Rightarrow>
                    if pos \<noteq> length (Payload decoded) then Inl encoding_ErrInvalidFrame
                    else if isl (validateSetEntries entries) then Inl encoding_ErrInvalidFrame
                    else Inr entries)))"

definition unmarshalSet :: "inflater \<Rightarrow> byte list \<Rightarrow> u64 \<Rightarrow> 'e::linorder ElementCodec option \<Rightarrow> DecoderLimits \<Rightarrow> ('e, unit) entries res" where
  "unmarshalSet flate data expectedTypeID codec limits = (case lww_bindElementCodec codec of
      Inl err \<Rightarrow> Inl err | Inr bound \<Rightarrow> unmarshalSetWithCodec flate data expectedTypeID bound limits)"

definition UnmarshalSetDeltaWithLimits :: "inflater \<Rightarrow> byte list \<Rightarrow> 'e::linorder ElementCodec option \<Rightarrow> DecoderLimits \<Rightarrow> 'e SetDelta res" where
  "UnmarshalSetDeltaWithLimits flate data codec limits = (case unmarshalSet flate data TypeIDLWWSetDelta codec limits of
      Inl err \<Rightarrow> Inl err | Inr entries \<Rightarrow> Inr \<lparr>sd_entries = entries\<rparr>)"

definition UnmarshalSetDelta :: "inflater \<Rightarrow> byte list \<Rightarrow> 'e::linorder ElementCodec option \<Rightarrow> 'e SetDelta res" where
  "UnmarshalSetDelta flate data codec = UnmarshalSetDeltaWithLimits flate data codec DefaultLimits"

definition Set_UnmarshalBinaryWithLimits ::
    "inflater \<Rightarrow> 'e::linorder lwwSet option \<Rightarrow> byte list \<Rightarrow> 'e ElementCodec option \<Rightarrow> DecoderLimits \<Rightarrow> int option \<Rightarrow> 'e lwwSet option \<times> unit res" where
  "Set_UnmarshalBinaryWithLimits flate s data codec limits now = (case s of
      None \<Rightarrow> (None, Inl lww_ErrNilSet)
    | Some s \<Rightarrow>
        if lc_clock s = None then (Some s, Inl lww_ErrNilSet)
        else (case unmarshalSet flate data TypeIDLWWSetState codec limits of
            Inl err \<Rightarrow> (Some s, Inl err)
          | Inr entries \<Rightarrow>
              if int (fm_size entries) > so_MaxEntries (lset_options s) then (Some s, Inl lww_ErrResourceLimit)
              else (case setTagIndex entries of
                  Inl err \<Rightarrow> (Some s, Inl err)
                | Inr tags \<Rightarrow> apfst Some (replace_locked entries tags now s))))"

definition Set_UnmarshalBinary :: "inflater \<Rightarrow> 'e::linorder lwwSet option \<Rightarrow> byte list \<Rightarrow> 'e ElementCodec option \<Rightarrow> int option \<Rightarrow> 'e lwwSet option \<times> unit res" where
  "Set_UnmarshalBinary flate s data codec now = Set_UnmarshalBinaryWithLimits flate s data codec DefaultLimits now"

definition Set_Snapshot :: "inflater \<Rightarrow> 'e::linorder lwwSet option \<Rightarrow> 'e ElementCodec option \<Rightarrow> frontier \<Rightarrow> Snapshot res" where
  "Set_Snapshot flate s codec frontier = (case Set_MarshalBinaryWithClockState s codec of
      Inl err \<Rightarrow> Inl err | Inr (state, clockState) \<Rightarrow> NewWithClockState flate state frontier clockState)"

definition Set_SnapshotCurrentState :: "inflater \<Rightarrow> 'e::linorder lwwSet option \<Rightarrow> 'e ElementCodec option \<Rightarrow> Snapshot res" where
  "Set_SnapshotCurrentState flate s codec = (case s of
      None \<Rightarrow> Inl lww_ErrNilSet
    | Some s \<Rightarrow>
        if lc_clock s = None then Inl lww_ErrNilSet
        else
          (let entries = cloneSetEntries (lc_entries s) in
           case marshalSet TypeIDLWWSetState codec entries DefaultLimits of
             Inl err \<Rightarrow> Inl err
           | Inr state \<Rightarrow> NewWithClockState flate state (entries_frontier entries) (HLC_Snapshot (lc_clock s))))"

definition greatestSetFrontierTag :: "frontier \<Rightarrow> tag option" where
  "greatestSetFrontierTag frontier = fold (\<lambda>(replica, tag). note_greatest tag) (fm_items frontier) None"

definition NewSetFromSnapshotWithOptions ::
    "inflater \<Rightarrow> Snapshot \<Rightarrow> 'e::linorder ElementCodec option \<Rightarrow> SetOptions \<Rightarrow> int option \<Rightarrow> int option \<Rightarrow> 'e lwwSet res" where
  "NewSetFromSnapshotWithOptions flate saved codec options now now' =
     (if ss_TypeID saved \<noteq> TypeIDLWWSetState then Inl lww_ErrInvalidSetSnap
      else if \<not> SetOptions_valid options then Inl lww_ErrResourceLimit
      else (case Snapshot_ClockState saved of
          None \<Rightarrow> Inl lww_ErrInvalidSetSnap
        | Some clockState \<Rightarrow> (case NewSetFromClockWithOptions clockState options of
              Inl err \<Rightarrow> Inl err
            | Inr restored \<Rightarrow> (case Set_UnmarshalBinary flate (Some restored) (Snapshot_Bytes saved) codec now of
                  (_, Inl err) \<Rightarrow> Inl err
                | (None, Inr _) \<Rightarrow> Inl lww_ErrNilSet
                | (Some restored, Inr _) \<Rightarrow> (case greatestSetFrontierTag (Snapshot_Frontier saved) of
                      None \<Rightarrow> Inr restored
                    | Some tag \<Rightarrow> (case HLC_Witness (lc_clock restored) tag now' of
                          (_, Inl err) \<Rightarrow> Inl err
                        | (clock, Inr _) \<Rightarrow> Inr (restored\<lparr>lc_clock := clock\<rparr>)))))))"

definition NewSetFromSnapshot :: "inflater \<Rightarrow> Snapshot \<Rightarrow> 'e::linorder ElementCodec option \<Rightarrow> int option \<Rightarrow> int option \<Rightarrow> 'e lwwSet res" where
  "NewSetFromSnapshot flate saved codec now now' = NewSetFromSnapshotWithOptions flate saved codec DefaultSetOptions now now'"

section \<open>The invariant\<close>

abbreviation set_ok :: "'e \<Rightarrow> setEntry \<Rightarrow> bool" where
  "set_ok \<equiv> (\<lambda>_ _. True)"

definition ls_inv :: "'e lwwSet \<Rightarrow> bool" where
  "ls_inv s \<longleftrightarrow> SetOptions_valid (lset_options s) \<and> coll_inv set_ok (so_MaxEntries (lset_options s)) s"

lemma cloneSetEntries_id [simp]: "cloneSetEntries m = m"
  by (simp add: cloneSetEntries_def fold_fmupd_of_list del: map_fst_fm_items add: distinct_fst_items)

lemma same_coll_set: "same_coll s s' \<longleftrightarrow> lc_replicaID s' = lc_replicaID s \<and> lset_options s' = lset_options s" for s s' :: "'e lwwSet"
  by (cases s; cases s') (auto simp: same_coll_def)

lemma validateSetEntries_iff: "validateSetEntries E = Inr () \<longleftrightarrow> valid_entries set_ok E"
  unfolding validateSetEntries_def validate_entries_iff valid_entries_def by auto

lemma ls_clock: "ls_inv s \<Longrightarrow> lc_clock s \<noteq> None"
  by (auto simp: ls_inv_def coll_inv_def)

lemma set_apply_cases:
  assumes "ls_inv s"
  obtains (invalid) e where "applyOwnedSetEntries s E now = (Some s, Inl e)" "\<not> valid_entries set_ok E"
  | (conflict) "applyOwnedSetEntries s E now = (Some s, Inl lww_ErrTagConflict)" "clash (lc_entries s) E"
  | (limit) "applyOwnedSetEntries s E now = (Some s, Inl lww_ErrResourceLimit)"
      "so_MaxEntries (lset_options s) < int (fm_size (entries_join (lc_entries s) E))" "\<not> clash (lc_entries s) E"
  | (clock) "applyOwnedSetEntries s E now = (Some s, Inl clock_ErrClockExhausted)" "\<not> clash (lc_entries s) E"
  | (ok) s' where "applyOwnedSetEntries s E now = (Some s', Inr ())" "ls_inv s'" "lc_replicaID s' = lc_replicaID s" "lset_options s' = lset_options s"
      "lc_entries s' = entries_join (lc_entries s) E" "valid_entries set_ok E" "\<not> clash (lc_entries s) E"
proof (cases "valid_entries set_ok E")
  case False
  then obtain e where "applyOwnedSetEntries s E now = (Some s, Inl e)"
    using validateSetEntries_iff[of E] by (cases "validateSetEntries E") (auto simp: applyOwnedSetEntries_def)
  with that(1) False show thesis by blast
next
  case True
  then have run: "applyOwnedSetEntries s E now = apfst Some (join_locked (so_MaxEntries (lset_options s)) E now s)"
    using validateSetEntries_iff[of E] by (simp add: applyOwnedSetEntries_def)
  have inv: "coll_inv set_ok (so_MaxEntries (lset_options s)) s" "SetOptions_valid (lset_options s)" using assms by (auto simp: ls_inv_def)
  from inv(1) True show thesis
  proof (cases rule: join_cases[where now = now])
    case conflict
    with run that(2) show thesis by simp
  next
    case limit
    with run that(3) show thesis by simp
  next
    case clock
    with run that(4) show thesis by simp
  next
    case (ok c')
    with run True inv(2) show thesis by (intro that(5)[of c']) (simp_all add: ls_inv_def same_coll_set)
  qed
qed

lemma set_write_cases:
  assumes "ls_inv s"
  obtains (limit) "Set_writeDelta (Some s) x present now = (Some s, Inl lww_ErrResourceLimit)"
      "x |\<notin>| fmdom (lc_entries s)" "int (fm_size (lc_entries s)) = so_MaxEntries (lset_options s)"
  | (clock) "Set_writeDelta (Some s) x present now = (Some s, Inl clock_ErrClockExhausted)"
  | (ok) s' t where "Set_writeDelta (Some s) x present now = (Some s', Inr \<lparr>sd_entries = fmupd x \<lparr>le_tag = t, le_present = present, le_value = ()\<rparr> fmempty\<rparr>)"
      "ls_inv s'" "lc_replicaID s' = lc_replicaID s" "lset_options s' = lset_options s"
      "lc_entries s' = fmupd x \<lparr>le_tag = t, le_present = present, le_value = ()\<rparr> (lc_entries s)"
      "Tag_Valid t" "ReplicaID t = lc_replicaID s" "hlc_stamp (the (lc_clock s)) < tag_stamp t" "\<And>k e. fmlookup (lc_entries s) k = Some e \<Longrightarrow> le_tag e < t"
proof -
  note clk = ls_clock[OF assms]
  have inv: "coll_inv set_ok (so_MaxEntries (lset_options s)) s" "SetOptions_valid (lset_options s)" using assms by (auto simp: ls_inv_def)
  let ?mk = "\<lambda>tag. \<lparr>le_tag = tag, le_present = present, le_value = ()\<rparr>"
  have "\<forall>t. le_tag (?mk t) = t \<and> set_ok x (?mk t)" by simp
  from inv(1) this show thesis
  proof (cases rule: write_cases[where now = now and mk = ?mk and key = x])
    case limit
    with that(1) clk show thesis by (simp add: Set_writeDelta_def)
  next
    case clock
    with that(2) clk show thesis by (simp add: Set_writeDelta_def)
  next
    case w: (ok c' t)
    with clk inv(2) show thesis by (intro that(3)[of c' t]) (simp_all add: Set_writeDelta_def ls_inv_def same_coll_set)
  qed
qed

section \<open>The wire format\<close>

definition bit_enc :: "bool \<Rightarrow> byte list" where
  "bit_enc b = uvarint (if b then 1 else 0)"

definition set_item_enc :: "'e boundElementCodec \<Rightarrow> 'e \<times> setEntry \<Rightarrow> byte list" where
  "set_item_enc codec x = elem_enc codec (fst x) @ tag_enc (le_tag (snd x)) @ bit_enc (le_present (snd x))"

definition set_item_ok :: "'e boundElementCodec \<Rightarrow> int \<Rightarrow> 'e \<times> setEntry \<Rightarrow> bool" where
  "set_item_ok codec m x \<longleftrightarrow> elem_ok codec m (fst x) \<and> tag_ok m (le_tag (snd x))"

definition read_set_item :: "'e boundElementCodec \<Rightarrow> int \<Rightarrow> byte list \<Rightarrow> nat \<Rightarrow> (('e \<times> setEntry) \<times> nat) option" where
  "read_set_item codec m data p = (case read_elem codec m data p of
      None \<Rightarrow> None
    | Some (e, p) \<Rightarrow> (case ReadTag data p m of
          None \<Rightarrow> None
        | Some (tag, p) \<Rightarrow> (case ReadUvarint data p of
              None \<Rightarrow> None
            | Some (present, p) \<Rightarrow> if present > 1 then None else Some ((e, \<lparr>le_tag = tag, le_present = (present = 1), le_value = ()\<rparr>), p))))"

lemma read_set_item_iff:
  "read_set_item codec m data p = Some (x, q) \<longleftrightarrow> set_item_ok codec m x \<and> at_pos data p (set_item_enc codec x) \<and> q = p + length (set_item_enc codec x)"
proof -
  obtain e t b where x: "x = (e, \<lparr>le_tag = t, le_present = b, le_value = ()\<rparr>)" by (metis (full_types) lwwEntry.cases old.unit.exhaust surj_pair)
  have "read_set_item codec m data p = Some (x, q) \<longleftrightarrow> (\<exists>p1 p2. read_elem codec m data p = Some (e, p1) \<and> ReadTag data p1 m = Some (t, p2) \<and>
      ReadUvarint data p2 = Some (if b then 1 else 0, q))"
    by (cases b) (auto simp: read_set_item_def x present_bit split: option.splits if_splits)
  also have "\<dots> \<longleftrightarrow> set_item_ok codec m x \<and> at_pos data p (set_item_enc codec x) \<and> q = p + length (set_item_enc codec x)"
    by (auto simp: read_elem_iff ReadTag_iff ReadUvarint_iff x set_item_ok_def set_item_enc_def bit_enc_def at_pos_append add.assoc)
  finally show ?thesis .
qed

interpretation set_item_field: wire_field "set_item_enc codec" "set_item_ok codec m" "read_set_item codec m" for codec m
  by unfold_locales (rule read_set_item_iff)

lemma set_loop_eq:
  "(\<forall>e. e |\<in>| fmdom E \<longrightarrow> elem_stable codec e \<and> (\<exists>p. prev = Some p \<and> elem_bytes codec e \<le> p)) \<Longrightarrow>
   set_loop codec payload m n prev pos E = Inr (E', q) \<longleftrightarrow>
     (\<exists>xs. set_item_field.read_ascending codec m (\<lambda>x. elem_bytes codec (fst x)) payload n prev pos = Some (xs, q) \<and> E' = fold (\<lambda>(k, v). fmupd k v) xs E)"
proof (induction n arbitrary: prev pos E)
  case (Suc n)
  show ?case
  proof (cases "read_set_item codec m payload pos")
    case None
    then have "\<forall>z. set_loop codec payload m (Suc n) prev pos E \<noteq> Inr z"
      by (auto simp: read_set_item_def read_elem_def split: option.splits sum.splits if_splits)
    with None show ?thesis by simp
  next
    case (Some r)
    obtain e en nxt where r: "r = ((e, en), nxt)" by (metis surj_pair)
    obtain p1 p2 w where st: "read_elem codec m payload pos = Some (e, p1)" "ReadTag payload p1 m = Some (le_tag en, p2)" "ReadUvarint payload p2 = Some (w, nxt)"
      "\<not> w > 1" "en = \<lparr>le_tag = le_tag en, le_present = (w = 1), le_value = ()\<rparr>"
      using Some r by (auto simp: read_set_item_def split: option.splits if_splits)
    have e: "ReadBytes payload pos m = Some (elem_bytes codec e, p1)" "elem_stable codec e"
      using st(1) read_elem_iff[of codec m payload pos e p1] by (auto simp: ReadBytes_iff elem_ok_def elem_enc_def)
    then have rt: "bec_unmarshal codec (elem_bytes codec e) = Inr e" "bec_marshal codec e = Inr (elem_bytes codec e)" by (simp_all add: elem_stable_iff)
    show ?thesis
    proof (cases "case prev of None \<Rightarrow> False | Some p \<Rightarrow> \<not> p < elem_bytes codec e")
      case True
      with Some r e show ?thesis by (auto simp: not_less split: option.splits)
    next
      case False
      have new: "e |\<notin>| fmdom E"
      proof
        assume "e |\<in>| fmdom E"
        then obtain p where "prev = Some p" "elem_bytes codec e \<le> p" using Suc.prems by blast
        with False show False by simp
      qed
      have ub: "\<forall>x. x |\<in>| fmdom (fmupd e en E) \<longrightarrow> elem_stable codec x \<and> (\<exists>p. Some (elem_bytes codec e) = Some p \<and> elem_bytes codec x \<le> p)"
        using Suc.prems False e(2) by (auto split: option.splits)
      have step: "set_loop codec payload m (Suc n) prev pos E = set_loop codec payload m n (Some (elem_bytes codec e)) nxt (fmupd e en E)"
        using e rt new st False by (auto simp: not_less split: option.splits)
      have asc: "set_item_field.read_ascending codec m (\<lambda>x. elem_bytes codec (fst x)) payload (Suc n) prev pos = Some (xs, q) \<longleftrightarrow>
          (\<exists>ys. set_item_field.read_ascending codec m (\<lambda>x. elem_bytes codec (fst x)) payload n (Some (elem_bytes codec e)) nxt = Some (ys, q) \<and> xs = (e, en) # ys)" for xs
        using Some r False by (auto split: option.splits)
      show ?thesis unfolding step Suc.IH[OF ub, of nxt] asc by auto
    qed
  qed
qed auto

definition set_enc :: "'e::linorder boundElementCodec \<Rightarrow> ('e, unit) entries \<Rightarrow> byte list" where
  "set_enc codec E = set_item_field.counted_enc codec (fm_items_by (elem_bytes codec) E)"

definition set_wire_ok :: "'e::linorder boundElementCodec \<Rightarrow> DecoderLimits \<Rightarrow> ('e, unit) entries \<Rightarrow> bool" where
  "set_wire_ok codec limits E \<longleftrightarrow> int (fm_size E) \<le> MaxElements limits \<and> int (fm_size E) \<le> MaxTags limits \<and> fm_size E < 2 ^ 64 \<and> distinct_tags E \<and>
     (\<forall>k e. fmlookup E k = Some e \<longrightarrow> set_item_ok codec (MaxStringBytes limits) (k, e))"

lemma set_wire_valid: "set_wire_ok codec limits E \<Longrightarrow> valid_entries set_ok E"
  by (auto simp: set_wire_ok_def valid_entries_def set_item_ok_def tag_ok_def)

lemma unmarshalSet_iff:
  "unmarshalSetWithCodec flate data t codec limits = Inr E \<longleftrightarrow>
     (\<exists>f. UnmarshalFrame flate data limits = Inr f \<and> TypeID f = t \<and> CodecID f = bec_id codec \<and> Payload f = set_enc codec E \<and> set_wire_ok codec limits E)"
proof (cases "UnmarshalFrame flate data limits")
  case (Inl e)
  then show ?thesis by (simp add: unmarshalSetWithCodec_def)
next
  case (Inr f)
  let ?p = "Payload f" and ?ms = "MaxStringBytes limits" and ?me = "min (MaxElements limits) (MaxTags limits)" and ?key = "\<lambda>x. elem_bytes codec (fst x)"
  let ?asc = "set_item_field.read_ascending codec ?ms ?key ?p"
  have "unmarshalSetWithCodec flate data t codec limits = Inr E \<longleftrightarrow> TypeID f = t \<and> CodecID f = bec_id codec \<and> valid_entries set_ok E \<and>
      (\<exists>cnt. at_pos ?p 0 (uvarint cnt) \<and> uint cnt \<le> ?me \<and> set_loop codec ?p ?ms (unat cnt) None (0 + length (uvarint cnt)) fmempty = Inr (E, length ?p))"
    by (simp add: unmarshalSetWithCodec_def Inr if_Inl_Inr uvarint_field.case_read case_sum_pair not_less isl_unit validateSetEntries_iff) blast
  also have "\<dots> \<longleftrightarrow> TypeID f = t \<and> CodecID f = bec_id codec \<and> valid_entries set_ok E \<and> (\<exists>xs. E = fold (\<lambda>(k, v). fmupd k v) xs fmempty \<and>
      (\<exists>cnt. at_pos ?p 0 (uvarint cnt) \<and> uint cnt \<le> ?me \<and> ?asc (unat cnt) None (0 + length (uvarint cnt)) = Some (xs, length ?p)))"
    by (subst set_loop_eq) auto
  also have "\<dots> \<longleftrightarrow> TypeID f = t \<and> CodecID f = bec_id codec \<and> valid_entries set_ok E \<and> (\<exists>xs. E = fold (\<lambda>(k, v). fmupd k v) xs fmempty \<and>
      (\<forall>x \<in> set xs. set_item_ok codec ?ms x) \<and> sorted_wrt (<) (map ?key xs) \<and> int (length xs) \<le> ?me \<and> length xs < 2 ^ 64 \<and> ?p = set_item_field.counted_enc codec xs)"
    unfolding set_item_field.read_counted using at_pos_0_whole[of ?p] by (metis add_0)
  also have "\<dots> \<longleftrightarrow> TypeID f = t \<and> CodecID f = bec_id codec \<and> valid_entries set_ok E \<and> (\<exists>xs. E = fmap_of_list xs \<and>
      (\<forall>x \<in> set xs. set_item_ok codec ?ms x) \<and> sorted_wrt (<) (map ?key xs) \<and> int (length xs) \<le> ?me \<and> length xs < 2 ^ 64 \<and> ?p = set_item_field.counted_enc codec xs)"
  proof -
    have "fold (\<lambda>(k, v). fmupd k v) xs fmempty = fmap_of_list xs" if "sorted_wrt (<) (map ?key xs)" for xs :: "('a \<times> setEntry) list"
    proof (rule fold_fmupd_of_list)
      have "sorted_wrt (<) (map (elem_bytes codec) (map fst xs))" using that by (simp add: comp_def)
      then show "distinct (map fst xs)" by (metis distinct_map strict_sorted_iff)
    qed
    then show ?thesis by metis
  qed
  also have "\<dots> \<longleftrightarrow> TypeID f = t \<and> CodecID f = bec_id codec \<and> valid_entries set_ok E \<and> (\<forall>k e. fmlookup E k = Some e \<longrightarrow> set_item_ok codec ?ms (k, e)) \<and>
      int (fm_size E) \<le> ?me \<and> fm_size E < 2 ^ 64 \<and> ?p = set_enc codec E"
  proof -
    have "inj_on (elem_bytes codec) (fset (fmdom E))" if "\<forall>k e. fmlookup E k = Some e \<longrightarrow> set_item_ok codec ?ms (k, e)"
    proof (rule inj_onI)
      fix x y assume "x |\<in>| fmdom E" "y |\<in>| fmdom E" "elem_bytes codec x = elem_bytes codec y"
      then show "x = y" using that by (auto simp: fmlookup_dom_iff set_item_ok_def elem_ok_def intro: elem_bytes_inject)
    qed
    from ex_sorted_items[OF this] show ?thesis by (simp add: set_enc_def)
  qed
  also have "\<dots> \<longleftrightarrow> TypeID f = t \<and> CodecID f = bec_id codec \<and> ?p = set_enc codec E \<and> set_wire_ok codec limits E"
    using set_wire_valid[of codec limits E] by (auto simp: set_wire_ok_def valid_entries_def)
  finally show ?thesis using Inr by auto
qed

abbreviation item_of :: "'e boundElementCodec \<Rightarrow> 'e \<times> setEntry \<Rightarrow> byte list \<times> setEntry" where
  "item_of codec x \<equiv> (elem_bytes codec (fst x), snd x)"

definition item_bytes :: "byte list \<times> setEntry \<Rightarrow> byte list" where
  "item_bytes x = bytes_enc (fst x) @ tag_enc (le_tag (snd x)) @ bit_enc (le_present (snd x))"

lemma item_bytes_of: "item_bytes (item_of codec x) = set_item_enc codec x"
  by (simp add: item_bytes_def set_item_enc_def elem_enc_def)

lemma set_items_iff:
  "set_items codec limits xs acc = Inr items \<longleftrightarrow> items = acc @ map (item_of codec) xs \<and>
     (\<forall>x \<in> set xs. bec_marshal codec (fst x) = Inr (elem_bytes codec (fst x)) \<and> int (length (elem_bytes codec (fst x))) \<le> MaxStringBytes limits \<and>
        int (length (ReplicaID (le_tag (snd x)))) \<le> MaxStringBytes limits)"
proof (induction xs arbitrary: acc)
  case (Cons x xs)
  obtain e en where x: "x = (e, en)" by fastforce
  show ?case using Cons by (cases "bec_marshal codec e") (auto simp: x elem_bytes_def)
qed auto

lemma set_size_iff:
  "set_size limits xs sz = Inr s \<longleftrightarrow> s = sz + int (length (concat (map item_bytes xs))) \<and> (xs = [] \<or> s \<le> MaxPayload limits)"
proof (induction xs arbitrary: sz)
  case (Cons x xs)
  obtain bs en where x: "x = (bs, en)" by fastforce
  have len: "int (UvarintSize (of_nat (length bs)) + length bs + TagSize (le_tag en) + UvarintSize 1) = int (length (item_bytes x))"
    using uvarint_bit by (simp add: item_bytes_def x bytes_enc_def bit_enc_def UvarintSize_def TagSize_eq)
  show ?case unfolding x set_size.simps Let_def len[unfolded x] if_Inl_Inr Cons by auto
qed auto

lemma append_set_items: "fold append_set_item xs out = out @ concat (map item_bytes xs)"
  by (induction xs arbitrary: out)
    (simp_all add: append_set_item_def AppendUvarint_def AppendTag_eq item_bytes_def bytes_enc_def bit_enc_def case_prod_beta)

lemma sorted_items: "sort_key fst (map (item_of codec) (fm_items E)) = map (item_of codec) (fm_items_by (elem_bytes codec) E)"
proof -
  let ?g = "\<lambda>k. (elem_bytes codec k, the (fmlookup E k))"
  have "map (item_of codec) (fm_items_by (elem_bytes codec) E) = map ?g (sort_key (elem_bytes codec) (fm_keys E))"
    by (simp add: fm_items_by_def fs_sorted_by_def fm_keys_def comp_def)
  also have "\<dots> = sort_key fst (map ?g (fm_keys E))" by (rule map_sort_key) simp
  also have "map ?g (fm_keys E) = map (item_of codec) (fm_items E)" by (simp add: fm_items_def comp_def)
  finally show ?thesis by simp
qed

lemma marshalSet_iff:
  assumes "\<forall>e. e |\<in>| fmdom E \<longrightarrow> elem_stable codec e"
  shows "marshalSetWithCodec t codec E DefaultLimits = Inr data \<longleftrightarrow> (t = TypeIDLWWSetState \<or> t = TypeIDLWWSetDelta) \<and> set_wire_ok codec DefaultLimits E \<and>
     MarshalFrame (frame_of t (bec_id codec) (set_enc codec E)) = Inr data"
proof -
  let ?D = DefaultLimits
  let ?xs = "fm_items_by (elem_bytes codec) E"
  let ?items = "map (item_of codec) ?xs"
  have enc: "set_enc codec E = uvarint (of_nat (fm_size E)) @ concat (map item_bytes ?items)"
    by (simp add: set_enc_def set_item_field.counted_enc_def item_bytes_of comp_def)
  have out: "fold append_set_item ?items (AppendUvarint [] (of_nat (length ?items))) = set_enc codec E"
    by (simp add: append_set_items AppendUvarint_def enc)
  have F: "MarshalFrameWithPayload t (bec_id codec) (int (length (set_enc codec E))) (Some (if int (length (set_enc codec E)) \<noteq> int (length (set_enc codec E)) then Inl encoding_ErrInvalidFrame
      else Inr (set_enc codec E))) = MarshalFrame (frame_of t (bec_id codec) (set_enc codec E))" by (simp add: MarshalFrameWithPayload_exact)
  have size: "set_size ?D ?items (int (UvarintSize (of_nat (length ?items)))) = Inr s \<longleftrightarrow> s = int (length (set_enc codec E)) \<and> (?items = [] \<or> s \<le> MaxPayload ?D)" for s
    unfolding set_size_iff by (auto simp: enc UvarintSize_def)
  have inj: "inj_on (elem_bytes codec) (fset (fmdom E))" using assms by (auto intro!: inj_onI dest: elem_bytes_inject)
  have "sorted_wrt (<) (map fst ?items)" using fs_sorted_by_strict[OF inj] by (simp add: fm_items_by_def comp_def)
  then have adj: "distinct_adj (map fst ?items)" by (simp add: strict_sorted_iff sorted_distinct_adj)
  have items: "set_items codec ?D (fm_items E) [] = Inr items \<longleftrightarrow> items = map (item_of codec) (fm_items E) \<and>
      (\<forall>k e. fmlookup E k = Some e \<longrightarrow> int (length (elem_bytes codec k)) \<le> MaxStringBytes ?D \<and> int (length (ReplicaID (le_tag e))) \<le> MaxStringBytes ?D)" for items
    unfolding set_items_iff using assms by (auto simp: set_fm_items elem_stable_iff fmlookup_dom_iff)
  have bytes: "bytes_ok (MaxStringBytes ?D) bs \<longleftrightarrow> int (length bs) \<le> MaxStringBytes ?D" for bs by (auto simp: bytes_ok_def DefaultLimits_def)
  have wire: "set_wire_ok codec ?D E \<longleftrightarrow> valid_entries set_ok E \<and> int (fm_size E) \<le> MaxElements ?D \<and> int (fm_size E) \<le> MaxTags ?D \<and>
      (\<forall>k e. fmlookup E k = Some e \<longrightarrow> int (length (elem_bytes codec k)) \<le> MaxStringBytes ?D \<and> int (length (ReplicaID (le_tag e))) \<le> MaxStringBytes ?D)" (is "?l \<longleftrightarrow> ?r")
  proof
    assume ?l
    then show ?r by (auto simp: set_wire_ok_def valid_entries_def set_item_ok_def elem_ok_def tag_ok_def bytes)
  next
    assume ?r
    moreover from this have "fm_size E < 2 ^ 64" by (simp add: DefaultLimits_def)
    ultimately show ?l using assms by (auto simp: set_wire_ok_def valid_entries_def set_item_ok_def elem_ok_def tag_ok_def bytes fmlookup_dom_iff)
  qed
  have pay: "MarshalFrame (frame_of t (bec_id codec) (set_enc codec E)) = Inr data \<Longrightarrow> int (length (set_enc codec E)) \<le> MaxPayload ?D" by (simp add: MarshalFrame_iff)
  have "marshalSetWithCodec t codec E ?D = Inr data \<longleftrightarrow> (t = TypeIDLWWSetState \<or> t = TypeIDLWWSetDelta) \<and> valid_entries set_ok E \<and>
      int (fm_size E) \<le> MaxElements ?D \<and> int (fm_size E) \<le> MaxTags ?D \<and>
      (\<forall>k e. fmlookup E k = Some e \<longrightarrow> int (length (elem_bytes codec k)) \<le> MaxStringBytes ?D \<and> int (length (ReplicaID (le_tag e))) \<le> MaxStringBytes ?D) \<and>
      (?items = [] \<or> int (length (set_enc codec E)) \<le> MaxPayload ?D) \<and> MarshalFrame (frame_of t (bec_id codec) (set_enc codec E)) = Inr data"
    unfolding marshalSetWithCodec_def if_Inl_Inr case_unit_Inr case_sum_Inr[OF items] Let_def ex_simps simp_thms conj_assoc
    unfolding sorted_items out
    unfolding case_sum_Inr[OF size] ex_simps simp_thms conj_assoc validateSetEntries_iff
    using adj by (simp add: not_less de_Morgan_disj MarshalFrameWithPayload_exact)
  with wire pay show ?thesis by blast
qed

section \<open>Decoding, restoring and compacting\<close>

lemma set_unmarshal_cases:
  assumes "ls_inv s"
  obtains (error) e where "Set_UnmarshalBinaryWithLimits flate (Some s) data codec limits now = (Some s, Inl e)"
      "e = clock_ErrClockExhausted \<or> unmarshalSet flate data TypeIDLWWSetState codec limits = Inl e \<or>
       (\<exists>E. unmarshalSet flate data TypeIDLWWSetState codec limits = Inr E \<and> int (fm_size E) > so_MaxEntries (lset_options s))"
  | (ok) s' E where "Set_UnmarshalBinaryWithLimits flate (Some s) data codec limits now = (Some s', Inr ())" "ls_inv s'"
      "lc_replicaID s' = lc_replicaID s" "lset_options s' = lset_options s" "lc_entries s' = E"
      "unmarshalSet flate data TypeIDLWWSetState codec limits = Inr E" "hlc_stamp (the (lc_clock s)) \<le> hlc_stamp (the (lc_clock s'))"
proof (cases "unmarshalSet flate data TypeIDLWWSetState codec limits")
  case (Inl e)
  with that(1)[of e] ls_clock[OF assms] show thesis by (simp add: Set_UnmarshalBinaryWithLimits_def)
next
  case (Inr E)
  show thesis
  proof (cases "int (fm_size E) > so_MaxEntries (lset_options s)")
    case True
    with Inr that(1)[of lww_ErrResourceLimit] ls_clock[OF assms] show thesis by (auto simp: Set_UnmarshalBinaryWithLimits_def)
  next
    case False
    have E: "valid_entries set_ok E" using Inr set_wire_valid by (auto simp: unmarshalSet_def unmarshalSet_iff split: sum.splits)
    have size: "int (fm_size E) \<le> so_MaxEntries (lset_options s)" using False by simp
    have inv: "coll_inv set_ok (so_MaxEntries (lset_options s)) s" "SetOptions_valid (lset_options s)" using assms by (auto simp: ls_inv_def)
    have run: "Set_UnmarshalBinaryWithLimits flate (Some s) data codec limits now = apfst Some (replace_locked E (tag_index E) now s)"
      using Inr E size ls_clock[OF assms] validateSetEntries_iff[of E] by (auto simp: Set_UnmarshalBinaryWithLimits_def setTagIndex_def)
    from inv(1) E size show thesis
    proof (cases rule: replace_cases[where now = now])
      case clock
      with run that(1) show thesis by simp
    next
      case (ok c')
      with run Inr inv(2) show thesis by (intro that(2)[of c' E]) (simp_all add: ls_inv_def same_coll_set)
    qed
  qed
qed

lemma set_marshal_iff:
  assumes "lww_bindElementCodec codec = Inr bound" and "\<forall>e. e |\<in>| fmdom (lc_entries s) \<longrightarrow> elem_stable bound e"
  shows "Set_MarshalBinary (Some s) codec = Inr data \<longleftrightarrow>
     unmarshalSet flate data TypeIDLWWSetState codec DefaultLimits = Inr (lc_entries s) \<and> PeekFrameFormatVersion data DefaultLimits = Inr FormatVersion"
  unfolding unmarshalSet_def assms(1) sum.case unmarshalSet_iff frame_payload_iff
  by (simp add: Set_MarshalBinary_def marshalSet_def assms(1) marshalSet_iff[OF assms(2)])

definition lwwset_target :: "'e::linorder lwwSet option TombstoneTarget" where
  "lwwset_target = \<lparr>tt_TombstoneTags = Set_TombstoneTags, tt_CompactTombstones = Set_CompactTombstones, tt_CompactEligibleTombstones = None\<rparr>"

lemma set_tombstones_eq: "ls_inv s \<Longrightarrow> Set_TombstoneTags (Some s) = sorted_list_of_fset (dead_tags (lc_entries s))"
  unfolding Set_TombstoneTags_def option.case by (rule tombstone_tags_eq) (auto simp: ls_inv_def dest!: coll_inv_valid simp: valid_entries_def)

interpretation lwwset_tombstones: tombstone_target lwwset_target "\<lambda>r. \<exists>s. r = Some s \<and> ls_inv s" "\<lambda>r. dead_tags (lc_entries (the r))"
  "\<lambda>r. (lc_replicaID (the r), lc_clock (the r), lset_options (the r), live_entries (lc_entries (the r)))"
proof
  fix r :: "'e::linorder lwwSet option" and ts
  assume "\<exists>s. r = Some s \<and> ls_inv s"
  then obtain s where s: "r = Some s" "ls_inv s" by blast
  then have inv: "coll_inv set_ok (so_MaxEntries (lset_options s)) s" "SetOptions_valid (lset_options s)" by (auto simp: ls_inv_def)
  show "tt_TombstoneTags lwwset_target r = sorted_list_of_fset (dead_tags (lc_entries (the r))) \<and> list_all Tag_Valid (tt_TombstoneTags lwwset_target r)"
    using s set_tombstones_eq[OF s(2)] coll_inv_valid[OF inv(1)] by (auto simp: lwwset_target_def list_all_iff dead_tags_iff valid_entries_def)
  assume ts: "set ts \<subseteq> fset (dead_tags (lc_entries (the r)))"
  then have "set ts \<subseteq> fset (dead_tags (lc_entries s))" using s by simp
  from inv(1) this obtain c' where c: "compact_coll ts s = (c', Inr (fcard (fset_of_list ts)))" "coll_inv set_ok (so_MaxEntries (lset_options s)) c'"
    "same_coll s c'" "lc_clock c' = lc_clock s" "dead_tags (lc_entries c') = dead_tags (lc_entries s) |-| fset_of_list ts"
    "live_entries (lc_entries c') = live_entries (lc_entries s)" by (rule compact_dead)
  have "fset_of_list ts |\<subseteq>| dead_tags (lc_entries s)" using ts s by (auto simp: less_eq_fset.rep_eq fset_of_list.rep_eq)
  with c s inv(2) show "\<exists>r' gone. compact_target lwwset_target r ts = (r', Inr (fcard gone)) \<and> (\<exists>s. r' = Some s \<and> ls_inv s) \<and>
      gone |\<subseteq>| fset_of_list ts \<and> gone |\<subseteq>| dead_tags (lc_entries (the r)) \<and> dead_tags (lc_entries (the r')) = dead_tags (lc_entries (the r)) |-| gone \<and>
      (lc_replicaID (the r'), lc_clock (the r'), lset_options (the r'), live_entries (lc_entries (the r'))) =
      (lc_replicaID (the r), lc_clock (the r), lset_options (the r), live_entries (lc_entries (the r)))"
    by (intro exI[of _ "Some c'"] exI[of _ "fset_of_list ts"])
      (auto simp: compact_target_def lwwset_target_def Set_CompactTombstones_def ls_inv_def same_coll_set)
qed

interpretation lwwset_replica: lww_replica ls_inv lc_entries "\<lambda>s. Set_ApplyDelta (Some s)" sd_entries
proof
  fix s d now s' u
  assume s: "ls_inv s" and run: "Set_ApplyDelta (Some s) d now = (s', Inr u)"
  have "applyOwnedSetEntries s (sd_entries d) now = (s', Inr u)" using run ls_clock[OF s] by (simp add: Set_ApplyDelta_def)
  with s show "\<exists>t. s' = Some t \<and> ls_inv t \<and> lc_entries t = entries_join (lc_entries s) (sd_entries d)"
    by (cases rule: set_apply_cases[where E = "sd_entries d" and now = now]) auto
qed

lemma set_saved:
  assumes "Set_SnapshotCurrentState flate (Some s) codec = Inr saved \<or> Set_Snapshot flate (Some s) codec frontier = Inr saved"
  obtains data where "Set_MarshalBinary (Some s) codec = Inr data" "Snapshot_Bytes saved = data" "Snapshot_ClockState saved = Some (HLC_Snapshot (lc_clock s))"
proof -
  have "\<exists>data frontier. Set_MarshalBinary (Some s) codec = Inr data \<and> NewWithClockState flate data frontier (HLC_Snapshot (lc_clock s)) = Inr saved"
    using assms
  proof
    assume "Set_SnapshotCurrentState flate (Some s) codec = Inr saved"
    then show ?thesis by (auto simp: Set_SnapshotCurrentState_def Set_MarshalBinary_def Let_def split: if_splits sum.splits)
  next
    assume "Set_Snapshot flate (Some s) codec frontier = Inr saved"
    then show ?thesis by (auto simp: Set_Snapshot_def Set_MarshalBinaryWithClockState_def Set_MarshalBinary_def split: sum.splits if_splits)
  qed
  then obtain data f where "Set_MarshalBinary (Some s) codec = Inr data" "NewWithClockState flate data f (HLC_Snapshot (lc_clock s)) = Inr saved" by blast
  then show thesis by (intro that[of data]) (auto simp: NewWithClockState_def split: sum.splits if_splits)
qed

lemma set_restored:
  assumes "NewSetFromSnapshotWithOptions flate saved codec options now now' = Inr r"
  obtains c fresh mid where "Snapshot_ClockState saved = Some c" "NewSetFromClockWithOptions c options = Inr fresh" "SetOptions_valid options"
    "Set_UnmarshalBinary flate (Some fresh) (Snapshot_Bytes saved) codec now = (Some mid, Inr ())"
    "r = mid \<or> (\<exists>g clock. r = mid\<lparr>lc_clock := clock\<rparr> \<and> HLC_Witness (lc_clock mid) g now' = (clock, Inr ()))"
proof -
  have "\<exists>c fresh mid. Snapshot_ClockState saved = Some c \<and> NewSetFromClockWithOptions c options = Inr fresh \<and> SetOptions_valid options \<and>
    Set_UnmarshalBinary flate (Some fresh) (Snapshot_Bytes saved) codec now = (Some mid, Inr ()) \<and>
    (r = mid \<or> (\<exists>g clock. r = mid\<lparr>lc_clock := clock\<rparr> \<and> HLC_Witness (lc_clock mid) g now' = (clock, Inr ())))"
    using assms by (simp add: NewSetFromSnapshotWithOptions_def split: if_splits option.splits sum.splits prod.splits) blast+
  then show thesis using that by blast
qed

lemma lwwset_restart_parts:
  assumes s: "ls_inv s" and h: "lc_clock s = Some h" and codec: "lww_bindElementCodec codec = Inr bound" "\<forall>e. e |\<in>| fmdom (lc_entries s) \<longrightarrow> elem_stable bound e"
    and saved: "Set_SnapshotCurrentState flate (Some s) codec = Inr saved \<or> Set_Snapshot flate (Some s) codec frontier = Inr saved"
    and r: "NewSetFromSnapshotWithOptions flate saved codec (lset_options s) now now' = Inr r"
  shows "ls_inv r \<and> lc_entries r = lc_entries s \<and> lc_replicaID r = lc_replicaID s \<and> hlc_stamp h \<le> hlc_stamp (the (lc_clock r))"
proof -
  obtain data where data: "Set_MarshalBinary (Some s) codec = Inr data" "Snapshot_Bytes saved = data" "Snapshot_ClockState saved = Some (HLC_Snapshot (lc_clock s))"
    using saved by (rule set_saved)
  obtain c fresh mid where p: "Snapshot_ClockState saved = Some c" "NewSetFromClockWithOptions c (lset_options s) = Inr fresh" "SetOptions_valid (lset_options s)"
    "Set_UnmarshalBinary flate (Some fresh) (Snapshot_Bytes saved) codec now = (Some mid, Inr ())"
    "r = mid \<or> (\<exists>g clock. r = mid\<lparr>lc_clock := clock\<rparr> \<and> HLC_Witness (lc_clock mid) g now' = (clock, Inr ()))"
    using r by (rule set_restored)
  have inv: "hlc_inv h" "hlc_replicaID h = lc_replicaID s" using s h by (auto simp: ls_inv_def coll_inv_def)
  have fresh: "fresh = \<lparr>lc_replicaID = lc_replicaID s, lc_clock = Some h, lc_entries = fmempty, lc_tags = fmempty, lset_options = lset_options s\<rparr>"
    using p(1-3) data(3) h inv restart_same[OF inv(1)] by (auto simp: NewSetFromClockWithOptions_def HLC_Snapshot_def split: if_splits)
  have fi: "ls_inv fresh" using inv p(3) by (simp add: fresh ls_inv_def coll_inv_def indexed_def SetOptions_valid_def)
  have dec: "unmarshalSet flate data TypeIDLWWSetState codec DefaultLimits = Inr (lc_entries s)" using data(1) set_marshal_iff[OF codec] by blast
  note run = p(4)[unfolded data(2) Set_UnmarshalBinary_def]
  have mid: "ls_inv mid" "lc_entries mid = lc_entries s" "lc_replicaID mid = lc_replicaID s" "lset_options mid = lset_options s" "hlc_stamp h \<le> hlc_stamp (the (lc_clock mid))"
    using fi
    by (cases rule: set_unmarshal_cases[where flate = flate and data = data and now = now and codec = codec and limits = DefaultLimits]; use run dec in \<open>auto simp: fresh\<close>)+
  obtain h1 where h1: "lc_clock mid = Some h1" using ls_clock[OF mid(1)] by blast
  from p(5) show ?thesis
  proof
    assume "r = mid"
    with mid show ?thesis by simp
  next
    assume "\<exists>g clock. r = mid\<lparr>lc_clock := clock\<rparr> \<and> HLC_Witness (lc_clock mid) g now' = (clock, Inr ())"
    then obtain g clock where g: "r = mid\<lparr>lc_clock := clock\<rparr>" "HLC_Witness (Some h1) g now' = (clock, Inr ())" using h1 by auto
    from g(2) show ?thesis
    proof (cases rule: Witness_cases)
      case (ok h2)
      have "coll_inv set_ok (so_MaxEntries (lset_options mid)) (mid\<lparr>lc_clock := Some h2\<rparr>)"
        using mid(1) h1 ok by (intro coll_inv_clock[of _ _ _ h1]) (auto simp: ls_inv_def)
      with mid ok g(1) h1 show ?thesis by (auto simp: ls_inv_def)
    qed simp
  qed
qed

section \<open>Properties\<close>

text \<open>
  C13. The last-write-wins set: an element is in a set exactly if the greatest write of it that the set has seen is an addition. After successful
  \<open>ApplyDelta\<close> calls a set holds for every element the greatest entry it held or was given, so that replicas that start alike and apply the
  same deltas, in any order and any number of times, contain the same elements, where each tag stands for one write; \<open>AddWithDelta\<close> and
  \<open>RemoveWithDelta\<close> change membership of their element only, and the delta joined to the old state gives the new one; every call keeps the
  set well formed, and one that fails changes nothing.
\<close>

theorem lwwset_converges:
  assumes "ls_inv s" and "issued_by val (lc_entries s)" and "\<forall>d \<in> set ds. issued_by val (sd_entries (fst d))" and "fst ` set ds = fst ` set es"
    and "apply_all (\<lambda>s. Set_ApplyDelta (Some s)) s ds = Some a" and "apply_all (\<lambda>s. Set_ApplyDelta (Some s)) s es = Some b"
  shows "(\<forall>x. Set_Contains (Some a) x = Set_Contains (Some b) x) \<and> greatest_of (lc_entries a) (insert (lc_entries s) (sd_entries ` fst ` set ds)) \<and>
    (\<forall>x present now. safe_call ls_inv s (Set_writeDelta (Some s) x present now) \<and>
       (case Set_writeDelta (Some s) x present now of
          (s', Inl e) \<Rightarrow> e = clock_ErrClockExhausted \<or> e = lww_ErrResourceLimit \<and> int (fm_size (lc_entries s)) = so_MaxEntries (lset_options s)
        | (s', Inr d) \<Rightarrow> (\<forall>y. Set_Contains s' y = (if y = x then present else Set_Contains (Some s) y)) \<and>
            lc_entries (the s') = entries_join (lc_entries s) (sd_entries d))) \<and>
    (\<forall>d now. safe_call ls_inv s (Set_ApplyDelta (Some s) d now)) \<and> (\<forall>q now. safe_call ls_inv s (Set_Merge (Some s) (Some q) now)) \<and>
    (\<forall>tags. safe_call ls_inv s (Set_CompactTombstones (Some s) tags))"
proof (intro conjI allI)
  note conv = lwwset_replica.converges[OF assms]
  then show "Set_Contains (Some a) x = Set_Contains (Some b) x" for x by (simp add: Set_Contains_def)
  show "greatest_of (lc_entries a) (insert (lc_entries s) (sd_entries ` fst ` set ds))" using conv by blast
  fix x present now
  show "safe_call ls_inv s (Set_writeDelta (Some s) x present now)"
    using assms(1) by (cases rule: set_write_cases[where x = x and present = present and now = now]) (use assms(1) in simp_all)
  show "case Set_writeDelta (Some s) x present now of
          (s', Inl e) \<Rightarrow> e = clock_ErrClockExhausted \<or> e = lww_ErrResourceLimit \<and> int (fm_size (lc_entries s)) = so_MaxEntries (lset_options s)
        | (s', Inr d) \<Rightarrow> (\<forall>y. Set_Contains s' y = (if y = x then present else Set_Contains (Some s) y)) \<and>
            lc_entries (the s') = entries_join (lc_entries s) (sd_entries d)"
    using assms(1)
  proof (cases rule: set_write_cases[where x = x and present = present and now = now])
    case (ok s' t)
    have "entries_join (lc_entries s) (fmupd x \<lparr>le_tag = t, le_present = present, le_value = ()\<rparr> fmempty) = lc_entries s'"
      unfolding ok(5) by (rule join_newest) (use ok in simp)
    with ok show ?thesis by (simp add: Set_Contains_def)
  qed simp_all
  have app: "safe_call ls_inv s (applyOwnedSetEntries s E now)" for E now
    using assms(1) by (cases rule: set_apply_cases[where E = E and now = now]) (use assms(1) in simp_all)
  show "safe_call ls_inv s (Set_ApplyDelta (Some s) d now)" for d now using app ls_clock[OF assms(1)] by (auto simp: Set_ApplyDelta_def)
  show "safe_call ls_inv s (Set_Merge (Some s) (Some q) now)" for q now using app by (simp add: Set_Merge_def)
  have inv: "coll_inv set_ok (so_MaxEntries (lset_options s)) s" "SetOptions_valid (lset_options s)" using assms by (auto simp: ls_inv_def)
  from inv(1) show "safe_call ls_inv s (Set_CompactTombstones (Some s) tags)" for tags
    by (cases rule: compact_cases[where ts = tags]) (use assms(1) inv(2) in \<open>simp_all add: Set_CompactTombstones_def ls_inv_def same_coll_set\<close>)
qed

definition lset_a :: "byte lwwSet" where
  "lset_a = \<lparr>lc_replicaID = [97], lc_clock = Some \<lparr>hlc_replicaID = [97], hlc_wallTime = 5, hlc_logical = 0\<rparr>,
     lc_entries = fmupd 7 \<lparr>le_tag = Tag [97] 5 0, le_present = True, le_value = ()\<rparr> fmempty,
     lc_tags = fmupd (Tag [97] 5 0) 7 fmempty, lset_options = DefaultSetOptions\<rparr>"

definition lset_delta_b :: "byte SetDelta" where
  "lset_delta_b = \<lparr>sd_entries = fmupd 7 \<lparr>le_tag = Tag [98] 6 0, le_present = False, le_value = ()\<rparr> fmempty\<rparr>"

lemma lset_a_inv: "ls_inv lset_a"
  by (auto simp: ls_inv_def lset_a_def DefaultSetOptions_def SetOptions_valid_def coll_inv_def hlc_inv_def indexed_def Tag_Valid_def
      tag_stamp_def hlc_stamp_def eval split: if_splits)

lemma lset_apply_b:
  "\<exists>a. apply_all (\<lambda>s. Set_ApplyDelta (Some s)) lset_a [(lset_delta_b, Some now)] = Some a" if "now \<in> {8, 9}"
  using that by (auto simp: Set_ApplyDelta_def lset_a_def lset_delta_b_def applyOwnedSetEntries_def validateSetEntries_def DefaultSetOptions_def
      fm_items_def fm_keys_def join_locked_def ensure_tags_compatible_def entries_conflict_def entries_subsumed_def
      new_entries_def greatest_entry_tag_def put_entry_def Tag_Compare_def HLC_Witness_def physicalMillis_def Tag_Valid_def max_def Let_def eval)

theorem lwwset_converges_witness:
  "\<exists>a b. apply_all (\<lambda>s. Set_ApplyDelta (Some s)) lset_a [(lset_delta_b, Some 8)] = Some a \<and>
     apply_all (\<lambda>s. Set_ApplyDelta (Some s)) lset_a [(lset_delta_b, Some 9)] = Some b \<and> Set_Contains (Some a) 7 = Set_Contains (Some b) 7"
proof -
  obtain a b where run: "apply_all (\<lambda>s. Set_ApplyDelta (Some s)) lset_a [(lset_delta_b, Some 8)] = Some a"
    "apply_all (\<lambda>s. Set_ApplyDelta (Some s)) lset_a [(lset_delta_b, Some 9)] = Some b" using lset_apply_b by fastforce
  let ?val = "\<lambda>t. (7 :: byte, \<lparr>le_tag = t, le_present = (t = Tag [97] 5 0), le_value = ()\<rparr>)"
  have "issued_by ?val (lc_entries lset_a)" "issued_by ?val (sd_entries lset_delta_b)"
    by (auto simp: issued_by_def lset_a_def lset_delta_b_def split: if_splits)
  with lwwset_converges[OF lset_a_inv, of ?val "[(lset_delta_b, Some 8)]" "[(lset_delta_b, Some 9)]"] run show ?thesis by auto
qed

text \<open>
  C40. The framed state of a set is canonical for a codec that is stable on its elements: \<open>MarshalBinary\<close> returns exactly the version 1 bytes that
  decode to the entries. A set restored from a snapshot of either kind holds the entries of the saved one and keeps its replica, and
  tags of its later writes are greater than every tag up to the saved clock. Reading arbitrary bytes keeps a set well formed, and changes
  nothing on an error.
\<close>

theorem lwwset_codec:
  assumes "ls_inv s" and "lww_bindElementCodec codec = Inr bound" and "\<forall>e. e |\<in>| fmdom (lc_entries s) \<longrightarrow> elem_stable bound e" and "lc_clock s = Some h"
  shows "(Set_MarshalBinary (Some s) codec = Inr data \<longleftrightarrow> unmarshalSet flate data TypeIDLWWSetState codec DefaultLimits = Inr (lc_entries s) \<and>
      PeekFrameFormatVersion data DefaultLimits = Inr FormatVersion) \<and>
    safe_call ls_inv s (Set_UnmarshalBinaryWithLimits flate (Some s) data codec limits now) \<and>
    (Set_SnapshotCurrentState flate (Some s) codec = Inr saved \<or> Set_Snapshot flate (Some s) codec frontier = Inr saved \<longrightarrow>
     NewSetFromSnapshotWithOptions flate saved codec (lset_options s) now now' = Inr r \<longrightarrow>
       ls_inv r \<and> lc_entries r = lc_entries s \<and> lc_replicaID r = lc_replicaID s \<and>
       (\<forall>r' d x present now''. Set_writeDelta (Some r) x present now'' = (r', Inr d) \<longrightarrow>
          (\<exists>e. sd_entries d = fmupd x e fmempty \<and> ReplicaID (le_tag e) = lc_replicaID s \<and> (\<forall>u. tag_stamp u \<le> hlc_stamp h \<longrightarrow> u < le_tag e))))"
proof (intro conjI impI)
  show "Set_MarshalBinary (Some s) codec = Inr data \<longleftrightarrow> unmarshalSet flate data TypeIDLWWSetState codec DefaultLimits = Inr (lc_entries s) \<and>
      PeekFrameFormatVersion data DefaultLimits = Inr FormatVersion" by (rule set_marshal_iff[OF assms(2,3)])
  show "safe_call ls_inv s (Set_UnmarshalBinaryWithLimits flate (Some s) data codec limits now)"
    using assms(1) by (cases rule: set_unmarshal_cases[where flate = flate and data = data and now = now and codec = codec and limits = limits]) (use assms(1) in simp_all)
  assume "Set_SnapshotCurrentState flate (Some s) codec = Inr saved \<or> Set_Snapshot flate (Some s) codec frontier = Inr saved"
    and "NewSetFromSnapshotWithOptions flate saved codec (lset_options s) now now' = Inr r"
  from lwwset_restart_parts[OF assms(1,4,2,3) this]
  have r: "ls_inv r" "lc_entries r = lc_entries s" "lc_replicaID r = lc_replicaID s" "hlc_stamp h \<le> hlc_stamp (the (lc_clock r))" by auto
  then show "ls_inv r" "lc_entries r = lc_entries s" "lc_replicaID r = lc_replicaID s" by simp_all
  have "\<exists>e. sd_entries d = fmupd x e fmempty \<and> ReplicaID (le_tag e) = lc_replicaID s \<and> (\<forall>u. tag_stamp u \<le> hlc_stamp h \<longrightarrow> u < le_tag e)"
    if "Set_writeDelta (Some r) x present now'' = (r', Inr d)" for r' d x present now''
    using r(1)
  proof (cases rule: set_write_cases[where x = x and present = present and now = now''])
    case (ok s' t)
    have "u < t" if "tag_stamp u \<le> hlc_stamp h" for u using that ok(8) r(4) by (intro tag_stamp_less) simp
    with ok that r(3) show ?thesis by auto
  qed (use that in auto)
  then show "\<forall>r' d x present now''. Set_writeDelta (Some r) x present now'' = (r', Inr d) \<longrightarrow>
      (\<exists>e. sd_entries d = fmupd x e fmempty \<and> ReplicaID (le_tag e) = lc_replicaID s \<and> (\<forall>u. tag_stamp u \<le> hlc_stamp h \<longrightarrow> u < le_tag e))" by blast
qed

theorem lwwset_codec_witness:
  "\<exists>data. Set_MarshalBinary (Some lset_a) (Some byte_codec) = Inr data \<and>
     unmarshalSet (\<lambda>c. (c, None)) data TypeIDLWWSetState (Some byte_codec) DefaultLimits = Inr (lc_entries lset_a)"
proof -
  have bind: "lww_bindElementCodec (Some byte_codec) = Inr byte_bound"
    by (simp add: lww_bindElementCodec_def byte_codec_def byte_bound_def codecguard_ID_def eval)
  have stable: "\<forall>e. e |\<in>| fmdom (lc_entries lset_a) \<longrightarrow> elem_stable byte_bound e" by (simp add: byte_bound_facts)
  have "set_wire_ok byte_bound DefaultLimits (lc_entries lset_a)"
    by (auto simp: set_wire_ok_def lset_a_def DefaultLimits_def set_item_ok_def elem_ok_def bytes_ok_def tag_ok_def Tag_Valid_def distinct_tags_def byte_bound_facts
        eval split: if_splits)
  then have "\<exists>data. Set_MarshalBinary (Some lset_a) (Some byte_codec) = Inr data"
    unfolding Set_MarshalBinary_def option.case cloneSetEntries_id marshalSet_def bind sum.case marshalSet_iff[OF stable] MarshalFrame_iff
    by (simp add: lset_a_def set_enc_def set_item_field.counted_enc_def set_item_enc_def elem_enc_def bit_enc_def tag_enc_def bytes_enc_def
        fm_items_by_def fs_sorted_by_def byte_bound_facts DefaultLimits_def eval uvarint.simps)
  then obtain data where data: "Set_MarshalBinary (Some lset_a) (Some byte_codec) = Inr data" by blast
  have "lc_clock lset_a = Some \<lparr>hlc_replicaID = [97], hlc_wallTime = 5, hlc_logical = 0\<rparr>" by (simp add: lset_a_def)
  from lwwset_codec[OF lset_a_inv bind stable this, of data] data show ?thesis by blast
qed

end
