(* ===== verification/Merkle.thy ===== *)
theory Merkle
  imports Snapshots
begin

text \<open>
  The state digests of \<open>src/merkle/tree.go\<close>. The hash function is an argument \<open>H\<close>, since nothing but its result length and
  the absence of collisions among the strings it is given matters; a \<open>[sha256.Size]byte\<close> is a list of 32 bytes. \<open>Root\<close> takes the lock
  twice and hashes in between, so its two critical sections are separate definitions that other calls interleave.
\<close>

abbreviation merkle_ErrInvalidState :: go_error where
  "merkle_ErrInvalidState \<equiv> errors_New ''merkle: invalid canonical state frame''"

type_synonym digest = "byte list"
type_synonym hash = "byte list \<Rightarrow> digest"

definition zero_digest :: digest where
  "zero_digest = replicate 32 0"

record Tree =
  mt_entries :: "(gostring, digest) fmap"
  mt_generation :: u64
  mt_cachedRoot :: digest
  mt_cachedRootFor :: u64
  mt_hasCachedRoot :: bool

record treeEntry =
  te_key :: gostring
  te_digest :: digest

record Entry =
  ent_Key :: gostring
  ent_Digest :: digest

definition NewTree :: Tree where
  "NewTree = \<lparr>mt_entries = fmempty, mt_generation = 0, mt_cachedRoot = zero_digest, mt_cachedRootFor = 0, mt_hasCachedRoot = False\<rparr>"

definition invalidateRootLocked :: "Tree \<Rightarrow> Tree" where
  "invalidateRootLocked t = t\<lparr>mt_generation := mt_generation t + 1, mt_hasCachedRoot := False\<rparr>"

definition Tree_InsertDigest :: "Tree option \<Rightarrow> gostring \<Rightarrow> digest \<Rightarrow> Tree option" where
  "Tree_InsertDigest t key digest = (case t of
      None \<Rightarrow> None
    | Some t \<Rightarrow>
        if fmlookup (mt_entries t) key = Some digest then Some t
        else Some (invalidateRootLocked (t\<lparr>mt_entries := fmupd key digest (mt_entries t)\<rparr>)))"

definition Tree_Insert :: "hash \<Rightarrow> Tree option \<Rightarrow> gostring \<Rightarrow> byte list \<Rightarrow> Tree option" where
  "Tree_Insert H t key value = Tree_InsertDigest t key (H value)"

definition Tree_Entries :: "Tree option \<Rightarrow> Entry list" where
  "Tree_Entries t = (case t of
      None \<Rightarrow> []
    | Some t \<Rightarrow> sort_key ent_Key (map (\<lambda>(key, digest). \<lparr>ent_Key = key, ent_Digest = digest\<rparr>) (fm_items (mt_entries t))))"

definition Tree_Delete :: "Tree option \<Rightarrow> gostring \<Rightarrow> Tree option" where
  "Tree_Delete t key = (case t of
      None \<Rightarrow> None
    | Some t \<Rightarrow>
        if key |\<notin>| fmdom (mt_entries t) then Some t
        else Some (invalidateRootLocked (t\<lparr>mt_entries := fmdrop key (mt_entries t)\<rparr>)))"

definition Tree_InsertState :: "inflater \<Rightarrow> hash \<Rightarrow> Tree option \<Rightarrow> gostring \<Rightarrow> byte list \<Rightarrow> Tree option \<times> unit res" where
  "Tree_InsertState flate H t key state = (case UnmarshalFrame flate state DefaultLimits of
      Inl _ \<Rightarrow> (t, Inl merkle_ErrInvalidState)
    | Inr _ \<Rightarrow> (Tree_Insert H t key state, Inr ()))"

definition emptyRoot :: "hash \<Rightarrow> digest" where
  "emptyRoot H = H [2]"

definition snapshotEntries :: "(gostring, digest) fmap \<Rightarrow> treeEntry list" where
  "snapshotEntries source = map (\<lambda>(key, digest). \<lparr>te_key = key, te_digest = digest\<rparr>) (fm_items source)"

definition cloneEntries :: "(gostring, digest) fmap \<Rightarrow> (gostring, digest) fmap" where
  "cloneEntries source = fold (\<lambda>(key, value). fmupd key value) (fm_items source) fmempty"

text \<open>The bytes of a leaf and of an inner node, one level of the loop, and the loop.\<close>

definition encodedLeaf :: "treeEntry \<Rightarrow> byte list" where
  "encodedLeaf entry = [0] @ uvarint (of_nat (length (te_key entry))) @ te_key entry @ te_digest entry"

definition encodedInner :: "digest \<Rightarrow> digest \<Rightarrow> byte list" where
  "encodedInner left right = [1] @ left @ right"

fun next_level :: "hash \<Rightarrow> digest list \<Rightarrow> digest list" where
  "next_level H (left # right # leaves) = H (encodedInner left right) # next_level H leaves"
| "next_level H [left] = [H (encodedInner left zero_digest)]"
| "next_level H [] = []"

lemma length_next_level: "length (next_level H leaves) = (length leaves + 1) div 2"
  by (induction H leaves rule: next_level.induct) auto

function level_loop :: "hash \<Rightarrow> digest list \<Rightarrow> digest" where
  "level_loop H leaves = (if length leaves > 1 then level_loop H (next_level H leaves) else hd leaves)"
  by pat_completeness auto
termination
  by (relation "measure (\<lambda>(H, leaves). length leaves)") (auto simp: length_next_level)

declare level_loop.simps [simp del]

definition rootForEntries :: "hash \<Rightarrow> treeEntry list \<Rightarrow> digest" where
  "rootForEntries H entries =
     (if entries = [] then emptyRoot H
      else level_loop H (map (\<lambda>entry. H (encodedLeaf entry)) (sort_key te_key entries)))"

text \<open>The first critical section of \<open>Root\<close> returns the cached root or what to hash; the second one installs the root.\<close>

definition root_read :: "Tree \<Rightarrow> digest + treeEntry list \<times> u64" where
  "root_read t = (if mt_hasCachedRoot t \<and> mt_cachedRootFor t = mt_generation t then Inl (mt_cachedRoot t)
     else Inr (snapshotEntries (mt_entries t), mt_generation t))"

definition root_install :: "digest \<Rightarrow> u64 \<Rightarrow> Tree \<Rightarrow> Tree" where
  "root_install root generation t = (if mt_generation t = generation
     then t\<lparr>mt_cachedRoot := root, mt_cachedRootFor := generation, mt_hasCachedRoot := True\<rparr> else t)"

definition Tree_Root :: "hash \<Rightarrow> Tree option \<Rightarrow> Tree option \<times> digest" where
  "Tree_Root H t = (case t of
      None \<Rightarrow> (None, emptyRoot H)
    | Some t \<Rightarrow> (case root_read t of
          Inl root \<Rightarrow> (Some t, root)
        | Inr (entries, generation) \<Rightarrow>
            (let root = rootForEntries H entries in (Some (root_install root generation t), root))))"

definition Diff :: "hash \<Rightarrow> Tree option \<Rightarrow> Tree option \<Rightarrow> Tree \<times> Tree \<times> gostring list \<times> gostring list \<times> gostring list" where
  "Diff H left right =
     (let left = (case left of None \<Rightarrow> NewTree | Some t \<Rightarrow> t);
          right = (case right of None \<Rightarrow> NewTree | Some t \<Rightarrow> t);
          (left', leftRoot) = Tree_Root H (Some left);
          (right', rightRoot) = Tree_Root H (Some right);
          left = the left'; right = the right' in
      if leftRoot = rightRoot then (left, right, [], [], [])
      else
        (let leftEntries = cloneEntries (mt_entries left);
             rightEntries = cloneEntries (mt_entries right);
             leftOnly = filter (\<lambda>key. key |\<notin>| fmdom rightEntries) (map fst (fm_items leftEntries));
             different = map fst (filter (\<lambda>(key, value). key |\<in>| fmdom rightEntries \<and> fmlookup rightEntries key \<noteq> Some value) (fm_items leftEntries));
             rightOnly = filter (\<lambda>key. key |\<notin>| fmdom leftEntries) (map fst (fm_items rightEntries))
         in (left, right, sort leftOnly, sort rightOnly, sort different)))"

section \<open>The tree behind a root\<close>

text \<open>The binary tree that the loop folds, with the strings that are hashed for it.\<close>

datatype mtree = Leaf treeEntry | Node mtree mtree | Pad

primrec mt_hash :: "hash \<Rightarrow> mtree \<Rightarrow> digest" where
  "mt_hash H (Leaf entry) = H (encodedLeaf entry)"
| "mt_hash H (Node l r) = H (encodedInner (mt_hash H l) (mt_hash H r))"
| "mt_hash H Pad = zero_digest"

primrec mt_strings :: "hash \<Rightarrow> mtree \<Rightarrow> byte list set" where
  "mt_strings H (Leaf entry) = {encodedLeaf entry}"
| "mt_strings H (Node l r) = {encodedInner (mt_hash H l) (mt_hash H r)} \<union> mt_strings H l \<union> mt_strings H r"
| "mt_strings H Pad = {}"

primrec fringe :: "mtree \<Rightarrow> treeEntry list" where
  "fringe (Leaf entry) = [entry]"
| "fringe (Node l r) = fringe l @ fringe r"
| "fringe Pad = []"

fun pair_up :: "mtree list \<Rightarrow> mtree list" where
  "pair_up (l # r # ts) = Node l r # pair_up ts"
| "pair_up [l] = [Node l Pad]"
| "pair_up [] = []"

lemma length_pair_up: "length (pair_up ts) = (length ts + 1) div 2"
  by (induction ts rule: pair_up.induct) auto

function build :: "mtree list \<Rightarrow> mtree" where
  "build ts = (if length ts > 1 then build (pair_up ts) else hd ts)"
  by pat_completeness auto
termination
  by (relation "measure length") (auto simp: length_pair_up)

declare build.simps [simp del]

definition merkle_tree :: "(gostring, digest) fmap \<Rightarrow> mtree" where
  "merkle_tree E = build (map Leaf (snapshotEntries E))"

definition merkle_strings :: "hash \<Rightarrow> (gostring, digest) fmap \<Rightarrow> byte list set" where
  "merkle_strings H E = (if E = fmempty then {[2]} else mt_strings H (merkle_tree E))"

lemma next_level_hash: "next_level H (map (mt_hash H) ts) = map (mt_hash H) (pair_up ts)"
  by (induction ts rule: pair_up.induct) auto

lemma level_loop_hash: "ts \<noteq> [] \<Longrightarrow> level_loop H (map (mt_hash H) ts) = mt_hash H (build ts)"
proof (induction ts rule: build.induct)
  case (1 ts)
  show ?case
  proof (cases "length ts > 1")
    case True
    then have "pair_up ts \<noteq> []" by (cases ts rule: pair_up.cases) auto
    with 1 True show ?thesis by (subst level_loop.simps, subst build.simps) (simp add: next_level_hash)
  next
    case False
    with 1(2) show ?thesis by (subst level_loop.simps, subst build.simps) (simp add: hd_map)
  qed
qed

lemma fringe_pair_up: "concat (map fringe (pair_up ts)) = concat (map fringe ts)"
  by (induction ts rule: pair_up.induct) auto

lemma fringe_build: "ts \<noteq> [] \<Longrightarrow> fringe (build ts) = concat (map fringe ts)"
proof (induction ts rule: build.induct)
  case (1 ts)
  then show ?case
    by (subst build.simps) (cases ts rule: pair_up.cases; simp add: fringe_pair_up)
qed

lemma sorted_snapshot: "sort_key te_key (snapshotEntries E) = snapshotEntries E"
proof (rule sort_key_id_if_sorted)
  have "map te_key (snapshotEntries E) = fm_keys E"
    unfolding map_fst_fm_items[symmetric] by (simp add: snapshotEntries_def comp_def case_prod_unfold)
  then show "sorted (map te_key (snapshotEntries E))" by (simp add: fm_keys_def)
qed

lemma snapshot_empty: "snapshotEntries E = [] \<longleftrightarrow> E = fmempty"
proof
  assume "snapshotEntries E = []"
  then have "fm_items E = []" by (simp add: snapshotEntries_def)
  then show "E = fmempty" by (metis fmap_of_list_fm_items fmap_of_list_simps(1))
qed (simp add: snapshotEntries_def fm_items_def fm_keys_def)

lemma snapshot_inj: "snapshotEntries E = snapshotEntries E' \<Longrightarrow> E = E'"
proof -
  assume eq: "snapshotEntries E = snapshotEntries E'"
  have "map (\<lambda>e. (te_key e, te_digest e)) (snapshotEntries A) = fm_items A" for A
    by (simp add: snapshotEntries_def comp_def case_prod_unfold)
  with eq have "fm_items E = fm_items E'" by metis
  then show ?thesis by (metis fmap_of_list_fm_items)
qed

lemma root_is_hash: "E \<noteq> fmempty \<Longrightarrow> rootForEntries H (snapshotEntries E) = mt_hash H (merkle_tree E)"
  using level_loop_hash[of "map Leaf (snapshotEntries E)" H]
  by (simp add: rootForEntries_def snapshot_empty sorted_snapshot merkle_tree_def comp_def)

lemma fringe_tree: "E \<noteq> fmempty \<Longrightarrow> fringe (merkle_tree E) = snapshotEntries E"
  using fringe_build[of "map Leaf (snapshotEntries E)"] by (simp add: snapshot_empty merkle_tree_def comp_def)

section \<open>Equal roots, equal entries\<close>

text \<open>No two of the strings that are hashed collide, and none gives the digest that pads a level.\<close>

definition no_collision :: "hash \<Rightarrow> byte list set \<Rightarrow> bool" where
  "no_collision H S \<longleftrightarrow> inj_on H S \<and> (\<forall>x \<in> S. length (H x) = 32 \<and> H x \<noteq> zero_digest)"

definition digests_32 :: "(gostring, digest) fmap \<Rightarrow> bool" where
  "digests_32 E \<longleftrightarrow> (\<forall>k d. fmlookup E k = Some d \<longrightarrow> length d = 32)"

lemma encodedLeaf_inj:
  assumes "encodedLeaf a = encodedLeaf b" and "length (te_digest a) = 32" and "length (te_digest b) = 32"
  shows "a = b"
proof -
  let ?u = "\<lambda>x. uvarint (of_nat (length (te_key x)))"
  have eq: "?u a @ te_key a @ te_digest a = ?u b @ te_key b @ te_digest b" using assms(1) by (simp add: encodedLeaf_def)
  have "(of_nat (length (te_key a)) :: u64) = of_nat (length (te_key b))"
    using arg_cong[OF eq, of Uvarint] unfolding Uvarint_uvarint by simp
  with eq assms(2,3) have "te_key a = te_key b \<and> te_digest a = te_digest b" by simp
  then show ?thesis by (cases a; cases b) simp
qed

lemma mt_hash_length: "no_collision H S \<Longrightarrow> mt_strings H t \<subseteq> S \<Longrightarrow> length (mt_hash H t) = 32"
  by (cases t) (auto simp: no_collision_def zero_digest_def)

lemma mt_hash_inj:
  assumes "no_collision H S"
  shows "mt_strings H t \<subseteq> S \<Longrightarrow> mt_strings H t' \<subseteq> S \<Longrightarrow> \<forall>e \<in> set (fringe t) \<union> set (fringe t'). length (te_digest e) = 32 \<Longrightarrow>
    mt_hash H t = mt_hash H t' \<Longrightarrow> t = t'"
proof (induction t arbitrary: t')
  case (Leaf a)
  have inj: "inj_on H S" and z: "\<And>x. x \<in> S \<Longrightarrow> H x \<noteq> zero_digest" using assms by (auto simp: no_collision_def)
  show ?case
  proof (cases t')
    case (Leaf b)
    with \<open>mt_hash H (Leaf a) = mt_hash H t'\<close> inj Leaf.prems(1,2) have "encodedLeaf a = encodedLeaf b" by (auto dest: inj_onD)
    with Leaf Leaf.prems(3) encodedLeaf_inj[of a b] show ?thesis by simp
  next
    case (Node l r)
    with Leaf.prems inj have "encodedLeaf a = encodedInner (mt_hash H l) (mt_hash H r)" by (auto dest: inj_onD)
    then show ?thesis by (simp add: encodedLeaf_def encodedInner_def)
  next
    case Pad
    with Leaf.prems z show ?thesis by simp
  qed
next
  case (Node l r)
  have inj: "inj_on H S" and z: "\<And>x. x \<in> S \<Longrightarrow> H x \<noteq> zero_digest" using assms by (auto simp: no_collision_def)
  show ?case
  proof (cases t')
    case (Leaf b)
    with Node.prems inj have "encodedLeaf b = encodedInner (mt_hash H l) (mt_hash H r)" by (auto dest: inj_onD)
    then show ?thesis by (simp add: encodedLeaf_def encodedInner_def)
  next
    case n': (Node l' r')
    have s: "mt_strings H l \<subseteq> S" "mt_strings H r \<subseteq> S" "mt_strings H l' \<subseteq> S" "mt_strings H r' \<subseteq> S" using Node.prems n' by auto
    have "encodedInner (mt_hash H l) (mt_hash H r) = encodedInner (mt_hash H l') (mt_hash H r')"
      using Node.prems n' inj by (auto dest: inj_onD)
    then have "mt_hash H l = mt_hash H l'" "mt_hash H r = mt_hash H r'"
      using mt_hash_length[OF assms s(1)] mt_hash_length[OF assms s(3)] by (simp_all add: encodedInner_def)
    with Node.IH(1)[OF s(1,3)] Node.IH(2)[OF s(2,4)] Node.prems(3) n' show ?thesis by auto
  next
    case Pad
    with Node.prems z show ?thesis by auto
  qed
next
  case Pad
  have z: "\<And>x. x \<in> S \<Longrightarrow> H x \<noteq> zero_digest" using assms by (auto simp: no_collision_def)
  with Pad.prems show ?case by (cases t') (auto dest: z[symmetric])
qed

lemma root_determines:
  assumes nc: "no_collision H (merkle_strings H E \<union> merkle_strings H E')" and d: "digests_32 E" "digests_32 E'"
    and eq: "rootForEntries H (snapshotEntries E) = rootForEntries H (snapshotEntries E')"
  shows "E = E'"
proof -
  let ?S = "merkle_strings H E \<union> merkle_strings H E'"
  have root: "\<exists>x \<in> merkle_strings H A. rootForEntries H (snapshotEntries A) = H x \<and> (A = fmempty \<longleftrightarrow> x = [2])" for A
  proof (cases "A = fmempty")
    case True
    then show ?thesis by (simp add: merkle_strings_def rootForEntries_def snapshot_empty[THEN iffD2] emptyRoot_def)
  next
    case False
    have "merkle_tree A \<noteq> Pad" using fringe_tree[OF False] False snapshot_empty[of A] by auto
    then show ?thesis using False root_is_hash[OF False, of H]
      by (cases "merkle_tree A") (auto simp: merkle_strings_def encodedLeaf_def encodedInner_def)
  qed
  obtain x y where x: "x \<in> ?S" "rootForEntries H (snapshotEntries E) = H x" "E = fmempty \<longleftrightarrow> x = [2]"
    and y: "y \<in> ?S" "rootForEntries H (snapshotEntries E') = H y" "E' = fmempty \<longleftrightarrow> y = [2]"
    using root[of E] root[of E'] by auto
  have "x = y" using nc eq x(1,2) y(1,2) by (auto simp: no_collision_def dest: inj_onD)
  show ?thesis
  proof (cases "E = fmempty")
    case True
    with x(3) y(3) \<open>x = y\<close> show ?thesis by simp
  next
    case False
    with x(3) y(3) \<open>x = y\<close> have ne: "E' \<noteq> fmempty" by simp
    have dig: "length (te_digest e) = 32" if "digests_32 A" "e \<in> set (snapshotEntries A)" for A e
      using that by (auto simp: snapshotEntries_def digests_32_def)
    have "merkle_tree E = merkle_tree E'"
      by (rule mt_hash_inj[OF nc])
         (use False ne eq d dig in \<open>auto simp: merkle_strings_def fringe_tree root_is_hash\<close>)
    then have "snapshotEntries E = snapshotEntries E'" using fringe_tree[OF False] fringe_tree[OF ne] by simp
    then show ?thesis by (rule snapshot_inj)
  qed
qed

section \<open>The cache\<close>

abbreviation tree_root :: "hash \<Rightarrow> Tree \<Rightarrow> digest" where
  "tree_root H t \<equiv> rootForEntries H (snapshotEntries (mt_entries t))"

definition cache_ok :: "hash \<Rightarrow> Tree \<Rightarrow> bool" where
  "cache_ok H t \<longleftrightarrow> (mt_hasCachedRoot t \<and> mt_cachedRootFor t = mt_generation t \<longrightarrow> mt_cachedRoot t = tree_root H t)"

text \<open>
  Concurrent use: updates, and calls of \<open>Root\<close> between their two critical sections. The ghost components are the number of updates so far
  and, for a call, their number when it read the entries.
\<close>

record mt_sys =
  my_tree :: Tree
  my_calls :: "(treeEntry list \<times> u64 \<times> nat) list"
  my_updates :: nat

definition put_tree :: "mt_sys \<Rightarrow> Tree \<Rightarrow> mt_sys" where
  "put_tree s t = s\<lparr>my_tree := t, my_updates := (if t = my_tree s then my_updates s else Suc (my_updates s))\<rparr>"

inductive mt_step :: "hash \<Rightarrow> mt_sys \<Rightarrow> mt_sys \<Rightarrow> bool" for H where
  insert: "Tree_InsertDigest (Some (my_tree s)) k d = Some t \<Longrightarrow> mt_step H s (put_tree s t)"
| delete: "Tree_Delete (Some (my_tree s)) k = Some t \<Longrightarrow> mt_step H s (put_tree s t)"
| read: "root_read (my_tree s) = Inr (entries, generation) \<Longrightarrow>
    mt_step H s (s\<lparr>my_calls := (entries, generation, my_updates s) # my_calls s\<rparr>)"
| install: "(entries, generation, k) \<in> set (my_calls s) \<Longrightarrow>
    mt_step H s (s\<lparr>my_tree := root_install (rootForEntries H entries) generation (my_tree s),
      my_calls := remove1 (entries, generation, k) (my_calls s)\<rparr>)"

inductive mt_reach :: "hash \<Rightarrow> mt_sys \<Rightarrow> bool" for H where
  start: "mt_reach H \<lparr>my_tree = NewTree, my_calls = [], my_updates = 0\<rparr>"
| step: "mt_reach H s \<Longrightarrow> mt_step H s s' \<Longrightarrow> mt_reach H s'"

definition mt_inv :: "hash \<Rightarrow> mt_sys \<Rightarrow> bool" where
  "mt_inv H s \<longleftrightarrow> cache_ok H (my_tree s) \<and> mt_generation (my_tree s) = of_nat (my_updates s) \<and>
     (\<forall>(entries, generation, k) \<in> set (my_calls s). k \<le> my_updates s \<and> generation = of_nat k \<and>
        (k = my_updates s \<longrightarrow> entries = snapshotEntries (mt_entries (my_tree s))))"

lemma update_shape:
  assumes "Tree_InsertDigest (Some t0) k d = Some t \<or> Tree_Delete (Some t0) k = Some t"
  shows "t = t0 \<or> t \<noteq> t0 \<and> mt_generation t = mt_generation t0 + 1 \<and> \<not> mt_hasCachedRoot t"
proof -
  have "mt_generation t0 + 1 \<noteq> mt_generation t0" by simp
  moreover have "t = t0 \<or> mt_generation t = mt_generation t0 + 1 \<and> \<not> mt_hasCachedRoot t"
    using assms by (auto simp: Tree_InsertDigest_def Tree_Delete_def invalidateRootLocked_def split: if_splits)
  ultimately show ?thesis by auto
qed

lemma put_tree_inv:
  assumes "mt_inv H s" and "t = my_tree s \<or> t \<noteq> my_tree s \<and> mt_generation t = mt_generation (my_tree s) + 1 \<and> \<not> mt_hasCachedRoot t"
  shows "mt_inv H (put_tree s t)"
  using assms(2)
proof
  assume "t = my_tree s"
  then have "put_tree s t = s" by (simp add: put_tree_def)
  with assms(1) show ?thesis by simp
next
  assume "t \<noteq> my_tree s \<and> mt_generation t = mt_generation (my_tree s) + 1 \<and> \<not> mt_hasCachedRoot t"
  with assms(1) show ?thesis by (fastforce simp: mt_inv_def put_tree_def cache_ok_def)
qed

lemma mt_step_inv:
  assumes "mt_step H s s'" and "mt_inv H s" and "my_updates s < 2 ^ 64"
  shows "mt_inv H s'"
  using assms(1)
proof cases
  case (insert k d t)
  with put_tree_inv[OF assms(2)] update_shape[of "my_tree s" k d t] show ?thesis by blast
next
  case (delete k t)
  with put_tree_inv[OF assms(2)] update_shape[of "my_tree s" k _ t] show ?thesis by blast
next
  case (read entries generation)
  then show ?thesis using assms(2) by (auto simp: mt_inv_def root_read_def split: if_splits)
next
  case (install entries generation k)
  have call: "k \<le> my_updates s" "generation = of_nat k" "k = my_updates s \<longrightarrow> entries = snapshotEntries (mt_entries (my_tree s))"
    using assms(2) install(2) by (auto simp: mt_inv_def)
  have "k = my_updates s" if "mt_generation (my_tree s) = generation"
    using that call(1,2) assms(2,3) by (auto simp: mt_inv_def word_of_nat_eq_iff take_bit_nat_eq_self)
  then have "cache_ok H (root_install (rootForEntries H entries) generation (my_tree s))"
    using assms(2) call(3) by (auto simp: cache_ok_def root_install_def mt_inv_def)
  moreover have "set (remove1 (entries, generation, k) (my_calls s)) \<subseteq> set (my_calls s)" by (rule set_remove1_subset)
  ultimately show ?thesis using assms(2) unfolding install(1) mt_inv_def by (auto simp: root_install_def)
qed

lemma mt_step_updates: "mt_step H s s' \<Longrightarrow> my_updates s \<le> my_updates s'"
  by (auto elim!: mt_step.cases simp: put_tree_def)

lemma mt_reach_inv: "mt_reach H s \<Longrightarrow> my_updates s < 2 ^ 64 \<Longrightarrow> mt_inv H s"
proof (induction rule: mt_reach.induct)
  case start
  show ?case by (simp add: mt_inv_def cache_ok_def NewTree_def)
next
  case (step s s')
  then show ?case using mt_step_inv[OF step(2)] mt_step_updates[OF step(2)] by simp
qed

lemma Tree_Root_ok:
  assumes "cache_ok H t"
  shows "\<exists>t'. Tree_Root H (Some t) = (Some t', tree_root H t) \<and> cache_ok H t' \<and> mt_entries t' = mt_entries t"
  using assms by (auto simp: Tree_Root_def root_read_def root_install_def cache_ok_def Let_def)

lemma cloneEntries_id: "cloneEntries E = E"
  by (simp add: cloneEntries_def fold_fmupd_of_list distinct_fst_items del: map_fst_fm_items)

section \<open>Properties\<close>

text \<open>
  C8. \<open>Root\<close> is never stale. However insertions, deletions and calls of \<open>Root\<close> interleave, fewer than \<open>2 ^ 64\<close> updates in all, a call
  returns the root of the current entries, from the cache or not, and leaves the entries alone; a call that another update overtook
  does not install its root.
\<close>

theorem merkle_root_current:
  assumes "mt_reach H s" and "my_updates s < 2 ^ 64"
  shows "\<exists>t. Tree_Root H (Some (my_tree s)) = (Some t, tree_root H (my_tree s)) \<and> mt_entries t = mt_entries (my_tree s) \<and> cache_ok H t \<and>
    (\<forall>entries generation k. (entries, generation, k) \<in> set (my_calls s) \<and> k < my_updates s \<longrightarrow>
       root_install (rootForEntries H entries) generation (my_tree s) = my_tree s)"
proof -
  have inv: "mt_inv H s" using assms by (rule mt_reach_inv)
  have "root_install (rootForEntries H entries) generation (my_tree s) = my_tree s"
    if "(entries, generation, k) \<in> set (my_calls s)" "k < my_updates s" for entries generation k
  proof -
    have "generation = of_nat k" "mt_generation (my_tree s) = of_nat (my_updates s)" using inv that(1) by (auto simp: mt_inv_def)
    then show ?thesis using that(2) assms(2) by (auto simp: root_install_def word_of_nat_eq_iff take_bit_nat_eq_self)
  qed
  moreover have "cache_ok H (my_tree s)" using inv by (simp add: mt_inv_def)
  ultimately show ?thesis using Tree_Root_ok[of H "my_tree s"] by blast
qed

definition tail_hash :: hash where
  "tail_hash x = drop (length x - 32) x"

theorem merkle_root_current_witness:
  "\<exists>s t. mt_reach tail_hash s \<and> mt_entries (my_tree s) = fmupd [107] (replicate 32 1) fmempty \<and>
     Tree_Root tail_hash (Some (my_tree s)) = (Some t, tree_root tail_hash (my_tree s))"
proof -
  let ?s0 = "\<lparr>my_tree = NewTree, my_calls = [], my_updates = 0\<rparr>"
  let ?t = "invalidateRootLocked (NewTree\<lparr>mt_entries := fmupd [107] (replicate 32 1) fmempty\<rparr>)"
  have "Tree_InsertDigest (Some (my_tree ?s0)) [107] (replicate 32 1) = Some ?t" by (simp add: Tree_InsertDigest_def NewTree_def)
  then have r: "mt_reach tail_hash (put_tree ?s0 ?t)" by (rule mt_reach.step[OF mt_reach.start mt_step.insert])
  have e: "mt_entries (my_tree (put_tree ?s0 ?t)) = fmupd [107] (replicate 32 1) fmempty" by (simp add: put_tree_def invalidateRootLocked_def)
  have "my_updates (put_tree ?s0 ?t) < 2 ^ 64" by (simp add: put_tree_def)
  from merkle_root_current[OF r this] r e show ?thesis by blast
qed

text \<open>
  C14. \<open>Diff\<close> lists exactly the differences: the keys only left, only right, and with different digests, each ascending. Two roots are equal
  only for equal entries, so the early return loses nothing. This holds whenever no two of the strings hashed for the two trees collide
  and none has the padding digest: leaves, inner nodes and the empty tree cannot be confused, nor can trees of different sizes.
\<close>

theorem merkle_diff_exact:
  assumes "cache_ok H l" and "cache_ok H r" and "digests_32 (mt_entries l)" and "digests_32 (mt_entries r)"
    and "no_collision H (merkle_strings H (mt_entries l) \<union> merkle_strings H (mt_entries r))"
    and "Diff H (Some l) (Some r) = (l', r', leftOnly, rightOnly, different)"
  shows "(snd (Tree_Root H (Some l)) = snd (Tree_Root H (Some r)) \<longleftrightarrow> mt_entries l = mt_entries r) \<and>
    set leftOnly = fset (fmdom (mt_entries l)) - fset (fmdom (mt_entries r)) \<and>
    set rightOnly = fset (fmdom (mt_entries r)) - fset (fmdom (mt_entries l)) \<and>
    set different = {k. k |\<in>| fmdom (mt_entries l) \<and> k |\<in>| fmdom (mt_entries r) \<and> fmlookup (mt_entries l) k \<noteq> fmlookup (mt_entries r) k} \<and>
    sorted_wrt (<) leftOnly \<and> sorted_wrt (<) rightOnly \<and> sorted_wrt (<) different"
proof -
  obtain a b where a: "Tree_Root H (Some l) = (Some a, tree_root H l)" "mt_entries a = mt_entries l"
    and b: "Tree_Root H (Some r) = (Some b, tree_root H r)" "mt_entries b = mt_entries r"
    using Tree_Root_ok[OF assms(1)] Tree_Root_ok[OF assms(2)] by blast
  have eq: "tree_root H l = tree_root H r \<longleftrightarrow> mt_entries l = mt_entries r" using root_determines[OF assms(5,3,4)] by auto
  have asc: "sorted_wrt (<) (sort (filter P (map fst (fm_items E))))" "sorted_wrt (<) (sort (map fst (filter Q (fm_items E))))"
    for P Q and E :: "(gostring, digest) fmap"
    unfolding strict_sorted_iff by (simp_all add: distinct_map_filter)
  show ?thesis
  proof (cases "mt_entries l = mt_entries r")
    case True
    with eq assms(6) a b show ?thesis by (simp add: Diff_def)
  next
    case False
    with eq assms(6) a b have
      "leftOnly = sort (filter (\<lambda>key. key |\<notin>| fmdom (mt_entries r)) (map fst (fm_items (mt_entries l))))"
      "rightOnly = sort (filter (\<lambda>key. key |\<notin>| fmdom (mt_entries l)) (map fst (fm_items (mt_entries r))))"
      "different = sort (map fst (filter (\<lambda>(key, value). key |\<in>| fmdom (mt_entries r) \<and> fmlookup (mt_entries r) key \<noteq> Some value) (fm_items (mt_entries l))))"
      by (simp_all add: Diff_def Let_def cloneEntries_id)
    moreover from this(3) have "set different = {k. k |\<in>| fmdom (mt_entries l) \<and> k |\<in>| fmdom (mt_entries r) \<and> fmlookup (mt_entries l) k \<noteq> fmlookup (mt_entries r) k}"
      by (force simp: set_fm_items fmlookup_dom_iff image_iff)
    ultimately show ?thesis using asc a b eq by (auto simp del: map_fst_fm_items)
  qed
qed

definition mk_a :: Tree where
  "mk_a = NewTree\<lparr>mt_entries := fmupd [107] (replicate 32 1) fmempty\<rparr>"

definition mk_b :: Tree where
  "mk_b = NewTree\<lparr>mt_entries := fmupd [107] (replicate 32 2) fmempty\<rparr>"

theorem merkle_diff_exact_witness:
  "\<exists>l r leftOnly rightOnly different. Diff tail_hash (Some mk_a) (Some mk_b) = (l, r, leftOnly, rightOnly, different) \<and> set different = {[107]}"
proof -
  have strings: "merkle_strings tail_hash (fmupd [107] d fmempty) = {[0, 1, 107] @ d}" if "length d = 32" for d
    using that by (simp add: merkle_strings_def merkle_tree_def snapshotEntries_def fm_items_def fm_keys_def build.simps encodedLeaf_def uvarint_small eval)
  have H: "tail_hash ([0, 1, 107] @ d) = d" if "length d = 32" for d using that by (simp add: tail_hash_def)
  have nc: "no_collision tail_hash (merkle_strings tail_hash (mt_entries mk_a) \<union> merkle_strings tail_hash (mt_entries mk_b))"
    using H[of "replicate 32 1"] H[of "replicate 32 2"]
    by (simp add: mk_a_def mk_b_def strings no_collision_def zero_digest_def inj_on_def)
  have ok: "cache_ok tail_hash mk_a" "cache_ok tail_hash mk_b" "digests_32 (mt_entries mk_a)" "digests_32 (mt_entries mk_b)"
    by (simp_all add: cache_ok_def mk_a_def mk_b_def NewTree_def digests_32_def)
  obtain l r lo ro d where run: "Diff tail_hash (Some mk_a) (Some mk_b) = (l, r, lo, ro, d)" by (metis prod_cases5)
  have "set d = {[107]}" using merkle_diff_exact[OF ok nc run] by (auto simp: mk_a_def mk_b_def numeral_eq_Suc)
  with run show ?thesis by blast
qed

end
