(* ===== verification/Spec2Isabelle.thy ===== *)
theory Spec2Isabelle
  imports Clock Framing GCounters PNCounters Snapshots Batches GSets ORSets Registers MVRegisters TombstoneGC Collection LWWSets Merkle
begin

text \<open>
  A verification library for the Go module \<open>github.com/darkinno-tech/crdt\<close> (the sources under \<open>src/\<close>): replicated data types that
  exchange framed states and deltas, and the services around them.

  \<^bold>\<open>The program.\<close> A replica tags its writes with a hybrid logical clock (\<open>src/clock\<close>). The containers (\<open>src/counter\<close>, \<open>src/set\<close>, \<open>src/register\<close>,
  \<open>src/lww\<close>) change their own state, return a delta for other replicas, and join deltas and whole states of others. Every state and
  delta travels as a checksummed frame (\<open>src/encoding\<close>) with a registered type identifier (\<open>src/crdt.go\<close>); snapshots and recovery plans
  (\<open>src/snapshot\<close>) carry states with a frontier and a clock, batches and coalescers (\<open>src/delta\<close>) carry deltas, Merkle trees (\<open>src/merkle\<close>)
  compare states. The tombstones that removals leave are collected once all members of a group have acknowledged them (\<open>src/tombstonegc\<close>).

  \<^bold>\<open>Conventions.\<close> A Go string is a \<open>byte list\<close> in bytewise order, \<open>uint64\<close> is \<open>64 word\<close> with its wrap-around, \<open>int\<close> is \<open>int\<close> with the limit
  \<open>max_int\<close> where the code checks it, \<open>math/big\<close> is \<open>int\<close>. A Go map is a finite map, \<open>map[K]struct{}\<close> a finite set; a loop over a map visits it
  in ascending order, and lemmas such as \<open>fold_enumeration\<close> and \<open>joinCounts_any_order\<close> show where the order is irrelevant. So where the code
  collects the keys of a map and sorts them, the collected list is sorted already; Go's order is arbitrary, and the theorems on the encoders
  of the OR-Set are stated for any enumeration. A function that can fail returns \<open>'a res\<close>, that is \<open>go_error + 'a\<close>; a method takes
  its receiver as an option, \<open>None\<close> for nil, and returns the receiver after the call with the result. The physical time is an argument, \<open>None\<close>
  for a clock without a time source. What is not under \<open>src/\<close> is an argument: DEFLATE, SHA-256, element codecs, callbacks. Mutexes appear as
  critical sections: a call with one is one step, and a call with several (\<open>Coalescer.Add\<close>, \<open>AcknowledgeAndCompact\<close>, \<open>Tree.Root\<close>) is a
  sequence of steps that other calls interleave with.

  \<^bold>\<open>Theories.\<close>
  \<^item> \<open>Prelude\<close>: types, errors, enumerations of maps, the collection \<open>eval\<close> for evaluating examples. \<open>GoStd\<close>: \<open>strings.TrimSpace\<close> as a test
    for blank strings, varints and CRC-32C of the standard library.
  \<^item> \<open>Core\<close> (\<open>crdt.go\<close>, \<open>error.go\<close>, \<open>type_ids_generated.go\<close>): tags and their linear order, the frame type table, structured errors. The
    identifiers are unambiguous; codes and \<open>errors.Is\<close> are characterised over whole trees of errors. \<open>state_crdt\<close> is the contract of a
    state-based type (a join that is associative, commutative and idempotent on its invariant) with convergence proved once;
    \<open>crdt_pair\<close> is its product. \<open>safe_call\<close> says that a call keeps an invariant and changes nothing on an error.
  \<^item> \<open>Clock\<close> (\<open>clock/hlc.go\<close>): tags of a clock strictly increase over any run of uses, observed tags and restarts, and exhaustion is reported.
  \<^item> \<open>Wire\<close>, \<open>Framing\<close> (\<open>encoding/frame.go\<close>, \<open>encoding/frame_v2.go\<close>): readers, writers and both frame formats. The locales \<open>wire_field\<close> and \<open>wire_map\<close>
    are the contract of a canonical field (what is read is what is written, within the limits) with counted sequences and strictly
    ascending maps of fields; every payload of the containers is an interpretation. Decoders accept exactly the encoders' bytes.
  \<^item> \<open>Counts\<close>, \<open>GCounters\<close>, \<open>PNCounters\<close> (\<open>counter/\<close>): joins are componentwise maxima, values are exact sums or overflow errors, increments and
    decrements move the value by their amount; convergence, invariants and codecs.
  \<^item> \<open>Codecs\<close> (\<open>internal/codecguard\<close>, \<open>set/codec.go\<close>), \<open>GSets\<close>, \<open>ORStates\<close>, \<open>ORCodec\<close>, \<open>ORSets\<close> (\<open>set/\<close>): the join of OR-Set states and its laws, the
    encoder with its marshal plan, the operations. Removal covers what was observed, concurrent additions win, delivery order is irrelevant,
    compaction does not show when no replica holds a dropped tag live, restart issues fresh tags (below). A tag belongs to one element
    as long as joined states agree on common tags; the code does not check this, and \<open>orset_tag_clash\<close> shows what follows.
  \<^item> \<open>Registers\<close>, \<open>MVRegisters\<close> (\<open>register/\<close>): the last-writer-wins, maximum and multi-value registers; the values of the last are the maximal writes
    of the causal order in a system of replicas.
  \<^item> \<open>LWWEntries\<close>, \<open>LWWMaps\<close>, \<open>LWWSets\<close> (\<open>lww/\<close>): the functions that the source has once for maps and once for sets, then both types. The locale
    \<open>lww_replica\<close> is the contract of applying deltas from which convergence to the greatest write follows; writes fail exactly on their
    documented errors; the tag index stays the inverse of the entries.
  \<^item> \<open>Snapshots\<close> (\<open>snapshot/\<close>), \<open>Batches\<close> (\<open>delta/\<close>): validity of snapshots and plans, the batch codec, and the coalescer, whose interleaved
    critical sections are linearizable and whose retry loop ends.
  \<^item> \<open>TombstoneGC\<close> (\<open>tombstonegc/\<close>): coordinators refine a specification by sets of acknowledgements; \<open>tombstone_target\<close> is the contract of a
    container that is collected, interpreted for the OR-Set and the last-write-wins map and set.
  \<^item> \<open>Collection\<close>: a step relation for a group of replicas with sets, coordinators, travelling deltas and saved states, reports and views,
    and the safety of collection in it. Its rules include the obligations of the callers: old deltas are retired before a tombstone is
    removed, a view changes at all members at once with no collection in progress, an admitted replica starts empty with a later clock.
  \<^item> \<open>Merkle\<close> (\<open>merkle/tree.go\<close>): a cached root is the root of the current leaves under any interleaving, and differences are exact. That unequal
    trees have unequal roots assumes that the hash does not collide on the bytes compared.
  \<^item> This theory: a snapshot of an OR-Set, its frame and its clock together, restored by \<open>NewORSetFromSnapshot\<close>.

  \<^bold>\<open>Loops and bounds.\<close> No definition uses fuel. Loops over lists are structural; \<open>uvarint\<close>, \<open>blank\<close>, the levels of a Merkle tree and the retry
  loop of \<open>Coalescer.Add\<close> have termination proofs, the last by the bound \<open>maxMergeRetries\<close> of the source. Lengths are below \<open>2 ^ 63\<close> as
  in Go (\<open>go_limits\<close>, \<open>max_int\<close>) where a conversion to \<open>uint64\<close> or the comparison with a limit depends on it.

  \<^bold>\<open>Not modelled.\<close> The text sequence and what is built over it (\<open>src/text\<close>, \<open>src/richtext\<close>), lists, trees and documents (\<open>src/list\<close>, \<open>src/tree\<close>,
  \<open>src/documenttree\<close>, \<open>src/document\<close>, \<open>src/shared\<close>, \<open>src/xml\<close>, \<open>src/history\<close>) for their size; the membership protocol and replica sessions, which reach
  the modelled parts as data and calls; stores, transports, telemetry, commands and examples, which are I/O; JSON renderings. Inside the
  modelled packages, pooled writers, preallocation hints and lock ordering are left out, since they do not change results.
\<close>

lemma bytes_clock_iff:
  "MarshalBinaryWithClockState (Some s) = Inr (data, c) \<longleftrightarrow>
     os_clock s \<noteq> None \<and> ORSet_MarshalBinary (Some s) = Inr data \<and> c = HLC_Snapshot (os_clock s)"
  by (auto simp: MarshalBinaryWithClockState_def ORSet_MarshalBinary_def split: sum.splits)

lemma saved_parts:
  assumes "SnapshotCurrentState flate (Some s) = Inr saved \<or> ORSet_Snapshot flate (Some s) frontier = Inr saved"
  obtains data where "ORSet_MarshalBinary (Some s) = Inr data" "Snapshot_Bytes saved = data"
    "Snapshot_ClockState saved = Some (HLC_Snapshot (os_clock s))" "validFrontier (Snapshot_Frontier saved)"
proof -
  have "\<exists>data frontier. ORSet_MarshalBinary (Some s) = Inr data \<and> NewWithClockState flate data frontier (HLC_Snapshot (os_clock s)) = Inr saved"
    using assms
  proof
    assume "SnapshotCurrentState flate (Some s) = Inr saved"
    then show ?thesis by (auto simp: SnapshotCurrentState_def ORSet_MarshalBinary_def split: if_splits sum.splits)
  next
    assume "ORSet_Snapshot flate (Some s) frontier = Inr saved"
    then show ?thesis by (auto simp: ORSet_Snapshot_def bytes_clock_iff split: sum.splits)
  qed
  then obtain data f where "ORSet_MarshalBinary (Some s) = Inr data" "NewWithClockState flate data f (HLC_Snapshot (os_clock s)) = Inr saved"
    by blast
  then show thesis by (intro that[of data]) (auto simp: NewWithClockState_def split: sum.splits if_splits)
qed

text \<open>Witnessing the frontier of a snapshot moves the clock forward only.\<close>

lemma restored_parts:
  assumes "NewORSetFromSnapshot flate saved codec now now' = Inr r"
  obtains c fresh mid where "Snapshot_ClockState saved = Some c" "NewORSetFromClock c codec = Inr fresh"
    "ORSet_UnmarshalBinary flate (Some fresh) (Snapshot_Bytes saved) now = (Some mid, Inr ())"
    "r = mid \<or> (\<exists>g clock. r = mid\<lparr>os_clock := clock\<rparr> \<and> HLC_Witness (os_clock mid) g now' = (clock, Inr ()))"
proof -
  have "\<exists>c fresh mid. Snapshot_ClockState saved = Some c \<and> NewORSetFromClock c codec = Inr fresh \<and>
    ORSet_UnmarshalBinary flate (Some fresh) (Snapshot_Bytes saved) now = (Some mid, Inr ()) \<and>
    (r = mid \<or> (\<exists>g clock. r = mid\<lparr>os_clock := clock\<rparr> \<and> HLC_Witness (os_clock mid) g now' = (clock, Inr ())))"
    using assms by (simp add: NewORSetFromSnapshot_def split: if_splits option.splits sum.splits prod.splits) blast+
  then show thesis using that by blast
qed

lemma Unmarshal_clock:
  assumes "ORSet_UnmarshalBinary flate (Some s) data now = (Some s', Inr ())" and "os_clock s = Some h"
  shows "\<exists>h'. os_clock s' = Some h' \<and> hlc_replicaID h' = hlc_replicaID h \<and> hlc_stamp h \<le> hlc_stamp h' \<and>
    os_replicaID s' = os_replicaID s \<and> os_codec s' = os_codec s"
proof -
  obtain d where "unmarshalORSetWithCodec flate data TypeIDORSetState (os_codec s) DefaultLimits = Inr d"
    using assms(1) by (cases "unmarshalORSetWithCodec flate data TypeIDORSetState (os_codec s) DefaultLimits")
      (auto simp: ORSet_UnmarshalBinary_def ORSet_UnmarshalBinaryWithLimits_def)
  moreover obtain A T where "d = (A, T)" by (cases d)
  ultimately have "(case greatestStateTag A T of None \<Rightarrow> (os_clock s, Inr ()) | Some tag \<Rightarrow> HLC_Witness (os_clock s) tag now) = (os_clock s', Inr ())"
    and s': "os_replicaID s' = os_replicaID s \<and> os_codec s' = os_codec s"
    using assms(1) by (auto simp: ORSet_UnmarshalBinary_def ORSet_UnmarshalBinaryWithLimits_def split: prod.splits sum.splits)
  then consider "os_clock s' = Some h" | tag where "HLC_Witness (Some h) tag now = (os_clock s', Inr ())"
    using assms(2) by (auto split: option.splits)
  then show ?thesis
  proof cases
    case 2
    then show ?thesis by (cases rule: Witness_cases) (use s' in auto)
  qed (use s' in simp)
qed

lemma orset_restart_parts:
  assumes "os_ok s" and "\<forall>e. e |\<in>| fmdom (os_elements s) \<longrightarrow> elem_stable (os_codec s) e" and "os_clock s = Some h"
    and "SnapshotCurrentState flate (Some s) = Inr saved \<or> ORSet_Snapshot flate (Some s) frontier = Inr saved"
    and "bindElementCodec codec = Inr (os_codec s)" and "NewORSetFromSnapshot flate saved codec now now' = Inr r"
  shows "os_ok r \<and> os_state r = os_state s \<and> os_replicaID r = os_replicaID s"
    and "ORSet_Add (Some r) e now'' = (Some r', Inr delta) \<Longrightarrow>
      \<exists>t. od_adds delta = fmupd e {|t|} fmempty \<and> ReplicaID t = os_replicaID s \<and> (\<forall>u. tag_stamp u \<le> hlc_stamp h \<longrightarrow> u < t)"
proof -
  obtain data where data: "ORSet_MarshalBinary (Some s) = Inr data" "Snapshot_Bytes saved = data"
    "Snapshot_ClockState saved = Some (HLC_Snapshot (os_clock s))" "validFrontier (Snapshot_Frontier saved)"
    using assms(4) by (rule saved_parts)
  obtain c fresh mid where r: "Snapshot_ClockState saved = Some c" "NewORSetFromClock c codec = Inr fresh"
    "ORSet_UnmarshalBinary flate (Some fresh) (Snapshot_Bytes saved) now = (Some mid, Inr ())"
    "r = mid \<or> (\<exists>g clock. r = mid\<lparr>os_clock := clock\<rparr> \<and> HLC_Witness (os_clock mid) g now' = (clock, Inr ()))"
    using assms(6) by (rule restored_parts)
  have h: "hlc_inv h" "hlc_replicaID h = os_replicaID s" "\<not> blank (bec_id (os_codec s))" using assms(1,3) by (auto simp: os_ok_def os_inv_def clock_covers_def)
  have fresh: "fresh = \<lparr>os_replicaID = os_replicaID s, os_clock = Some h, os_codec = os_codec s, os_elements = fmempty, os_tombstones = {||}\<rparr>"
    using r(1,2) data(3) assms(3,5) h restart_same[OF h(1)] by (auto simp: NewORSetFromClock_def HLC_Snapshot_def)
  then have "os_ok fresh"
    using h by (simp add: os_ok_def os_inv_def or_inv_def adds_normal_def tags_unique_def clock_covers_def has_tag_def)
  then have mid: "os_ok mid" "os_state mid = os_state s"
    using Unmarshal_back[OF assms(1,2) data(1) \<open>os_ok fresh\<close>, of flate now mid "Inr ()"] r(3) data(2) fresh by auto
  obtain h1 where h1: "os_clock mid = Some h1" "hlc_replicaID h1 = os_replicaID s" "hlc_stamp h \<le> hlc_stamp h1"
      "os_replicaID mid = os_replicaID s"
    using Unmarshal_clock[OF r(3), of h] fresh h by auto
  obtain h2 where h2: "os_clock r = Some h2" "hlc_replicaID h2 = os_replicaID s" "hlc_stamp h1 \<le> hlc_stamp h2" "r = mid\<lparr>os_clock := Some h2\<rparr>"
    using r(4)
  proof
    assume "r = mid"
    then show thesis using h1 by (intro that[of h1]) auto
  next
    assume "\<exists>g clock. r = mid\<lparr>os_clock := clock\<rparr> \<and> HLC_Witness (os_clock mid) g now' = (clock, Inr ())"
    then obtain g clock where g: "r = mid\<lparr>os_clock := clock\<rparr>" "HLC_Witness (Some h1) g now' = (clock, Inr ())" using h1 by auto
    from g(2) show thesis by (cases rule: Witness_cases) (use g h1 that in auto)
  qed
  have "clock_covers (os_clock mid) (os_replicaID mid) (os_state mid)" using mid by (simp add: os_ok_def os_inv_def)
  then have "clock_covers (Some h2) (os_replicaID mid) (os_state mid)"
    unfolding clock_covers_def using h1 h2(2,3) by (auto simp: hlc_inv_def)
  then have ok: "os_ok r" using mid h2 by (simp add: os_ok_def os_inv_def)
  then show "os_ok r \<and> os_state r = os_state s \<and> os_replicaID r = os_replicaID s" using h2 mid h1 by simp
  assume add: "ORSet_Add (Some r) e now'' = (Some r', Inr delta)"
  obtain c n where n: "HLC_Now (Some h2) now'' = (c, n)" by fastforce
  then show "\<exists>t. od_adds delta = fmupd e {|t|} fmempty \<and> ReplicaID t = os_replicaID s \<and> (\<forall>u. tag_stamp u \<le> hlc_stamp h \<longrightarrow> u < t)"
  proof (cases rule: Now_cases)
    case (error x)
    with add n h2 show ?thesis by (simp add: ORSet_Add_def)
  next
    case (ok h3)
    let ?t = "Tag (hlc_replicaID h3) (hlc_wallTime h3) (hlc_logical h3)"
    have "od_adds delta = fmupd e {|?t|} fmempty" using add n ok h2(1) by (auto simp: ORSet_Add_def Let_def split: if_splits)
    moreover have "tag_stamp ?t = hlc_stamp h3" by (simp add: tag_stamp_def hlc_stamp_def)
    then have "u < ?t" if "tag_stamp u \<le> hlc_stamp h" for u using that ok(3) h1(3) h2(3) by (intro tag_stamp_less) simp
    ultimately show ?thesis using ok h2(2) by auto
  qed
qed

text \<open>
  C10. A restart from a snapshot loses nothing and reuses nothing. Restoring from the bytes, frontier and clock state that
  \<open>SnapshotCurrentState\<close> or \<open>Snapshot\<close> saved gives the same elements, tags and tombstones for the same replica, in a set that
  meets the invariant; and the first tag issued afterwards is greater than every tag the saved clock could have
  issued, so no addition made before the snapshot is confused with one made after it.
\<close>

theorem orset_restart:
  assumes "os_ok s" and "\<forall>e. e |\<in>| fmdom (os_elements s) \<longrightarrow> elem_stable (os_codec s) e" and "os_clock s = Some h"
    and "SnapshotCurrentState flate (Some s) = Inr saved \<or> ORSet_Snapshot flate (Some s) frontier = Inr saved"
    and "bindElementCodec codec = Inr (os_codec s)" and "NewORSetFromSnapshot flate saved codec now now' = Inr r"
  shows "(os_ok r \<and> os_state r = os_state s \<and> os_replicaID r = os_replicaID s) \<and>
    (ORSet_Add (Some r) e now'' = (Some r', Inr delta) \<longrightarrow>
      (\<exists>t. od_adds delta = fmupd e {|t|} fmempty \<and> ReplicaID t = os_replicaID s \<and> (\<forall>u. tag_stamp u \<le> hlc_stamp h \<longrightarrow> u < t)))"
  using orset_restart_parts(1)[OF assms] orset_restart_parts(2)[OF assms] by (intro conjI impI) blast+

theorem orset_restart_witness:
  "\<exists>saved r. ORSet_Snapshot (\<lambda>c. (c, None)) (Some set_a) fmempty = Inr saved \<and>
     NewORSetFromSnapshot (\<lambda>c. (c, None)) saved (Some byte_codec) (Some 9) (Some 9) = Inr r \<and> os_state r = os_state set_a"
proof -
  let ?f = "\<lambda>c :: byte list. (c, None :: go_error option)"
  have stable: "\<forall>e. e |\<in>| fmdom (os_elements set_a) \<longrightarrow> elem_stable (os_codec set_a) e" by (simp add: set_a_def byte_bound_facts)
  obtain data where data: "ORSet_MarshalBinary (Some set_a) = Inr data" using set_a_bytes by blast
  then have dec: "unmarshalORSetWithCodec ?f data TypeIDORSetState byte_bound DefaultLimits = Inr (os_state set_a)"
    using Marshal_iff(1)[OF sets_ok(1) stable, of data ?f] by (simp add: set_a_def)
  then obtain f where f: "UnmarshalFrame ?f data DefaultLimits = Inr f" "TypeID f = TypeIDORSetState"
    unfolding unmarshalORSetWithCodec_iff[OF DefaultLimits_go] by auto
  let ?saved = "newSnapshot f data fmempty (Some (HLC_Snapshot (os_clock set_a)))"
  have snap: "ORSet_Snapshot ?f (Some set_a) fmempty = Inr ?saved"
    using f bytes_clock_iff[of set_a data "HLC_Snapshot (os_clock set_a)"] data
    by (simp add: ORSet_Snapshot_def NewWithClockState_def set_a_def isHLCStateType_def FrameTypeForState_def frameTypeRegistrations_def
        validFrontier_iff validClockState_def NewHLCFromState_def HLC_Snapshot_def Tag_Valid_def eval)
  have g: "greatestStateTag (os_elements set_a) (os_tombstones set_a) = Some (Tag [97] 5 0)"
    using greatestStateTag_max(1)[of "os_elements set_a" "os_tombstones set_a"] greatestStateTag_None[of "os_elements set_a" "os_tombstones set_a"]
    by (cases "greatestStateTag (os_elements set_a) (os_tombstones set_a)") (auto simp: set_a_def split: if_splits)
  have "\<exists>r. NewORSetFromSnapshot ?f ?saved (Some byte_codec) (Some 9) (Some 9) = Inr r"
    using dec g f(2)
    by (simp add: NewORSetFromSnapshot_def NewORSetFromClock_def ORSet_UnmarshalBinary_def ORSet_UnmarshalBinaryWithLimits_def
        byte_bound_facts greatestFrontierTag_def fm_items_def fm_keys_def newSnapshot_def Snapshot_Bytes_def Snapshot_Frontier_def Snapshot_ClockState_def set_a_def NewHLCFromState_def HLC_Snapshot_def witness_eval)
  then obtain r where r: "NewORSetFromSnapshot ?f ?saved (Some byte_codec) (Some 9) (Some 9) = Inr r" by blast
  have "os_state r = os_state set_a"
    using orset_restart[OF sets_ok(1) stable _ disjI2[OF snap] _ r] by (simp add: set_a_def byte_bound_facts)
  with snap r show ?thesis by blast
qed

end
